(* ===== verification/Spine_Prelude.thy ===== *)
theory Spine_Prelude
  imports "HOL-Library.Word" "HOL-Library.AList" "HOL-Library.List_Lexorder"
    "HOL-Library.Char_ord"
begin

unbundle bit_operations_syntax

text \<open>
  The vocabulary every theory of the development shares.

  \<^item> Go's byte, its fixed-width integers and its strings: a byte is an \<open>8 word\<close>, an
    \<open>Offset\<close> (\<^verbatim>\<open>uint64\<close>) a \<open>64 word\<close>, a \<open>Time\<close> (\<^verbatim>\<open>int64\<close>) a \<open>64 word\<close> read with
    \<^term>\<open>sint\<close>, a string a list of characters, which are bytes.
  \<^item> \<^verbatim>\<open>encoding/binary\<close>'s little-endian coders and their round trips.
  \<^item> Go's errors: sentinel values and the trees \<^verbatim>\<open>fmt.Errorf\<close> builds with
    \<^verbatim>\<open>%w\<close>, together with \<^verbatim>\<open>errors.Is\<close>.
  \<^item> \<^verbatim>\<open>sort.Search\<close>, decimal printing (\<^verbatim>\<open>%0*d\<close>) and \<^verbatim>\<open>strconv.ParseUint\<close>.
\<close>

named_theorems spine_simps \<open>rewrite rules of the model's record selectors and small helpers\<close>
named_theorems fs_laws \<open>the laws a filesystem promises its clients\<close>

section \<open>Bytes and words\<close>

type_synonym byte = "8 word"
type_synonym bytes = "byte list"
type_synonym Offset = "64 word"
type_synonym Time = "64 word"

text \<open>\<^verbatim>\<open>binary.LittleEndian.AppendUint\<close>\<open>N\<close>: the \<open>n\<close> low bytes of a word, lowest first.\<close>

definition le_bytes :: "nat \<Rightarrow> 'a::len word \<Rightarrow> bytes" where
  "le_bytes n w = map (\<lambda>i. ucast (drop_bit (8 * i) w)) [0..<n]"

text \<open>\<^verbatim>\<open>binary.LittleEndian.Uint\<close>\<open>N\<close>: \<open>b[0] | b[1]<<8 | ...\<close>.\<close>

primrec le_word :: "bytes \<Rightarrow> 'a::len word" where
  "le_word [] = 0"
| "le_word (b # bs) = ucast b OR push_bit 8 (le_word bs)"

lemma length_le_bytes [simp]: "length (le_bytes n w) = n"
  by (simp add: le_bytes_def)

lemma nth_le_bytes: "i < n \<Longrightarrow> le_bytes n w ! i = ucast (drop_bit (8 * i) w)"
  by (simp add: le_bytes_def)

lemma bit_le_word:
  "bit (le_word bs :: 'a::len word) k \<longleftrightarrow>
     k < LENGTH('a) \<and> k div 8 < length bs \<and> bit (bs ! (k div 8)) (k mod 8)"
proof (induction bs arbitrary: k)
  case Nil
  then show ?case by simp
next
  case (Cons b bs)
  show ?case
  proof (cases "k < 8")
    case True
    then show ?thesis
      by (auto simp: bit_or_iff bit_push_bit_iff bit_ucast_iff)
  next
    case False
    then have k: "k div 8 = Suc ((k - 8) div 8)" "k mod 8 = (k - 8) mod 8"
      by (auto simp: le_div_geq le_mod_geq not_less)
    have "\<not> bit (ucast b :: 'a word) k"
      using False by (auto simp: bit_ucast_iff dest: bit_imp_le_length)
    with False show ?thesis
      by (auto simp: bit_or_iff bit_push_bit_iff Cons.IH k)
  qed
qed

lemma le_word_le_bytes:
  assumes "LENGTH('a::len) \<le> 8 * n"
  shows "le_word (le_bytes n (w :: 'a word)) = w"
proof (rule bit_word_eqI)
  fix k
  assume k: "k < LENGTH('a)"
  then have "k div 8 < n" using assms by auto
  then show "bit (le_word (le_bytes n w) :: 'a word) k = bit w k"
    using k by (simp add: bit_le_word nth_le_bytes bit_ucast_iff bit_drop_bit_eq)
qed

lemma le_bytes_le_word:
  assumes "length bs = n" "8 * n \<le> LENGTH('a::len)"
  shows "le_bytes n (le_word bs :: 'a word) = bs"
proof (rule nth_equalityI)
  show "length (le_bytes n (le_word bs :: 'a word)) = length bs" using assms by simp
  fix i
  assume "i < length (le_bytes n (le_word bs :: 'a word))"
  then have i: "i < n" by simp
  show "le_bytes n (le_word bs :: 'a word) ! i = bs ! i"
  proof (rule bit_word_eqI)
    fix k :: nat
    assume "k < LENGTH(8)"
    then have k: "k < 8" by simp
    then have "(8 * i + k) div 8 = i" "(8 * i + k) mod 8 = k" "8 * i + k < LENGTH('a)"
      using i assms(2) by auto
    then show "bit (le_bytes n (le_word bs :: 'a word) ! i) k = bit (bs ! i) k"
      using i k assms(1) by (simp add: nth_le_bytes bit_ucast_iff bit_drop_bit_eq bit_le_word)
  qed
qed

lemma le_bytes_inject:
  assumes "LENGTH('a::len) \<le> 8 * n"
  shows "le_bytes n (v :: 'a word) = le_bytes n w \<longleftrightarrow> v = w"
  using le_word_le_bytes [OF assms] by metis

lemma xor_cancel [simp]:
  fixes a b c :: "'a::len word"
  shows "a XOR c = b XOR c \<longleftrightarrow> a = b" "c XOR a = c XOR b \<longleftrightarrow> a = b"
  by (auto simp: bit_eq_iff bit_xor_iff)

lemma ucast_up_inject:
  assumes "LENGTH('a::len) \<le> LENGTH('b::len)"
  shows "(ucast (v :: 'a word) :: 'b word) = ucast w \<longleftrightarrow> v = w"
proof
  assume eq: "(ucast v :: 'b word) = ucast w"
  show "v = w"
  proof (rule bit_word_eqI)
    fix n
    assume "n < LENGTH('a)"
    with assms have "n < LENGTH('b)" by simp
    then show "bit v n = bit w n"
      using arg_cong [OF eq, where f = "\<lambda>x. bit x n"] by (simp add: bit_ucast_iff)
  qed
qed simp

lemma word_less_succ: "(x :: 'a::len word) \<noteq> - 1 \<Longrightarrow> x < x + 1"
  using inc_less_eq_self_iff_eq [of x] by (simp add: not_le [symmetric])

lemma word_less_succ_iff: "(x :: 'a::len word) \<noteq> - 1 \<Longrightarrow> y < x + 1 \<longleftrightarrow> y \<le> x"
  using word_less_succ [of x] less_inc_imp_less_eq [of y x] by auto

lemma unat_succ: "unat (x :: 'a::len word) + 1 < 2 ^ LENGTH('a) \<Longrightarrow> unat (x + 1) = unat x + 1"
  by (subst unat_add_lem [THEN iffD1]) (simp_all add: unsigned_1)

lemma sint_small: "n < 2 ^ 63 \<Longrightarrow> sint (word_of_nat n :: 64 word) = int n"
  by (simp add: signed_of_nat signed_take_bit_int_eq_self)

text \<open>A Go string is a sequence of bytes; so is a list of characters.\<close>

definition bytes_of :: "string \<Rightarrow> bytes" where
  "bytes_of s = map (\<lambda>c. word_of_nat (of_char c)) s"

definition string_of :: "bytes \<Rightarrow> string" where
  "string_of bs = map (\<lambda>b. char_of (unat b)) bs"

lemma length_bytes_of [simp]: "length (bytes_of s) = length s"
  by (simp add: bytes_of_def)

lemma length_string_of [simp]: "length (string_of s) = length s"
  by (simp add: string_of_def)

lemma string_of_bytes_of [simp]: "string_of (bytes_of s) = s"
proof -
  have "unat (word_of_nat (of_char c) :: byte) = of_char c" for c
    by (simp add: unat_of_nat take_bit_eq_mod)
  then show ?thesis
    by (simp add: string_of_def bytes_of_def comp_def)
qed

lemma bytes_of_string_of [simp]: "bytes_of (string_of bs) = bs"
proof -
  have "word_of_nat (of_char (char_of (unat b) :: char)) = b" for b :: byte
  proof -
    have "unat b < 2 ^ LENGTH(8)" by (rule unsigned_less)
    then show ?thesis by simp
  qed
  then show ?thesis
    by (simp add: string_of_def bytes_of_def comp_def)
qed

section \<open>Association lists\<close>

lemma set_update_cases: "e \<in> set (AList.update k v al) \<Longrightarrow> e = (k, v) \<or> e \<in> set al"
  by (induction al) (auto split: if_splits)

lemma set_delete_subset: "e \<in> set (AList.delete k al) \<Longrightarrow> e \<in> set al"
  by (auto simp: AList.delete_eq)

section \<open>Errors\<close>

text \<open>The \<^verbatim>\<open>errors.New\<close> values of the packages the model covers, \<^verbatim>\<open>io.EOF\<close>, and \<^verbatim>\<open>io/fs\<close>'s
  \<^verbatim>\<open>ErrNotExist\<close> and \<^verbatim>\<open>ErrExist\<close>, which are not the ones of \<^verbatim>\<open>core\<close>.\<close>

datatype sentinel =
    EOF
  | ErrNotExist | ErrExist | ErrClosed | ErrInvalidName | ErrShortWrite
  | ErrInvalidEvent | ErrInvalidCommand | ErrPoisoned
  | ErrTorn | ErrCorrupt | ErrSealed | ErrNotFound | ErrEndOfLog | ErrNoSnapshot | ErrNoGroup
  | ErrInsufficientFunds
  | ErrCrashed | ErrInjected
  | OsNotExist | OsExist

text \<open>
  An error is a sentinel or what \<^verbatim>\<open>fmt.Errorf\<close> returns: a format string, kept without its
  arguments, and the errors its \<^verbatim>\<open>%w\<close> verbs wrap.
\<close>

datatype error = Sentinel sentinel | Errorf string "error list"

primrec errors_Is :: "error \<Rightarrow> sentinel \<Rightarrow> bool" where
  "errors_Is (Sentinel t) s = (t = s)"
| "errors_Is (Errorf m es) s = list_ex (\<lambda>b. b) (map (\<lambda>e. errors_Is e s) es)"

lemma errors_Is_Errorf [simp]: "errors_Is (Errorf m es) s \<longleftrightarrow> (\<exists>e\<in>set es. errors_Is e s)"
  by (simp add: list_ex_iff)

declare errors_Is.simps(2) [simp del]

type_synonym 'a res = "error + 'a"

section \<open>Binary search\<close>

text \<open>\<^verbatim>\<open>sort.Search(n, f)\<close>, with its two cursors.\<close>

function search_loop :: "(nat \<Rightarrow> bool) \<Rightarrow> nat \<Rightarrow> nat \<Rightarrow> nat" where
  "search_loop f i j =
     (if i < j then
        (let h = (i + j) div 2 in
         if \<not> f h then search_loop f (h + 1) j else search_loop f i h)
      else i)"
  by pat_completeness auto
termination
  by (relation "measure (\<lambda>(f, i, j). j - i)") auto

declare search_loop.simps [simp del]

definition sort_Search :: "nat \<Rightarrow> (nat \<Rightarrow> bool) \<Rightarrow> nat" where
  "sort_Search n f = search_loop f 0 n"

lemma search_loop_correct:
  assumes mono: "\<And>a b. a \<le> b \<Longrightarrow> b < n \<Longrightarrow> f a \<Longrightarrow> f b"
    and "i \<le> j" "j \<le> n" "\<And>a. a < i \<Longrightarrow> \<not> f a" "\<And>b. j \<le> b \<Longrightarrow> b < n \<Longrightarrow> f b"
  shows "search_loop f i j \<le> n \<and> (\<forall>a < search_loop f i j. \<not> f a) \<and>
         (\<forall>b. search_loop f i j \<le> b \<longrightarrow> b < n \<longrightarrow> f b)"
  using assms(2-5)
proof (induction "j - i" arbitrary: i j rule: less_induct)
  case less
  show ?case
  proof (cases "i < j")
    case False
    then have "search_loop f i j = i" by (simp add: search_loop.simps [of f i j])
    with False less.prems show ?thesis by simp
  next
    case True
    define h where "h = (i + j) div 2"
    have h: "i \<le> h" "h < j" using True by (auto simp: h_def)
    have unfold: "search_loop f i j = (if f h then search_loop f i h else search_loop f (h + 1) j)"
      using True by (simp add: search_loop.simps [of f i j] h_def Let_def)
    show ?thesis
    proof (cases "f h")
      case fh: True
      have "\<And>b. h \<le> b \<Longrightarrow> b < n \<Longrightarrow> f b" using mono fh by blast
      with less.hyps [of h i] less.prems h fh show ?thesis by (simp add: unfold)
    next
      case fh: False
      have "\<not> f a" if "a < h + 1" for a
        using mono [of a h] fh h less.prems(2) that by auto
      with less.hyps [of j "h + 1"] less.prems h fh show ?thesis by (simp add: unfold)
    qed
  qed
qed

lemma sort_Search_correct:
  assumes "\<And>a b. a \<le> b \<Longrightarrow> b < n \<Longrightarrow> f a \<Longrightarrow> f b"
  shows sort_Search_le: "sort_Search n f \<le> n"
    and sort_Search_below: "a < sort_Search n f \<Longrightarrow> \<not> f a"
    and sort_Search_above: "sort_Search n f \<le> b \<Longrightarrow> b < n \<Longrightarrow> f b"
  using search_loop_correct [of n f 0 n] assms by (auto simp: sort_Search_def)

section \<open>Decimal numbers\<close>

text \<open>\<^verbatim>\<open>%d\<close> of an unsigned integer: its decimal digits, most significant first.\<close>

fun digit_char :: "nat \<Rightarrow> char" where
  "digit_char d = char_of (48 + d)"

fun dec_digits :: "nat \<Rightarrow> string" where
  "dec_digits n = (if n < 10 then [digit_char n] else dec_digits (n div 10) @ [digit_char (n mod 10)])"

declare dec_digits.simps [simp del]

text \<open>\<^verbatim>\<open>%0*d\<close>: the same, padded with zeros on the left to a width.\<close>

definition zero_padded :: "nat \<Rightarrow> nat \<Rightarrow> string" where
  "zero_padded width n = replicate (width - length (dec_digits n)) CHR ''0'' @ dec_digits n"

text \<open>
  \<^verbatim>\<open>strconv.ParseUint(s, 10, 64)\<close>: \<^const>\<open>None\<close> is its error, for an empty string, a
  character that is not a digit, or a value of \<open>2 ^ 64\<close> and above.
\<close>

definition is_digit :: "char \<Rightarrow> bool" where
  "is_digit c \<longleftrightarrow> 48 \<le> (of_char c :: nat) \<and> (of_char c :: nat) \<le> 57"

definition digit_val :: "char \<Rightarrow> nat" where
  "digit_val c = of_char c - 48"

definition digits_val :: "string \<Rightarrow> nat" where
  "digits_val s = foldl (\<lambda>v c. 10 * v + digit_val c) 0 s"

definition ParseUint64 :: "string \<Rightarrow> 64 word option" where
  "ParseUint64 s =
     (if s = [] \<or> \<not> list_all is_digit s \<or> 2 ^ 64 \<le> digits_val s then None
      else Some (word_of_nat (digits_val s)))"

lemma of_char_digit_char: "d < 10 \<Longrightarrow> (of_char (digit_char d) :: nat) = 48 + d"
  by simp

lemma digit_char_simps [simp]:
  assumes "d < 10"
  shows "is_digit (digit_char d)" "digit_val (digit_char d) = d"
  using of_char_digit_char [OF assms] assms by (auto simp: is_digit_def digit_val_def)

lemma digit_zero [simp]: "is_digit CHR ''0''" "digit_val CHR ''0'' = 0"
  by (simp_all add: is_digit_def digit_val_def)

declare digit_char.simps [simp del]

lemma digits_val_Nil [simp]: "digits_val [] = 0"
  by (simp add: digits_val_def)

lemma digits_val_snoc [simp]: "digits_val (s @ [c]) = 10 * digits_val s + digit_val c"
  by (simp add: digits_val_def)

lemma foldl_digits: "foldl (\<lambda>v c. 10 * v + digit_val c) a s = a * 10 ^ length s + digits_val s"
proof (induction s rule: rev_induct)
  case (snoc c s)
  then show ?case by (simp add: algebra_simps)
qed simp

lemma digits_val_Cons: "digits_val (c # s) = digit_val c * 10 ^ length s + digits_val s"
  using foldl_digits [of "digit_val c" s] by (simp add: digits_val_def)

lemma digits_val_zeros [simp]: "digits_val (replicate k CHR ''0'' @ s) = digits_val s"
  by (induction k) (simp_all add: digits_val_Cons)

lemma digits_val_less: "list_all is_digit s \<Longrightarrow> digits_val s < 10 ^ length s"
proof (induction s)
  case (Cons c s)
  then have "digit_val c \<le> 9" by (auto simp: is_digit_def digit_val_def)
  then have "digit_val c * 10 ^ length s \<le> 9 * 10 ^ length s" by (rule mult_right_mono) simp
  moreover have "digits_val s < 10 ^ length s" using Cons by simp
  ultimately have "digits_val (c # s) < 9 * 10 ^ length s + 10 ^ length s"
    unfolding digits_val_Cons by linarith
  then show ?case by simp
qed simp

lemma dec_digits_digits [simp]: "list_all is_digit (dec_digits n)"
  and digits_val_dec_digits [simp]: "digits_val (dec_digits n) = n"
  and dec_digits_nonempty [simp]: "dec_digits n \<noteq> []"
proof (induction n rule: dec_digits.induct)
  case (1 n)
  show "list_all is_digit (dec_digits n)"
    using 1(1) by (subst dec_digits.simps) simp
  show "digits_val (dec_digits n) = n"
    using 1(2) digits_val_snoc [of "[]"] by (subst dec_digits.simps) simp
  show "dec_digits n \<noteq> []" by (subst dec_digits.simps) simp
qed

lemma length_dec_digits: "n < 10 ^ k \<Longrightarrow> 0 < k \<Longrightarrow> length (dec_digits n) \<le> k"
proof (induction n arbitrary: k rule: dec_digits.induct)
  case (1 n)
  show ?case
  proof (cases "n < 10")
    case True
    then show ?thesis using 1 by (subst dec_digits.simps) simp
  next
    case False
    have k: "1 < k"
    proof (rule ccontr)
      assume "\<not> 1 < k"
      with 1(3) have "k = 1" by simp
      with 1(2) False show False by simp
    qed
    have "(10::nat) ^ k = 10 * 10 ^ (k - 1)" using k by (cases k) simp_all
    then have "n div 10 < 10 ^ (k - 1)"
      using 1(2) less_mult_imp_div_less [of n "10 ^ (k - 1)" 10] by (simp add: mult.commute)
    from 1(1) [OF False this] k have "length (dec_digits (n div 10)) \<le> k - 1" by linarith
    then show ?thesis using False k by (subst dec_digits.simps) simp
  qed
qed

lemma zero_padded_props [simp]:
  "list_all is_digit (zero_padded w n)" "digits_val (zero_padded w n) = n" "zero_padded w n \<noteq> []"
  using dec_digits_digits [of n] by (auto simp: zero_padded_def list_all_iff)

lemma length_zero_padded:
  assumes "n < 10 ^ w" "0 < w"
  shows "length (zero_padded w n) = w"
  using length_dec_digits [OF assms] by (simp add: zero_padded_def)

lemma ParseUint64_zero_padded [simp]: "ParseUint64 (zero_padded w (unat x)) = Some x"
proof -
  have "unat x < 2 ^ LENGTH(64)" by (rule unsigned_less)
  then show ?thesis by (simp add: ParseUint64_def)
qed

lemma ParseUint64_Some:
  assumes "ParseUint64 s = Some x"
  shows "list_all is_digit s" "unat x = digits_val s"
  using assms by (auto simp: ParseUint64_def unat_of_nat take_bit_eq_mod split: if_splits)

text \<open>Digit strings of one length are ordered as strings the way their values are.\<close>

lemma digit_val_less_iff:
  "is_digit c \<Longrightarrow> is_digit d \<Longrightarrow> digit_val c < digit_val d \<longleftrightarrow> c < d"
  "is_digit c \<Longrightarrow> is_digit d \<Longrightarrow> digit_val c = digit_val d \<longleftrightarrow> c = d"
  by (auto simp: is_digit_def digit_val_def less_char_def) (metis le_add_diff_inverse of_char_eq_iff)

lemma digits_less_iff:
  assumes "length s = length t" "list_all is_digit s" "list_all is_digit t"
  shows "s < t \<longleftrightarrow> digits_val s < digits_val t"
  using assms
proof (induction s t rule: list_induct2)
  case (Cons c s d t)
  have cd: "is_digit c" "is_digit d" and st: "digits_val s < 10 ^ length s" "digits_val t < 10 ^ length s"
    using Cons.prems Cons.hyps digits_val_less [of s] digits_val_less [of t] by simp_all
  have lt: "digit_val a * 10 ^ k + x < digit_val b * 10 ^ k + y"
    if "digit_val a < digit_val b" "x < 10 ^ k" for a b k x y
  proof -
    have "digit_val a * 10 ^ k + x < (digit_val a + 1) * 10 ^ k" using that by simp
    also have "\<dots> \<le> digit_val b * 10 ^ k" using that by (intro mult_right_mono) auto
    finally show ?thesis by simp
  qed
  consider "digit_val c < digit_val d" | "digit_val c = digit_val d" | "digit_val d < digit_val c"
    by linarith
  then show ?case
  proof cases
    case 1
    with lt [OF 1 st(1), of "digits_val t"] cd Cons.hyps show ?thesis
      by (simp add: digits_val_Cons digit_val_less_iff)
  next
    case 2
    with cd have "c = d" by (simp add: digit_val_less_iff)
    with Cons show ?thesis by (simp add: digits_val_Cons)
  next
    case 3
    with cd have "d < c" by (simp add: digit_val_less_iff)
    with lt [OF 3 st(2), of "digits_val s"] Cons.hyps show ?thesis
      by (auto simp: digits_val_Cons)
  qed
qed simp

end
