(* ===== verification/Core_FS.thy ===== *)
theory Core_FS
  imports Spine_Prelude
begin

text \<open>
  \<^verbatim>\<open>core/fs.go\<close>: the filesystem interface the log is built on.

  A Go interface value is a dictionary of methods over some hidden state, and that is what
  \<open>fs_ops\<close> is: a record of the methods of \<^verbatim>\<open>core.FS\<close> and \<^verbatim>\<open>core.File\<close> over a state type
  \<open>'s\<close>. A \<^verbatim>\<open>File\<close> is a handle into that state. The three methods that only observe
  (\<open>ReadAt\<close>, \<open>Size\<close>, \<open>List\<close>) return no new state: none of the implementations under
  \<^verbatim>\<open>src/\<close> changes anything in them.

  What the comments of the interface promise is stated over \<open>disk\<close>, an abstract directory of
  inodes that keeps what is visible and what survives a power cut apart. The locale
  \<open>filesystem\<close> says what an operation that returned no error has done to it;
  \<open>reliable_filesystem\<close> adds that operations do return no error when the interface says
  they should. Clients are proved inside these locales, implementations interpret them.
\<close>

section \<open>Names\<close>

definition MaxNameLen :: nat where
  "MaxNameLen = 255"

definition ValidateName :: "string \<Rightarrow> error option" where
  "ValidateName name =
     (if name = '''' then Some (Errorf ''%w: name is empty'' [Sentinel ErrInvalidName])
      else if length name > MaxNameLen then
        Some (Errorf ''%w: name is %d bytes, limit is %d'' [Sentinel ErrInvalidName])
      else if name = ''.'' \<or> name = ''..'' then
        Some (Errorf ''%w: %q is a directory reference'' [Sentinel ErrInvalidName])
      else if list_ex (\<lambda>c. c = CHR ''/'' \<or> c = CHR 0x5C) name then
        Some (Errorf ''%w: %q contains a path separator'' [Sentinel ErrInvalidName])
      else if list_ex (\<lambda>c. c = CHR 0x00) name then
        Some (Errorf ''%w: name contains a null byte'' [Sentinel ErrInvalidName])
      else None)"

lemma ValidateName_error: "ValidateName name = Some e \<Longrightarrow> errors_Is e s \<longleftrightarrow> s = ErrInvalidName"
  by (auto simp: ValidateName_def split: if_splits)

section \<open>The interface\<close>

type_synonym handle = nat

record 's fs_ops =
  fs_Create :: "string \<Rightarrow> 's \<Rightarrow> handle res \<times> 's"
  fs_Open :: "string \<Rightarrow> 's \<Rightarrow> handle res \<times> 's"
  fs_Remove :: "string \<Rightarrow> 's \<Rightarrow> error option \<times> 's"
  fs_Rename :: "string \<Rightarrow> string \<Rightarrow> 's \<Rightarrow> error option \<times> 's"
  fs_List :: "'s \<Rightarrow> string list res"
  fs_Sync :: "'s \<Rightarrow> error option \<times> 's"
  file_Append :: "handle \<Rightarrow> bytes \<Rightarrow> 's \<Rightarrow> (nat \<times> error option) \<times> 's"
  file_ReadAt :: "handle \<Rightarrow> nat \<Rightarrow> int \<Rightarrow> 's \<Rightarrow> bytes \<times> error option"
  file_Truncate :: "handle \<Rightarrow> int \<Rightarrow> 's \<Rightarrow> error option \<times> 's"
  file_Size :: "handle \<Rightarrow> 's \<Rightarrow> int res"
  file_Sync :: "handle \<Rightarrow> 's \<Rightarrow> error option \<times> 's"
  file_Close :: "handle \<Rightarrow> 's \<Rightarrow> error option \<times> 's"

text \<open>
  \<open>io.ReaderAt\<close> on the bytes of a file: a short read reports \<open>io.EOF\<close> with what it did
  read, and reading nothing at or past the end is no error.
\<close>

definition read_at :: "bytes \<Rightarrow> nat \<Rightarrow> nat \<Rightarrow> bytes \<times> error option" where
  "read_at bs n p =
     (if length bs \<le> p then ([], if n = 0 then None else Some (Sentinel EOF))
      else if length bs < p + n then (drop p bs, Some (Sentinel EOF))
      else (take n (drop p bs), None))"

lemma read_at_ends: "snd (read_at bs n p) = None \<or> snd (read_at bs n p) = Some (Sentinel EOF)"
  by (simp add: read_at_def)

section \<open>The abstract disk\<close>

text \<open>
  \<open>d_node\<close> maps an open handle to its inode; \<open>d_data\<close> is what a reader of an inode sees and
  \<open>d_stable\<close> what a power cut leaves of it; \<open>d_dir\<close> and \<open>d_sdir\<close> are the directory as
  it is and as it would survive.
\<close>

record disk =
  d_node :: "handle \<Rightarrow> nat option"
  d_data :: "nat \<Rightarrow> bytes"
  d_stable :: "nat \<Rightarrow> bytes"
  d_dir :: "string \<Rightarrow> nat option"
  d_sdir :: "string \<Rightarrow> nat option"

definition fresh_inode :: "nat \<Rightarrow> disk \<Rightarrow> bool" where
  "fresh_inode i d \<longleftrightarrow> i \<notin> ran (d_node d) \<and> i \<notin> ran (d_dir d) \<and> i \<notin> ran (d_sdir d)"

definition disk_create :: "string \<Rightarrow> handle \<Rightarrow> nat \<Rightarrow> disk \<Rightarrow> disk" where
  "disk_create nm h i d = d\<lparr>d_node := (d_node d)(h \<mapsto> i), d_data := (d_data d)(i := []),
     d_stable := (d_stable d)(i := []), d_dir := (d_dir d)(nm \<mapsto> i)\<rparr>"

definition disk_open :: "handle \<Rightarrow> nat \<Rightarrow> disk \<Rightarrow> disk" where
  "disk_open h i d = d\<lparr>d_node := (d_node d)(h \<mapsto> i)\<rparr>"

definition disk_remove :: "string \<Rightarrow> disk \<Rightarrow> disk" where
  "disk_remove nm d = d\<lparr>d_dir := (d_dir d)(nm := None)\<rparr>"

definition disk_rename :: "string \<Rightarrow> string \<Rightarrow> disk \<Rightarrow> disk" where
  "disk_rename old new d =
     (if old = new then d else d\<lparr>d_dir := ((d_dir d)(old := None))(new := d_dir d old)\<rparr>)"

definition disk_syncdir :: "disk \<Rightarrow> disk" where
  "disk_syncdir d = d\<lparr>d_sdir := d_dir d\<rparr>"

definition disk_append :: "nat \<Rightarrow> bytes \<Rightarrow> disk \<Rightarrow> disk" where
  "disk_append i p d = d\<lparr>d_data := (d_data d)(i := d_data d i @ p)\<rparr>"

definition disk_truncate :: "nat \<Rightarrow> nat \<Rightarrow> disk \<Rightarrow> disk" where
  "disk_truncate i n d = d\<lparr>d_data := (d_data d)(i := take n (d_data d i))\<rparr>"

definition disk_sync :: "nat \<Rightarrow> disk \<Rightarrow> disk" where
  "disk_sync i d = d\<lparr>d_stable := (d_stable d)(i := d_data d i)\<rparr>"

definition disk_close :: "handle \<Rightarrow> disk \<Rightarrow> disk" where
  "disk_close h d = d\<lparr>d_node := (d_node d)(h := None)\<rparr>"

lemma disk_remove_absent: "d_dir d nm = None \<Longrightarrow> disk_remove nm d = d"
  by (simp add: disk_remove_def fun_upd_idem)

lemma disk_rename_absent: "d_dir d old = None \<Longrightarrow> d_dir d new = None \<Longrightarrow> disk_rename old new d = d"
  by (simp add: disk_rename_def fun_upd_idem)

text \<open>A power cut: the synced directory, and the synced bytes of the files it names.\<close>

definition disk_crash :: "disk \<Rightarrow> disk" where
  "disk_crash d = d\<lparr>d_data := (\<lambda>i. if i \<in> ran (d_sdir d) then d_stable d i else d_data d i), d_dir := d_sdir d\<rparr>"

lemmas disk_defs = disk_create_def disk_open_def disk_remove_def disk_rename_def disk_syncdir_def
  disk_append_def disk_truncate_def disk_sync_def disk_close_def

text \<open>The directory holds no hard links: two names never share an inode.\<close>

definition no_links :: "('n \<Rightarrow> nat option) \<Rightarrow> bool" where
  "no_links m \<longleftrightarrow> (\<forall>a b i. m a = Some i \<longrightarrow> m b = Some i \<longrightarrow> a = b)"

lemma no_linksD: "no_links m \<Longrightarrow> m a = Some i \<Longrightarrow> m b = Some i \<Longrightarrow> a = b"
  by (auto simp: no_links_def)

lemma no_links_upd: "no_links m \<Longrightarrow> i \<notin> ran m \<Longrightarrow> no_links (m(k \<mapsto> i))"
  by (auto simp: no_links_def ran_def)

lemma no_links_rename: "no_links m \<Longrightarrow> m a = Some i \<Longrightarrow> no_links ((m(a := None))(b \<mapsto> i))"
  by (auto simp: no_links_def)

lemma no_links_del: "no_links m \<Longrightarrow> no_links (m(a := None))"
  by (auto simp: no_links_def)

section \<open>Leaving files alone\<close>

text \<open>
  Two disks that agree on a set of names: on their entries, on the bytes behind them and on the
  handles open on them. Work on other files is invisible to whoever only uses these names.
\<close>

definition same_files :: "string set \<Rightarrow> disk \<Rightarrow> disk \<Rightarrow> bool" where
  "same_files N d d' \<longleftrightarrow>
     (\<forall>nm\<in>N. d_dir d' nm = d_dir d nm \<and> d_sdir d' nm = d_sdir d nm) \<and>
     (\<forall>nm\<in>N. \<forall>i. d_dir d nm = Some i \<longrightarrow> d_data d' i = d_data d i \<and> d_stable d' i = d_stable d i \<and>
        (\<forall>h. d_node d h = Some i \<longrightarrow> d_node d' h = Some i))"

lemma same_files_refl [simp]: "same_files N d d"
  by (simp add: same_files_def)

lemma same_files_trans [trans]: "same_files N a b \<Longrightarrow> same_files N b c \<Longrightarrow> same_files N a c"
  by (auto simp: same_files_def)

text \<open>Operations on a name outside the set, or on a file no name of the set has.\<close>

definition stranger :: "string set \<Rightarrow> nat \<Rightarrow> disk \<Rightarrow> bool" where
  "stranger N j d \<longleftrightarrow> (\<forall>nm\<in>N. d_dir d nm \<noteq> Some j)"

lemma same_files_remove: "nm \<notin> N \<Longrightarrow> same_files N d (disk_remove nm d)"
  by (auto simp: same_files_def disk_remove_def)

lemma same_files_create:
  "nm \<notin> N \<Longrightarrow> fresh_inode j d \<Longrightarrow> d_node d h = None \<Longrightarrow> same_files N d (disk_create nm h j d)"
  by (auto simp: same_files_def disk_create_def fresh_inode_def ran_def)

lemma same_files_strange:
  "stranger N j d \<Longrightarrow> same_files N d (disk_append j p d)"
  "stranger N j d \<Longrightarrow> same_files N d (disk_sync j d)"
  "stranger N j d \<Longrightarrow> d_node d h = Some j \<Longrightarrow> same_files N d (disk_close h d)"
  by (auto simp: same_files_def stranger_def disk_append_def disk_sync_def disk_close_def)

lemma same_files_open: "d_node d h = None \<Longrightarrow> same_files N d (disk_open h j d)"
  by (auto simp: same_files_def disk_open_def)

lemma stranger_same: "stranger N j d \<Longrightarrow> same_files N d d' \<Longrightarrow> stranger N j d'"
  by (simp add: stranger_def same_files_def)

lemma same_files_syncdir:
  "(\<And>nm. nm \<in> N \<Longrightarrow> d_sdir d nm = d_dir d nm) \<Longrightarrow> same_files N d (disk_syncdir d)"
  by (auto simp: same_files_def disk_syncdir_def)

section \<open>The contract\<close>

text \<open>
  What the interface promises of an operation that returned no error, and which error says that
  a name is absent. A read that returns \<^verbatim>\<open>io.EOF\<close> has returned what there was. The interface
  knows no directories; a removal or a rename that succeeds on a name no file has (a real
  directory may hold others) has left the files as they are.
\<close>

locale fs_contract =
  fixes F :: "'s fs_ops"
    and abs :: "'s \<Rightarrow> disk"
    and wf :: "'s \<Rightarrow> bool"
  assumes ReadAt_done:
      "\<lbrakk>wf s; d_node (abs s) h = Some i; file_ReadAt F h n (int pos) s = (bs, q); q = None \<or> q = Some (Sentinel EOF)\<rbrakk> \<Longrightarrow>
         (bs, q) = read_at (d_data (abs s) i) n pos"
    and Size_done:
      "\<lbrakk>wf s; d_node (abs s) h = Some i; file_Size F h s = Inr len\<rbrakk> \<Longrightarrow> len = int (length (d_data (abs s) i))"
    and List_law:
      "\<lbrakk>wf s; fs_List F s = Inr ns\<rbrakk> \<Longrightarrow> sorted ns \<and> distinct ns \<and> set ns = dom (d_dir (abs s))"
    and Dir_law: "wf s \<Longrightarrow> no_links (d_dir (abs s))"
    and Create_law:
      "\<lbrakk>wf s; fs_Create F nm s = (Inr h, s')\<rbrakk> \<Longrightarrow>
         wf s' \<and> d_dir (abs s) nm = None \<and> d_node (abs s) h = None \<and>
         (\<exists>i. fresh_inode i (abs s) \<and> abs s' = disk_create nm h i (abs s))"
    and Open_law:
      "\<lbrakk>wf s; fs_Open F nm s = (Inr h, s')\<rbrakk> \<Longrightarrow>
         wf s' \<and> d_node (abs s) h = None \<and>
         (\<exists>i. d_dir (abs s) nm = Some i \<and> abs s' = disk_open h i (abs s))"
    and Open_missing:
      "\<lbrakk>wf s; fs_Open F nm s = (Inl e, s'); errors_Is e ErrNotExist\<rbrakk> \<Longrightarrow>
         wf s' \<and> d_dir (abs s) nm = None \<and> abs s' = abs s"
    and Remove_law:
      "\<lbrakk>wf s; fs_Remove F nm s = (None, s')\<rbrakk> \<Longrightarrow>
         wf s' \<and> abs s' = disk_remove nm (abs s)"
    and Remove_missing:
      "\<lbrakk>wf s; fs_Remove F nm s = (Some e, s'); errors_Is e ErrNotExist\<rbrakk> \<Longrightarrow>
         wf s' \<and> d_dir (abs s) nm = None \<and> abs s' = abs s"
    and Rename_law:
      "\<lbrakk>wf s; fs_Rename F old new s = (None, s')\<rbrakk> \<Longrightarrow>
         wf s' \<and> abs s' = disk_rename old new (abs s)"
    and SyncDir_law:
      "\<lbrakk>wf s; fs_Sync F s = (None, s')\<rbrakk> \<Longrightarrow> wf s' \<and> abs s' = disk_syncdir (abs s)"
    and Append_law:
      "\<lbrakk>wf s; d_node (abs s) h = Some i; file_Append F h p s = ((n, None), s')\<rbrakk> \<Longrightarrow>
         wf s' \<and> n = length p \<and> abs s' = disk_append i p (abs s)"
    and Truncate_law:
      "\<lbrakk>wf s; d_node (abs s) h = Some i; file_Truncate F h (int n) s = (None, s')\<rbrakk> \<Longrightarrow>
         wf s' \<and> n \<le> length (d_data (abs s) i) \<and> abs s' = disk_truncate i n (abs s)"
    and Sync_law:
      "\<lbrakk>wf s; d_node (abs s) h = Some i; file_Sync F h s = (None, s')\<rbrakk> \<Longrightarrow>
         wf s' \<and> abs s' = disk_sync i (abs s)"
    and Close_law:
      "\<lbrakk>wf s; d_node (abs s) h = Some i; file_Close F h s = (None, s')\<rbrakk> \<Longrightarrow>
         wf s' \<and> abs s' = disk_close h (abs s)"

text \<open>
  The filesystems the log is proved over: what was written can be read. The simulator and the
  fault injector never fail a read or a size of an open file; a real disk that does makes the log
  return the error.
\<close>

locale filesystem = fs_contract F abs wf
  for F :: "'s fs_ops" and abs :: "'s \<Rightarrow> disk" and wf :: "'s \<Rightarrow> bool" +
  assumes ReadAt_ok:
      "\<lbrakk>wf s; d_node (abs s) h \<noteq> None\<rbrakk> \<Longrightarrow>
         snd (file_ReadAt F h n (int pos) s) = None \<or> snd (file_ReadAt F h n (int pos) s) = Some (Sentinel EOF)"
    and Size_ok: "\<lbrakk>wf s; d_node (abs s) h \<noteq> None\<rbrakk> \<Longrightarrow> \<exists>len. file_Size F h s = Inr len"
begin

lemma ReadAt_law:
  assumes "wf s" "d_node (abs s) h = Some i"
  shows "file_ReadAt F h n (int pos) s = read_at (d_data (abs s) i) n pos"
  using ReadAt_done [OF assms prod.collapse [symmetric]] ReadAt_ok [OF assms(1), of h n pos] assms(2) by simp

lemma Size_law:
  assumes "wf s" "d_node (abs s) h = Some i"
  shows "file_Size F h s = Inr (int (length (d_data (abs s) i)))"
  using Size_done [OF assms] Size_ok [OF assms(1), of h] assms(2) by auto

end

text \<open>A filesystem that injects no fault: an operation the interface allows returns no error.\<close>

locale reliable_filesystem = filesystem F abs wf
  for F :: "'s fs_ops" and abs :: "'s \<Rightarrow> disk" and wf :: "'s \<Rightarrow> bool" +
  assumes List_ok: "wf s \<Longrightarrow> \<exists>ns. fs_List F s = Inr ns"
    and Create_ok:
      "\<lbrakk>wf s; ValidateName nm = None; d_dir (abs s) nm = None\<rbrakk> \<Longrightarrow> \<exists>h s'. fs_Create F nm s = (Inr h, s')"
    and Open_ok:
      "\<lbrakk>wf s; ValidateName nm = None; d_dir (abs s) nm \<noteq> None\<rbrakk> \<Longrightarrow> \<exists>h s'. fs_Open F nm s = (Inr h, s')"
    and Open_not_exist:
      "\<lbrakk>wf s; ValidateName nm = None; d_dir (abs s) nm = None\<rbrakk> \<Longrightarrow>
         \<exists>e s'. fs_Open F nm s = (Inl e, s') \<and> errors_Is e ErrNotExist"
    and Remove_ok:
      "\<lbrakk>wf s; ValidateName nm = None; d_dir (abs s) nm \<noteq> None\<rbrakk> \<Longrightarrow> \<exists>s'. fs_Remove F nm s = (None, s')"
    and Remove_not_exist:
      "\<lbrakk>wf s; ValidateName nm = None; d_dir (abs s) nm = None\<rbrakk> \<Longrightarrow>
         \<exists>e s'. fs_Remove F nm s = (Some e, s') \<and> errors_Is e ErrNotExist"
    and Rename_ok:
      "\<lbrakk>wf s; ValidateName old = None; ValidateName new = None; d_dir (abs s) old \<noteq> None\<rbrakk> \<Longrightarrow>
         \<exists>s'. fs_Rename F old new s = (None, s')"
    and SyncDir_ok: "wf s \<Longrightarrow> \<exists>s'. fs_Sync F s = (None, s')"
    and Append_ok: "\<lbrakk>wf s; d_node (abs s) h \<noteq> None\<rbrakk> \<Longrightarrow> \<exists>n s'. file_Append F h p s = ((n, None), s')"
    and Truncate_ok:
      "\<lbrakk>wf s; d_node (abs s) h = Some i; n \<le> length (d_data (abs s) i)\<rbrakk> \<Longrightarrow>
         \<exists>s'. file_Truncate F h (int n) s = (None, s')"
    and Sync_ok: "\<lbrakk>wf s; d_node (abs s) h \<noteq> None\<rbrakk> \<Longrightarrow> \<exists>s'. file_Sync F h s = (None, s')"
    and Close_ok: "\<lbrakk>wf s; d_node (abs s) h \<noteq> None\<rbrakk> \<Longrightarrow> \<exists>s'. file_Close F h s = (None, s')"
begin

text \<open>The two halves of the contract together, one rule per operation a client performs.\<close>

lemma Create_step:
  assumes "wf s" "ValidateName nm = None" "d_dir (abs s) nm = None"
  obtains h i s' where "fs_Create F nm s = (Inr h, s')" "wf s'" "d_node (abs s) h = None"
    "fresh_inode i (abs s)" "abs s' = disk_create nm h i (abs s)"
  using Create_ok [OF assms] Create_law [OF assms(1)] by metis

lemma Open_step:
  assumes "wf s" "ValidateName nm = None" "d_dir (abs s) nm = Some i"
  obtains h s' where "fs_Open F nm s = (Inr h, s')" "wf s'" "d_node (abs s) h = None"
    "abs s' = disk_open h i (abs s)"
  using Open_ok [OF assms(1,2)] Open_law [OF assms(1)] assms(3) by (metis option.distinct(1) option.inject)

lemma Append_step:
  assumes "wf s" "d_node (abs s) h = Some i"
  obtains s' where "file_Append F h p s = ((length p, None), s')" "wf s'"
    "abs s' = disk_append i p (abs s)"
  using Append_ok [OF assms(1), of h p] Append_law [OF assms] assms(2) by (metis option.distinct(1))

lemma Sync_step:
  assumes "wf s" "d_node (abs s) h = Some i"
  obtains s' where "file_Sync F h s = (None, s')" "wf s'" "abs s' = disk_sync i (abs s)"
  using Sync_ok [OF assms(1), of h] Sync_law [OF assms] assms(2) by (metis option.distinct(1))

lemma Close_step:
  assumes "wf s" "d_node (abs s) h = Some i"
  obtains s' where "file_Close F h s = (None, s')" "wf s'" "abs s' = disk_close h (abs s)"
  using Close_ok [OF assms(1), of h] Close_law [OF assms] assms(2) by (metis option.distinct(1))

lemma Truncate_step:
  assumes "wf s" "d_node (abs s) h = Some i" "n \<le> length (d_data (abs s) i)"
  obtains s' where "file_Truncate F h (int n) s = (None, s')" "wf s'"
    "abs s' = disk_truncate i n (abs s)"
  using Truncate_ok [OF assms] Truncate_law [OF assms(1,2)] by metis

lemma SyncDir_step:
  assumes "wf s"
  obtains s' where "fs_Sync F s = (None, s')" "wf s'" "abs s' = disk_syncdir (abs s)"
  using SyncDir_ok [OF assms] SyncDir_law [OF assms] by metis

lemma Rename_step:
  assumes "wf s" "ValidateName old = None" "ValidateName new = None" "d_dir (abs s) old \<noteq> None"
  obtains s' where "fs_Rename F old new s = (None, s')" "wf s'" "abs s' = disk_rename old new (abs s)"
  using Rename_ok [OF assms] Rename_law [OF assms(1)] by metis

lemma Remove_step:
  assumes "wf s" "ValidateName nm = None" "d_dir (abs s) nm \<noteq> None"
  obtains s' where "fs_Remove F nm s = (None, s')" "wf s'" "abs s' = disk_remove nm (abs s)"
  using Remove_ok [OF assms] Remove_law [OF assms(1)] by metis

end

section \<open>What survives\<close>

text \<open>
  What a power cut would leave under each name. Only a directory sync that succeeded and a file
  sync that succeeded can change it: \<open>crash_filesystem\<close> is a filesystem of which that can be
  said, whatever its operations return. A file that was closed with an error is still open or
  closed, and nothing else has happened to it.
\<close>

definition survived :: "disk \<Rightarrow> string \<Rightarrow> bytes option" where
  "survived d nm = map_option (d_stable d) (d_sdir d nm)"

locale crash_filesystem = filesystem F abs wf
  for F :: "'s fs_ops" and abs :: "'s \<Rightarrow> disk" and wf :: "'s \<Rightarrow> bool" +
  assumes Create_quiet: "\<lbrakk>wf s; fs_Create F nm s = (r, s')\<rbrakk> \<Longrightarrow> wf s' \<and> survived (abs s') = survived (abs s)"
    and Open_quiet: "\<lbrakk>wf s; fs_Open F nm s = (r, s')\<rbrakk> \<Longrightarrow> wf s' \<and> survived (abs s') = survived (abs s)"
    and Remove_quiet: "\<lbrakk>wf s; fs_Remove F nm s = (e, s')\<rbrakk> \<Longrightarrow> wf s' \<and> survived (abs s') = survived (abs s)"
    and Rename_quiet: "\<lbrakk>wf s; fs_Rename F old new s = (e, s')\<rbrakk> \<Longrightarrow> wf s' \<and> survived (abs s') = survived (abs s)"
    and Append_quiet: "\<lbrakk>wf s; file_Append F h p s = (q, s')\<rbrakk> \<Longrightarrow> wf s' \<and> survived (abs s') = survived (abs s)"
    and Truncate_quiet: "\<lbrakk>wf s; file_Truncate F h n s = (e, s')\<rbrakk> \<Longrightarrow> wf s' \<and> survived (abs s') = survived (abs s)"
    and Close_quiet:
      "\<lbrakk>wf s; file_Close F h s = (e, s')\<rbrakk> \<Longrightarrow> wf s' \<and> (abs s' = abs s \<or> abs s' = disk_close h (abs s))"
    and SyncDir_failed: "\<lbrakk>wf s; fs_Sync F s = (Some x, s')\<rbrakk> \<Longrightarrow> wf s' \<and> survived (abs s') = survived (abs s)"
    and Sync_failed: "\<lbrakk>wf s; file_Sync F h s = (Some x, s')\<rbrakk> \<Longrightarrow> wf s' \<and> survived (abs s') = survived (abs s)"

lemma survived_disk [simp]:
  "survived (disk_create nm h i d) = survived d" if "fresh_inode i d" for nm h i d
  using that by (auto simp: survived_def disk_create_def fresh_inode_def fun_eq_iff ran_def option.map_comp intro!: option.map_cong0)

lemma survived_frame [simp]:
  "survived (disk_open h i d) = survived d" "survived (disk_remove nm d) = survived d"
  "survived (disk_rename old new d) = survived d" "survived (disk_append i p d) = survived d"
  "survived (disk_truncate i n d) = survived d" "survived (disk_close h d) = survived d"
  "survived (d\<lparr>d_node := nd\<rparr>) = survived d"
  by (simp_all add: survived_def fun_eq_iff disk_defs)

lemma survived_crash [simp]: "survived (disk_crash d) = survived d"
  by (simp add: survived_def fun_eq_iff disk_crash_def)

lemma survived_sync_unnamed: "i \<notin> ran (d_sdir d) \<Longrightarrow> survived (disk_sync i d) = survived d"
  by (auto simp: survived_def disk_sync_def fun_eq_iff ran_def intro!: option.map_cong0)

text \<open>After a power cut what survived is all there is.\<close>

lemma survived_visible: "survived (disk_crash d) nm = map_option (d_data (disk_crash d)) (d_dir (disk_crash d) nm)"
  by (cases "d_sdir d nm") (auto simp: survived_def disk_crash_def ran_def)

end
