(* ===== verification/Sim_FS.thy ===== *)
theory Sim_FS
  imports Core_FS
begin

text \<open>
  \<^verbatim>\<open>sim/fs.go\<close>: the simulated filesystem, with its three kinds of power cut.

  Pointers are indices: an inode is a position in \<open>fs_inodes\<close>, an open \<^verbatim>\<open>simFile\<close> a position
  in \<open>fs_files\<close>. The two Go maps are association lists, whose order nothing reads: \<open>List\<close>
  sorts. The record is extensible, so a world that carries more than a disk (a clock, a fault
  schedule) can reuse every operation.
\<close>

section \<open>State\<close>

record inode =
  i_data :: bytes
  i_durable :: bytes

record simFile =
  f_node :: nat
  f_name :: string
  f_closed :: bool

record simfs =
  fs_live :: "(string \<times> nat) list"
  fs_durable :: "(string \<times> nat) list"
  fs_inodes :: "inode list"
  fs_files :: "simFile list"

definition sim_NewFS :: simfs where
  "sim_NewFS = \<lparr>fs_live = [], fs_durable = [], fs_inodes = [], fs_files = []\<rparr>"

section \<open>Directory operations\<close>

definition sim_Create :: "string \<Rightarrow> 'a simfs_scheme \<Rightarrow> handle res \<times> 'a simfs_scheme" where
  "sim_Create name f =
     (case ValidateName name of
        Some err \<Rightarrow> (Inl err, f)
      | None \<Rightarrow>
          (case map_of (fs_live f) name of
             Some _ \<Rightarrow> (Inl (Errorf ''sim: create %s: %w'' [Sentinel ErrExist]), f)
           | None \<Rightarrow>
               (let n = length (fs_inodes f) in
                (Inr (length (fs_files f)),
                 f\<lparr>fs_inodes := fs_inodes f @ [\<lparr>i_data = [], i_durable = []\<rparr>],
                   fs_live := AList.update name n (fs_live f),
                   fs_files := fs_files f @ [\<lparr>f_node = n, f_name = name, f_closed = False\<rparr>]\<rparr>))))"

definition sim_Open :: "string \<Rightarrow> 'a simfs_scheme \<Rightarrow> handle res \<times> 'a simfs_scheme" where
  "sim_Open name f =
     (case ValidateName name of
        Some err \<Rightarrow> (Inl err, f)
      | None \<Rightarrow>
          (case map_of (fs_live f) name of
             None \<Rightarrow> (Inl (Errorf ''sim: open %s: %w'' [Sentinel ErrNotExist]), f)
           | Some n \<Rightarrow>
               (Inr (length (fs_files f)),
                f\<lparr>fs_files := fs_files f @ [\<lparr>f_node = n, f_name = name, f_closed = False\<rparr>]\<rparr>)))"

definition sim_Remove :: "string \<Rightarrow> 'a simfs_scheme \<Rightarrow> error option \<times> 'a simfs_scheme" where
  "sim_Remove name f =
     (case ValidateName name of
        Some err \<Rightarrow> (Some err, f)
      | None \<Rightarrow>
          (case map_of (fs_live f) name of
             None \<Rightarrow> (Some (Errorf ''sim: remove %s: %w'' [Sentinel ErrNotExist]), f)
           | Some _ \<Rightarrow> (None, f\<lparr>fs_live := AList.delete name (fs_live f)\<rparr>)))"

definition sim_Rename :: "string \<Rightarrow> string \<Rightarrow> 'a simfs_scheme \<Rightarrow> error option \<times> 'a simfs_scheme" where
  "sim_Rename oldName newName f =
     (case ValidateName oldName of
        Some err \<Rightarrow> (Some err, f)
      | None \<Rightarrow>
          (case ValidateName newName of
             Some err \<Rightarrow> (Some err, f)
           | None \<Rightarrow>
               (case map_of (fs_live f) oldName of
                  None \<Rightarrow> (Some (Errorf ''sim: rename %s: %w'' [Sentinel ErrNotExist]), f)
                | Some n \<Rightarrow>
                    if oldName = newName then (None, f)
                    else (None, f\<lparr>fs_live := AList.update newName n (AList.delete oldName (fs_live f))\<rparr>))))"

definition sim_List :: "'a simfs_scheme \<Rightarrow> string list res" where
  "sim_List f = Inr (sort (map fst (fs_live f)))"

definition sim_Sync :: "'a simfs_scheme \<Rightarrow> error option \<times> 'a simfs_scheme" where
  "sim_Sync f = (None, f\<lparr>fs_durable := fs_live f\<rparr>)"

section \<open>File operations\<close>

definition sim_file :: "handle \<Rightarrow> 'a simfs_scheme \<Rightarrow> simFile" where
  "sim_file h f = fs_files f ! h"

definition sim_node :: "handle \<Rightarrow> 'a simfs_scheme \<Rightarrow> inode" where
  "sim_node h f = fs_inodes f ! f_node (sim_file h f)"

definition set_sim_node :: "handle \<Rightarrow> inode \<Rightarrow> 'a simfs_scheme \<Rightarrow> 'a simfs_scheme" where
  "set_sim_node h n f = f\<lparr>fs_inodes := (fs_inodes f)[f_node (sim_file h f) := n]\<rparr>"

definition simFile_Append ::
  "handle \<Rightarrow> bytes \<Rightarrow> 'a simfs_scheme \<Rightarrow> (nat \<times> error option) \<times> 'a simfs_scheme" where
  "simFile_Append h p f =
     (if f_closed (sim_file h f) then ((0, Some (Errorf ''sim: append %s: %w'' [Sentinel ErrClosed])), f)
      else ((length p, None), set_sim_node h ((sim_node h f)\<lparr>i_data := i_data (sim_node h f) @ p\<rparr>) f))"

definition simFile_ReadAt ::
  "handle \<Rightarrow> nat \<Rightarrow> int \<Rightarrow> 'a simfs_scheme \<Rightarrow> bytes \<times> error option" where
  "simFile_ReadAt h n off f =
     (if f_closed (sim_file h f) then ([], Some (Errorf ''sim: read %s: %w'' [Sentinel ErrClosed]))
      else if off < 0 then ([], Some (Errorf ''sim: read %s: negative offset %d'' []))
      else if off \<ge> int (length (i_data (sim_node h f))) then
        (if n = 0 then ([], None) else ([], Some (Sentinel EOF)))
      else
        (let got = take n (drop (nat off) (i_data (sim_node h f))) in
         if length got < n then (got, Some (Sentinel EOF)) else (got, None)))"

definition simFile_Truncate ::
  "handle \<Rightarrow> int \<Rightarrow> 'a simfs_scheme \<Rightarrow> error option \<times> 'a simfs_scheme" where
  "simFile_Truncate h sz f =
     (if f_closed (sim_file h f) then (Some (Errorf ''sim: truncate %s: %w'' [Sentinel ErrClosed]), f)
      else if sz < 0 then (Some (Errorf ''sim: truncate %s: negative size %d'' []), f)
      else if sz > int (length (i_data (sim_node h f))) then
        (Some (Errorf ''sim: truncate %s to %d: file is %d bytes; growing is not supported'' []), f)
      else (None, set_sim_node h ((sim_node h f)\<lparr>i_data := take (nat sz) (i_data (sim_node h f))\<rparr>) f))"

definition simFile_Size :: "handle \<Rightarrow> 'a simfs_scheme \<Rightarrow> int res" where
  "simFile_Size h f =
     (if f_closed (sim_file h f) then Inl (Errorf ''sim: size %s: %w'' [Sentinel ErrClosed])
      else Inr (int (length (i_data (sim_node h f)))))"

definition simFile_Sync :: "handle \<Rightarrow> 'a simfs_scheme \<Rightarrow> error option \<times> 'a simfs_scheme" where
  "simFile_Sync h f =
     (if f_closed (sim_file h f) then (Some (Errorf ''sim: sync %s: %w'' [Sentinel ErrClosed]), f)
      else (None, set_sim_node h ((sim_node h f)\<lparr>i_durable := i_data (sim_node h f)\<rparr>) f))"

definition simFile_Close :: "handle \<Rightarrow> 'a simfs_scheme \<Rightarrow> error option \<times> 'a simfs_scheme" where
  "simFile_Close h f = (None, f\<lparr>fs_files := (fs_files f)[h := (sim_file h f)\<lparr>f_closed := True\<rparr>]\<rparr>)"

definition sim_ops :: "'a simfs_scheme fs_ops" where
  "sim_ops = \<lparr>fs_Create = sim_Create, fs_Open = sim_Open, fs_Remove = sim_Remove,
     fs_Rename = sim_Rename, fs_List = sim_List, fs_Sync = sim_Sync,
     file_Append = simFile_Append, file_ReadAt = simFile_ReadAt, file_Truncate = simFile_Truncate,
     file_Size = simFile_Size, file_Sync = simFile_Sync, file_Close = simFile_Close\<rparr>"

section \<open>Power cuts and bit rot\<close>

text \<open>The loop the three crashes share: rewrite every inode the durable directory names.\<close>

definition crash_with :: "(inode \<Rightarrow> bytes) \<Rightarrow> 'a simfs_scheme \<Rightarrow> 'a simfs_scheme" where
  "crash_with g f =
     f\<lparr>fs_inodes := fold (\<lambda>(name, n) ns. ns[n := (ns ! n)\<lparr>i_data := g (ns ! n)\<rparr>]) (fs_durable f) (fs_inodes f),
       fs_live := fs_durable f\<rparr>"

definition sim_Crash :: "'a simfs_scheme \<Rightarrow> 'a simfs_scheme" where
  "sim_Crash = crash_with i_durable"

definition extend_bytes :: "inode \<Rightarrow> bytes" where
  "extend_bytes n = i_durable n @ replicate (length (i_data n) - length (i_durable n)) 0"

definition sim_CrashExtend :: "'a simfs_scheme \<Rightarrow> 'a simfs_scheme" where
  "sim_CrashExtend = crash_with extend_bytes"

definition torn_bytes :: "int \<Rightarrow> inode \<Rightarrow> bytes" where
  "torn_bytes percent n =
     (let extra = length (i_data n) - length (i_durable n) in
      i_durable n @ take (nat (int extra * percent div 100)) (drop (length (i_durable n)) (i_data n)))"

definition sim_CrashTorn :: "int \<Rightarrow> 'a simfs_scheme \<Rightarrow> 'a simfs_scheme" where
  "sim_CrashTorn percent = crash_with (torn_bytes (min (max percent 0) 100))"

definition splice :: "nat \<Rightarrow> bytes \<Rightarrow> bytes \<Rightarrow> bytes" where
  "splice off p bs = take off bs @ p @ drop (off + length p) bs"

definition sim_Overwrite :: "string \<Rightarrow> int \<Rightarrow> bytes \<Rightarrow> 'a simfs_scheme \<Rightarrow> error option \<times> 'a simfs_scheme" where
  "sim_Overwrite name off p f =
     (case map_of (fs_live f) name of
        None \<Rightarrow> (Some (Errorf ''sim: overwrite %s: %w'' [Sentinel ErrNotExist]), f)
      | Some i \<Rightarrow>
          (let n = fs_inodes f ! i in
           if off < 0 \<or> off + int (length p) > int (length (i_data n)) then
             (Some (Errorf ''sim: overwrite %s at %d: past the end of a %d byte file'' []), f)
           else
             (None, f\<lparr>fs_inodes := (fs_inodes f)[i :=
                \<lparr>i_data = splice (nat off) p (i_data n),
                 i_durable = (if off + int (length p) \<le> int (length (i_durable n))
                              then splice (nat off) p (i_durable n) else i_durable n)\<rparr>]\<rparr>)))"

text \<open>
  \<^verbatim>\<open>Clone\<close> copies every inode once, so that two names of one inode stay two names of one
  inode; on values that is the same name tables over the same list, with no file open.
\<close>

definition sim_Clone :: "'a simfs_scheme \<Rightarrow> 'a simfs_scheme" where
  "sim_Clone f = f\<lparr>fs_files := []\<rparr>"

section \<open>The simulated disk implements the interface\<close>

definition wf_sim :: "'a simfs_scheme \<Rightarrow> bool" where
  "wf_sim f \<longleftrightarrow> distinct (map fst (fs_live f)) \<and> distinct (map fst (fs_durable f)) \<and>
     (\<forall>(nm, i)\<in>set (fs_live f). i < length (fs_inodes f)) \<and>
     (\<forall>(nm, i)\<in>set (fs_durable f). i < length (fs_inodes f)) \<and>
     (\<forall>x\<in>set (fs_files f). f_node x < length (fs_inodes f)) \<and>
     no_links (map_of (fs_live f)) \<and> no_links (map_of (fs_durable f))"

definition abs_sim :: "'a simfs_scheme \<Rightarrow> disk" where
  "abs_sim f = \<lparr>
     d_node = (\<lambda>h. if h < length (fs_files f) \<and> \<not> f_closed (fs_files f ! h)
                   then Some (f_node (fs_files f ! h)) else None),
     d_data = (\<lambda>i. if i < length (fs_inodes f) then i_data (fs_inodes f ! i) else []),
     d_stable = (\<lambda>i. if i < length (fs_inodes f) then i_durable (fs_inodes f ! i) else []),
     d_dir = map_of (fs_live f),
     d_sdir = map_of (fs_durable f)\<rparr>"

lemma wf_sim_NewFS [simp]: "wf_sim sim_NewFS"
  by (simp add: wf_sim_def sim_NewFS_def no_links_def)

lemma abs_sim_sel [simp]:
  "d_dir (abs_sim f) = map_of (fs_live f)"
  "d_sdir (abs_sim f) = map_of (fs_durable f)"
  by (simp_all add: abs_sim_def)

lemma d_node_abs_sim:
  "d_node (abs_sim f) h = Some i \<longleftrightarrow>
     h < length (fs_files f) \<and> \<not> f_closed (sim_file h f) \<and> i = f_node (sim_file h f)"
  by (auto simp: abs_sim_def sim_file_def)

lemma wf_sim_node:
  "wf_sim f \<Longrightarrow> h < length (fs_files f) \<Longrightarrow> f_node (sim_file h f) < length (fs_inodes f)"
  by (auto simp: wf_sim_def sim_file_def)

lemma wf_sim_dir:
  "wf_sim f \<Longrightarrow> map_of (fs_live f) nm = Some i \<Longrightarrow> i < length (fs_inodes f)"
  "wf_sim f \<Longrightarrow> map_of (fs_durable f) nm = Some i \<Longrightarrow> i < length (fs_inodes f)"
  by (auto simp: wf_sim_def dest: map_of_SomeD)

lemma wf_sim_inodes_upd: "wf_sim f \<Longrightarrow> wf_sim (f\<lparr>fs_inodes := (fs_inodes f)[i := n]\<rparr>)"
  by (simp add: wf_sim_def)

lemma wf_sim_set_node: "wf_sim f \<Longrightarrow> wf_sim (set_sim_node h n f)"
  by (simp add: set_sim_node_def wf_sim_inodes_upd)

lemma abs_sim_set_node:
  assumes "wf_sim f" "d_node (abs_sim f) h = Some i"
  shows "abs_sim (set_sim_node h n f) =
    (abs_sim f)\<lparr>d_data := (d_data (abs_sim f))(i := i_data n),
                d_stable := (d_stable (abs_sim f))(i := i_durable n)\<rparr>"
  using assms wf_sim_node [of f h]
  by (auto simp: abs_sim_def set_sim_node_def sim_file_def nth_list_update fun_eq_iff split: if_splits)

lemma sim_node_data:
  assumes "wf_sim f" "d_node (abs_sim f) h = Some i"
  shows "i_data (sim_node h f) = d_data (abs_sim f) i" "i_durable (sim_node h f) = d_stable (abs_sim f) i"
  using assms wf_sim_node [of f h]
  by (auto simp: sim_node_def d_node_abs_sim) (auto simp: abs_sim_def)

lemma abs_sim_dir_upd:
  "abs_sim (f\<lparr>fs_live := m\<rparr>) = (abs_sim f)\<lparr>d_dir := map_of m\<rparr>"
  "abs_sim (f\<lparr>fs_durable := m\<rparr>) = (abs_sim f)\<lparr>d_sdir := map_of m\<rparr>"
  by (auto simp: abs_sim_def fun_eq_iff)

lemma fresh_inode_sim: "wf_sim f \<Longrightarrow> fresh_inode (length (fs_inodes f)) (abs_sim f)"
  by (auto simp: fresh_inode_def ran_def d_node_abs_sim dest: wf_sim_dir wf_sim_node)

lemma sim_Create_law:
  assumes "wf_sim f" "sim_Create nm f = (Inr h, f')"
  shows "wf_sim f' \<and> d_dir (abs_sim f) nm = None \<and> d_node (abs_sim f) h = None \<and>
         (\<exists>i. fresh_inode i (abs_sim f) \<and> abs_sim f' = disk_create nm h i (abs_sim f))"
proof -
  let ?n = "length (fs_inodes f)"
  have h: "h = length (fs_files f)" and none: "map_of (fs_live f) nm = None"
    and f': "f' = f\<lparr>fs_inodes := fs_inodes f @ [\<lparr>i_data = [], i_durable = []\<rparr>],
      fs_live := AList.update nm ?n (fs_live f),
      fs_files := fs_files f @ [\<lparr>f_node = ?n, f_name = nm, f_closed = False\<rparr>]\<rparr>"
    using assms(2) by (auto simp: sim_Create_def Let_def split: option.splits)
  have "wf_sim f'"
    using assms(1) fresh_inode_sim [OF assms(1)]
    by (auto simp: f' wf_sim_def distinct_update update_conv' fresh_inode_def less_SucI
        intro: no_links_upd dest!: set_update_cases)
  moreover have "abs_sim f' = disk_create nm h ?n (abs_sim f)"
    by (auto simp: f' h abs_sim_def disk_create_def fun_eq_iff nth_append update_conv')
  ultimately show ?thesis
    using fresh_inode_sim [OF assms(1)] none by (auto simp: h abs_sim_def)
qed

lemma sim_Open_law:
  assumes "wf_sim f" "sim_Open nm f = (Inr h, f')"
  shows "wf_sim f' \<and> d_node (abs_sim f) h = None \<and>
         (\<exists>i. d_dir (abs_sim f) nm = Some i \<and> abs_sim f' = disk_open h i (abs_sim f))"
proof -
  obtain n where h: "h = length (fs_files f)" and n: "map_of (fs_live f) nm = Some n"
    and f': "f' = f\<lparr>fs_files := fs_files f @ [\<lparr>f_node = n, f_name = nm, f_closed = False\<rparr>]\<rparr>"
    using assms(2) by (auto simp: sim_Open_def split: option.splits)
  have "wf_sim f'" using assms(1) wf_sim_dir(1) [OF assms(1) n] by (auto simp: f' wf_sim_def)
  moreover have "abs_sim f' = disk_open h n (abs_sim f)"
    by (auto simp: f' h abs_sim_def disk_open_def fun_eq_iff nth_append)
  ultimately show ?thesis using n by (auto simp: h abs_sim_def)
qed

lemma sim_Remove_law:
  assumes "wf_sim f" "sim_Remove nm f = (None, f')"
  shows "wf_sim f' \<and> d_dir (abs_sim f) nm \<noteq> None \<and> abs_sim f' = disk_remove nm (abs_sim f)"
  using assms
  by (auto simp: sim_Remove_def wf_sim_def abs_sim_dir_upd disk_remove_def delete_conv' no_links_del
      distinct_delete split: option.splits dest!: set_delete_subset)

lemma sim_Rename_law:
  assumes "wf_sim f" "sim_Rename old new f = (None, f')"
  shows "wf_sim f' \<and> d_dir (abs_sim f) old \<noteq> None \<and> abs_sim f' = disk_rename old new (abs_sim f)"
proof -
  obtain n where n: "map_of (fs_live f) old = Some n"
    and f': "f' = (if old = new then f
       else f\<lparr>fs_live := AList.update new n (AList.delete old (fs_live f))\<rparr>)"
    using assms(2) by (auto simp: sim_Rename_def split: option.splits if_splits)
  have "wf_sim f'"
    using assms(1) wf_sim_dir(1) [OF assms(1) n]
    by (auto simp: f' wf_sim_def distinct_update distinct_delete update_conv' delete_conv'
        no_links_rename [of "map_of (fs_live f)" old n new] n dest!: set_update_cases dest: set_delete_subset)
  then show ?thesis
    using n by (auto simp: f' disk_rename_def abs_sim_dir_upd update_conv' delete_conv')
qed

lemma sim_List_law:
  assumes "wf_sim f" "sim_List f = Inr ns"
  shows "sorted ns \<and> distinct ns \<and> set ns = dom (d_dir (abs_sim f))"
proof -
  have "ns = sort (map fst (fs_live f))" using assms(2) by (simp add: sim_List_def)
  then show ?thesis using assms(1) by (simp add: wf_sim_def dom_map_of_conv_image_fst)
qed

lemma sim_ReadAt_law:
  assumes "wf_sim f" "d_node (abs_sim f) h = Some i"
  shows "simFile_ReadAt h n (int pos) f = read_at (d_data (abs_sim f) i) n pos"
  using assms by (auto simp: simFile_ReadAt_def read_at_def sim_node_data d_node_abs_sim Let_def)

lemmas sim_file_defs = simFile_Append_def simFile_Truncate_def simFile_Sync_def simFile_Size_def

text \<open>A file operation that returns no error rewrites the inode its handle holds.\<close>

lemma sim_file_laws:
  assumes "wf_sim f" "d_node (abs_sim f) h = Some i"
  shows "simFile_Append h p f = ((n, None), f') \<Longrightarrow>
           wf_sim f' \<and> n = length p \<and> abs_sim f' = disk_append i p (abs_sim f)"
    and "simFile_Truncate h (int m) f = (None, f') \<Longrightarrow>
           wf_sim f' \<and> m \<le> length (d_data (abs_sim f) i) \<and> abs_sim f' = disk_truncate i m (abs_sim f)"
    and "simFile_Sync h f = (None, f') \<Longrightarrow> wf_sim f' \<and> abs_sim f' = disk_sync i (abs_sim f)"
    and "simFile_Size h f = Inr (int (length (d_data (abs_sim f) i)))"
proof -
  have [simp]: "\<not> f_closed (sim_file h f)" using assms(2) by (simp add: d_node_abs_sim)
  note [simp] = wf_sim_set_node [OF assms(1)] abs_sim_set_node [OF assms] sim_node_data [OF assms]
  show "simFile_Append h p f = ((n, None), f') \<Longrightarrow>
      wf_sim f' \<and> n = length p \<and> abs_sim f' = disk_append i p (abs_sim f)"
    by (auto simp: simFile_Append_def disk_append_def)
  show "simFile_Truncate h (int m) f = (None, f') \<Longrightarrow>
      wf_sim f' \<and> m \<le> length (d_data (abs_sim f) i) \<and> abs_sim f' = disk_truncate i m (abs_sim f)"
    by (auto simp: simFile_Truncate_def disk_truncate_def split: if_splits)
  show "simFile_Sync h f = (None, f') \<Longrightarrow> wf_sim f' \<and> abs_sim f' = disk_sync i (abs_sim f)"
    by (auto simp: simFile_Sync_def disk_sync_def)
  show "simFile_Size h f = Inr (int (length (d_data (abs_sim f) i)))"
    by (simp add: simFile_Size_def)
qed

lemma sim_Close_law:
  assumes "wf_sim f" "d_node (abs_sim f) h = Some i" "simFile_Close h f = (None, f')"
  shows "wf_sim f' \<and> abs_sim f' = disk_close h (abs_sim f)"
proof -
  have f': "f' = f\<lparr>fs_files := (fs_files f)[h := (sim_file h f)\<lparr>f_closed := True\<rparr>]\<rparr>"
    using assms(3) by (simp add: simFile_Close_def)
  have h: "h < length (fs_files f)" using assms(2) by (simp add: d_node_abs_sim)
  have "wf_sim f'"
    using assms(1) wf_sim_node [OF assms(1) h]
    by (auto simp: f' wf_sim_def dest!: set_mp [OF set_update_subset_insert])
  moreover have "abs_sim f' = disk_close h (abs_sim f)"
    using h by (auto simp: f' abs_sim_def disk_close_def fun_eq_iff nth_list_update)
  ultimately show ?thesis by simp
qed

interpretation sim: reliable_filesystem sim_ops abs_sim wf_sim
proof (unfold_locales, goal_cases)
  case (1 s h i n pos bs e) then show ?case by (simp add: sim_ops_def sim_ReadAt_law)
next
  case (2 s h i len) then show ?case by (simp add: sim_ops_def sim_file_laws(4))
next
  case (3 s ns) then show ?case using sim_List_law by (simp add: sim_ops_def)
next
  case (4 s) then show ?case by (simp add: wf_sim_def)
next
  case (5 s nm h s') then show ?case using sim_Create_law by (simp add: sim_ops_def)
next
  case (6 s nm h s') then show ?case using sim_Open_law by (simp add: sim_ops_def)
next
  case (7 s nm e s')
  then show ?case using ValidateName_error [of nm e ErrNotExist]
    by (auto simp: sim_ops_def sim_Open_def split: option.splits)
next
  case (8 s nm s') then show ?case using sim_Remove_law [of s nm s'] by (simp add: sim_ops_def)
next
  case (9 s nm e s')
  then show ?case using ValidateName_error [of nm e ErrNotExist]
    by (auto simp: sim_ops_def sim_Remove_def split: option.splits)
next
  case (10 s old new s') then show ?case using sim_Rename_law [of s old new s'] by (simp add: sim_ops_def)
next
  case (11 s s')
  then show ?case by (auto simp: sim_ops_def sim_Sync_def disk_syncdir_def wf_sim_def abs_sim_dir_upd)
next
  case (12 s h i p n s') then show ?case using sim_file_laws(1) by (simp add: sim_ops_def)
next
  case (13 s h i n s') then show ?case using sim_file_laws(2) by (simp add: sim_ops_def)
next
  case (14 s h i s') then show ?case using sim_file_laws(3) by (simp add: sim_ops_def)
next
  case (15 s h i s') then show ?case using sim_Close_law by (simp add: sim_ops_def)
next
  case (16 s h n pos)
  then obtain i where "d_node (abs_sim s) h = Some i" by auto
  then have "file_ReadAt sim_ops h n (int pos) s = read_at (d_data (abs_sim s) i) n pos"
    using sim_ReadAt_law [OF 16(1)] by (simp add: sim_ops_def)
  then show ?case using read_at_ends by metis
next
  case (17 s h)
  then show ?case using sim_file_laws(4) by (auto simp: sim_ops_def)
qed (auto simp: sim_ops_def sim_List_def sim_Create_def sim_Open_def sim_Remove_def sim_Rename_def
    sim_Sync_def sim_file_defs simFile_Close_def d_node_abs_sim Let_def sim_node_data split: option.splits)

section \<open>What a power cut leaves\<close>

lemma crash_fold:
  assumes "no_links (map_of es)" "distinct (map fst es)" "\<forall>(nm, i)\<in>set es. i < length ns"
  shows "fold (\<lambda>(name, n) ns. ns[n := (ns ! n)\<lparr>i_data := g (ns ! n)\<rparr>]) es ns =
         map (\<lambda>i. if i \<in> ran (map_of es) then (ns ! i)\<lparr>i_data := g (ns ! i)\<rparr> else ns ! i) [0..<length ns]"
  using assms
proof (induction es arbitrary: ns)
  case Nil
  then show ?case by (simp add: map_nth)
next
  case (Cons e es)
  obtain nm i where e: "e = (nm, i)" by (cases e)
  let ?ns = "ns[i := (ns ! i)\<lparr>i_data := g (ns ! i)\<rparr>]"
  have nm: "map_of es nm = None" using Cons.prems(2) by (simp add: e map_of_eq_None_iff)
  have i: "i \<notin> ran (map_of es)"
  proof
    assume "i \<in> ran (map_of es)"
    then obtain b where b: "map_of es b = Some i" by (auto simp: ran_def)
    then have "nm = b" using no_linksD [OF Cons.prems(1), of nm i b] by (auto simp: e split: if_splits)
    with nm b show False by simp
  qed
  have ran: "ran (\<lambda>a. if a = nm then Some i else map_of es a) = insert i (ran (map_of es))"
    using nm by (auto simp: ran_def split: if_splits) (metis option.distinct(1))
  have "no_links (map_of es)"
    unfolding no_links_def
  proof (intro allI impI)
    fix a b j
    assume ab: "map_of es a = Some j" "map_of es b = Some j"
    then have "a \<noteq> nm" "b \<noteq> nm" using nm by auto
    with ab show "a = b" using no_linksD [OF Cons.prems(1), of a j b] by (simp add: e)
  qed
  with Cons.IH [of ?ns] Cons.prems(2,3) show ?case
    using i by (auto simp: e ran nth_list_update intro!: nth_equalityI)
qed

text \<open>
  A crash keeps the synced bytes of every file the synced directory names, and nothing else.
\<close>

lemma abs_sim_crash_with:
  assumes "wf_sim f"
  shows "abs_sim (crash_with g f) = (abs_sim f)\<lparr>
    d_data := (\<lambda>i. if i \<in> ran (map_of (fs_durable f)) then g (fs_inodes f ! i) else d_data (abs_sim f) i),
    d_dir := map_of (fs_durable f)\<rparr>"
  and "wf_sim (crash_with g f)"
proof -
  have dur: "no_links (map_of (fs_durable f))" "distinct (map fst (fs_durable f))"
    "\<forall>(nm, i)\<in>set (fs_durable f). i < length (fs_inodes f)"
    using assms by (auto simp: wf_sim_def)
  have lt: "i < length (fs_inodes f)" if "i \<in> ran (map_of (fs_durable f))" for i
    using that wf_sim_dir(2) [OF assms] by (auto simp: ran_def)
  show "abs_sim (crash_with g f) = (abs_sim f)\<lparr>
    d_data := (\<lambda>i. if i \<in> ran (map_of (fs_durable f)) then g (fs_inodes f ! i) else d_data (abs_sim f) i),
    d_dir := map_of (fs_durable f)\<rparr>"
    by (auto simp: crash_with_def crash_fold [OF dur] abs_sim_def fun_eq_iff lt)
  show "wf_sim (crash_with g f)"
    using assms by (auto simp: crash_with_def crash_fold [OF dur] wf_sim_def)
qed

lemma sim_Crash_refines:
  assumes "wf_sim f"
  shows "abs_sim (sim_Crash f) = disk_crash (abs_sim f)" "wf_sim (sim_Crash f)"
proof -
  have lt: "i < length (fs_inodes f)" if "i \<in> ran (map_of (fs_durable f))" for i
    using that wf_sim_dir(2) [OF assms] by (auto simp: ran_def)
  show "abs_sim (sim_Crash f) = disk_crash (abs_sim f)"
    unfolding sim_Crash_def abs_sim_crash_with [OF assms] disk_crash_def
    by (rule disk.equality) (auto simp: fun_eq_iff lt, auto simp: abs_sim_def lt)
  show "wf_sim (sim_Crash f)" unfolding sim_Crash_def by (rule abs_sim_crash_with(2) [OF assms])
qed

text \<open>Only the two syncs touch what a power cut would leave.\<close>

lemma survived_sim:
  "survived (abs_sim f) nm = map_option (\<lambda>i. if i < length (fs_inodes f) then i_durable (fs_inodes f ! i) else []) (map_of (fs_durable f) nm)"
  by (simp add: survived_def abs_sim_def)

lemma survived_same_durable:
  assumes "fs_durable g = fs_durable f" "map i_durable (fs_inodes g) = map i_durable (fs_inodes f)"
  shows "survived (abs_sim g) = survived (abs_sim f)"
proof -
  have len: "length (fs_inodes g) = length (fs_inodes f)" using assms(2) by (metis length_map)
  then have "i_durable (fs_inodes g ! i) = i_durable (fs_inodes f ! i)" if "i < length (fs_inodes f)" for i
    using assms(2) that by (metis nth_map)
  then show ?thesis by (auto simp: fun_eq_iff survived_sim assms(1) len intro!: option.map_cong0)
qed

lemma set_node_durable:
  "i_durable n = i_durable (sim_node h f) \<Longrightarrow> map i_durable (fs_inodes (set_sim_node h n f)) = map i_durable (fs_inodes f)"
  by (cases "f_node (sim_file h f) < length (fs_inodes f)") (simp_all add: set_sim_node_def sim_node_def map_update list_update_same_conv list_update_beyond)

lemma sim_Append_quiet:
  assumes "wf_sim f" "simFile_Append h p f = (q, f')"
  shows "wf_sim f' \<and> survived (abs_sim f') = survived (abs_sim f)"
  using assms wf_sim_set_node [OF assms(1)]
  by (auto simp: simFile_Append_def split: if_splits intro!: survived_same_durable set_node_durable) (simp add: set_sim_node_def)

lemma sim_Truncate_quiet:
  assumes "wf_sim f" "simFile_Truncate h n f = (e, f')"
  shows "wf_sim f' \<and> survived (abs_sim f') = survived (abs_sim f)"
  using assms wf_sim_set_node [OF assms(1)]
  by (auto simp: simFile_Truncate_def split: if_splits intro!: survived_same_durable set_node_durable) (simp add: set_sim_node_def)

lemma sim_Close_quiet:
  assumes "wf_sim f" "simFile_Close h f = (e, f')"
  shows "wf_sim f' \<and> (abs_sim f' = abs_sim f \<or> abs_sim f' = disk_close h (abs_sim f))"
proof -
  have e: "e = None" using assms(2) by (simp add: simFile_Close_def)
  show ?thesis
  proof (cases "d_node (abs_sim f) h")
    case (Some i)
    show ?thesis using sim_Close_law [OF assms(1) Some assms(2) [unfolded e]] by simp
  next
    case None
    have f': "f' = f\<lparr>fs_files := (fs_files f)[h := (sim_file h f)\<lparr>f_closed := True\<rparr>]\<rparr>" using assms(2) by (simp add: simFile_Close_def)
    show ?thesis
    proof (cases "h < length (fs_files f)")
      case True
      then have "f_closed (fs_files f ! h)" using None by (simp add: abs_sim_def split: if_splits)
      then have "(fs_files f ! h)\<lparr>f_closed := True\<rparr> = fs_files f ! h" by (cases "fs_files f ! h") simp
      then have "(fs_files f)[h := (sim_file h f)\<lparr>f_closed := True\<rparr>] = fs_files f" by (simp add: sim_file_def)
      then show ?thesis using assms(1) f' by simp
    qed (use assms(1) f' in \<open>simp add: list_update_beyond\<close>)
  qed
qed

lemma sim_dir_failed:
  "sim_Create nm f = (Inl x, f') \<Longrightarrow> f' = f" "sim_Open nm f = (Inl x, f') \<Longrightarrow> f' = f"
  "sim_Remove nm f = (Some x, f') \<Longrightarrow> f' = f" "sim_Rename nm nm' f = (Some x, f') \<Longrightarrow> f' = f"
  by (auto simp: sim_Create_def sim_Open_def sim_Remove_def sim_Rename_def Let_def split: option.splits if_splits)

lemma sim_dir_quiet:
  assumes "wf_sim f"
  shows "sim_Create nm f = (r, f') \<Longrightarrow> wf_sim f' \<and> survived (abs_sim f') = survived (abs_sim f)"
    "sim_Open nm f = (r, f') \<Longrightarrow> wf_sim f' \<and> survived (abs_sim f') = survived (abs_sim f)"
    "sim_Remove nm f = (e, f') \<Longrightarrow> wf_sim f' \<and> survived (abs_sim f') = survived (abs_sim f)"
    "sim_Rename nm nm' f = (e, f') \<Longrightarrow> wf_sim f' \<and> survived (abs_sim f') = survived (abs_sim f)"
proof -
  show "sim_Create nm f = (r, f') \<Longrightarrow> wf_sim f' \<and> survived (abs_sim f') = survived (abs_sim f)"
    using sim_Create_law [OF assms, of nm _ f'] sim_dir_failed(1) [of nm f _ f'] assms by (cases r) auto
  show "sim_Open nm f = (r, f') \<Longrightarrow> wf_sim f' \<and> survived (abs_sim f') = survived (abs_sim f)"
    using sim_Open_law [OF assms, of nm _ f'] sim_dir_failed(2) [of nm f _ f'] assms by (cases r) auto
  show "sim_Remove nm f = (e, f') \<Longrightarrow> wf_sim f' \<and> survived (abs_sim f') = survived (abs_sim f)"
    using sim_Remove_law [OF assms, of nm f'] sim_dir_failed(3) [of nm f _ f'] assms by (cases e) auto
  show "sim_Rename nm nm' f = (e, f') \<Longrightarrow> wf_sim f' \<and> survived (abs_sim f') = survived (abs_sim f)"
    using sim_Rename_law [OF assms, of nm nm' f'] sim_dir_failed(4) [of nm nm' f _ f'] assms by (cases e) auto
qed

interpretation sim_cut: crash_filesystem sim_ops abs_sim wf_sim
proof (unfold_locales, goal_cases)
  case (1 s nm r s') then show ?case using sim_dir_quiet(1) by (simp add: sim_ops_def)
next
  case (2 s nm r s') then show ?case using sim_dir_quiet(2) by (simp add: sim_ops_def)
next
  case (3 s nm e s') then show ?case using sim_dir_quiet(3) by (simp add: sim_ops_def)
next
  case (4 s old new e s') then show ?case using sim_dir_quiet(4) by (simp add: sim_ops_def)
next
  case (5 s h p q s') then show ?case using sim_Append_quiet by (simp add: sim_ops_def)
next
  case (6 s h n e s') then show ?case using sim_Truncate_quiet by (simp add: sim_ops_def)
next
  case (7 s h e s') then show ?case using sim_Close_quiet by (simp add: sim_ops_def)
qed (auto simp: sim_ops_def sim_Sync_def simFile_Sync_def split: if_splits)

end
