(* ===== verification/Core_Event.thy ===== *)
theory Core_Event
  imports Spine_Prelude
begin

text \<open>
  \<^verbatim>\<open>core/event.go\<close>: events, commands, their validation, and the canonical encoding that is
  both what a projection digest hashes and what the log frames.
\<close>

definition MaxKeyLen :: nat where
  "MaxKeyLen = 2 ^ 16 - 1"

definition headerBytes :: nat where
  "headerBytes = 28"

definition MaxPayloadLen :: nat where
  "MaxPayloadLen = 2 ^ 32 - 1 - headerBytes - MaxKeyLen"

record event =
  e_Key :: string
  e_Time :: Time
  e_Schema :: "16 word"
  e_Payload :: bytes

definition Event_Validate :: "event \<Rightarrow> error option" where
  "Event_Validate e =
     (if sint (e_Time e) < 0 then
        Some (Errorf ''%w: time must not be negative, got %d'' [Sentinel ErrInvalidEvent])
      else if e_Schema e = 0 then
        Some (Errorf ''%w: schema version must be positive'' [Sentinel ErrInvalidEvent])
      else if length (e_Key e) > MaxKeyLen then
        Some (Errorf ''%w: key is %d bytes, limit is %d'' [Sentinel ErrInvalidEvent])
      else if length (e_Payload e) > MaxPayloadLen then
        Some (Errorf ''%w: payload is %d bytes, limit is %d'' [Sentinel ErrInvalidEvent])
      else None)"

definition Event_AppendCanonical :: "event \<Rightarrow> bytes \<Rightarrow> bytes" where
  "Event_AppendCanonical e dst =
     dst @ le_bytes 8 (e_Time e) @ le_bytes 2 (e_Schema e)
       @ le_bytes 2 (word_of_nat (length (e_Key e)) :: 16 word) @ bytes_of (e_Key e) @ e_Payload e"

record command =
  c_Name :: string
  c_Key :: string
  c_Payload :: bytes

definition Command_Validate :: "command \<Rightarrow> error option" where
  "Command_Validate c =
     (if c_Name c = '''' then Some (Errorf ''%w: name is required'' [Sentinel ErrInvalidCommand])
      else if length (c_Key c) > MaxKeyLen then
        Some (Errorf ''%w: key is %d bytes, limit is %d'' [Sentinel ErrInvalidCommand])
      else None)"

definition errMissingDep :: "string \<Rightarrow> error" where
  "errMissingDep name = Errorf (''core: dependency '' @ name @ '' is nil'') []"

section \<open>Facts\<close>

lemma Event_Validate_error:
  "Event_Validate e = Some err \<Longrightarrow> errors_Is err s \<longleftrightarrow> s = ErrInvalidEvent"
  by (auto simp: Event_Validate_def split: if_splits)

lemma Command_Validate_error:
  "Command_Validate c = Some err \<Longrightarrow> errors_Is err s \<longleftrightarrow> s = ErrInvalidCommand"
  by (auto simp: Command_Validate_def split: if_splits)

lemma Event_Validate_None:
  "Event_Validate e = None \<longleftrightarrow> 0 \<le> sint (e_Time e) \<and> e_Schema e \<noteq> 0 \<and>
     length (e_Key e) \<le> MaxKeyLen \<and> length (e_Payload e) \<le> MaxPayloadLen"
  by (auto simp: Event_Validate_def)

text \<open>The key's length field carries the length it was given, because validation bounds it.\<close>

lemma unat_key_length:
  "length k \<le> MaxKeyLen \<Longrightarrow> unat (word_of_nat (length k) :: 16 word) = length k"
  by (simp add: MaxKeyLen_def unat_of_nat take_bit_eq_mod)

lemma length_AppendCanonical [simp]:
  "length (Event_AppendCanonical e dst) = length dst + 12 + length (e_Key e) + length (e_Payload e)"
  by (simp add: Event_AppendCanonical_def)

lemma AppendCanonical_append: "Event_AppendCanonical e dst = dst @ Event_AppendCanonical e []"
  by (simp add: Event_AppendCanonical_def)

lemma AppendCanonical_inject:
  assumes "length (e_Key a) \<le> MaxKeyLen" "length (e_Key b) \<le> MaxKeyLen"
    and eq: "Event_AppendCanonical a [] = Event_AppendCanonical b []"
  shows "a = b"
proof -
  have "le_bytes 8 (e_Time a) = le_bytes 8 (e_Time b)" "le_bytes 2 (e_Schema a) = le_bytes 2 (e_Schema b)"
    and len: "le_bytes 2 (word_of_nat (length (e_Key a)) :: 16 word)
            = le_bytes 2 (word_of_nat (length (e_Key b)) :: 16 word)"
    and rest: "bytes_of (e_Key a) @ e_Payload a = bytes_of (e_Key b) @ e_Payload b"
    using eq by (simp_all add: Event_AppendCanonical_def)
  then have "e_Time a = e_Time b" "e_Schema a = e_Schema b" by (simp_all add: le_bytes_inject)
  moreover have key: "length (e_Key a) = length (e_Key b)"
  proof -
    have "(word_of_nat (length (e_Key a)) :: 16 word) = word_of_nat (length (e_Key b))"
      using len by (simp add: le_bytes_inject)
    then show ?thesis using assms(1,2) unat_key_length by metis
  qed
  moreover have "bytes_of (e_Key a) = bytes_of (e_Key b)" and "e_Payload a = e_Payload b"
    using rest key by (simp_all add: append_eq_append_conv)
  moreover from this have "e_Key a = e_Key b" by (metis string_of_bytes_of)
  ultimately show ?thesis by simp
qed

end
