(* ===== verification/Crc32c.thy ===== *)
theory Crc32c
  imports Spine_Prelude
begin

text \<open>
  CRC32C as \<^verbatim>\<open>hash/crc32\<close> computes it with the Castagnoli table, which is what
  \<^verbatim>\<open>log/record.go\<close> checks records with, and the property the log relies on: damage
  confined to one byte always changes the checksum.
\<close>

definition poly :: "32 word" where
  "poly = 0x82f63b78"

text \<open>One turn of the inner loop of \<^verbatim>\<open>crc32.MakeTable\<close>.\<close>

definition crc_bit :: "32 word \<Rightarrow> 32 word" where
  "crc_bit c = (if bit c 0 then drop_bit 1 c XOR poly else drop_bit 1 c)"

text \<open>\<^verbatim>\<open>castagnoli[i]\<close>: eight turns from the index.\<close>

definition castagnoli :: "byte \<Rightarrow> 32 word" where
  "castagnoli i = (crc_bit ^^ 8) (ucast i)"

text \<open>One byte of \<^verbatim>\<open>crc32.Update\<close>: \<open>crc = tab[byte(crc)^v] ^ (crc >> 8)\<close>.\<close>

definition crc_byte :: "32 word \<Rightarrow> byte \<Rightarrow> 32 word" where
  "crc_byte c v = castagnoli (ucast c XOR v) XOR drop_bit 8 c"

definition crc32_Update :: "32 word \<Rightarrow> bytes \<Rightarrow> 32 word" where
  "crc32_Update crc p = NOT (foldl crc_byte (NOT crc) p)"

section \<open>The step is linear and injective\<close>

lemma crc_bit_xor: "crc_bit (a XOR b) = crc_bit a XOR crc_bit b"
  by (rule bit_word_eqI) (auto simp: crc_bit_def bit_xor_iff bit_drop_bit_eq)

lemma crc_bits_xor: "(crc_bit ^^ n) (a XOR b) = (crc_bit ^^ n) a XOR (crc_bit ^^ n) b"
  by (induction n) (simp_all add: crc_bit_xor)

text \<open>Bits above the lowest \<open>n\<close> are only shifted by \<open>n\<close> turns.\<close>

lemma crc_bits_high: "(\<And>k. k < n \<Longrightarrow> \<not> bit c k) \<Longrightarrow> (crc_bit ^^ n) c = drop_bit n c"
proof (induction n)
  case (Suc n)
  then have "(crc_bit ^^ n) c = drop_bit n c" by simp
  moreover have "\<not> bit (drop_bit n c) 0" using Suc.prems [of n] by (simp add: bit_drop_bit_eq)
  ultimately show ?case by (simp add: crc_bit_def [of "drop_bit n c"])
qed simp

lemma crc_byte_bitwise: "crc_byte c v = (crc_bit ^^ 8) (c XOR ucast v)"
proof -
  let ?low = "ucast (ucast c XOR v) :: 32 word" and ?high = "push_bit 8 (drop_bit 8 c) :: 32 word"
  have split: "c XOR ucast v = ?low XOR ?high"
    by (rule bit_word_eqI) (auto simp: bit_simps)
  have "(crc_bit ^^ 8) ?high = drop_bit 8 c"
    by (subst crc_bits_high) (auto simp: bit_simps intro!: bit_word_eqI, drule bit_imp_le_length, simp)
  then show ?thesis by (simp add: crc_byte_def castagnoli_def split crc_bits_xor)
qed

lemma crc_bit_31: "bit (crc_bit c) 31 = bit c 0"
proof -
  have "\<not> bit (drop_bit 1 c) 31" using bit_imp_le_length [of c 32] by (auto simp: bit_drop_bit_eq)
  moreover have "bit poly 31" by (simp add: poly_def)
  ultimately show ?thesis by (simp add: crc_bit_def bit_xor_iff)
qed

lemma inj_crc_bit: "inj crc_bit"
proof (rule injI)
  fix a b
  assume eq: "crc_bit a = crc_bit b"
  then have zero: "bit a 0 = bit b 0" using crc_bit_31 by metis
  then have "drop_bit 1 a = drop_bit 1 b"
    using eq by (auto simp: crc_bit_def split: if_splits)
  then have "bit a (Suc k) = bit b (Suc k)" for k by (metis bit_drop_bit_eq plus_1_eq_Suc comp_apply)
  with zero show "a = b" by (metis bit_eq_iff not0_implies_Suc)
qed

lemma inj_crc_bits: "inj (crc_bit ^^ n)"
  by (induction n) (auto intro!: inj_compose [OF inj_crc_bit, unfolded comp_def])

lemma crc_byte_inject_state: "crc_byte c v = crc_byte d v \<longleftrightarrow> c = d"
  by (simp add: crc_byte_bitwise inj_eq [OF inj_crc_bits])

lemma crc_byte_inject_byte: "crc_byte c v = crc_byte c w \<longleftrightarrow> v = w"
  by (simp add: crc_byte_bitwise inj_eq [OF inj_crc_bits] ucast_up_inject)

lemma foldl_crc_inject: "foldl crc_byte c p = foldl crc_byte d p \<longleftrightarrow> c = d"
  by (induction p arbitrary: c d) (simp_all add: crc_byte_inject_state)

lemma crc32_Update_inject_state: "crc32_Update c p = crc32_Update d p \<longleftrightarrow> c = d"
  by (simp add: crc32_Update_def foldl_crc_inject)

lemma crc32_Update_append: "crc32_Update c (p @ q) = crc32_Update (crc32_Update c p) q"
  by (simp add: crc32_Update_def)

text \<open>A change confined to one byte always changes the checksum.\<close>

lemma crc32_Update_one_byte:
  assumes "i < length p" "p ! i \<noteq> x"
  shows "crc32_Update c (p[i := x]) \<noteq> crc32_Update c p"
proof -
  have p: "p = take i p @ p ! i # drop (Suc i) p" using assms(1) by (rule id_take_nth_drop)
  have px: "p[i := x] = take i p @ x # drop (Suc i) p" using assms(1) by (simp add: upd_conv_take_nth_drop)
  have "foldl crc_byte (NOT c) (p[i := x]) \<noteq> foldl crc_byte (NOT c) p"
    unfolding px by (subst (3) p) (simp add: foldl_crc_inject crc_byte_inject_byte assms(2) [symmetric])
  then show ?thesis by (simp add: crc32_Update_def)
qed

end
