(* ===== verification/Log_Record.thy ===== *)
theory Log_Record
  imports Core_Event Crc32c
begin

text \<open>
  \<^verbatim>\<open>log/record.go\<close>: the framing of one record, its checksum, and the decoder that trusts
  nothing it reads.
\<close>

section \<open>Constants and helpers\<close>

definition HeaderLen :: nat where "HeaderLen = 28"
definition crcStart :: nat where "crcStart = 16"
definition offsetField :: nat where "offsetField = 0"
definition lengthField :: nat where "lengthField = 8"
definition crcField :: nat where "crcField = 12"
definition timeField :: nat where "timeField = 16"
definition schemaField :: nat where "schemaField = 24"
definition keyLenField :: nat where "keyLenField = 26"
definition MaxRecordLen :: nat where "MaxRecordLen = 64 * 2 ^ 20"

lemmas layout_defs = HeaderLen_def crcStart_def offsetField_def lengthField_def crcField_def
  timeField_def schemaField_def keyLenField_def

text \<open>Go's \<open>b[a : a+n]\<close>.\<close>

definition bslice :: "nat \<Rightarrow> nat \<Rightarrow> bytes \<Rightarrow> bytes" where
  "bslice a n b = take n (drop a b)"

section \<open>Encoding\<close>

definition readLength :: "bytes \<Rightarrow> 32 word" where
  "readLength header = le_word (bslice lengthField 4 header)"

definition RecordLen :: "event \<Rightarrow> nat" where
  "RecordLen e = HeaderLen + length (e_Key e) + length (e_Payload e)"

definition checksum :: "bytes \<Rightarrow> 32 word" where
  "checksum record =
     (let sum = crc32_Update 0 (bslice offsetField 8 record) in crc32_Update sum (drop crcStart record))"

definition appendRecord :: "bytes \<Rightarrow> Offset \<Rightarrow> event \<Rightarrow> bytes \<times> error option" where
  "appendRecord dst off e =
     (case Event_Validate e of
        Some err \<Rightarrow> (dst, Some err)
      | None \<Rightarrow>
          let total = RecordLen e in
          if total > MaxRecordLen then (dst, Some (Errorf ''log: record is %d bytes, limit is %d'' []))
          else
            let start = length dst;
                dst = dst @ le_bytes 8 off;
                dst = dst @ le_bytes 4 (word_of_nat total :: 32 word);
                dst = dst @ le_bytes 4 (0 :: 32 word);
                dst = Event_AppendCanonical e dst;
                sum = checksum (drop start dst)
            in (take (start + crcField) dst @ le_bytes 4 sum @ drop (start + crcField + 4) dst, None))"

section \<open>Decoding\<close>

record Record =
  r_Offset :: Offset
  r_Event :: event
  r_Len :: nat

definition decodeRecord :: "bytes \<Rightarrow> Record res" where
  "decodeRecord b =
     (if length b < HeaderLen then
        Inl (Errorf ''%w: %d bytes available, header is %d'' [Sentinel ErrTorn])
      else
        let total = unat (le_word (bslice lengthField 4 b) :: 32 word) in
        if total < HeaderLen then
          Inl (Errorf ''%w: length field is %d, below the %d byte header'' [Sentinel ErrCorrupt])
        else if total > MaxRecordLen then
          Inl (Errorf ''%w: length field is %d, above the %d byte limit'' [Sentinel ErrCorrupt])
        else if total > length b then
          Inl (Errorf ''%w: record claims %d bytes, %d available'' [Sentinel ErrTorn])
        else
          let want = le_word (bslice crcField 4 b) in
          if checksum (take total b) \<noteq> want then
            Inl (Errorf ''%w: checksum is %08x, want %08x'' [Sentinel ErrCorrupt])
          else
            let keyLen = unat (le_word (bslice keyLenField 2 b) :: 16 word) in
            if HeaderLen + keyLen > total then
              Inl (Errorf ''%w: key length %d runs past the %d byte record'' [Sentinel ErrCorrupt])
            else
              let rec = \<lparr>r_Offset = le_word (bslice offsetField 8 b),
                         r_Event = \<lparr>e_Key = string_of (bslice HeaderLen keyLen b),
                                    e_Time = le_word (bslice timeField 8 b),
                                    e_Schema = le_word (bslice schemaField 2 b),
                                    e_Payload = bslice (HeaderLen + keyLen) (total - (HeaderLen + keyLen)) b\<rparr>,
                         r_Len = total\<rparr>
              in (case Event_Validate (r_Event rec) of
                    Some err \<Rightarrow> Inl (Errorf ''%w: %w'' [Sentinel ErrCorrupt, err])
                  | None \<Rightarrow> Inr rec))"

definition decodeRecordAt :: "bytes \<Rightarrow> Offset \<Rightarrow> Record res" where
  "decodeRecordAt b want =
     (case decodeRecord b of
        Inl err \<Rightarrow> Inl err
      | Inr rec \<Rightarrow>
          if r_Offset rec \<noteq> want then
            Inl (Errorf ''%w: record carries offset %d, expected %d'' [Sentinel ErrCorrupt])
          else Inr rec)"

section \<open>The layout as one expression\<close>

definition framable :: "event \<Rightarrow> bool" where
  "framable e \<longleftrightarrow> Event_Validate e = None \<and> RecordLen e \<le> MaxRecordLen"

definition record_sum :: "Offset \<Rightarrow> event \<Rightarrow> 32 word" where
  "record_sum off e = crc32_Update (crc32_Update 0 (le_bytes 8 off)) (Event_AppendCanonical e [])"

definition encode :: "Offset \<Rightarrow> event \<Rightarrow> bytes" where
  "encode off e = le_bytes 8 off @ le_bytes 4 (word_of_nat (RecordLen e) :: 32 word)
     @ le_bytes 4 (record_sum off e) @ Event_AppendCanonical e []"

lemma length_encode [simp]: "length (encode off e) = RecordLen e"
  by (simp add: encode_def RecordLen_def HeaderLen_def)

lemma RecordLen_ge [simp]: "HeaderLen \<le> RecordLen e" "0 < RecordLen e"
  by (simp_all add: RecordLen_def HeaderLen_def)

lemma encode_nonempty [simp]: "encode off e \<noteq> []"
  using length_encode [of off e] RecordLen_ge(2) [of e] by (metis less_numeral_extra(3) list.size(3))

lemma framableD:
  assumes "framable e"
  shows "Event_Validate e = None" "RecordLen e \<le> MaxRecordLen" "length (e_Key e) \<le> MaxKeyLen"
    and "unat (word_of_nat (RecordLen e) :: 32 word) = RecordLen e"
  using assms by (auto simp: framable_def Event_Validate_None unat_of_nat take_bit_eq_mod MaxRecordLen_def)

text \<open>Writing the checksum over its own placeholder gives the layout the format table shows.\<close>

lemma appendRecord_framable:
  assumes "framable e"
  shows "appendRecord dst off e = (dst @ encode off e, None)"
proof -
  have "drop 16 (Event_AppendCanonical e (le_bytes 8 off @ le_bytes 4 t @ le_bytes 4 z)) =
      Event_AppendCanonical e []" for t z :: "32 word"
    by (subst AppendCanonical_append) simp
  with framableD [OF assms] show ?thesis
    by (simp add: appendRecord_def Let_def AppendCanonical_append [of e "_ @ _"] checksum_def bslice_def
        layout_defs encode_def record_sum_def)
qed

lemma appendRecord_error:
  assumes "\<not> framable e"
  shows "\<exists>err. appendRecord dst off e = (dst, Some err)"
  using assms by (auto simp: appendRecord_def framable_def Let_def split: option.splits)

lemma appendRecord_cases:
  "appendRecord dst off e = (if framable e then (dst @ encode off e, None)
     else (dst, snd (appendRecord dst off e)))"
  using appendRecord_framable appendRecord_error [of e dst off] by auto

section \<open>Round trips\<close>

lemma slice_split: "bslice a (m + n) b = bslice a m b @ bslice (a + m) n b"
  by (simp add: bslice_def take_add add.commute)

lemma length_slice: "a + n \<le> length b \<Longrightarrow> length (bslice a n b) = n"
  by (simp add: bslice_def)

lemma take_slice: "take n b = bslice 0 n b"
  by (simp add: bslice_def)

lemma slice_take: "a + n \<le> m \<Longrightarrow> bslice a n (take m b) = bslice a n b"
  by (simp add: bslice_def drop_take min_def)

lemma nth_bslice: "j < n \<Longrightarrow> a + n \<le> length b \<Longrightarrow> bslice a n b ! j = b ! (a + j)"
  by (simp add: bslice_def)

lemma le_bytes_bslice:
  "a + n \<le> length b \<Longrightarrow> 8 * n \<le> LENGTH('a::len) \<Longrightarrow>
     le_bytes n (le_word (bslice a n b) :: 'a word) = bslice a n b"
  by (simp add: le_bytes_le_word length_slice)

lemma encode_fields:
  "bslice offsetField 8 (encode off e @ rest) = le_bytes 8 off"
  "bslice lengthField 4 (encode off e @ rest) = le_bytes 4 (word_of_nat (RecordLen e) :: 32 word)"
  "bslice crcField 4 (encode off e @ rest) = le_bytes 4 (record_sum off e)"
  "bslice timeField 8 (encode off e @ rest) = le_bytes 8 (e_Time e)"
  "bslice schemaField 2 (encode off e @ rest) = le_bytes 2 (e_Schema e)"
  "bslice keyLenField 2 (encode off e @ rest) = le_bytes 2 (word_of_nat (length (e_Key e)) :: 16 word)"
  "bslice HeaderLen (length (e_Key e)) (encode off e @ rest) = bytes_of (e_Key e)"
  "bslice (HeaderLen + length (e_Key e)) (length (e_Payload e)) (encode off e @ rest) = e_Payload e"
  "drop crcStart (encode off e) = Event_AppendCanonical e []"
  by (simp_all add: bslice_def layout_defs encode_def Event_AppendCanonical_def)

lemma checksum_encode: "checksum (encode off e) = record_sum off e"
  using encode_fields(1) [of off e "[]"] by (simp add: checksum_def record_sum_def encode_fields(9))

lemma decode_encode:
  assumes "framable e"
  shows "decodeRecord (encode off e @ rest) = Inr \<lparr>r_Offset = off, r_Event = e, r_Len = RecordLen e\<rparr>"
proof -
  have "RecordLen e - (HeaderLen + length (e_Key e)) = length (e_Payload e)"
    "HeaderLen + length (e_Key e) \<le> RecordLen e"
    by (simp_all add: RecordLen_def)
  moreover have ev: "\<lparr>e_Key = e_Key e, e_Time = e_Time e, e_Schema = e_Schema e, e_Payload = e_Payload e\<rparr> = e"
    by simp
  ultimately show ?thesis using framableD [OF assms]
    by (simp add: decodeRecord_def Let_def encode_fields le_word_le_bytes checksum_encode
        unat_key_length not_less add_increasing2) (simp only: ev option.case)
qed

text \<open>What the decoder accepts is what the encoder writes: it invents nothing.\<close>

lemma decode_sound:
  assumes "decodeRecord b = Inr r"
  shows "framable (r_Event r)" "r_Len r = RecordLen (r_Event r)" "r_Len r \<le> length b"
    and "take (r_Len r) b = encode (r_Offset r) (r_Event r)"
proof -
  define total where "total = unat (le_word (bslice lengthField 4 b) :: 32 word)"
  define keyLen where "keyLen = unat (le_word (bslice keyLenField 2 b) :: 16 word)"
  have bounds: "28 \<le> length b" "28 \<le> total" "total \<le> MaxRecordLen" "total \<le> length b" "28 + keyLen \<le> total"
    and sum: "checksum (take total b) = le_word (bslice crcField 4 b)"
    and r: "r = \<lparr>r_Offset = le_word (bslice 0 8 b),
              r_Event = \<lparr>e_Key = string_of (bslice 28 keyLen b), e_Time = le_word (bslice 16 8 b),
                e_Schema = le_word (bslice 24 2 b), e_Payload = bslice (28 + keyLen) (total - (28 + keyLen)) b\<rparr>,
              r_Len = total\<rparr>"
    and valid: "Event_Validate (r_Event r) = None"
    using assms unfolding decodeRecord_def Let_def total_def [symmetric] keyLen_def [symmetric]
    by (auto simp: layout_defs split: if_splits option.splits)
  have key: "length (e_Key (r_Event r)) = keyLen" and pay: "length (e_Payload (r_Event r)) = total - (28 + keyLen)"
    using bounds by (simp_all add: r length_slice)
  show len: "r_Len r = RecordLen (r_Event r)"
    using bounds by (simp add: RecordLen_def key pay HeaderLen_def) (simp add: r)
  then show "framable (r_Event r)" using valid bounds by (simp add: framable_def) (simp add: r)
  show "r_Len r \<le> length b" using bounds by (simp add: r)
  have canon: "Event_AppendCanonical (r_Event r) [] = bslice 16 (total - 16) b"
  proof -
    have "word_of_nat keyLen = (le_word (bslice keyLenField 2 b) :: 16 word)"
      by (simp add: keyLen_def)
    then have "Event_AppendCanonical (r_Event r) [] = bslice 16 8 b @ bslice 24 2 b @ bslice 26 2 b
        @ bslice 28 keyLen b @ bslice (28 + keyLen) (total - (28 + keyLen)) b"
      using bounds by (simp add: Event_AppendCanonical_def key) (simp add: r le_bytes_bslice keyLenField_def)
    also have "\<dots> = bslice 16 (8 + (2 + (2 + (keyLen + (total - (28 + keyLen)))))) b"
      unfolding slice_split by simp
    also have "8 + (2 + (2 + (keyLen + (total - (28 + keyLen))))) = total - 16" using bounds by linarith
    finally show ?thesis .
  qed
  have "record_sum (r_Offset r) (r_Event r) = checksum (take total b)"
    using bounds le_bytes_bslice [of 0 8 b, where 'a = 64]
    by (simp add: record_sum_def canon checksum_def layout_defs slice_take) (simp add: r bslice_def drop_take)
  moreover have "word_of_nat (RecordLen (r_Event r)) = (le_word (bslice lengthField 4 b) :: 32 word)"
    unfolding len [symmetric] by (simp add: r total_def)
  ultimately have "encode (r_Offset r) (r_Event r) =
      bslice 0 8 b @ bslice 8 4 b @ bslice 12 4 b @ bslice 16 (total - 16) b"
    using bounds by (simp add: encode_def canon sum) (simp add: r le_bytes_bslice layout_defs)
  also have "\<dots> = bslice 0 (8 + (4 + (4 + (total - 16)))) b" unfolding slice_split by simp
  finally show "take (r_Len r) b = encode (r_Offset r) (r_Event r)"
    using bounds by (simp add: take_slice) (simp add: r)
qed

lemma decode_Len: "decodeRecord b = Inr r \<Longrightarrow> HeaderLen \<le> r_Len r"
  using decode_sound(2) by simp

section \<open>Torn and damaged records\<close>

lemma decode_torn:
  assumes "framable e" "n < RecordLen e"
  shows "\<exists>err. decodeRecord (take n (encode off e)) = Inl err \<and> errors_Is err ErrTorn \<and> \<not> errors_Is err ErrCorrupt"
proof (cases "n < HeaderLen")
  case True
  then have "length (take n (encode off e)) < HeaderLen" by simp
  then show ?thesis unfolding decodeRecord_def by simp
next
  case False
  then have "bslice lengthField 4 (take n (encode off e)) = le_bytes 4 (word_of_nat (RecordLen e) :: 32 word)"
    using encode_fields(2) [of off e "[]"] by (simp add: slice_take lengthField_def HeaderLen_def)
  with False assms framableD [OF assms(1)] show ?thesis
    by (simp add: decodeRecord_def Let_def le_word_le_bytes)
qed

lemma decode_zeros:
  "\<exists>err. decodeRecord (replicate n 0) = Inl err \<and>
     (if n < HeaderLen then errors_Is err ErrTorn else errors_Is err ErrCorrupt)"
proof (cases "n < HeaderLen")
  case False
  then have "bslice lengthField 4 (replicate n (0 :: byte)) = replicate 4 0"
    by (simp add: bslice_def lengthField_def HeaderLen_def min_def)
  moreover have "(le_word (replicate k (0 :: byte)) :: 32 word) = 0" for k by (induction k) simp_all
  ultimately show ?thesis using False by (simp add: decodeRecord_def Let_def HeaderLen_def)
qed (simp add: decodeRecord_def)

text \<open>Which bytes of a record the checksum protects: all but the length field.\<close>

definition covered :: "event \<Rightarrow> nat \<Rightarrow> bool" where
  "covered e i \<longleftrightarrow> i < RecordLen e \<and> \<not> (lengthField \<le> i \<and> i < lengthField + 4)"

lemma bslice_update_outside: "i < a \<or> a + n \<le> i \<Longrightarrow> bslice a n (b[i := x]) = bslice a n b"
  by (auto simp: bslice_def drop_update_swap take_update_cancel drop_update_cancel not_less)

lemma bslice_update_inside: "a \<le> i \<Longrightarrow> bslice a n (b[i := x]) = (bslice a n b)[i - a := x]"
  by (simp add: bslice_def drop_update_swap take_update_swap)

lemma le_word_eq_iff:
  assumes "length a = n" "length b = n" "8 * n \<le> LENGTH('a::len)"
  shows "(le_word a :: 'a word) = le_word b \<longleftrightarrow> a = b"
  using le_bytes_le_word [OF assms(1,3)] le_bytes_le_word [OF assms(2,3)] by metis

text \<open>A changed byte the checksum covers makes it disagree with the stored one.\<close>

lemma checksum_damaged:
  assumes "covered e i" "x \<noteq> encode off e ! i"
  defines "b \<equiv> (encode off e)[i := x]"
  shows "checksum b \<noteq> le_word (bslice crcField 4 b)"
proof -
  have i: "i < RecordLen e" using assms(1) by (simp add: covered_def)
  have f: "bslice 0 8 (encode off e) = le_bytes 8 off" "bslice 12 4 (encode off e) = le_bytes 4 (record_sum off e)"
    "drop 16 (encode off e) = Event_AppendCanonical e []"
    using encode_fields(1,3) [of off e "[]"] encode_fields(9) [of off e] by (simp_all add: layout_defs)
  have diff: "p[j := x] \<noteq> p" if "j < length p" "p ! j \<noteq> x" for p j
    using that by (metis nth_list_update_eq)
  consider "i < 8" | "12 \<le> i" "i < 16" | "16 \<le> i"
    using assms(1) by (force simp: covered_def lengthField_def)
  then show ?thesis
  proof cases
    case 1
    then have "le_bytes 8 off ! i \<noteq> x" using assms(2) by (simp add: encode_def nth_append)
    with 1 have "crc32_Update 0 ((le_bytes 8 off)[i := x]) \<noteq> crc32_Update 0 (le_bytes 8 off)"
      by (intro crc32_Update_one_byte) simp_all
    with 1 show ?thesis
      by (simp add: b_def checksum_def layout_defs bslice_update_outside bslice_update_inside f
          drop_update_cancel le_word_le_bytes record_sum_def crc32_Update_inject_state)
  next
    case 2
    then have "le_bytes 4 (record_sum off e) ! (i - 12) \<noteq> x"
      using assms(2) nth_bslice [of "i - 12" 4 12 "encode off e"] RecordLen_ge(1) [of e]
      by (simp add: f HeaderLen_def)
    with 2 have "(le_bytes 4 (record_sum off e))[i - 12 := x] \<noteq> le_bytes 4 (record_sum off e)"
      by (intro diff) simp_all
    then have "(le_word ((le_bytes 4 (record_sum off e))[i - 12 := x]) :: 32 word) \<noteq> record_sum off e"
      using le_word_eq_iff [of "(le_bytes 4 (record_sum off e))[i - 12 := x]" 4 "le_bytes 4 (record_sum off e)",
          where 'a = 32] by (simp add: le_word_le_bytes)
    with 2 show ?thesis
      by (auto simp: b_def checksum_def layout_defs bslice_update_outside bslice_update_inside f
          drop_update_cancel record_sum_def)
  next
    case 3
    then have "Event_AppendCanonical e [] ! (i - 16) \<noteq> x"
      using assms(2) i by (simp add: f(3) [symmetric])
    moreover have "i - 16 < length (Event_AppendCanonical e [])"
      using i 3 by (simp add: RecordLen_def HeaderLen_def)
    ultimately have "crc32_Update c ((Event_AppendCanonical e [])[i - 16 := x]) \<noteq> crc32_Update c (Event_AppendCanonical e [])" for c
      by (intro crc32_Update_one_byte)
    with 3 show ?thesis
      by (simp add: b_def checksum_def layout_defs bslice_update_outside f
          drop_update_swap le_word_le_bytes record_sum_def)
  qed
qed

lemma decode_damaged:
  assumes "framable e" "covered e i" "x \<noteq> encode off e ! i"
  shows "\<exists>err. decodeRecord ((encode off e)[i := x] @ rest) = Inl err \<and> errors_Is err ErrCorrupt"
proof -
  let ?b = "(encode off e)[i := x]"
  have total: "bslice lengthField 4 (?b @ rest) = le_bytes 4 (word_of_nat (RecordLen e) :: 32 word)"
    using encode_fields(2) [of off e rest] assms(2)
      bslice_update_outside [of i lengthField 4 "encode off e @ rest" x]
    by (auto simp: covered_def list_update_append1 [symmetric] not_le not_less)
  have crc: "bslice crcField 4 (?b @ rest) = bslice crcField 4 ?b"
    using RecordLen_ge(1) [of e] by (simp add: bslice_def layout_defs)
  show ?thesis
    using framableD [OF assms(1)] checksum_damaged [OF assms(2,3)]
    by (simp add: decodeRecord_def Let_def total crc le_word_le_bytes not_less add_increasing2)
qed

section \<open>Decoding looks no further than the record\<close>

lemma decode_take:
  assumes "HeaderLen \<le> n" "n \<le> length b" "unat (le_word (bslice lengthField 4 b) :: 32 word) \<le> n"
  shows "decodeRecord (take n b) = decodeRecord b"
proof -
  define total where "total = unat (le_word (bslice lengthField 4 b) :: 32 word)"
  define keyLen where "keyLen = unat (le_word (bslice keyLenField 2 b) :: 16 word)"
  have s: "bslice a m (take n b) = bslice a m b" if "a + m \<le> n" for a m
    using that by (rule slice_take)
  have key: "bslice HeaderLen keyLen (take n b) = bslice HeaderLen keyLen b"
    "bslice (HeaderLen + keyLen) (total - (HeaderLen + keyLen)) (take n b) =
     bslice (HeaderLen + keyLen) (total - (HeaderLen + keyLen)) b"
    if "\<not> total < HeaderLen + keyLen"
    using that assms(3) by (auto simp: total_def intro!: s)
  have len: "length (take n b) = n" "take total (take n b) = take total b"
    using assms by (simp_all add: total_def min_def)
  show ?thesis
    using assms(1,2) s [of lengthField 4] s [of crcField 4] s [of keyLenField 2] s [of offsetField 8]
      s [of timeField 8] s [of schemaField 2] len(2) key
    unfolding decodeRecord_def Let_def len(1)
    by (simp add: layout_defs total_def [symmetric, unfolded layout_defs] keyLen_def [symmetric, unfolded layout_defs]
        cong: if_cong split: option.split) (use assms(3) in \<open>simp add: total_def layout_defs\<close>)
qed

end
