(* ===== verification/Log_Segment.thy ===== *)
theory Log_Segment
  imports Sim_FS Log_Record
begin

text \<open>
  \<^verbatim>\<open>log/segment.go\<close>: one append-only file of framed records and the sparse index over it.

  The buffers \<^verbatim>\<open>scratch\<close>, \<^verbatim>\<open>marks\<close> and \<^verbatim>\<open>one\<close>, which the Go keeps in the struct to avoid
  allocating, are local to the functions that fill them. File positions and lengths are
  naturals; the configured sizes stay integers, because the code tests them for being
  negative.
\<close>

section \<open>Names and options\<close>

definition DefaultMaxBytes :: int where "DefaultMaxBytes = 64 * 2 ^ 20"
definition DefaultIndexInterval :: int where "DefaultIndexInterval = 4 * 2 ^ 10"
definition segmentSuffix :: string where "segmentSuffix = ''.log''"
definition segmentDigits :: nat where "segmentDigits = 20"

record Options =
  o_MaxBytes :: int
  o_IndexInterval :: int

definition Options_withDefaults :: "Options \<Rightarrow> Options" where
  "Options_withDefaults opts =
     (let opts = (if o_MaxBytes opts \<le> 0 then opts\<lparr>o_MaxBytes := DefaultMaxBytes\<rparr> else opts)
      in if o_IndexInterval opts \<le> 0 then opts\<lparr>o_IndexInterval := DefaultIndexInterval\<rparr> else opts)"

definition segmentName :: "Offset \<Rightarrow> string" where
  "segmentName base = zero_padded segmentDigits (unat base) @ segmentSuffix"

text \<open>\<^verbatim>\<open>strings.CutSuffix\<close> and \<^verbatim>\<open>strings.CutPrefix\<close>.\<close>

definition CutSuffix :: "string \<Rightarrow> string \<Rightarrow> string option" where
  "CutSuffix s suffix =
     (if length suffix \<le> length s \<and> drop (length s - length suffix) s = suffix
      then Some (take (length s - length suffix) s) else None)"

definition CutPrefix :: "string \<Rightarrow> string \<Rightarrow> string option" where
  "CutPrefix s prefix = (if take (length prefix) s = prefix then Some (drop (length prefix) s) else None)"

definition parseSegmentName :: "string \<Rightarrow> Offset option" where
  "parseSegmentName name =
     (case CutSuffix name segmentSuffix of
        None \<Rightarrow> None
      | Some digits \<Rightarrow> if length digits \<noteq> segmentDigits then None else ParseUint64 digits)"

section \<open>State\<close>

record indexEntry =
  ix_offset :: Offset
  ix_pos :: nat

record segment =
  s_file :: handle
  s_name :: string
  s_opts :: Options
  s_base :: Offset
  s_next :: Offset
  s_size :: nat
  s_index :: "indexEntry list"
  s_indexed :: nat
  s_sealed :: bool
  s_maxBytes :: int
  s_count :: nat

definition fresh_segment :: "handle \<Rightarrow> string \<Rightarrow> Options \<Rightarrow> Offset \<Rightarrow> segment" where
  "fresh_segment f name opts base =
     \<lparr>s_file = f, s_name = name, s_opts = opts, s_base = base, s_next = base, s_size = 0,
      s_index = [\<lparr>ix_offset = base, ix_pos = 0\<rparr>], s_indexed = 0, s_sealed = False,
      s_maxBytes = o_MaxBytes opts, s_count = 0\<rparr>"

definition createNamed ::
  "'s fs_ops \<Rightarrow> string \<Rightarrow> Offset \<Rightarrow> Options \<Rightarrow> 's \<Rightarrow> segment res \<times> 's" where
  "createNamed F name base opts st =
     (let opts = Options_withDefaults opts in
      case fs_Create F name st of
        (Inl err, st) \<Rightarrow> (Inl (Errorf ''log: create segment %s: %w'' [err]), st)
      | (Inr f, st) \<Rightarrow> (Inr (fresh_segment f name opts base), st))"

definition newSegment :: "'s fs_ops \<Rightarrow> Offset \<Rightarrow> Options \<Rightarrow> 's \<Rightarrow> segment res \<times> 's" where
  "newSegment F base opts st = createNamed F (segmentName base) base opts st"

section \<open>Reading one record\<close>

definition readRecordFrom :: "'s fs_ops \<Rightarrow> segment \<Rightarrow> nat \<Rightarrow> Offset \<Rightarrow> 's \<Rightarrow> Record res" where
  "readRecordFrom F s pos at_least st =
     (case file_ReadAt F (s_file s) HeaderLen (int pos) st of
        (header, Some err) \<Rightarrow>
          if errors_Is err EOF then Inl (Errorf ''%w: %d header bytes at %d'' [Sentinel ErrTorn])
          else Inl (Errorf ''log: read %s at %d: %w'' [err])
      | (header, None) \<Rightarrow>
          let total = unat (readLength header) in
          if total < HeaderLen then
            Inl (Errorf ''%w: length field is %d, below the %d byte header'' [Sentinel ErrCorrupt])
          else if total > MaxRecordLen then
            Inl (Errorf ''%w: length field is %d, above the %d byte limit'' [Sentinel ErrCorrupt])
          else
            (case (if total > HeaderLen
                   then file_ReadAt F (s_file s) (total - HeaderLen) (int (pos + HeaderLen)) st
                   else ([], None)) of
               (body, Some err) \<Rightarrow>
                 if errors_Is err EOF then
                   Inl (Errorf ''%w: record claims %d bytes, %d available'' [Sentinel ErrTorn])
                 else Inl (Errorf ''log: read %s at %d: %w'' [err])
             | (body, None) \<Rightarrow>
                 (case decodeRecord (header @ body) of
                    Inl err \<Rightarrow> Inl err
                  | Inr rec \<Rightarrow>
                      if r_Offset rec < at_least then
                        Inl (Errorf ''%w: record at %d carries offset %d, below the %d expected there''
                               [Sentinel ErrCorrupt])
                      else Inr rec)))"

definition readRecordAt :: "'s fs_ops \<Rightarrow> segment \<Rightarrow> nat \<Rightarrow> Offset \<Rightarrow> 's \<Rightarrow> Record res" where
  "readRecordAt F s pos want st =
     (case readRecordFrom F s pos want st of
        Inl err \<Rightarrow> Inl err
      | Inr rec \<Rightarrow>
          if r_Offset rec \<noteq> want then
            Inl (Errorf ''%w: record at %d carries offset %d, expected %d'' [Sentinel ErrCorrupt])
          else Inr rec)"

lemma readRecordFrom_Len: "readRecordFrom F s pos lo st = Inr r \<Longrightarrow> 0 < r_Len r"
  using decode_Len
  by (fastforce simp: readRecordFrom_def Let_def HeaderLen_def
      split: prod.splits option.splits sum.splits if_splits)

section \<open>Appending\<close>

definition noteIndex :: "Offset \<Rightarrow> nat \<Rightarrow> segment \<Rightarrow> segment" where
  "noteIndex off pos s =
     (if int pos - int (s_indexed s) < o_IndexInterval (s_opts s) \<or> pos = 0 then s
      else s\<lparr>s_index := s_index s @ [\<lparr>ix_offset = off, ix_pos = pos\<rparr>], s_indexed := pos\<rparr>)"

text \<open>The staging loop of \<^verbatim>\<open>AppendAll\<close>: fill the buffer, remember where each record will lie.\<close>

fun stage_records ::
  "segment \<Rightarrow> Offset \<Rightarrow> event list \<Rightarrow> bytes \<Rightarrow> nat list \<Rightarrow> bytes \<times> nat list \<times> error option" where
  "stage_records s off [] scratch marks = (scratch, marks, None)"
| "stage_records s off (e # es) scratch marks =
     (let pos = s_size s + length scratch in
      case appendRecord scratch off e of
        (buf, Some err) \<Rightarrow> (scratch, marks, Some err)
      | (buf, None) \<Rightarrow>
          if int (s_size s + length buf) \<ge> s_maxBytes s then (buf, marks @ [pos], None)
          else stage_records s (off + 1) es buf (marks @ [pos]))"

fun note_marks :: "Offset \<Rightarrow> nat list \<Rightarrow> segment \<Rightarrow> segment" where
  "note_marks off [] s = s"
| "note_marks off (pos # marks) s = note_marks (off + 1) marks (noteIndex off pos s)"

definition seg_AppendAll ::
  "'s fs_ops \<Rightarrow> event list \<Rightarrow> segment \<Rightarrow> 's \<Rightarrow> (nat \<times> Offset \<times> error option) \<times> segment \<times> 's" where
  "seg_AppendAll F events s st =
     (if s_sealed s then ((0, 0, Some (Errorf ''log: append to %s: %w'' [Sentinel ErrSealed])), s, st)
      else if events = [] then ((0, s_next s, None), s, st)
      else
        let first = s_next s;
            (scratch, marks, encodeErr) = stage_records s first events [] [];
            n = length marks
        in if n = 0 then ((0, first, encodeErr), s, st)
           else (case file_Append F (s_file s) scratch st of
                   ((_, Some err), st) \<Rightarrow>
                     ((0, first, Some (Errorf ''log: append to %s: %w'' [err])), s\<lparr>s_sealed := True\<rparr>, st)
                 | ((_, None), st) \<Rightarrow>
                     let s = note_marks first marks s in
                     ((n, first, encodeErr),
                      s\<lparr>s_size := s_size s + length scratch, s_next := s_next s + word_of_nat n,
                        s_count := s_count s + n\<rparr>, st)))"

definition seg_Append ::
  "'s fs_ops \<Rightarrow> event \<Rightarrow> segment \<Rightarrow> 's \<Rightarrow> Offset res \<times> segment \<times> 's" where
  "seg_Append F e s st =
     (case seg_AppendAll F [e] s st of
        ((n, off, Some err), s, st) \<Rightarrow> (Inl err, s, st)
      | ((n, off, None), s, st) \<Rightarrow>
          if n \<noteq> 1 then (Inl (Errorf ''log: append to %s wrote %d records, want 1'' []), s, st)
          else (Inr off, s, st))"

definition seg_appendAt ::
  "'s fs_ops \<Rightarrow> Offset \<Rightarrow> event \<Rightarrow> segment \<Rightarrow> 's \<Rightarrow> error option \<times> segment \<times> 's" where
  "seg_appendAt F off e s st =
     (if off < s_next s then
        (Some (Errorf ''log: cannot write offset %d to %s, which is already at %d'' []), s, st)
      else
        (case appendRecord [] off e of
           (_, Some err) \<Rightarrow> (Some err, s, st)
         | (buf, None) \<Rightarrow>
             (case file_Append F (s_file s) buf st of
                ((_, Some err), st) \<Rightarrow>
                  (Some (Errorf ''log: append to %s: %w'' [err]), s\<lparr>s_sealed := True\<rparr>, st)
              | ((_, None), st) \<Rightarrow>
                  let s = noteIndex off (s_size s) s in
                  (None, s\<lparr>s_size := s_size s + length buf, s_next := off + 1, s_count := s_count s + 1\<rparr>, st))))"

section \<open>Looking up\<close>

function locate_loop ::
  "'s fs_ops \<Rightarrow> 's \<Rightarrow> segment \<Rightarrow> Offset \<Rightarrow> nat \<Rightarrow> Offset \<Rightarrow> (nat \<times> Offset) res" where
  "locate_loop F st s off pos at =
     (if pos < s_size s then
        (case readRecordFrom F s pos at st of
           Inl err \<Rightarrow> Inl err
         | Inr r \<Rightarrow>
             if r_Offset r \<ge> off then Inr (pos, r_Offset r)
             else locate_loop F st s off (pos + r_Len r) (r_Offset r + 1))
      else Inl (Errorf ''%w: %d is within segment %s but was not found on disk'' [Sentinel ErrNotFound]))"
  by pat_completeness auto
termination
  by (relation "measure (\<lambda>(F, st, s, off, pos, at). s_size s - pos)") (auto dest: readRecordFrom_Len)

declare locate_loop.simps [simp del]

definition locateFrom :: "'s fs_ops \<Rightarrow> segment \<Rightarrow> Offset \<Rightarrow> 's \<Rightarrow> (nat \<times> Offset) res" where
  "locateFrom F s off st =
     (let off = (if off < s_base s then s_base s else off) in
      if off \<ge> s_next s then
        Inl (Errorf ''%w: %d is outside segment %s, which holds [%d, %d)'' [Sentinel ErrNotFound])
      else
        let i = sort_Search (length (s_index s)) (\<lambda>i. ix_offset (s_index s ! i) > off);
            entry = s_index s ! (i - 1)
        in locate_loop F st s off (ix_pos entry) (ix_offset entry))"

definition seg_locate :: "'s fs_ops \<Rightarrow> segment \<Rightarrow> Offset \<Rightarrow> 's \<Rightarrow> nat res" where
  "seg_locate F s off st =
     (case locateFrom F s off st of
        Inl err \<Rightarrow> Inl err
      | Inr (pos, found) \<Rightarrow>
          if found \<noteq> off then Inl (Errorf ''%w: %d was compacted out of segment %s'' [Sentinel ErrNotFound])
          else Inr pos)"

definition seg_Read :: "'s fs_ops \<Rightarrow> segment \<Rightarrow> Offset \<Rightarrow> 's \<Rightarrow> Record res" where
  "seg_Read F s off st =
     (case seg_locate F s off st of
        Inl err \<Rightarrow> Inl err
      | Inr pos \<Rightarrow> readRecordAt F s pos off st)"

section \<open>Durability, sealing, closing\<close>

definition seg_Sync :: "'s fs_ops \<Rightarrow> segment \<Rightarrow> 's \<Rightarrow> error option \<times> 's" where
  "seg_Sync F s st =
     (case file_Sync F (s_file s) st of
        (Some err, st) \<Rightarrow> (Some (Errorf ''log: sync %s: %w'' [err]), st)
      | (None, st) \<Rightarrow> (None, st))"

definition seg_Seal :: "segment \<Rightarrow> segment" where
  "seg_Seal s = s\<lparr>s_sealed := True\<rparr>"

definition seg_Full :: "segment \<Rightarrow> bool" where
  "seg_Full s \<longleftrightarrow> int (s_size s) \<ge> s_maxBytes s"

definition seg_Close :: "'s fs_ops \<Rightarrow> segment \<Rightarrow> 's \<Rightarrow> error option \<times> 's" where
  "seg_Close F s st =
     (case file_Close F (s_file s) st of
        (Some err, st) \<Rightarrow> (Some (Errorf ''log: close %s: %w'' [err]), st)
      | (None, st) \<Rightarrow> (None, st))"

section \<open>Segment names\<close>

lemma length_segment_digits [simp]: "length (zero_padded segmentDigits (unat (b :: Offset))) = segmentDigits"
proof -
  have "unat b < 2 ^ LENGTH(64)" by (rule unsigned_less)
  then show ?thesis by (intro length_zero_padded) (simp_all add: segmentDigits_def)
qed

lemma parseSegmentName_segmentName [simp]: "parseSegmentName (segmentName b) = Some b"
  by (simp add: parseSegmentName_def segmentName_def CutSuffix_def)

lemma padded_digits_unique:
  assumes "list_all is_digit s" "length s = segmentDigits" "digits_val s = unat (b :: Offset)"
  shows "s = zero_padded segmentDigits (unat b)"
  using assms digits_less_iff [of s "zero_padded segmentDigits (unat b)"]
    digits_less_iff [of "zero_padded segmentDigits (unat b)" s] by simp

text \<open>A name that parses is the name the offset would be given: no two names mean one segment.\<close>

lemma parseSegmentName_Some: "parseSegmentName nm = Some b \<longleftrightarrow> nm = segmentName b"
proof
  assume p: "parseSegmentName nm = Some b"
  then obtain digits where d: "CutSuffix nm segmentSuffix = Some digits" "length digits = segmentDigits"
    "ParseUint64 digits = Some b" by (auto simp: parseSegmentName_def split: option.splits if_splits)
  then have "nm = digits @ segmentSuffix"
    by (auto simp: CutSuffix_def split: if_splits) (metis append_take_drop_id)
  moreover have "digits = zero_padded segmentDigits (unat b)"
    using d(2) ParseUint64_Some [OF d(3)] by (intro padded_digits_unique) simp_all
  ultimately show "nm = segmentName b" by (simp add: segmentName_def)
qed simp

lemma segmentName_inject [simp]: "segmentName a = segmentName b \<longleftrightarrow> a = b"
  by (metis option.inject parseSegmentName_segmentName)

text \<open>The directory listing sorts segments by offset.\<close>

lemma less_append_suffix:
  fixes a b :: string
  shows "length a = length b \<Longrightarrow> a @ s < b @ s \<longleftrightarrow> a < b"
  by (induction a b rule: list_induct2) auto

lemma segmentName_less_iff: "segmentName a < segmentName b \<longleftrightarrow> a < b"
  by (simp add: segmentName_def less_append_suffix digits_less_iff word_less_nat_alt)

lemma ValidateName_None:
  assumes "2 < length n" "length n \<le> MaxNameLen" "\<not> list_ex (\<lambda>c. c = CHR ''/'' \<or> c = CHR 0x5C) n"
    "\<not> list_ex (\<lambda>c. c = CHR 0x00) n"
  shows "ValidateName n = None"
  using assms by (auto simp: ValidateName_def)

lemma ValidateName_digits:
  assumes "list_all is_digit s" "length s = segmentDigits" "\<not> list_ex (\<lambda>c. c \<in> {CHR ''/'', CHR 0x5C, CHR 0x00}) (pre @ post)"
    "length (pre @ post) \<le> 200"
  shows "ValidateName (pre @ s @ post) = None"
proof -
  have "c \<noteq> CHR ''/'' \<and> c \<noteq> CHR 0x5C \<and> c \<noteq> CHR 0x00" if "c \<in> set s" for c
    using assms(1) that by (auto simp: list_all_iff is_digit_def)
  then have "\<not> list_ex (\<lambda>c. c = CHR ''/'' \<or> c = CHR 0x5C) (pre @ s @ post)" "\<not> list_ex (\<lambda>c. c = CHR 0x00) (pre @ s @ post)"
    using assms(3) unfolding list_ex_iff by auto
  moreover have "2 < length (pre @ s @ post)" "length (pre @ s @ post) \<le> MaxNameLen"
    using assms(2,4) by (simp_all add: segmentDigits_def MaxNameLen_def)
  ultimately show ?thesis by (intro ValidateName_None)
qed

lemma ValidateName_segmentName [simp]: "ValidateName (segmentName b) = None"
  unfolding segmentName_def
  by (rule ValidateName_digits [of _ "[]", simplified]) (simp_all add: segmentSuffix_def)

section \<open>What a segment file holds\<close>

text \<open>
  The abstract content of a segment is a list of offsets with their events. \<open>ascends\<close> is the
  ordering check the code performs, each offset at or above the successor of the one before;
  \<open>no_wrap\<close> keeps that successor from wrapping around.
\<close>

type_synonym entry = "Offset \<times> event"

definition seg_bytes :: "entry list \<Rightarrow> bytes" where
  "seg_bytes rs = concat (map (\<lambda>(off, e). encode off e) rs)"

fun ascends :: "Offset \<Rightarrow> entry list \<Rightarrow> bool" where
  "ascends lo [] = True"
| "ascends lo ((off, e) # rs) = (lo \<le> off \<and> ascends (off + 1) rs)"

fun end_off :: "Offset \<Rightarrow> entry list \<Rightarrow> Offset" where
  "end_off lo [] = lo"
| "end_off lo ((off, e) # rs) = end_off (off + 1) rs"

definition no_wrap :: "entry list \<Rightarrow> bool" where
  "no_wrap rs \<longleftrightarrow> (\<forall>r\<in>set rs. fst r \<noteq> - 1)"

definition records_ok :: "Offset \<Rightarrow> entry list \<Rightarrow> bool" where
  "records_ok lo rs \<longleftrightarrow> ascends lo rs \<and> no_wrap rs \<and> (\<forall>r\<in>set rs. framable (snd r))"

lemma seg_bytes_simps [simp]:
  "seg_bytes [] = []" "seg_bytes (r # rs) = encode (fst r) (snd r) @ seg_bytes rs"
  "seg_bytes (xs @ ys) = seg_bytes xs @ seg_bytes ys"
  by (simp_all add: seg_bytes_def case_prod_unfold)

lemma ascends_append: "ascends lo (xs @ ys) \<longleftrightarrow> ascends lo xs \<and> ascends (end_off lo xs) ys"
  by (induction xs arbitrary: lo) auto

lemma end_off_append [simp]: "end_off lo (xs @ ys) = end_off (end_off lo xs) ys"
  by (induction xs arbitrary: lo) auto

lemma no_wrap_simps [simp]:
  "no_wrap []" "no_wrap (r # rs) \<longleftrightarrow> fst r \<noteq> - 1 \<and> no_wrap rs"
  "no_wrap (xs @ ys) \<longleftrightarrow> no_wrap xs \<and> no_wrap ys"
  by (auto simp: no_wrap_def)

lemma records_ok_simps [simp]:
  "records_ok lo []"
  "records_ok lo (r # rs) \<longleftrightarrow> lo \<le> fst r \<and> fst r \<noteq> - 1 \<and> framable (snd r) \<and> records_ok (fst r + 1) rs"
  by (cases r, auto simp: records_ok_def)+

lemma records_ok_append:
  "records_ok lo (xs @ ys) \<longleftrightarrow> records_ok lo xs \<and> records_ok (end_off lo xs) ys"
  by (auto simp: records_ok_def ascends_append)

lemma end_off_Cons [simp]: "end_off lo (r # rs) = end_off (fst r + 1) rs"
  by (cases r) simp

lemma records_ok_ge: "records_ok lo rs \<Longrightarrow> lo \<le> end_off lo rs"
  and records_ok_range: "records_ok lo rs \<Longrightarrow> r \<in> set rs \<Longrightarrow> lo \<le> fst r \<and> fst r < end_off lo rs"
proof (induction rs arbitrary: lo)
  case (Cons a rs)
  {
    case 1
    then have "lo \<le> fst a" "fst a < fst a + 1" "records_ok (fst a + 1) rs" by (auto intro: word_less_succ)
    with Cons.IH(1) [of "fst a + 1"] show ?case by auto
  next
    case 2
    then have a: "lo \<le> fst a" "fst a < fst a + 1" "records_ok (fst a + 1) rs" by (auto intro: word_less_succ)
    with Cons.IH(1) [of "fst a + 1"] Cons.IH(2) [of "fst a + 1"] 2 show ?case by fastforce
  }
qed simp_all

section \<open>Reading from the bytes of the file\<close>

text \<open>
  Reading a header and then a body agrees with decoding the rest of the file in one go: the
  same record, or an error of the same classes.
\<close>

definition same_class :: "error \<Rightarrow> error \<Rightarrow> bool" where
  "same_class a b \<longleftrightarrow> (\<forall>s. errors_Is a s = errors_Is b s)"

definition read_outcome :: "Offset \<Rightarrow> Record res \<Rightarrow> Record res \<Rightarrow> bool" where
  "read_outcome lo decoded got \<longleftrightarrow>
     (case decoded of
        Inl err \<Rightarrow> \<exists>err'. got = Inl err' \<and> same_class err' err
      | Inr r \<Rightarrow> if r_Offset r < lo then \<exists>err'. got = Inl err' \<and> same_class err' (Sentinel ErrCorrupt)
               else got = Inr r)"

lemma unat_readLength_take: "12 \<le> n \<Longrightarrow> readLength (take n b) = readLength b"
  by (simp add: readLength_def lengthField_def slice_take)

section \<open>The representation of a segment\<close>

text \<open>
  An index entry splits the records: everything before its position lies below its offset,
  everything from it on at or above. \<open>seg_holds\<close> ties the fields of a segment to the records
  it stands for, \<open>seg_rep\<close> adds the bytes of its file.
\<close>

definition index_entry_ok :: "Offset \<Rightarrow> entry list \<Rightarrow> indexEntry \<Rightarrow> bool" where
  "index_entry_ok base rs e \<longleftrightarrow>
     (\<exists>xs ys. rs = xs @ ys \<and> ix_pos e = length (seg_bytes xs) \<and> end_off base xs \<le> ix_offset e \<and>
        records_ok (ix_offset e) ys \<and> end_off (ix_offset e) ys = end_off base rs)"

definition index_ok :: "Offset \<Rightarrow> entry list \<Rightarrow> indexEntry list \<Rightarrow> bool" where
  "index_ok base rs idx \<longleftrightarrow>
     idx \<noteq> [] \<and> ix_offset (hd idx) = base \<and> sorted (map ix_offset idx) \<and>
     (\<forall>e\<in>set idx. index_entry_ok base rs e)"

definition seg_holds :: "segment \<Rightarrow> entry list \<Rightarrow> bool" where
  "seg_holds s rs \<longleftrightarrow>
     records_ok (s_base s) rs \<and> s_next s = end_off (s_base s) rs \<and>
     s_size s = length (seg_bytes rs) \<and> s_count s = length rs \<and> index_ok (s_base s) rs (s_index s)"

definition seg_rep :: "disk \<Rightarrow> nat \<Rightarrow> segment \<Rightarrow> entry list \<Rightarrow> bool" where
  "seg_rep d i s rs \<longleftrightarrow> seg_holds s rs \<and> d_node d (s_file s) = Some i \<and> d_data d i = seg_bytes rs"

lemma fresh_segment_holds: "seg_holds (fresh_segment f name opts base) []"
  by (simp add: seg_holds_def fresh_segment_def index_ok_def index_entry_ok_def)

lemma index_entry_ok_le:
  "index_entry_ok base rs e \<Longrightarrow> ix_offset e \<le> end_off base rs"
  unfolding index_entry_ok_def by (metis records_ok_ge)

lemma index_entry_ok_extend:
  assumes "index_entry_ok base rs e" "records_ok (end_off base rs) zs"
  shows "index_entry_ok base (rs @ zs) e"
proof -
  obtain xs ys where "rs = xs @ ys" "ix_pos e = length (seg_bytes xs)" "end_off base xs \<le> ix_offset e"
    "records_ok (ix_offset e) ys" "end_off (ix_offset e) ys = end_off base rs"
    using assms(1) unfolding index_entry_ok_def by blast
  with assms(2) show ?thesis unfolding index_entry_ok_def
    by (intro exI [of _ xs] exI [of _ "ys @ zs"]) (auto simp: records_ok_append)
qed

lemma index_ok_extend:
  "index_ok base rs idx \<Longrightarrow> records_ok (end_off base rs) zs \<Longrightarrow> index_ok base (rs @ zs) idx"
  by (auto simp: index_ok_def intro: index_entry_ok_extend)

lemma noteIndex_sel [simp]:
  "s_file (noteIndex off pos s) = s_file s" "s_name (noteIndex off pos s) = s_name s"
  "s_opts (noteIndex off pos s) = s_opts s" "s_base (noteIndex off pos s) = s_base s"
  "s_next (noteIndex off pos s) = s_next s" "s_size (noteIndex off pos s) = s_size s"
  "s_sealed (noteIndex off pos s) = s_sealed s" "s_maxBytes (noteIndex off pos s) = s_maxBytes s"
  "s_count (noteIndex off pos s) = s_count s"
  by (simp_all add: noteIndex_def)

lemma note_marks_sel [simp]:
  "s_file (note_marks off ms s) = s_file s" "s_name (note_marks off ms s) = s_name s"
  "s_opts (note_marks off ms s) = s_opts s" "s_base (note_marks off ms s) = s_base s"
  "s_next (note_marks off ms s) = s_next s" "s_size (note_marks off ms s) = s_size s"
  "s_sealed (note_marks off ms s) = s_sealed s" "s_maxBytes (note_marks off ms s) = s_maxBytes s"
  "s_count (note_marks off ms s) = s_count s"
  by (induction off ms s rule: note_marks.induct) simp_all

lemma noteIndex_ok:
  assumes "index_ok base rs (s_index s)" "records_ok base rs" "end_off base rs \<le> off" "off \<noteq> - 1" "framable e"
  shows "index_ok base (rs @ [(off, e)]) (s_index (noteIndex off (length (seg_bytes rs)) s))"
proof -
  have ext: "index_ok base (rs @ [(off, e)]) (s_index s)"
    using assms by (intro index_ok_extend) auto
  have "ix_offset x \<le> off" if "x \<in> set (s_index s)" for x
    using assms(1,3) that index_entry_ok_le [of base rs x] by (auto simp: index_ok_def)
  moreover have "index_entry_ok base (rs @ [(off, e)]) \<lparr>ix_offset = off, ix_pos = length (seg_bytes rs)\<rparr>"
    using assms(3-5) unfolding index_entry_ok_def by (intro exI [of _ rs] exI [of _ "[(off, e)]"]) simp
  ultimately show ?thesis using ext by (auto simp: noteIndex_def index_ok_def sorted_append)
qed

section \<open>The index finds the place to start from\<close>

lemma index_search:
  assumes "index_ok base rs idx" "base \<le> off"
  obtains xs ys e where "idx ! (sort_Search (length idx) (\<lambda>i. ix_offset (idx ! i) > off) - 1) = e"
    "rs = xs @ ys" "ix_pos e = length (seg_bytes xs)" "end_off base xs \<le> ix_offset e" "ix_offset e \<le> off"
    "records_ok (ix_offset e) ys"
proof -
  let ?i = "sort_Search (length idx) (\<lambda>i. ix_offset (idx ! i) > off)"
  have mono: "off < ix_offset (idx ! b)" if "a \<le> b" "b < length idx" "off < ix_offset (idx ! a)" for a b
    using that assms(1) sorted_nth_mono [of "map ix_offset idx" a b] by (auto simp: index_ok_def)
  have search: "?i \<le> length idx" "a < ?i \<Longrightarrow> \<not> off < ix_offset (idx ! a)"
    "?i \<le> b \<Longrightarrow> b < length idx \<Longrightarrow> off < ix_offset (idx ! b)" for a b
    using sort_Search_correct [of "length idx" "\<lambda>i. ix_offset (idx ! i) > off"] mono by blast+
  have "?i \<noteq> 0"
    using search(3) [of 0] assms by (intro notI) (auto simp: index_ok_def hd_conv_nth)
  then have i: "?i - 1 < ?i" "?i - 1 < length idx" using search(1) by simp_all
  then have "ix_offset (idx ! (?i - 1)) \<le> off" using search(2) [of "?i - 1"] by simp
  moreover have "index_entry_ok base rs (idx ! (?i - 1))"
    using i assms(1) by (auto simp: index_ok_def)
  ultimately show thesis using that unfolding index_entry_ok_def by blast
qed

text \<open>The record a lookup of \<open>off\<close> should land on: the first at or above it.\<close>

definition from_off :: "Offset \<Rightarrow> entry list \<Rightarrow> entry list" where
  "from_off off rs = dropWhile (\<lambda>r. fst r < off) rs"

lemma from_off_skip:
  "(\<And>r. r \<in> set xs \<Longrightarrow> fst r < off) \<Longrightarrow> dropWhile (\<lambda>r. fst r < off) (xs @ ys) = dropWhile (\<lambda>r. fst r < off) ys"
  "(\<And>r. r \<in> set xs \<Longrightarrow> fst r < off) \<Longrightarrow> takeWhile (\<lambda>r. fst r < off) (xs @ ys) = xs @ takeWhile (\<lambda>r. fst r < off) ys"
  by (simp_all add: dropWhile_append2 takeWhile_append2)

lemma from_off_nonempty:
  assumes "records_ok lo rs" "lo \<le> off" "off < end_off lo rs"
  shows "from_off off rs \<noteq> []"
proof (cases rs rule: rev_cases)
  case (snoc ys r)
  with assms have "fst r \<noteq> - 1" "off < fst r + 1" by (auto simp: records_ok_append)
  then have "\<not> fst r < off" using word_less_succ_iff [of "fst r" off] by simp
  then show ?thesis using snoc by (auto simp: from_off_def)
qed (use assms in simp)

lemma records_ok_distinct: "records_ok lo rs \<Longrightarrow> distinct (map fst rs)"
proof (induction rs arbitrary: lo)
  case (Cons r rs)
  then have "fst r < fst r + 1" "records_ok (fst r + 1) rs" by (auto intro: word_less_succ)
  with Cons.IH records_ok_range show ?case by fastforce
qed simp

text \<open>Looking an exact offset up in the list is finding it at the head of what remains.\<close>

lemma map_of_from_off:
  assumes "records_ok lo rs"
  shows "map_of rs off = (case from_off off rs of [] \<Rightarrow> None | r # _ \<Rightarrow> if fst r = off then Some (snd r) else None)"
  using assms
proof (induction rs arbitrary: lo)
  case (Cons r rs)
  then have r: "fst r < fst r + 1" "records_ok (fst r + 1) rs" by (auto intro: word_less_succ)
  show ?case
  proof (cases "fst r < off")
    case True
    with Cons.IH [OF r(2)] show ?thesis by (cases r) (auto simp: from_off_def)
  next
    case False
    have "map_of rs off = None" if "off < fst r"
      using that r records_ok_range [OF r(2)] by (fastforce simp: map_of_eq_None_iff)
    with False show ?thesis by (cases r) (auto simp: from_off_def)
  qed
qed (simp add: from_off_def)

section \<open>Staging a batch\<close>

text \<open>The entries consecutive offsets give to a batch, and where they lie from a position on.\<close>

fun number :: "Offset \<Rightarrow> event list \<Rightarrow> entry list" where
  "number off [] = []"
| "number off (e # es) = (off, e) # number (off + 1) es"

fun marks_of :: "nat \<Rightarrow> entry list \<Rightarrow> nat list" where
  "marks_of p [] = []"
| "marks_of p (r # rs) = p # marks_of (p + RecordLen (snd r)) rs"

lemma length_number [simp]: "length (number off es) = length es"
  by (induction off es rule: number.induct) simp_all

lemma map_snd_number [simp]: "map snd (number off es) = es"
  by (induction off es rule: number.induct) simp_all

lemma length_marks_of [simp]: "length (marks_of p rs) = length rs"
  by (induction p rs rule: marks_of.induct) simp_all

lemma end_off_number [simp]: "end_off off (number off es) = off + word_of_nat (length es)"
  by (induction off es rule: number.induct) simp_all

lemma records_ok_number:
  "unat off + length es < 2 ^ 64 \<Longrightarrow> list_all framable es \<Longrightarrow> records_ok off (number off es)"
proof (induction off es rule: number.induct)
  case (2 off e es)
  have "off \<noteq> - 1" using 2(2) by (auto simp: unsigned_minus_1_eq_mask mask_eq_exp_minus_1)
  moreover from this have "unat (off + 1) = unat off + 1" using 2(2) by (intro unat_succ) simp
  ultimately show ?case using 2 by simp
qed simp

lemma records_ok_number_framable: "records_ok lo (number off es) \<Longrightarrow> list_all framable es"
  by (induction off es arbitrary: lo rule: number.induct) auto

definition first_bad :: "event list \<Rightarrow> nat \<Rightarrow> error option \<Rightarrow> bool" where
  "first_bad es k err \<longleftrightarrow> (case err of None \<Rightarrow> True | Some _ \<Rightarrow> k < length es \<and> \<not> framable (es ! k))"

lemma stage_records_spec:
  assumes "stage_records s off es scratch marks = (scratch', marks', err)"
  shows "\<exists>k\<le>length es.
      scratch' = scratch @ seg_bytes (number off (take k es)) \<and>
      marks' = marks @ marks_of (s_size s + length scratch) (number off (take k es)) \<and>
      list_all framable (take k es) \<and> first_bad es k err \<and>
      (err = None \<longrightarrow> k < length es \<longrightarrow> 0 < k \<and> s_maxBytes s \<le> int (s_size s + length scratch'))"
  using assms
proof (induction s off es scratch marks arbitrary: scratch' marks' err rule: stage_records.induct)
  case (1 s off scratch marks)
  then show ?case by (simp add: first_bad_def)
next
  case (2 s off e es scratch marks)
  show ?case
  proof (cases "framable e")
    case False
    with appendRecord_error [of e scratch off] 2(2) show ?thesis
      by (intro exI [of _ 0]) (auto simp: first_bad_def Let_def)
  next
    case True
    let ?buf = "scratch @ encode off e"
    note app = appendRecord_framable [OF True, of scratch off]
    show ?thesis
    proof (cases "s_maxBytes s \<le> int (s_size s + length ?buf)")
      case True': True
      with 2(2) True show ?thesis
        by (intro exI [of _ 1]) (auto simp: first_bad_def Let_def app)
    next
      case False
      then have "stage_records s (off + 1) es ?buf (marks @ [s_size s + length scratch]) = (scratch', marks', err)"
        using 2(2) by (simp add: Let_def app)
      from 2(1) [OF refl app [symmetric] refl False this] obtain k where k: "k \<le> length es"
        "scratch' = ?buf @ seg_bytes (number (off + 1) (take k es))"
        "marks' = (marks @ [s_size s + length scratch]) @ marks_of (s_size s + length ?buf) (number (off + 1) (take k es))"
        "list_all framable (take k es)" "first_bad es k err"
        "err = None \<longrightarrow> k < length es \<longrightarrow> 0 < k \<and> s_maxBytes s \<le> int (s_size s + length scratch')"
        by blast
      with True show ?thesis
        by (intro exI [of _ "Suc k"]) (auto simp: first_bad_def add.assoc split: option.splits)
    qed
  qed
qed

lemma note_marks_ok:
  assumes "index_ok base rs (s_index s)" "records_ok base rs" "end_off base rs = off"
    "records_ok off (number off es)"
  shows "index_ok base (rs @ number off es) (s_index (note_marks off (marks_of (length (seg_bytes rs)) (number off es)) s))"
  using assms
proof (induction es arbitrary: rs off s)
  case (Cons e es)
  have "index_ok base ((rs @ [(off, e)]) @ number (off + 1) es)
      (s_index (note_marks (off + 1) (marks_of (length (seg_bytes (rs @ [(off, e)]))) (number (off + 1) es))
         (noteIndex off (length (seg_bytes rs)) s)))"
    using Cons.prems by (intro Cons.IH noteIndex_ok) (auto simp: records_ok_append)
  then show ?case by simp
qed simp

context filesystem
begin

lemma readRecordFrom_decodes:
  assumes "wf st" "d_node (abs st) (s_file s) = Some i"
  shows "read_outcome lo (decodeRecord (drop pos (d_data (abs st) i))) (readRecordFrom F s pos lo st)"
proof -
  let ?bs = "d_data (abs st) i"
  let ?b = "drop pos ?bs"
  let ?total = "unat (readLength ?b)"
  note read = ReadAt_law [OF assms]
  have read_body: "file_ReadAt F (s_file s) n (int pos + 28) st = read_at ?bs n (pos + 28)" for n
    using read [of n "pos + 28"] by simp
  consider (short) "length ?b < 28" | (low) "28 \<le> length ?b" "?total < 28"
    | (high) "28 \<le> length ?b" "28 \<le> ?total" "MaxRecordLen < ?total"
    | (torn) "28 \<le> length ?b" "28 \<le> ?total" "?total \<le> MaxRecordLen" "length ?b < ?total"
    | (whole) "28 \<le> length ?b" "28 \<le> ?total" "?total \<le> MaxRecordLen" "?total \<le> length ?b"
    by linarith
  then show ?thesis
  proof cases
    case short
    then have "snd (read_at ?bs 28 pos) = Some (Sentinel EOF)" by (auto simp: read_at_def)
    with short show ?thesis
      by (auto simp: readRecordFrom_def read HeaderLen_def decodeRecord_def read_outcome_def same_class_def
          split: prod.splits)
  next
    case low
    then have "read_at ?bs 28 pos = (take 28 ?b, None)" by (auto simp: read_at_def)
    with low show ?thesis
      by (simp add: readRecordFrom_def read HeaderLen_def decodeRecord_def read_outcome_def same_class_def
          unat_readLength_take Let_def readLength_def [symmetric])
  next
    case high
    then have "read_at ?bs 28 pos = (take 28 ?b, None)" by (auto simp: read_at_def)
    with high show ?thesis
      by (simp add: readRecordFrom_def read HeaderLen_def decodeRecord_def read_outcome_def same_class_def
          unat_readLength_take Let_def readLength_def [symmetric])
  next
    case torn
    then have "read_at ?bs 28 pos = (take 28 ?b, None)" by (auto simp: read_at_def)
    moreover have "snd (read_at ?bs (?total - 28) (pos + 28)) = Some (Sentinel EOF)"
      using torn by (auto simp: read_at_def)
    then obtain body where "read_at ?bs (?total - 28) (pos + 28) = (body, Some (Sentinel EOF))"
      by (cases "read_at ?bs (?total - 28) (pos + 28)") simp
    moreover have "28 < ?total" using torn by linarith
    ultimately show ?thesis using torn
      by (simp add: readRecordFrom_def read read_body HeaderLen_def decodeRecord_def read_outcome_def same_class_def
          unat_readLength_take Let_def readLength_def [symmetric])
  next
    case whole
    then have head: "read_at ?bs 28 pos = (take 28 ?b, None)" by (auto simp: read_at_def)
    have body: "(if ?total > 28 then read_at ?bs (?total - 28) (pos + 28) else ([], None))
        = (take (?total - 28) (drop 28 ?b), None)"
      using whole by (auto simp: read_at_def add.commute)
    have "take 28 ?b @ take (?total - 28) (drop 28 ?b) = take ?total ?b"
      using whole by (metis le_add_diff_inverse take_add)
    moreover have "decodeRecord (take ?total ?b) = decodeRecord ?b"
      using whole by (intro decode_take) (simp_all add: HeaderLen_def readLength_def)
    ultimately have "readRecordFrom F s pos lo st = (case decodeRecord ?b of Inl err \<Rightarrow> Inl err
        | Inr rec \<Rightarrow> if r_Offset rec < lo then
            Inl (Errorf ''%w: record at %d carries offset %d, below the %d expected there'' [Sentinel ErrCorrupt])
            else Inr rec)"
      using whole body
      by (cases "28 < ?total") (simp_all add: readRecordFrom_def read read_body HeaderLen_def head unat_readLength_take Let_def)
    then show ?thesis by (auto simp: read_outcome_def same_class_def split: sum.splits)
  qed
qed

text \<open>A record that lies where the reader looks is returned whole.\<close>

lemma readRecordFrom_entry:
  assumes "wf st" "d_node (abs st) (s_file s) = Some i"
    and "d_data (abs st) i = seg_bytes xs @ encode off e @ rest" "framable e" "lo \<le> off"
  shows "readRecordFrom F s (length (seg_bytes xs)) lo st =
           Inr \<lparr>r_Offset = off, r_Event = e, r_Len = RecordLen e\<rparr>"
  using readRecordFrom_decodes [OF assms(1,2), of lo "length (seg_bytes xs)"] decode_encode [OF assms(4)] assms(3,5)
  by (simp add: read_outcome_def)

lemma locate_loop_finds:
  assumes "wf st" "d_node (abs st) (s_file s) = Some i"
    and "d_data (abs st) i = seg_bytes (xs @ ys) @ rest" "s_size s = length (seg_bytes (xs @ ys))"
    and "records_ok at ys"
  shows "locate_loop F st s off (length (seg_bytes xs)) at =
    (case dropWhile (\<lambda>r. fst r < off) ys of
       [] \<Rightarrow> Inl (Errorf ''%w: %d is within segment %s but was not found on disk'' [Sentinel ErrNotFound])
     | r # _ \<Rightarrow> Inr (length (seg_bytes (xs @ takeWhile (\<lambda>r. fst r < off) ys)), fst r))"
  using assms(3-5)
proof (induction ys arbitrary: xs at)
  case Nil
  then show ?case by (simp add: locate_loop.simps [of F st s off _ at])
next
  case (Cons r ys)
  have read: "readRecordFrom F s (length (seg_bytes xs)) at st =
      Inr \<lparr>r_Offset = fst r, r_Event = snd r, r_Len = RecordLen (snd r)\<rparr>"
    using Cons.prems by (intro readRecordFrom_entry [OF assms(1,2)]) auto
  show ?case
  proof (cases "fst r < off")
    case False
    then have "off \<le> fst r" by simp
    with False Cons.prems read show ?thesis by (simp add: locate_loop.simps [of F st s off _ at])
  next
    case True
    have "locate_loop F st s off (length (seg_bytes (xs @ [r]))) (fst r + 1) =
      (case dropWhile (\<lambda>r. fst r < off) ys of
         [] \<Rightarrow> Inl (Errorf ''%w: %d is within segment %s but was not found on disk'' [Sentinel ErrNotFound])
       | x # _ \<Rightarrow> Inr (length (seg_bytes ((xs @ [r]) @ takeWhile (\<lambda>r. fst r < off) ys)), fst x))"
      using Cons.prems by (intro Cons.IH) auto
    moreover have "\<not> off \<le> fst r" using True by simp
    ultimately show ?thesis using True Cons.prems read
      by (cases "dropWhile (\<lambda>r. fst r < off) ys") (simp_all add: locate_loop.simps [of F st s off _ at] add.assoc
          del: dropWhile_eq_Nil_conv)
  qed
qed

lemma locateFrom_finds:
  fixes off :: Offset
  assumes "wf st" "seg_rep (abs st) i s rs"
  defines "lo \<equiv> (if off < s_base s then s_base s else off)"
  shows "locateFrom F s off st =
    (case from_off lo rs of
       [] \<Rightarrow> Inl (Errorf ''%w: %d is outside segment %s, which holds [%d, %d)'' [Sentinel ErrNotFound])
     | r # _ \<Rightarrow> Inr (length (seg_bytes (takeWhile (\<lambda>r. fst r < lo) rs)), fst r))"
proof -
  have rep: "records_ok (s_base s) rs" "s_next s = end_off (s_base s) rs" "s_size s = length (seg_bytes rs)"
    "index_ok (s_base s) rs (s_index s)" "d_node (abs st) (s_file s) = Some i" "d_data (abs st) i = seg_bytes rs"
    using assms(2) by (auto simp: seg_rep_def seg_holds_def)
  have lo: "s_base s \<le> lo" by (auto simp: lo_def)
  show ?thesis
  proof (cases "lo < s_next s")
    case False
    then have "fst r < lo" if "r \<in> set rs" for r
      using records_ok_range [OF rep(1) that] rep(2) by auto
    then have "from_off lo rs = []" by (simp add: from_off_def)
    with False show ?thesis by (simp add: locateFrom_def lo_def [symmetric] not_less Let_def)
  next
    case True
    obtain xs ys e where e: "s_index s ! (sort_Search (length (s_index s)) (\<lambda>i. ix_offset (s_index s ! i) > lo) - 1) = e"
      "rs = xs @ ys" "ix_pos e = length (seg_bytes xs)" "end_off (s_base s) xs \<le> ix_offset e" "ix_offset e \<le> lo"
      "records_ok (ix_offset e) ys"
      using index_search [OF rep(4) lo] .
    have "fst r < lo" if "r \<in> set xs" for r
      using records_ok_range [of "s_base s" xs r] that rep(1) e by (auto simp: records_ok_append)
    then have skip: "from_off lo rs = dropWhile (\<lambda>r. fst r < lo) ys"
      "takeWhile (\<lambda>r. fst r < lo) rs = xs @ takeWhile (\<lambda>r. fst r < lo) ys"
      by (simp_all add: e(2) from_off_def from_off_skip)
    have ne: "from_off lo rs \<noteq> []" using from_off_nonempty [OF rep(1) lo] True rep(2) by simp
    have "locateFrom F s off st = locate_loop F st s lo (ix_pos e) (ix_offset e)"
      using True unfolding locateFrom_def lo_def [symmetric] Let_def e(1) by (simp add: not_le [symmetric])
    also have "\<dots> = (case from_off lo rs of
       [] \<Rightarrow> Inl (Errorf ''%w: %d is within segment %s but was not found on disk'' [Sentinel ErrNotFound])
     | r # _ \<Rightarrow> Inr (length (seg_bytes (takeWhile (\<lambda>r. fst r < lo) rs)), fst r))"
      unfolding skip e(3) using rep(3,6) e(2)
      by (intro locate_loop_finds [OF assms(1) rep(5), where rest = "[]", OF _ _ e(6)]) simp_all
    finally show ?thesis using ne by (cases "from_off lo rs") simp_all
  qed
qed

text \<open>Reading a segment is looking its offset up in the records it holds.\<close>

lemma seg_Read_lookup:
  assumes "wf st" "seg_rep (abs st) i s rs"
  shows "case map_of rs off of
      Some e \<Rightarrow> seg_Read F s off st = Inr \<lparr>r_Offset = off, r_Event = e, r_Len = RecordLen e\<rparr>
    | None \<Rightarrow> \<exists>err. seg_Read F s off st = Inl err \<and> same_class err (Sentinel ErrNotFound)"
proof -
  define lo where "lo = (if off < s_base s then s_base s else off)"
  have rep: "records_ok (s_base s) rs" "d_node (abs st) (s_file s) = Some i" "d_data (abs st) i = seg_bytes rs"
    using assms(2) by (auto simp: seg_rep_def seg_holds_def)
  note find = locateFrom_finds [OF assms, of off, folded lo_def]
  have map: "map_of rs off = (case from_off lo rs of [] \<Rightarrow> None | r # _ \<Rightarrow> if fst r = off then Some (snd r) else None)"
  proof (cases "off < s_base s")
    case True
    then have "map_of rs off = None"
      using records_ok_range [OF rep(1)] by (fastforce simp: map_of_eq_None_iff)
    moreover have "fst r \<noteq> off" if "from_off lo rs = r # zs" for r zs
      using True records_ok_range [OF rep(1), of r] that
      by (auto simp: from_off_def dest!: arg_cong [of _ "_ # _" set] set_dropWhileD)
         (metis from_off_def leD list.set_intros(1) set_dropWhileD that)
    ultimately show ?thesis by (simp split: list.split)
  next
    case False
    then show ?thesis using map_of_from_off [OF rep(1), of off] by (simp add: lo_def)
  qed
  show ?thesis
  proof (cases "from_off lo rs")
    case Nil
    then show ?thesis by (simp add: map seg_Read_def seg_locate_def find same_class_def)
  next
    case (Cons r zs)
    have rs: "rs = takeWhile (\<lambda>r. fst r < lo) rs @ r # zs"
      using Cons takeWhile_dropWhile_id [of "\<lambda>r. fst r < lo" rs] by (simp add: from_off_def)
    then have "framable (snd r)" using rep(1) by (metis in_set_conv_decomp records_ok_def)
    moreover have "d_data (abs st) i = seg_bytes (takeWhile (\<lambda>r. fst r < lo) rs) @ encode (fst r) (snd r) @ seg_bytes zs"
      using rep(3) arg_cong [OF rs, of seg_bytes] by simp
    ultimately have "readRecordFrom F s (length (seg_bytes (takeWhile (\<lambda>r. fst r < lo) rs))) (fst r) st =
        Inr \<lparr>r_Offset = fst r, r_Event = snd r, r_Len = RecordLen (snd r)\<rparr>"
      by (intro readRecordFrom_entry [OF assms(1) rep(2)]) simp_all
    then show ?thesis
      using Cons by (cases "fst r = off") (simp_all add: map seg_Read_def seg_locate_def find readRecordAt_def same_class_def)
  qed
qed

text \<open>
  A batch append that the file accepted: the longest prefix that is framable and fits, at
  consecutive offsets, on the file and in the index.
\<close>

lemma seg_AppendAll_rep:
  assumes "wf st" "seg_rep (abs st) i s rs" "unat (s_next s) + length es < 2 ^ 64"
    and "seg_AppendAll F es s st = ((n, first, err), s', st')" "\<not> s_sealed s'"
  shows "wf st'" "n \<le> length es" "first = s_next s" "first_bad es n err"
    and "abs st' = disk_append i (seg_bytes (number first (take n es))) (abs st)"
    and "seg_rep (abs st') i s' (rs @ number first (take n es))"
    and "err = None \<Longrightarrow> n < length es \<Longrightarrow> 0 < n \<and> seg_Full s'"
    and "s' = s\<lparr>s_size := s_size s', s_next := s_next s', s_count := s_count s',
               s_index := s_index s', s_indexed := s_indexed s'\<rparr>"
proof -
  have rep: "seg_holds s rs" "d_node (abs st) (s_file s) = Some i" "d_data (abs st) i = seg_bytes rs"
    using assms(2) by (auto simp: seg_rep_def)
  have ns: "\<not> s_sealed s" using assms(4,5) by (auto simp: seg_AppendAll_def)
  obtain scratch marks eerr where stage: "stage_records s (s_next s) es [] [] = (scratch, marks, eerr)"
    by (metis prod_cases3)
  obtain k where k: "k \<le> length es" "scratch = seg_bytes (number (s_next s) (take k es))"
      "marks = marks_of (s_size s) (number (s_next s) (take k es))" "list_all framable (take k es)" "first_bad es k eerr"
      "eerr = None \<longrightarrow> k < length es \<longrightarrow> 0 < k \<and> s_maxBytes s \<le> int (s_size s + length scratch)"
    using stage_records_spec [OF stage] by auto
  have lm: "length marks = k" using k by simp
  have ok: "records_ok (s_next s) (number (s_next s) (take k es))"
    using assms(3) k by (intro records_ok_number) auto
  have result: "n = k \<and> first = s_next s \<and> err = eerr \<and> wf st' \<and> abs st' = disk_append i scratch (abs st) \<and>
      s' = (note_marks (s_next s) marks s)\<lparr>s_size := s_size s + length scratch,
             s_next := s_next s + word_of_nat k, s_count := s_count s + k\<rparr>"
  proof (cases "k = 0")
    case True
    then have "seg_AppendAll F es s st = ((0, s_next s, eerr), s, st)"
      using ns stage lm by (cases es) (auto simp: seg_AppendAll_def)
    then show ?thesis using True k assms(1,4) by (simp add: disk_append_def)
  next
    case False
    then have es: "es \<noteq> []" using k(1) by auto
    obtain m aerr st1 where app: "file_Append F (s_file s) scratch st = ((m, aerr), st1)" by (metis surj_pair)
    with False es ns stage lm assms(4,5) have "aerr = None"
      by (auto simp: seg_AppendAll_def Let_def split: option.splits)
    moreover from this have "wf st1" "abs st1 = disk_append i scratch (abs st)"
      using Append_law [OF assms(1) rep(2)] app by blast+
    ultimately show ?thesis using False es ns stage lm assms(4) app by (auto simp: seg_AppendAll_def Let_def)
  qed
  then show "wf st'" "n \<le> length es" "first = s_next s" "first_bad es n err"
    "abs st' = disk_append i (seg_bytes (number first (take n es))) (abs st)"
    using k by auto
  show "err = None \<Longrightarrow> n < length es \<Longrightarrow> 0 < n \<and> seg_Full s'"
    using result k(6) by (auto simp: seg_Full_def)
  show "s' = s\<lparr>s_size := s_size s', s_next := s_next s', s_count := s_count s',
               s_index := s_index s', s_indexed := s_indexed s'\<rparr>"
    using result by (intro segment.equality) simp_all
  have "index_ok (s_base s) (rs @ number (s_next s) (take k es)) (s_index (note_marks (s_next s) marks s))"
    using note_marks_ok [of "s_base s" rs s "s_next s" "take k es"] rep(1) ok k(3) by (simp add: seg_holds_def)
  then have "seg_holds s' (rs @ number first (take n es))"
    using result rep(1) ok k lm by (auto simp: seg_holds_def records_ok_append)
  then show "seg_rep (abs st') i s' (rs @ number first (take n es))"
    using result rep k by (auto simp: seg_rep_def disk_append_def)
qed

text \<open>Writing one record at an offset of the caller's choice, which is how compaction keeps offsets.\<close>

lemma seg_appendAt_rep:
  assumes "wf st" "seg_rep (abs st) i s rs" "off \<noteq> - 1"
    and "seg_appendAt F off e s st = (None, s', st')"
  shows "wf st'" "framable e" "s_next s \<le> off" "abs st' = disk_append i (encode off e) (abs st)"
    and "seg_rep (abs st') i s' (rs @ [(off, e)])"
    and "s' = s\<lparr>s_size := s_size s', s_next := s_next s', s_count := s_count s',
               s_index := s_index s', s_indexed := s_indexed s'\<rparr>"
proof -
  have rep: "seg_holds s rs" "d_node (abs st) (s_file s) = Some i" "d_data (abs st) i = seg_bytes rs"
    using assms(2) by (auto simp: seg_rep_def)
  show "s_next s \<le> off" using assms(4) by (auto simp: seg_appendAt_def split: if_splits)
  then have off: "\<not> off < s_next s" "end_off (s_base s) rs \<le> off" using rep(1) by (auto simp: seg_holds_def)
  show fr: "framable e"
    using assms(4) off(1) appendRecord_error [of e "[]" off] by (cases "framable e") (auto simp: seg_appendAt_def)
  note enc = appendRecord_framable [OF fr, of "[]" off]
  obtain m aerr st1 where app: "file_Append F (s_file s) (encode off e) st = ((m, aerr), st1)" by (metis surj_pair)
  with off(1) enc assms(4) have "aerr = None" by (auto simp: seg_appendAt_def split: option.splits)
  moreover from this have disk: "wf st1" "abs st1 = disk_append i (encode off e) (abs st)"
    using Append_law [OF assms(1) rep(2)] app by blast+
  ultimately have res: "st' = st1" "s' = (noteIndex off (s_size s) s)\<lparr>s_size := s_size s + RecordLen e,
      s_next := off + 1, s_count := s_count s + 1\<rparr>"
    using off(1) enc assms(4) app by (auto simp: seg_appendAt_def Let_def)
  show "wf st'" "abs st' = disk_append i (encode off e) (abs st)" using disk res by simp_all
  show "s' = s\<lparr>s_size := s_size s', s_next := s_next s', s_count := s_count s',
               s_index := s_index s', s_indexed := s_indexed s'\<rparr>"
    using res by (intro segment.equality) simp_all
  have "index_ok (s_base s) (rs @ [(off, e)]) (s_index (noteIndex off (s_size s) s))"
    using noteIndex_ok [of "s_base s" rs s off e] rep(1) off(2) assms(3) fr by (simp add: seg_holds_def)
  then have "seg_holds s' (rs @ [(off, e)])"
    using res rep(1) off(2) assms(3) fr by (auto simp: seg_holds_def records_ok_append)
  then show "seg_rep (abs st') i s' (rs @ [(off, e)])"
    using res disk rep by (auto simp: seg_rep_def disk_append_def)
qed

end

context reliable_filesystem
begin

lemma seg_AppendAll_ok:
  assumes "wf st" "d_node (abs st) (s_file s) \<noteq> None" "\<not> s_sealed s"
  shows "\<exists>n first err s' st'. seg_AppendAll F es s st = ((n, first, err), s', st') \<and> \<not> s_sealed s'"
proof -
  obtain scratch marks eerr where "stage_records s (s_next s) es [] [] = (scratch, marks, eerr)"
    by (metis prod_cases3)
  moreover obtain m st1 where "file_Append F (s_file s) scratch st = ((m, None), st1)"
    using Append_ok [OF assms(1,2)] by blast
  ultimately show ?thesis using assms(3) by (cases "es = []") (simp_all add: seg_AppendAll_def Let_def)
qed

lemma seg_appendAt_ok:
  assumes "wf st" "d_node (abs st) (s_file s) \<noteq> None" "framable e" "s_next s \<le> off"
  shows "\<exists>s' st'. seg_appendAt F off e s st = (None, s', st')"
proof -
  obtain m st1 where "file_Append F (s_file s) (encode off e) st = ((m, None), st1)"
    using Append_ok [OF assms(1,2)] by blast
  with assms(4) show ?thesis
    using appendRecord_framable [OF assms(3), of "[]" off] by (auto simp: seg_appendAt_def Let_def)
qed

end

end
