(* ===== verification/Log_Recovery.thy ===== *)
theory Log_Recovery
  imports Log_Segment
begin

text \<open>
  \<^verbatim>\<open>log/recovery.go\<close>: opening a record file scans it from the start and finds the tail a
  crash left. The scan is shown to agree with \<open>parse\<close>, a parser over the bytes alone, so
  that what recovery keeps and what it discards are statements about lists of bytes.
\<close>

section \<open>The code\<close>

record Recovery =
  R_Records :: nat
  R_Valid :: nat
  R_Discarded :: nat
  R_Next :: Offset
  R_Torn :: bool
  R_Corrupt :: "error option"

definition zero_Recovery :: Recovery where
  "zero_Recovery = \<lparr>R_Records = 0, R_Valid = 0, R_Discarded = 0, R_Next = 0, R_Torn = False, R_Corrupt = None\<rparr>"

function scan_loop ::
  "'s fs_ops \<Rightarrow> 's \<Rightarrow> nat \<Rightarrow> nat \<Rightarrow> Recovery \<Rightarrow> segment \<Rightarrow> Recovery res \<times> segment" where
  "scan_loop F st sz pos rec s =
     (if pos < sz then
        (case readRecordFrom F s pos (R_Next rec) st of
           Inr r \<Rightarrow>
             scan_loop F st sz (pos + r_Len r)
               (rec\<lparr>R_Next := r_Offset r + 1, R_Records := R_Records rec + 1\<rparr>)
               (noteIndex (r_Offset r) pos s)
         | Inl err \<Rightarrow>
             if errors_Is err ErrTorn then
               (Inr (rec\<lparr>R_Torn := True, R_Valid := pos, R_Discarded := sz - pos\<rparr>), s)
             else if errors_Is err ErrCorrupt then
               (Inr (rec\<lparr>R_Corrupt := Some (Errorf ''log: %s at byte %d: %w'' [err]),
                        R_Valid := pos, R_Discarded := sz - pos\<rparr>), s)
             else (Inl err, s))
      else (Inr (rec\<lparr>R_Valid := sz\<rparr>), s))"
  by pat_completeness auto
termination
  by (relation "measure (\<lambda>(F, st, sz, pos, rec, s). sz - pos)") (auto dest: readRecordFrom_Len)

declare scan_loop.simps [simp del]

definition scan :: "'s fs_ops \<Rightarrow> segment \<Rightarrow> 's \<Rightarrow> Recovery res \<times> segment" where
  "scan F s st =
     (case file_Size F (s_file s) st of
        Inl err \<Rightarrow> (Inl (Errorf ''log: size %s: %w'' [err]), s)
      | Inr sz \<Rightarrow> scan_loop F st (nat sz) 0 (zero_Recovery\<lparr>R_Next := s_base s\<rparr>) s)"

definition openNamed ::
  "'s fs_ops \<Rightarrow> string \<Rightarrow> Offset \<Rightarrow> Options \<Rightarrow> bool \<Rightarrow> 's \<Rightarrow> (segment \<times> Recovery) res \<times> 's" where
  "openNamed F name base opts trunc st =
     (let opts = Options_withDefaults opts in
      case fs_Open F name st of
        (Inl err, st) \<Rightarrow> (Inl (Errorf ''log: open segment %s: %w'' [err]), st)
      | (Inr f, st) \<Rightarrow>
          (case scan F (fresh_segment f name opts base) st of
             (Inl err, s) \<Rightarrow> (Inl err, snd (file_Close F f st))
           | (Inr rec, s) \<Rightarrow>
               let opened = s\<lparr>s_size := R_Valid rec, s_next := R_Next rec, s_count := R_Records rec\<rparr> in
               if R_Discarded rec > 0 \<and> trunc then
                 (case file_Truncate F f (int (R_Valid rec)) st of
                    (Some err, st) \<Rightarrow>
                      (Inl (Errorf ''log: truncate %s to %d: %w'' [err]), snd (file_Close F f st))
                  | (None, st) \<Rightarrow> (Inr (opened, rec), st))
               else (Inr (opened, rec), st)))"

definition openSegment ::
  "'s fs_ops \<Rightarrow> string \<Rightarrow> Options \<Rightarrow> bool \<Rightarrow> 's \<Rightarrow> (segment \<times> Recovery) res \<times> 's" where
  "openSegment F name opts trunc st =
     (case parseSegmentName name of
        None \<Rightarrow> (Inl (Errorf ''log: %q is not a segment file name'' []), st)
      | Some base \<Rightarrow> openNamed F name base opts trunc st)"

definition openSegmentTruncating ::
  "'s fs_ops \<Rightarrow> string \<Rightarrow> Options \<Rightarrow> 's \<Rightarrow> (segment \<times> Recovery) res \<times> 's" where
  "openSegmentTruncating F name opts st = openSegment F name opts True st"

definition openSealedSegment :: "'s fs_ops \<Rightarrow> string \<Rightarrow> Options \<Rightarrow> 's \<Rightarrow> segment res \<times> 's" where
  "openSealedSegment F name opts st =
     (case openSegment F name opts False st of
        (Inl err, st) \<Rightarrow> (Inl err, st)
      | (Inr (s, rec), st) \<Rightarrow>
          (case R_Corrupt rec of
             Some err \<Rightarrow>
               (Inl (Errorf ''log: sealed segment %s is damaged: %w'' [err]), snd (seg_Close F s st))
           | None \<Rightarrow>
               if R_Torn rec then
                 (Inl (Errorf ''log: sealed segment %s ends mid-record with %d bytes after offset %d: %w''
                         [Sentinel ErrTorn]), snd (seg_Close F s st))
               else (Inr (seg_Seal s), st)))"

section \<open>A parser over bytes\<close>

datatype tail = Clean | TornTail | CorruptTail

function parse :: "Offset \<Rightarrow> bytes \<Rightarrow> entry list \<times> tail" where
  "parse lo b =
     (if b = [] then ([], Clean)
      else (case decodeRecord b of
              Inl err \<Rightarrow> ([], if errors_Is err ErrTorn then TornTail else CorruptTail)
            | Inr r \<Rightarrow>
                if r_Offset r < lo then ([], CorruptTail)
                else (let (rs, t) = parse (r_Offset r + 1) (drop (r_Len r) b)
                      in ((r_Offset r, r_Event r) # rs, t))))"
  by pat_completeness auto
termination
proof (relation "measure (\<lambda>(lo, b). length b)")
  fix lo b r
  assume "b \<noteq> []" "decodeRecord b = Inr r"
  with decode_Len [of b r] show "((r_Offset r + 1, drop (r_Len r) b), lo, b) \<in> measure (\<lambda>(lo, b). length b)"
    by (simp add: HeaderLen_def)
qed simp

declare parse.simps [simp del]

lemma parse_Nil [simp]: "parse lo [] = ([], Clean)"
  by (simp add: parse.simps [of lo "[]"])

text \<open>Every prefix the parser accepts is the encoding of ascending, framable records.\<close>

lemma parse_sound:
  "parse lo b = (rs, t) \<Longrightarrow>
     \<exists>rest. b = seg_bytes rs @ rest \<and> ascends lo rs \<and> (\<forall>r\<in>set rs. framable (snd r)) \<and> (t = Clean \<longleftrightarrow> rest = [])"
proof (induction lo b arbitrary: rs t rule: parse.induct)
  case (1 lo b)
  show ?case
  proof (cases "decodeRecord b")
    case (Inl err)
    with 1(2) show ?thesis by (auto simp: parse.simps [of lo b] split: if_splits)
  next
    case (Inr r)
    note d = decode_sound [OF Inr]
    consider "b = []" | "b \<noteq> []" "r_Offset r < lo" | "b \<noteq> []" "\<not> r_Offset r < lo" by blast
    then show ?thesis
    proof cases
      case 3
      obtain rs' t' where rec: "parse (r_Offset r + 1) (drop (r_Len r) b) = (rs', t')" by fastforce
      with 1(1) [OF 3(1) Inr 3(2)] obtain rest where
        "drop (r_Len r) b = seg_bytes rs' @ rest" "ascends (r_Offset r + 1) rs'" "\<forall>r\<in>set rs'. framable (snd r)"
        "t' = Clean \<longleftrightarrow> rest = []" by blast
      moreover have "rs = (r_Offset r, r_Event r) # rs'" "t = t'"
        using 1(2) 3 Inr rec by (auto simp: parse.simps [of lo b])
      moreover have "b = encode (r_Offset r) (r_Event r) @ drop (r_Len r) b"
        using d(4) by (metis append_take_drop_id)
      ultimately show ?thesis using 3 d(1) by auto
    qed (use 1(2) Inr in \<open>auto simp: parse.simps [of lo b]\<close>)
  qed
qed

text \<open>Whole records are never lost, whatever follows them.\<close>

lemma parse_complete:
  "records_ok lo rs \<Longrightarrow> parse lo (seg_bytes rs @ rest) = apfst ((@) rs) (parse (end_off lo rs) rest)"
proof (induction rs arbitrary: lo)
  case (Cons r rs)
  have "decodeRecord (encode (fst r) (snd r) @ seg_bytes rs @ rest) =
      Inr \<lparr>r_Offset = fst r, r_Event = snd r, r_Len = RecordLen (snd r)\<rparr>"
    using Cons.prems by (intro decode_encode) simp
  then show ?case using Cons
    by (simp add: parse.simps [of lo "encode (fst r) (snd r) @ seg_bytes rs @ rest"] apfst_def map_prod_def
        not_less [symmetric] split: prod.split)
qed (simp add: apfst_def map_prod_def split: prod.split)

lemma parse_seg_bytes: "records_ok lo rs \<Longrightarrow> parse lo (seg_bytes rs) = (rs, Clean)"
  using parse_complete [of lo rs "[]"] by simp

text \<open>A length that outlived its contents reads back as zeros, which are no record.\<close>

lemma parse_zeros: "records_ok lo rs \<Longrightarrow> \<exists>t. parse lo (seg_bytes rs @ replicate m 0) = (rs, t)"
  using decode_zeros [of m] by (auto simp: parse_complete parse.simps [of "end_off lo rs" "replicate m 0"])

lemma parse_torn:
  assumes "framable e" "0 < n" "n < RecordLen e"
  shows "parse lo (take n (encode off e)) = ([], TornTail)"
  using decode_torn [OF assms(1,3), of off] assms(2,3)
  by (auto simp: parse.simps [of lo "take n (encode off e)"] simp flip: length_0_conv)

text \<open>
  Cutting a file of records anywhere leaves a whole number of them and possibly a torn one:
  the cut loses only what lies at or after it, and never looks like damage.
\<close>

lemma parse_cut:
  assumes "records_ok lo rs"
  shows "\<exists>k\<le>length rs. parse lo (take n (seg_bytes rs)) =
           (take k rs, if length (seg_bytes (take k rs)) = min n (length (seg_bytes rs)) then Clean else TornTail) \<and>
         length (seg_bytes (take k rs)) \<le> n \<and>
         (k < length rs \<longrightarrow> n < length (seg_bytes (take (Suc k) rs)))"
  using assms
proof (induction rs arbitrary: lo n)
  case (Cons r rs)
  show ?case
  proof (cases "n < RecordLen (snd r)")
    case True
    then have cut: "take n (seg_bytes (r # rs)) = take n (encode (fst r) (snd r))" by simp
    show ?thesis
    proof (cases "n = 0")
      case False
      with True Cons.prems have "parse lo (take n (encode (fst r) (snd r))) = ([], TornTail)"
        by (intro parse_torn) auto
      with cut True False show ?thesis by (intro exI [of _ 0]) simp
    qed (intro exI [of _ 0], simp)
  next
    case False
    let ?m = "n - RecordLen (snd r)"
    obtain k where k: "k \<le> length rs" "parse (fst r + 1) (take ?m (seg_bytes rs)) =
           (take k rs, if length (seg_bytes (take k rs)) = min ?m (length (seg_bytes rs)) then Clean else TornTail)"
         "length (seg_bytes (take k rs)) \<le> ?m" "k < length rs \<longrightarrow> ?m < length (seg_bytes (take (Suc k) rs))"
      using Cons.IH [of "fst r + 1" ?m] Cons.prems by auto
    have "take n (seg_bytes (r # rs)) = seg_bytes [r] @ take ?m (seg_bytes rs)" using False by simp
    moreover have "records_ok lo [r]" using Cons.prems by simp
    ultimately have "parse lo (take n (seg_bytes (r # rs))) = apfst ((@) [r]) (parse (fst r + 1) (take ?m (seg_bytes rs)))"
      using parse_complete [of lo "[r]" "take ?m (seg_bytes rs)"] by simp
    with k False show ?thesis by (intro exI [of _ "Suc k"]) auto
  qed
qed simp


section \<open>The scan is the parser\<close>

definition scan_result :: "Recovery \<Rightarrow> nat \<Rightarrow> bytes \<Rightarrow> entry list \<Rightarrow> tail \<Rightarrow> Recovery \<Rightarrow> bool" where
  "scan_result rec pos b rs t rec' \<longleftrightarrow>
     R_Records rec' = R_Records rec + length rs \<and> R_Valid rec' = pos + length (seg_bytes rs) \<and>
     R_Discarded rec' = length b - length (seg_bytes rs) \<and> R_Next rec' = end_off (R_Next rec) rs \<and>
     R_Torn rec' = (t = TornTail) \<and> (R_Corrupt rec' = None \<longleftrightarrow> t \<noteq> CorruptTail)"

definition opened_disk :: "handle \<Rightarrow> nat \<Rightarrow> bool \<Rightarrow> entry list \<Rightarrow> tail \<Rightarrow> disk \<Rightarrow> disk" where
  "opened_disk h i trunc rs t d =
     (if t \<noteq> Clean \<and> trunc then disk_truncate i (length (seg_bytes rs)) (disk_open h i d) else disk_open h i d)"

lemma decode_error_class: "decodeRecord b = Inl err \<Longrightarrow> errors_Is err ErrTorn \<noteq> errors_Is err ErrCorrupt"
  by (auto simp: decodeRecord_def Let_def split: if_splits option.splits) (simp add: Event_Validate_error)

context filesystem
begin

lemma scan_loop_parse:
  assumes "wf st" "d_node (abs st) (s_file s) = Some i" "d_data (abs st) i = seg_bytes xs @ b"
    and "R_Discarded rec = 0" "\<not> R_Torn rec" "R_Corrupt rec = None"
    and "parse (R_Next rec) b = (rs, t)"
  shows "\<exists>rec' s'. scan_loop F st (length (d_data (abs st) i)) (length (seg_bytes xs)) rec s = (Inr rec', s') \<and>
      scan_result rec (length (seg_bytes xs)) b rs t rec' \<and>
      s' = s\<lparr>s_index := s_index s', s_indexed := s_indexed s'\<rparr> \<and>
      (records_ok (s_base s) xs \<longrightarrow> end_off (s_base s) xs = R_Next rec \<longrightarrow> no_wrap rs \<longrightarrow>
       index_ok (s_base s) xs (s_index s) \<longrightarrow> index_ok (s_base s) (xs @ rs) (s_index s'))"
  using assms(2-)
proof (induction "R_Next rec" b arbitrary: xs rec s rs t rule: parse.induct)
  case (1 b)
  let ?pos = "length (seg_bytes xs)" and ?sz = "length (d_data (abs st) i)"
  note loop = scan_loop.simps [of F st ?sz ?pos rec s]
  have drop: "drop ?pos (d_data (abs st) i) = b" using 1(3) by simp
  note read = readRecordFrom_decodes [OF assms(1) 1(2), of "R_Next rec" ?pos, unfolded drop read_outcome_def]
  show ?case
  proof (cases "b = []")
    case True
    then have "rs = []" "t = Clean" using 1(7) by simp_all
    moreover have "scan_loop F st ?sz ?pos rec s = (Inr (rec\<lparr>R_Valid := ?sz\<rparr>), s)" using True 1(3) unfolding loop by simp
    ultimately show ?thesis using True 1(3-6) by (simp add: scan_result_def)
  next
    case False
    then have lt: "?pos < ?sz" using 1(3) by simp
    show ?thesis
    proof (cases "\<exists>r. decodeRecord b = Inr r \<and> \<not> r_Offset r < R_Next rec")
      case True
      then obtain r where r: "decodeRecord b = Inr r" "\<not> r_Offset r < R_Next rec" by blast
      obtain rs' where rs': "parse (r_Offset r + 1) (drop (r_Len r) b) = (rs', t)" "rs = (r_Offset r, r_Event r) # rs'"
        using 1(7) False r by (auto simp: parse.simps [of _ b] split: prod.splits)
      note d = decode_sound [OF r(1)]
      let ?x = "(r_Offset r, r_Event r)"
      let ?rec = "rec\<lparr>R_Next := r_Offset r + 1, R_Records := R_Records rec + 1\<rparr>"
      let ?s = "noteIndex (r_Offset r) ?pos s"
      have b: "b = encode (r_Offset r) (r_Event r) @ drop (r_Len r) b" using d(4) by (metis append_take_drop_id)
      have step: "scan_loop F st ?sz ?pos rec s = scan_loop F st ?sz (length (seg_bytes (xs @ [?x]))) ?rec ?s"
        using lt read r d(2) by (simp add: loop)
      obtain rec' s' where ih: "scan_loop F st ?sz (length (seg_bytes (xs @ [?x]))) ?rec ?s = (Inr rec', s')"
        "scan_result ?rec (length (seg_bytes (xs @ [?x]))) (drop (r_Len r) b) rs' t rec'"
        "s' = ?s\<lparr>s_index := s_index s', s_indexed := s_indexed s'\<rparr>"
        "records_ok (s_base ?s) (xs @ [?x]) \<longrightarrow> end_off (s_base ?s) (xs @ [?x]) = R_Next ?rec \<longrightarrow> no_wrap rs' \<longrightarrow>
          index_ok (s_base ?s) (xs @ [?x]) (s_index ?s) \<longrightarrow> index_ok (s_base ?s) ((xs @ [?x]) @ rs') (s_index s')"
        using 1(1) [OF False r, of ?rec ?s "xs @ [?x]" rs' t] 1(2-6) b rs'(1) by auto
      have "scan_result rec ?pos b rs t rec'"
        using ih(2) d(2) by (auto simp: scan_result_def rs'(2))
      moreover have "s' = s\<lparr>s_index := s_index s', s_indexed := s_indexed s'\<rparr>"
        by (subst ih(3)) (intro segment.equality, simp_all)
      moreover have "index_ok (s_base s) (xs @ rs) (s_index s')"
        if "records_ok (s_base s) xs" "end_off (s_base s) xs = R_Next rec" "no_wrap rs" "index_ok (s_base s) xs (s_index s)"
        using ih(4) that noteIndex_ok [of "s_base s" xs s "r_Offset r" "r_Event r"] r(2) d(1)
        by (auto simp: rs'(2) records_ok_append)
      ultimately show ?thesis unfolding step ih(1) by (intro exI conjI impI) (rule refl | blast)+
    next
      case no: False
      then have rs: "rs = []" and t: "t = (case decodeRecord b of Inl err \<Rightarrow> if errors_Is err ErrTorn then TornTail else CorruptTail
            | Inr _ \<Rightarrow> CorruptTail)"
        using 1(7) False by (auto simp: parse.simps [of _ b] split: sum.splits if_splits)
      obtain err where err: "readRecordFrom F s ?pos (R_Next rec) st = Inl err"
        "errors_Is err ErrTorn \<longleftrightarrow> t = TornTail" "errors_Is err ErrCorrupt \<longleftrightarrow> t = CorruptTail"
        using no read decode_error_class [of b] by (auto simp: t same_class_def split: sum.splits if_splits)
      have "t = TornTail \<or> t = CorruptTail" by (auto simp: t split: sum.splits)
      with err lt 1(3-6) show ?thesis unfolding loop by (auto simp: scan_result_def rs)
    qed
  qed
qed

text \<open>What opening a record file returns and what it leaves on disk, read off its bytes.\<close>

lemma openNamed_parse:
  assumes "wf st" "openNamed F name base opts trunc st = (Inr (s, rec), st')"
  obtains i rs t where "d_dir (abs st) name = Some i" "parse base (d_data (abs st) i) = (rs, t)"
    "d_node (abs st) (s_file s) = None" "wf st'" "abs st' = opened_disk (s_file s) i trunc rs t (abs st)"
    "scan_result (zero_Recovery\<lparr>R_Next := base\<rparr>) 0 (d_data (abs st) i) rs t rec"
    "s_base s = base" "s_name s = name" "s_opts s = Options_withDefaults opts" "\<not> s_sealed s"
    "s_maxBytes s = o_MaxBytes (Options_withDefaults opts)" "no_wrap rs \<Longrightarrow> seg_holds s rs"
proof -
  let ?s0 = "\<lambda>h. fresh_segment h name (Options_withDefaults opts) base"
  let ?r0 = "zero_Recovery\<lparr>R_Next := base\<rparr>"
  obtain h st1 where op: "fs_Open F name st = (Inr h, st1)"
    using assms(2) by (auto simp: openNamed_def Let_def split: prod.splits sum.splits)
  with Open_law [OF assms(1)] obtain i where i: "wf st1" "d_node (abs st) h = None" "d_dir (abs st) name = Some i"
    "abs st1 = disk_open h i (abs st)" by blast
  have nd: "d_node (abs st1) (s_file (?s0 h)) = Some i" "d_data (abs st1) i = seg_bytes [] @ d_data (abs st) i"
    by (simp_all add: i(4) disk_open_def fresh_segment_def)
  obtain rs t where pt: "parse base (d_data (abs st) i) = (rs, t)" by fastforce
  obtain rec1 s1 where scan: "scan F (?s0 h) st1 = (Inr rec1, s1)"
    "scan_result ?r0 0 (d_data (abs st) i) rs t rec1" "s1 = (?s0 h)\<lparr>s_index := s_index s1, s_indexed := s_indexed s1\<rparr>"
    "no_wrap rs \<Longrightarrow> index_ok base rs (s_index s1)"
    using scan_loop_parse [OF i(1) nd, of ?r0 rs t] pt Size_law [OF i(1) nd(1)] fresh_segment_holds [of h name "Options_withDefaults opts" base]
    by (auto simp: scan_def zero_Recovery_def seg_holds_def fresh_segment_def)
  obtain rest where b: "d_data (abs st) i = seg_bytes rs @ rest" "ascends base rs" "\<forall>r\<in>set rs. framable (snd r)"
    "t = Clean \<longleftrightarrow> rest = []" using parse_sound [OF pt] by blast
  have disc: "R_Discarded rec1 > 0 \<longleftrightarrow> t \<noteq> Clean" "R_Valid rec1 = length (seg_bytes rs)"
    using scan(2) b by (auto simp: scan_result_def)
  have s: "rec = rec1" "s = s1\<lparr>s_size := R_Valid rec1, s_next := R_Next rec1, s_count := R_Records rec1\<rparr>"
    using assms(2) op scan(1) by (auto simp: openNamed_def Let_def split: if_splits prod.splits option.splits)
  have flds: "s_file s = h" "s_base s = base" "s_name s = name" "s_opts s = Options_withDefaults opts" "\<not> s_sealed s"
    "s_maxBytes s = o_MaxBytes (Options_withDefaults opts)" "s_index s = s_index s1"
    by (simp_all add: s(2)) (subst scan(3), simp add: fresh_segment_def)+
  have disk: "wf st' \<and> abs st' = opened_disk h i trunc rs t (abs st)"
  proof (cases "t \<noteq> Clean \<and> trunc")
    case True
    with assms(2) op scan(1) disc have "file_Truncate F h (int (length (seg_bytes rs))) st1 = (None, st')"
      by (auto simp: openNamed_def Let_def split: prod.splits option.splits)
    with Truncate_law [OF i(1)] nd(1) True show ?thesis by (simp add: fresh_segment_def opened_disk_def i(4))
  next
    case False
    with assms(2) op scan(1) disc have "st' = st1" by (auto simp: openNamed_def Let_def)
    with i False show ?thesis by (auto simp: opened_disk_def)
  qed
  have "seg_holds s rs" if "no_wrap rs"
    using that scan(2,4) b disc(2) flds by (auto simp: seg_holds_def records_ok_def s scan_result_def zero_Recovery_def)
  with i pt disk scan(2) flds s(1) show thesis by (intro that) simp_all
qed

lemma openNamed_rep:
  assumes "wf st" "openNamed F name base opts trunc st = (Inr (s, rec), st')"
    and "d_dir (abs st) name = Some i" "parse base (d_data (abs st) i) = (rs, t)" "no_wrap rs" "trunc \<or> t = Clean"
  shows "seg_rep (abs st') i s rs"
proof -
  obtain rest where b: "d_data (abs st) i = seg_bytes rs @ rest" "t = Clean \<longleftrightarrow> rest = []"
    using parse_sound [OF assms(4)] by blast
  from assms(1,2) show ?thesis
  proof (rule openNamed_parse)
    fix j rs' t'
    assume a: "d_dir (abs st) name = Some j" "parse base (d_data (abs st) j) = (rs', t')"
      "abs st' = opened_disk (s_file s) j trunc rs' t' (abs st)" "no_wrap rs' \<Longrightarrow> seg_holds s rs'"
    with assms(3,4) have "j = i" "rs' = rs" "t' = t" by auto
    with a b assms(5,6) show ?thesis
      by (auto simp: seg_rep_def opened_disk_def disk_truncate_def disk_open_def)
  qed
qed

end

context reliable_filesystem
begin

lemma openNamed_ok:
  assumes "wf st" "ValidateName name = None" "d_dir (abs st) name = Some i"
  shows "\<exists>s rec st'. openNamed F name base opts trunc st = (Inr (s, rec), st')"
proof -
  let ?opts = "Options_withDefaults opts"
  obtain h st1 where op: "fs_Open F name st = (Inr h, st1)" "wf st1" "abs st1 = disk_open h i (abs st)"
    using Open_step [OF assms] .
  let ?s0 = "fresh_segment h name ?opts base" and ?b = "d_data (abs st) i"
  have nd: "d_node (abs st1) h = Some i" "d_data (abs st1) i = ?b" by (simp_all add: op(3) disk_open_def)
  obtain rs t where pt: "parse base ?b = (rs, t)" by fastforce
  obtain rec1 s1 where scan: "scan F ?s0 st1 = (Inr rec1, s1)" "R_Valid rec1 = length (seg_bytes rs)"
    using scan_loop_parse [OF op(2), of ?s0 i "[]" ?b "zero_Recovery\<lparr>R_Next := base\<rparr>" rs t] pt
      Size_law [OF op(2) nd(1)] nd
    by (auto simp: scan_def zero_Recovery_def fresh_segment_def scan_result_def)
  have "length (seg_bytes rs) \<le> length (d_data (abs st1) i)"
    using parse_sound [OF pt] nd(2) by auto
  then obtain st2 where "file_Truncate F h (int (R_Valid rec1)) st1 = (None, st2)"
    using Truncate_step [OF op(2) nd(1), of "R_Valid rec1"] scan(2) by auto
  then show ?thesis using op(1) scan(1) by (simp add: openNamed_def Let_def)
qed

end

end
