(* ===== verification/Log_Log.thy ===== *)
theory Log_Log
  imports Log_Recovery
begin

text \<open>
  \<^verbatim>\<open>log/log.go\<close>: the log as a sequence of segments over one directory.

  The Go shares \<^verbatim>\<open>*segment\<close> pointers between the log's \<^verbatim>\<open>active\<close> field, its \<^verbatim>\<open>sealed\<close> cache and
  the cursors of readers, so segments live in a heap, \<open>l_segs\<close>, and those fields hold
  addresses into it. The injected clock is a function of the state, because it only observes.
\<close>

section \<open>Configuration\<close>

datatype Durability = Batch | Sync | OS

definition DefaultSyncRecords :: int where "DefaultSyncRecords = 1024"

record 's Config =
  c_Segment :: Options
  c_Durability :: Durability
  c_SyncRecords :: int
  c_SyncInterval :: Time
  c_Clock :: "('s \<Rightarrow> Time) option"

definition Config_withDefaults :: "'s Config \<Rightarrow> 's Config" where
  "Config_withDefaults c =
     (let c = c\<lparr>c_Segment := Options_withDefaults (c_Segment c)\<rparr>
      in if c_SyncRecords c \<le> 0 \<and> sint (c_SyncInterval c) \<le> 0
         then c\<lparr>c_SyncRecords := DefaultSyncRecords\<rparr> else c)"

section \<open>State\<close>

text \<open>The offsets log of the consumer groups; \<^verbatim>\<open>log/group.go\<close> works on it.\<close>

record commits =
  cm_seg :: segment
  cm_at :: "(string \<times> Offset) list"

record 's Log =
  l_cfg :: "'s Config"
  l_bases :: "Offset list"
  l_sealed :: "(Offset \<times> nat) list"
  l_active :: nat
  l_sinceSync :: int
  l_lastSync :: Time
  l_commits :: "commits option"
  l_generation :: "64 word"
  l_segs :: "segment list"

definition seg_at :: "'s Log \<Rightarrow> nat \<Rightarrow> segment" where
  "seg_at l a = l_segs l ! a"

definition active :: "'s Log \<Rightarrow> segment" where
  "active l = seg_at l (l_active l)"

definition set_active :: "segment \<Rightarrow> 's Log \<Rightarrow> 's Log" where
  "set_active s l = l\<lparr>l_segs := (l_segs l)[l_active l := s]\<rparr>"

definition new_Log :: "'s Config \<Rightarrow> Offset list \<Rightarrow> segment \<Rightarrow> 's Log" where
  "new_Log cfg bases s =
     \<lparr>l_cfg = cfg, l_bases = bases, l_sealed = [], l_active = 0, l_sinceSync = 0, l_lastSync = 0,
      l_commits = None, l_generation = 0, l_segs = [s]\<rparr>"

definition log_First :: "'s Log \<Rightarrow> Offset" where
  "log_First l = l_bases l ! 0"

definition log_Next :: "'s Log \<Rightarrow> Offset" where
  "log_Next l = s_next (active l)"

definition log_Segments :: "'s Log \<Rightarrow> Offset list" where
  "log_Segments l = l_bases l"

section \<open>Opening\<close>

definition createSegment :: "'s fs_ops \<Rightarrow> 's Config \<Rightarrow> Offset \<Rightarrow> 's \<Rightarrow> segment res \<times> 's" where
  "createSegment F cfg base st =
     (case newSegment F base (c_Segment cfg) st of
        (Inl err, st) \<Rightarrow> (Inl err, st)
      | (Inr seg, st) \<Rightarrow>
          (case fs_Sync F st of
             (Some err, st) \<Rightarrow>
               (Inl (Errorf ''log: sync the directory after creating %s: %w'' [err]), snd (seg_Close F seg st))
           | (None, st) \<Rightarrow> (Inr seg, st)))"

definition log_Open :: "'s fs_ops \<Rightarrow> 's Config \<Rightarrow> 's \<Rightarrow> ('s Log \<times> Recovery) res \<times> 's" where
  "log_Open F cfg st =
     (let cfg = Config_withDefaults cfg in
      if c_Durability cfg = Batch \<and> sint (c_SyncInterval cfg) > 0 \<and> c_Clock cfg = None then
        (Inl (Errorf ''log: SyncInterval is %d but no Clock was injected'' []), st)
      else
        (case fs_List F st of
           Inl err \<Rightarrow> (Inl (Errorf ''log: list segments: %w'' [err]), st)
         | Inr names \<Rightarrow>
             (let bases = sort (List.map_filter parseSegmentName names) in
              if bases = [] then
                (case createSegment F cfg 0 st of
                   (Inl err, st) \<Rightarrow> (Inl err, st)
                 | (Inr s, st) \<Rightarrow> (Inr (new_Log cfg [0] s, zero_Recovery), st))
              else
                (case openSegmentTruncating F (segmentName (last bases)) (c_Segment cfg) st of
                   (Inl err, st) \<Rightarrow> (Inl err, st)
                 | (Inr (s, rec), st) \<Rightarrow>
                     (let l = new_Log cfg bases s in
                      (Inr (case c_Clock cfg of None \<Rightarrow> l | Some now \<Rightarrow> l\<lparr>l_lastSync := now st\<rparr>, rec), st))))))"

section \<open>Durability\<close>

definition log_Sync :: "'s fs_ops \<Rightarrow> 's Log \<Rightarrow> 's \<Rightarrow> error option \<times> 's Log \<times> 's" where
  "log_Sync F l st =
     (case seg_Sync F (active l) st of
        (Some err, st) \<Rightarrow> (Some err, l, st)
      | (None, st) \<Rightarrow>
          (None,
           (let l = l\<lparr>l_sinceSync := 0\<rparr> in
            case c_Clock (l_cfg l) of None \<Rightarrow> l | Some now \<Rightarrow> l\<lparr>l_lastSync := now st\<rparr>),
           st))"

text \<open>
  A batch-mode log with an interval and no clock cannot be opened, so the missing clock is a
  branch that only a log built by hand could reach.
\<close>

definition maybeSync :: "'s fs_ops \<Rightarrow> 's Log \<Rightarrow> 's \<Rightarrow> error option \<times> 's Log \<times> 's" where
  "maybeSync F l st =
     (case c_Durability (l_cfg l) of
        Sync \<Rightarrow> log_Sync F l st
      | OS \<Rightarrow> (None, l, st)
      | Batch \<Rightarrow>
          if c_SyncRecords (l_cfg l) > 0 \<and> l_sinceSync l \<ge> c_SyncRecords (l_cfg l) then log_Sync F l st
          else if sint (c_SyncInterval (l_cfg l)) > 0 then
            (case c_Clock (l_cfg l) of
               None \<Rightarrow> (None, l, st)
             | Some now \<Rightarrow>
                 if sint (now st - l_lastSync l) \<ge> sint (c_SyncInterval (l_cfg l)) then log_Sync F l st
                 else (None, l, st))
          else (None, l, st))"

section \<open>Appending\<close>

definition log_roll :: "'s fs_ops \<Rightarrow> 's Log \<Rightarrow> 's \<Rightarrow> error option \<times> 's Log \<times> 's" where
  "log_roll F l st =
     (case seg_Sync F (active l) st of
        (Some err, st) \<Rightarrow> (Some err, l, st)
      | (None, st) \<Rightarrow>
          let l = set_active (seg_Seal (active l)) l;
              base = s_next (active l)
          in case createSegment F (l_cfg l) base st of
               (Inl err, st) \<Rightarrow> (Some err, l, st)
             | (Inr next, st) \<Rightarrow>
                 (None,
                  (let l = l\<lparr>l_sealed := AList.update (s_base (active l)) (l_active l) (l_sealed l),
                             l_segs := l_segs l @ [next], l_active := length (l_segs l),
                             l_bases := l_bases l @ [base], l_sinceSync := 0\<rparr>
                   in case c_Clock (l_cfg l) of None \<Rightarrow> l | Some now \<Rightarrow> l\<lparr>l_lastSync := now st\<rparr>),
                  st))"

text \<open>
  The loop of \<^verbatim>\<open>Append\<close>. The error it returns stops it, as does a segment that took nothing:
  that branch is what makes the recursion end.
\<close>

function append_loop ::
  "'s fs_ops \<Rightarrow> event list \<Rightarrow> Offset list \<Rightarrow> 's Log \<Rightarrow> 's \<Rightarrow> (Offset list \<times> error option) \<times> 's Log \<times> 's" where
  "append_loop F [] offsets l st = ((offsets, None), l, st)"
| "append_loop F (e # es) offsets l st =
     (case (if seg_Full (active l) then log_roll F l st else (None, l, st)) of
        (Some err, l, st) \<Rightarrow> ((offsets, Some err), l, st)
      | (None, l, st) \<Rightarrow>
          (case seg_AppendAll F (e # es) (active l) st of
             ((n, first, err), s, st) \<Rightarrow>
               let l = (set_active s l)\<lparr>l_sinceSync := l_sinceSync l + int n\<rparr>;
                   offsets = offsets @ map (\<lambda>i. first + word_of_nat i) [0..<n]
               in (case err of
                     Some err \<Rightarrow> ((offsets, Some err), l, st)
                   | None \<Rightarrow>
                       if n = 0 then
                         ((offsets, Some (Errorf ''log: segment %s accepted no records and reported no error'' [])), l, st)
                       else append_loop F (drop n (e # es)) offsets l st)))"
  by pat_completeness auto
termination
  by (relation "measure (\<lambda>(F, es, offsets, l, st). length es)") auto

definition log_Append ::
  "'s fs_ops \<Rightarrow> event list \<Rightarrow> 's Log \<Rightarrow> 's \<Rightarrow> (Offset list \<times> error option) \<times> 's Log \<times> 's" where
  "log_Append F events l st =
     (if events = [] then (([], None), l, st)
      else
        (case append_loop F events [] l st of
           ((offsets, Some err), l, st) \<Rightarrow> ((offsets, Some err), l, st)
         | ((offsets, None), l, st) \<Rightarrow>
             (case maybeSync F l st of (err, l, st) \<Rightarrow> ((offsets, err), l, st))))"

section \<open>Reading\<close>

definition segmentFor :: "'s fs_ops \<Rightarrow> Offset \<Rightarrow> 's Log \<Rightarrow> 's \<Rightarrow> nat res \<times> 's Log \<times> 's" where
  "segmentFor F off l st =
     (if off < log_First l \<or> off \<ge> log_Next l then
        (Inl (Errorf ''%w: %d is outside the log, which holds [%d, %d)'' [Sentinel ErrNotFound]), l, st)
      else
        let i = sort_Search (length (l_bases l)) (\<lambda>i. l_bases l ! i > off) - 1;
            base = l_bases l ! i
        in if base = s_base (active l) then (Inr (l_active l), l, st)
           else
             (case map_of (l_sealed l) base of
                Some a \<Rightarrow> (Inr a, l, st)
              | None \<Rightarrow>
                  (case openSealedSegment F (segmentName base) (c_Segment (l_cfg l)) st of
                     (Inl err, st) \<Rightarrow> (Inl err, l, st)
                   | (Inr s, st) \<Rightarrow>
                       (Inr (length (l_segs l)),
                        l\<lparr>l_segs := l_segs l @ [s], l_sealed := AList.update base (length (l_segs l)) (l_sealed l)\<rparr>,
                        st))))"

definition log_Read :: "'s fs_ops \<Rightarrow> Offset \<Rightarrow> 's Log \<Rightarrow> 's \<Rightarrow> Record res \<times> 's Log \<times> 's" where
  "log_Read F off l st =
     (case segmentFor F off l st of
        (Inl err, l, st) \<Rightarrow> (Inl err, l, st)
      | (Inr a, l, st) \<Rightarrow> (seg_Read F (seg_at l a) off st, l, st))"

definition baseAfter :: "Offset \<Rightarrow> 's Log \<Rightarrow> Offset option" where
  "baseAfter base l =
     (let i = sort_Search (length (l_bases l)) (\<lambda>i. l_bases l ! i > base)
      in if i = length (l_bases l) then None else Some (l_bases l ! i))"

section \<open>Closing\<close>

fun close_segments ::
  "'s fs_ops \<Rightarrow> 's Log \<Rightarrow> Offset list \<Rightarrow> error option \<Rightarrow> 's \<Rightarrow> error option \<times> 's" where
  "close_segments F l [] first st = (first, st)"
| "close_segments F l (base # bases) first st =
     (case (if base = s_base (active l) then Some (l_active l) else map_of (l_sealed l) base) of
        None \<Rightarrow> close_segments F l bases first st
      | Some a \<Rightarrow>
          (case seg_Close F (seg_at l a) st of
             (err, st) \<Rightarrow> close_segments F l bases (if first = None then err else first) st))"

definition log_Close :: "'s fs_ops \<Rightarrow> 's Log \<Rightarrow> 's \<Rightarrow> error option \<times> 's Log \<times> 's" where
  "log_Close F l st =
     (let (first, st) = (case l_commits l of None \<Rightarrow> (None, st) | Some c \<Rightarrow> seg_Close F (cm_seg c) st);
          l = l\<lparr>l_commits := None\<rparr>;
          (err, st) = close_segments F l (l_bases l) first st
      in (err, l, st))"

section \<open>The content of a log\<close>

text \<open>
  Abstractly a log is a list of segments, each a base and its records, of which the last one
  is active. \<open>chain\<close> says that the segments follow one another, gaps allowed; the flattened
  records are what readers see.
\<close>

type_synonym piece = "Offset \<times> entry list"

fun chain :: "Offset \<Rightarrow> piece list \<Rightarrow> bool" where
  "chain lo [] = True"
| "chain lo ((b, rs) # cs) = (lo \<le> b \<and> records_ok b rs \<and> chain (end_off b rs) cs)"

fun chain_end :: "Offset \<Rightarrow> piece list \<Rightarrow> Offset" where
  "chain_end lo [] = lo"
| "chain_end lo ((b, rs) # cs) = chain_end (end_off b rs) cs"

abbreviation segment_names :: "string set" where
  "segment_names \<equiv> range segmentName"

definition flat :: "piece list \<Rightarrow> entry list" where
  "flat cs = concat (map snd cs)"

definition pieces_ok :: "piece list \<Rightarrow> bool" where
  "pieces_ok cs \<longleftrightarrow> chain 0 cs \<and> sorted_wrt (<) (map fst cs)"

lemma flat_simps [simp]: "flat [] = []" "flat (c # cs) = snd c @ flat cs" "flat (xs @ ys) = flat xs @ flat ys"
  by (simp_all add: flat_def)

lemma chain_append [simp]: "chain lo (xs @ ys) \<longleftrightarrow> chain lo xs \<and> chain (chain_end lo xs) ys"
  by (induction lo xs rule: chain.induct) auto

lemma chain_end_append [simp]: "chain_end lo (xs @ ys) = chain_end (chain_end lo xs) ys"
  by (induction lo xs rule: chain_end.induct) auto

lemma chain_end_ge: "chain lo cs \<Longrightarrow> lo \<le> chain_end lo cs"
proof (induction lo cs rule: chain.induct)
  case (2 lo b rs cs)
  then show ?case using records_ok_ge [of b rs] by (auto intro: order_trans)
qed simp

lemma records_ok_mono: "records_ok lo rs \<Longrightarrow> lo' \<le> lo \<Longrightarrow> records_ok lo' rs"
  by (cases rs) auto

lemma chain_mono: "chain lo cs \<Longrightarrow> lo' \<le> lo \<Longrightarrow> chain lo' cs"
  by (induction lo cs rule: chain.induct) auto

text \<open>Every record of a chain lies between where the chain may start and where it ends.\<close>

lemma chain_range: "chain lo cs \<Longrightarrow> r \<in> set (flat cs) \<Longrightarrow> lo \<le> fst r \<and> fst r < chain_end lo cs"
proof (induction lo cs rule: chain.induct)
  case (2 lo b rs cs)
  show ?case
  proof (cases "r \<in> set rs")
    case True
    then show ?thesis
      using 2 records_ok_range [of b rs r] chain_end_ge [of "end_off b rs" cs] by auto
  next
    case False
    then show ?thesis using 2 records_ok_ge [of b rs] by (auto intro: order_trans)
  qed
qed simp

lemma records_ok_flat: "chain lo cs \<Longrightarrow> records_ok lo (flat cs) \<and> end_off lo (flat cs) \<le> chain_end lo cs"
proof (induction lo cs rule: chain.induct)
  case (2 lo b rs cs)
  then have "records_ok lo rs" "records_ok (end_off b rs) (flat cs)" "end_off (end_off b rs) (flat cs) \<le> chain_end (end_off b rs) cs"
    by (auto intro: records_ok_mono)
  moreover have "end_off lo rs \<le> end_off b rs" using 2 by (cases rs) auto
  moreover from calculation have "end_off (end_off lo rs) (flat cs) \<le> end_off (end_off b rs) (flat cs)"
    by (cases "flat cs") auto
  ultimately show ?case by (auto simp: records_ok_append intro: records_ok_mono)
qed simp

text \<open>Looking in the segment whose base is the greatest at or below the offset loses nothing.\<close>

lemma chain_bases: "chain lo cs \<Longrightarrow> (b, rs) \<in> set cs \<Longrightarrow> lo \<le> b"
  by (induction lo cs rule: chain.induct) (auto dest: records_ok_ge)

lemma chain_piece: "chain lo cs \<Longrightarrow> c \<in> set cs \<Longrightarrow> records_ok (fst c) (snd c)"
  by (induction lo cs rule: chain.induct) auto

lemma flat_lookup:
  assumes "pieces_ok cs" "(b, rs) \<in> set cs" "b \<le> off" "\<And>c. c \<in> fst ` set cs \<Longrightarrow> c \<le> off \<Longrightarrow> c \<le> b"
  shows "map_of (flat cs) off = map_of rs off"
proof -
  obtain xs ys where cs: "cs = xs @ (b, rs) # ys" using split_list [OF assms(2)] by blast
  have ok: "chain 0 xs" "chain_end 0 xs \<le> b" "chain (end_off b rs) ys" "\<And>c. c \<in> fst ` set ys \<Longrightarrow> b < c"
    using assms(1) by (auto simp: cs pieces_ok_def sorted_wrt_append)
  have "off \<notin> fst ` set (flat xs)"
    using chain_range [OF ok(1)] ok(2) assms(3) by fastforce
  then have "map_of (flat xs) off = None" by (simp add: map_of_eq_None_iff)
  moreover have "off < fst r" if "r \<in> set (flat ys)" for r
  proof (cases ys)
    case (Cons y ys')
    have "off < fst y" using assms(4) [of "fst y"] ok(4) [of "fst y"] by (intro not_le_imp_less notI) (auto simp: cs Cons)
    moreover have "chain (fst y) ys" using ok(3) by (cases y) (auto simp: Cons)
    ultimately show ?thesis using chain_range [of "fst y" ys r] that by auto
  qed (use that in simp)
  then have "off \<notin> fst ` set (flat ys)" by fastforce
  then have "map_of (flat ys) off = None" by (simp add: map_of_eq_None_iff)
  ultimately show ?thesis by (simp add: cs map_add_def split: option.split)
qed

section \<open>The representation invariant\<close>

text \<open>
  \<open>stored\<close>: a file of the right name holds exactly the records. \<open>held\<close>: a segment of the heap
  represents that file. \<open>log_rep d l pre b rs\<close>: the log stands for the sealed pieces \<open>pre\<close>
  followed by the active one, \<open>(b, rs)\<close>.
\<close>

definition stored :: "disk \<Rightarrow> piece \<Rightarrow> bool" where
  "stored d c \<longleftrightarrow> (\<exists>i. d_dir d (segmentName (fst c)) = Some i \<and> d_data d i = seg_bytes (snd c))"

definition held :: "disk \<Rightarrow> segment \<Rightarrow> piece \<Rightarrow> bool" where
  "held d s c \<longleftrightarrow> s_base s = fst c \<and> (\<exists>i. d_dir d (segmentName (fst c)) = Some i \<and> seg_rep d i s (snd c))"

definition log_rep :: "disk \<Rightarrow> 's Log \<Rightarrow> piece list \<Rightarrow> Offset \<Rightarrow> entry list \<Rightarrow> bool" where
  "log_rep d l pre b rs \<longleftrightarrow>
     l_bases l = map fst pre @ [b] \<and> pieces_ok (pre @ [(b, rs)]) \<and> (\<forall>c\<in>set pre. stored d c) \<and>
     l_active l < length (l_segs l) \<and> held d (active l) (b, rs) \<and> \<not> s_sealed (active l) \<and>
     0 < s_maxBytes (active l) \<and> 0 < o_MaxBytes (c_Segment (l_cfg l)) \<and>
     (\<forall>b' a. map_of (l_sealed l) b' = Some a \<longrightarrow>
        a < length (l_segs l) \<and> a \<noteq> l_active l \<and> (\<exists>c\<in>set pre. fst c = b' \<and> held d (seg_at l a) c)) \<and>
     (\<forall>b'. d_dir d (segmentName b') \<noteq> None \<longrightarrow> b' = b \<or> b' \<in> fst ` set pre)"

text \<open>
  What a power cut would leave: every segment's name and the whole of every sealed segment,
  and of the active one the first \<open>k\<close> records, followed at most by a torn one.
\<close>

definition log_durable :: "disk \<Rightarrow> piece list \<Rightarrow> Offset \<Rightarrow> entry list \<Rightarrow> nat \<Rightarrow> bool" where
  "log_durable d pre b rs k \<longleftrightarrow>
     (\<forall>b'. d_sdir d (segmentName b') = d_dir d (segmentName b')) \<and>
     (\<forall>c\<in>set pre. \<forall>i. d_dir d (segmentName (fst c)) = Some i \<longrightarrow> d_stable d i = d_data d i) \<and>
     k \<le> length rs \<and>
     (\<forall>i. d_dir d (segmentName b) = Some i \<longrightarrow>
        (\<exists>t. parse b (d_stable d i) = (take k rs, t) \<and> t \<noteq> CorruptTail))"

definition log_inv :: "disk \<Rightarrow> 's Log \<Rightarrow> piece list \<Rightarrow> Offset \<Rightarrow> entry list \<Rightarrow> nat \<Rightarrow> bool" where
  "log_inv d l pre b rs k \<longleftrightarrow> log_rep d l pre b rs \<and> log_durable d pre b rs k"

lemma held_stored: "held d s c \<Longrightarrow> stored d c"
  by (auto simp: held_def stored_def seg_rep_def)

lemma log_repD:
  assumes "log_rep d l pre b rs"
  shows "l_bases l = map fst pre @ [b]" "pieces_ok (pre @ [(b, rs)])" "\<And>c. c \<in> set pre \<Longrightarrow> stored d c"
    "held d (active l) (b, rs)" "\<not> s_sealed (active l)" "0 < s_maxBytes (active l)" "l_active l < length (l_segs l)"
    "log_Next l = end_off b rs" "records_ok b rs"
    "\<And>b'. b' \<in> fst ` set pre \<Longrightarrow> b' < b"
  using assms by (auto simp: log_rep_def held_def seg_rep_def seg_holds_def log_Next_def pieces_ok_def sorted_wrt_append)

lemma log_rep_sealed:
  assumes "log_rep d l pre b rs" "map_of (l_sealed l) b' = Some a"
  shows "a < length (l_segs l)" "a \<noteq> l_active l" "\<exists>c\<in>set pre. fst c = b' \<and> held d (seg_at l a) c"
  using assms unfolding log_rep_def by blast+

text \<open>Opening more handles changes nothing that is held or stored.\<close>

lemma seg_rep_open: "seg_rep d i s rs \<Longrightarrow> d_node d h = None \<Longrightarrow> seg_rep (disk_open h j d) i s rs"
  by (auto simp: seg_rep_def disk_open_def)

lemma held_open: "held d s c \<Longrightarrow> d_node d h = None \<Longrightarrow> held (disk_open h j d) s c"
  by (auto simp: held_def disk_open_def intro: seg_rep_open [unfolded disk_open_def])

lemma stored_open [simp]: "stored (disk_open h j d) c = stored d c"
  by (simp add: stored_def disk_open_def)

lemma log_durable_open [simp]: "log_durable (disk_open h j d) pre b rs k = log_durable d pre b rs k"
  by (simp add: log_durable_def disk_open_def)

text \<open>Appending to one inode leaves the files of other names alone.\<close>

lemma held_append_other:
  "held d s c \<Longrightarrow> no_links (d_dir d) \<Longrightarrow> d_dir d (segmentName b) = Some i \<Longrightarrow> fst c \<noteq> b \<Longrightarrow>
     held (disk_append i p d) s c"
  unfolding held_def seg_rep_def disk_append_def by (auto dest: no_linksD)

lemma stored_append_other:
  "stored d c \<Longrightarrow> no_links (d_dir d) \<Longrightarrow> d_dir d (segmentName b) = Some i \<Longrightarrow> fst c \<noteq> b \<Longrightarrow>
     stored (disk_append i p d) c"
  unfolding stored_def disk_append_def by (auto dest: no_linksD)

lemma held_sync [simp]: "held (disk_sync i d) s c = held d s c"
  by (simp add: held_def seg_rep_def disk_sync_def)

lemma stored_sync [simp]: "stored (disk_sync i d) c = stored d c"
  by (simp add: stored_def disk_sync_def)

lemma seg_at_simps [simp]:
  "l_active l < length (l_segs l) \<Longrightarrow> active (set_active s l) = s"
  "a \<noteq> l_active l \<Longrightarrow> seg_at (set_active s l) a = seg_at l a"
  "a < length (l_segs l) \<Longrightarrow> seg_at (l\<lparr>l_segs := l_segs l @ xs\<rparr>) a = seg_at l a"
  by (simp_all add: active_def seg_at_def set_active_def nth_append)

lemma set_active_sel [simp]:
  "l_cfg (set_active s l) = l_cfg l" "l_bases (set_active s l) = l_bases l" "l_sealed (set_active s l) = l_sealed l"
  "l_active (set_active s l) = l_active l" "l_sinceSync (set_active s l) = l_sinceSync l"
  "l_lastSync (set_active s l) = l_lastSync l" "l_commits (set_active s l) = l_commits l"
  "l_generation (set_active s l) = l_generation l" "length (l_segs (set_active s l)) = length (l_segs l)"
  by (simp_all add: set_active_def)

text \<open>The invariant does not depend on the counters.\<close>

lemma log_rep_counters [simp]:
  "log_rep d (l\<lparr>l_sinceSync := n\<rparr>) pre b rs = log_rep d l pre b rs"
  "log_rep d (l\<lparr>l_lastSync := t\<rparr>) pre b rs = log_rep d l pre b rs"
  "log_rep d (l\<lparr>l_commits := c\<rparr>) pre b rs = log_rep d l pre b rs"
  "log_rep d (l\<lparr>l_generation := g\<rparr>) pre b rs = log_rep d l pre b rs"
  by (simp_all add: log_rep_def active_def seg_at_def)

lemma log_Next_counters [simp]:
  "log_Next (l\<lparr>l_sinceSync := n\<rparr>) = log_Next l" "log_Next (l\<lparr>l_lastSync := t\<rparr>) = log_Next l"
  "active (l\<lparr>l_sinceSync := n\<rparr>) = active l" "active (l\<lparr>l_lastSync := t\<rparr>) = active l"
  by (simp_all add: log_Next_def active_def seg_at_def)

section \<open>Finding the segment\<close>

text \<open>What only grows when a sealed segment is opened for reading.\<close>

definition log_extends :: "'s Log \<Rightarrow> 's Log \<Rightarrow> bool" where
  "log_extends l l' \<longleftrightarrow>
     (\<exists>xs. l_segs l' = l_segs l @ xs) \<and> l' = l\<lparr>l_segs := l_segs l', l_sealed := l_sealed l'\<rparr>"

lemma log_extends_refl [simp]: "log_extends l l"
  by (simp add: log_extends_def)

lemma log_extends_trans: "log_extends a b \<Longrightarrow> log_extends b c \<Longrightarrow> log_extends a c"
  by (cases a, cases b, cases c) (auto simp: log_extends_def)

lemma log_extends_sel:
  assumes "log_extends l l'" "l_active l < length (l_segs l)"
  shows "l_bases l' = l_bases l" "l_active l' = l_active l" "l_cfg l' = l_cfg l" "l_commits l' = l_commits l"
    "l_generation l' = l_generation l" "l_sinceSync l' = l_sinceSync l" "l_lastSync l' = l_lastSync l"
    "active l' = active l" "log_Next l' = log_Next l" "log_First l' = log_First l"
  using assms by (cases l, cases l', auto simp: log_extends_def log_Next_def log_First_def active_def seg_at_def nth_append)+

text \<open>The binary search over bases finds the greatest one at or below the offset.\<close>

lemma base_search:
  fixes bs :: "Offset list"
  assumes "sorted_wrt (<) bs" "bs \<noteq> []" "bs ! 0 \<le> off"
  defines "b \<equiv> bs ! (sort_Search (length bs) (\<lambda>i. bs ! i > off) - 1)"
  shows "b \<in> set bs" "b \<le> off" "\<And>c. c \<in> set bs \<Longrightarrow> c \<le> off \<Longrightarrow> c \<le> b"
proof -
  let ?i = "sort_Search (length bs) (\<lambda>i. bs ! i > off)"
  have mono: "bs ! a \<le> bs ! c" if "a \<le> c" "c < length bs" for a c
    using that assms(1) by (cases "a = c") (auto simp: sorted_wrt_iff_nth_less less_imp_le)
  then have "off < bs ! c" if "a \<le> c" "c < length bs" "off < bs ! a" for a c
    using that by (meson less_le_trans)
  then have search: "?i \<le> length bs" "a < ?i \<Longrightarrow> \<not> off < bs ! a" "?i \<le> c \<Longrightarrow> c < length bs \<Longrightarrow> off < bs ! c" for a c
    using sort_Search_correct [of "length bs" "\<lambda>i. bs ! i > off"] by blast+
  have "?i \<noteq> 0" using search(3) [of 0] assms(2,3) by (intro notI) auto
  then have i: "?i - 1 < ?i" "?i - 1 < length bs" using search(1) by simp_all
  then show "b \<in> set bs" by (simp add: b_def)
  show "b \<le> off" using search(2) [OF i(1)] by (simp add: b_def)
  show "c \<le> b" if c: "c \<in> set bs" "c \<le> off" for c
  proof -
    obtain j where j: "j < length bs" "c = bs ! j" using c(1) by (auto simp: in_set_conv_nth)
    then have "\<not> ?i \<le> j" using search(3) [of j] c(2) by auto
    then show ?thesis using mono [of j "?i - 1"] i j by (simp add: b_def)
  qed
qed

text \<open>Which piece a lookup of an offset must look in.\<close>

definition piece_for :: "Offset \<Rightarrow> piece list \<Rightarrow> piece \<Rightarrow> bool" where
  "piece_for off cs c \<longleftrightarrow> c \<in> set cs \<and> fst c \<le> off \<and> (\<forall>x\<in>set cs. fst x \<le> off \<longrightarrow> fst x \<le> fst c)"

lemma piece_for_lookup: "pieces_ok cs \<Longrightarrow> piece_for off cs c \<Longrightarrow> map_of (flat cs) off = map_of (snd c) off"
  by (rule flat_lookup [of cs "fst c"]) (auto simp: piece_for_def)

lemma piece_unique: "pieces_ok cs \<Longrightarrow> c \<in> set cs \<Longrightarrow> c' \<in> set cs \<Longrightarrow> fst c = fst c' \<Longrightarrow> c = c'"
  by (metis eq_key_imp_eq_value pieces_ok_def prod.collapse strict_sorted_iff)

lemma piece_for_unique:
  assumes "pieces_ok cs" "piece_for off cs c" "piece_for off cs c'"
  shows "c = c'"
proof (rule piece_unique [OF assms(1)])
  show "c \<in> set cs" "c' \<in> set cs" using assms(2,3) by (simp_all add: piece_for_def)
  have "fst c \<le> fst c'" "fst c' \<le> fst c" using assms(2,3) unfolding piece_for_def by blast+
  then show "fst c = fst c'" by simp
qed

text \<open>Caching a sealed segment that was just opened.\<close>

lemma log_rep_cache:
  assumes "log_rep d l pre b rs" "d_node d h = None" "c \<in> set pre" "held (disk_open h i d) s c"
  shows "log_rep (disk_open h i d)
    (l\<lparr>l_segs := l_segs l @ [s], l_sealed := AList.update (fst c) (length (l_segs l)) (l_sealed l)\<rparr>) pre b rs"
    (is "log_rep ?d ?l pre b rs")
proof -
  have act: "active ?l = active l" and seg: "seg_at ?l (length (l_segs l)) = s"
    "\<And>x. x < length (l_segs l) \<Longrightarrow> seg_at ?l x = seg_at l x"
    using log_repD(7) [OF assms(1)] by (auto simp: active_def seg_at_def nth_append)
  have old: "\<exists>c\<in>set pre. fst c = b' \<and> held ?d (seg_at ?l a) c" "a < length (l_segs l)" "a \<noteq> l_active l"
    if "map_of (l_sealed l) b' = Some a" for b' a
  proof -
    show a: "a < length (l_segs l)" "a \<noteq> l_active l" using assms(1) that by (auto simp: log_rep_def)
    show "\<exists>c\<in>set pre. fst c = b' \<and> held ?d (seg_at ?l a) c"
      using assms(1,2) that held_open unfolding log_rep_def seg(2) [OF a(1)] by metis
  qed
  have d: "d_dir ?d = d_dir d" by (simp add: disk_open_def)
  show ?thesis
    using assms old log_repD(3) [OF assms(1)] unfolding log_rep_def act d
    by (auto simp: update_conv' seg(1) intro: held_open less_SucI split: if_splits)
qed

context filesystem
begin

lemma openSealedSegment_held:
  assumes "wf st" "stored (abs st) c" "records_ok (fst c) (snd c)"
    and "openSealedSegment F (segmentName (fst c)) opts st = (Inr s, st')"
  shows "wf st'" "abs st' = disk_open (s_file s) (the (d_dir (abs st) (segmentName (fst c)))) (abs st)"
    "d_node (abs st) (s_file s) = None" "held (abs st') s c"
proof -
  obtain i where i: "d_dir (abs st) (segmentName (fst c)) = Some i" "d_data (abs st) i = seg_bytes (snd c)"
    using assms(2) by (auto simp: stored_def)
  note pt = parse_seg_bytes [OF assms(3), folded i(2)]
  obtain s0 rec where op: "openNamed F (segmentName (fst c)) (fst c) opts False st = (Inr (s0, rec), st')" "s = seg_Seal s0"
    using assms(4) by (auto simp: openSealedSegment_def openSegment_def split: prod.splits sum.splits option.splits if_splits)
  have rep: "seg_rep (abs st') i s0 (snd c)"
    using openNamed_rep [OF assms(1) op(1) i(1) pt] assms(3) by (simp add: records_ok_def)
  obtain j rs' t where j: "d_dir (abs st) (segmentName (fst c)) = Some j" "parse (fst c) (d_data (abs st) j) = (rs', t)"
    "d_node (abs st) (s_file s0) = None" "wf st'" "abs st' = opened_disk (s_file s0) j False rs' t (abs st)"
    "s_base s0 = fst c"
    by (rule openNamed_parse [OF assms(1) op(1)]) blast
  then have disk: "abs st' = disk_open (s_file s0) i (abs st)" using i(1) by (simp add: opened_disk_def)
  show "wf st'" "d_node (abs st) (s_file s) = None"
    "abs st' = disk_open (s_file s) (the (d_dir (abs st) (segmentName (fst c)))) (abs st)"
    using j disk i(1) by (simp_all add: op(2) seg_Seal_def)
  have "seg_rep (abs st') i s (snd c)" using rep by (simp add: op(2) seg_Seal_def seg_rep_def seg_holds_def)
  then show "held (abs st') s c" using j(6) i(1) by (simp add: held_def disk disk_open_def op(2) seg_Seal_def)
qed

lemma segmentFor_rep:
  assumes "wf st" "log_rep (abs st) l pre b rs" "segmentFor F off l st = (Inr a, l', st')"
  shows "wf st'" "log_rep (abs st') l' pre b rs" "log_extends l l'" "a < length (l_segs l')"
    "abs st' = (abs st)\<lparr>d_node := d_node (abs st')\<rparr>"
    "\<exists>c. piece_for off (pre @ [(b, rs)]) c \<and> held (abs st') (seg_at l' a) c"
proof -
  note rep = log_repD [OF assms(2)]
  let ?cs = "pre @ [(b, rs)]"
  define base where "base = l_bases l ! (sort_Search (length (l_bases l)) (\<lambda>i. l_bases l ! i > off) - 1)"
  have off: "log_First l \<le> off" using assms(3) by (auto simp: segmentFor_def split: if_splits)
  have sorted: "sorted_wrt (<) (l_bases l)" "l_bases l \<noteq> []" using rep(1,2) by (simp_all add: pieces_ok_def)
  note base = base_search [OF sorted off [unfolded log_First_def], folded base_def]
  have "base \<in> fst ` set ?cs" using base(1) rep(1) by auto
  then obtain c where c: "c \<in> set ?cs" "fst c = base" by blast
  then have pc: "piece_for off ?cs c" using base rep(1) by (auto simp: piece_for_def)
  have sf: "segmentFor F off l st =
      (if base = s_base (active l) then (Inr (l_active l), l, st)
       else case map_of (l_sealed l) base of
              Some a \<Rightarrow> (Inr a, l, st)
            | None \<Rightarrow>
                (case openSealedSegment F (segmentName base) (c_Segment (l_cfg l)) st of
                   (Inl err, st) \<Rightarrow> (Inl err, l, st)
                 | (Inr s, st) \<Rightarrow>
                     (Inr (length (l_segs l)),
                      l\<lparr>l_segs := l_segs l @ [s], l_sealed := AList.update base (length (l_segs l)) (l_sealed l)\<rparr>,
                      st)))"
    using assms(3) unfolding segmentFor_def base_def [symmetric] Let_def by (auto split: if_splits)
  have base_active: "s_base (active l) = b" using rep(4) by (simp add: held_def)
  consider (act) "base = b" | (cached) a' where "base \<noteq> b" "map_of (l_sealed l) base = Some a'"
    | (opened) "base \<noteq> b" "map_of (l_sealed l) base = None" by (cases "map_of (l_sealed l) base") auto
  then have "wf st' \<and> log_rep (abs st') l' pre b rs \<and> log_extends l l' \<and> a < length (l_segs l') \<and>
    abs st' = (abs st)\<lparr>d_node := d_node (abs st')\<rparr> \<and> held (abs st') (seg_at l' a) c"
  proof cases
    case act
    then have "c = (b, rs)" using c rep(2) by (intro piece_unique [of ?cs]) auto
    then show ?thesis using act assms base_active rep(4,7) by (auto simp: sf active_def)
  next
    case (cached a')
    then have res: "a = a'" "l' = l" "st' = st" using assms(3) base_active by (auto simp: sf)
    obtain c' where c': "c' \<in> set pre" "fst c' = base" "held (abs st) (seg_at l a') c'" "a' < length (l_segs l)"
      using assms(2) cached(2) by (force simp: log_rep_def)
    then have "c' = c" using c rep(2) by (intro piece_unique [of ?cs]) auto
    with c' res assms(1,2) show ?thesis by simp
  next
    case opened
    then have cpre: "c \<in> set pre" using c by auto
    then have ok: "records_ok (fst c) (snd c)" using rep(2) by (auto simp: pieces_ok_def chain_piece)
    obtain s where s: "openSealedSegment F (segmentName base) (c_Segment (l_cfg l)) st = (Inr s, st')"
      "a = length (l_segs l)" "l' = l\<lparr>l_segs := l_segs l @ [s], l_sealed := AList.update base (length (l_segs l)) (l_sealed l)\<rparr>"
      using opened assms(3) base_active by (auto simp: sf split: prod.splits sum.splits)
    note os = openSealedSegment_held [OF assms(1) rep(3) [OF cpre] ok, of "c_Segment (l_cfg l)" s st', unfolded c(2), OF s(1)]
    have "log_rep (abs st') l' pre b rs"
      using log_rep_cache [OF assms(2) os(3) cpre os(4) [unfolded os(2)]] by (simp add: os(2) s(3) c(2))
    moreover have "seg_at l' a = s" by (simp add: s(2,3) seg_at_def)
    moreover have "log_extends l l'" by (simp add: log_extends_def s)
    ultimately show ?thesis using os by (simp add: s(2,3) disk_open_def)
  qed
  then show "wf st'" "log_rep (abs st') l' pre b rs" "log_extends l l'" "a < length (l_segs l')"
    "abs st' = (abs st)\<lparr>d_node := d_node (abs st')\<rparr>"
    "\<exists>c. piece_for off (pre @ [(b, rs)]) c \<and> held (abs st') (seg_at l' a) c"
    using pc by blast+
qed

end

section \<open>Syncing and rolling\<close>

text \<open>A synced active segment is wholly durable.\<close>

lemma log_inv_sync:
  assumes "log_inv d l pre b rs k" "no_links (d_dir d)" "d_node d (s_file (active l)) = Some i"
  shows "log_inv (disk_sync i d) l pre b rs (length rs)"
proof -
  have rep: "log_rep d l pre b rs" and dur: "log_durable d pre b rs k" using assms(1) by (auto simp: log_inv_def)
  obtain j where j: "d_dir d (segmentName b) = Some j" "seg_rep d j (active l) rs"
    using log_repD(4) [OF rep] by (auto simp: held_def)
  then have i: "i = j" "d_data d i = seg_bytes rs" using assms(3) by (auto simp: seg_rep_def)
  have "log_rep (disk_sync i d) l pre b rs"
    using rep by (simp add: log_rep_def) (simp add: disk_sync_def)
  moreover have "log_durable (disk_sync i d) pre b rs (length rs)"
    using dur i parse_seg_bytes [OF log_repD(9) [OF rep]] j(1) by (auto simp: log_durable_def disk_sync_def)
  ultimately show ?thesis by (simp add: log_inv_def)
qed

lemma disk_create_frame:
  assumes "fresh_inode i d" "d_node d h = None" "d_dir d nm = None"
  shows "seg_rep d j s rs \<Longrightarrow> d_dir d nm' = Some j \<Longrightarrow> seg_rep (disk_create nm h i d) j s rs"
    "d_dir d nm' = Some j \<Longrightarrow> d_data (disk_create nm h i d) j = d_data d j \<and>
       d_stable (disk_create nm h i d) j = d_stable d j \<and> d_dir (disk_create nm h i d) nm' = Some j"
  using assms by (auto simp: seg_rep_def disk_create_def fresh_inode_def ran_def)

lemma held_create:
  assumes "fresh_inode i d" "d_node d h = None" "d_dir d nm = None" "held d s c"
  shows "held (disk_create nm h i d) s c"
  using assms(4) disk_create_frame [OF assms(1-3)] unfolding held_def by blast

lemma stored_create:
  assumes "fresh_inode i d" "d_node d h = None" "d_dir d nm = None" "stored d c"
  shows "stored (disk_create nm h i d) c"
  using assms(4) disk_create_frame(2) [OF assms(1-3)] unfolding stored_def by metis

text \<open>The log after the active segment was sealed and a fresh one took its place.\<close>

definition rolled :: "segment \<Rightarrow> 's Log \<Rightarrow> 's Log" where
  "rolled s l =
     (let l = set_active (seg_Seal (active l)) l in
      l\<lparr>l_sealed := AList.update (s_base (active l)) (l_active l) (l_sealed l), l_segs := l_segs l @ [s],
        l_active := length (l_segs l), l_bases := l_bases l @ [s_next (active l)], l_sinceSync := 0\<rparr>)"

lemma seg_rep_Seal [simp]: "seg_rep d i (seg_Seal s) rs = seg_rep d i s rs"
  by (simp add: seg_rep_def seg_holds_def seg_Seal_def)

lemma held_Seal [simp]: "held d (seg_Seal s) c = held d s c"
  by (simp add: held_def) (simp add: seg_Seal_def)

lemma rolled_sel:
  assumes "l_active l < length (l_segs l)"
  shows "active (rolled s l) = s" "l_cfg (rolled s l) = l_cfg l" "l_active (rolled s l) = length (l_segs l)"
    "l_bases (rolled s l) = l_bases l @ [log_Next l]" "length (l_segs (rolled s l)) = Suc (length (l_segs l))"
    "l_sealed (rolled s l) = AList.update (s_base (active l)) (l_active l) (l_sealed l)"
    "seg_at (rolled s l) (l_active l) = seg_Seal (active l)"
    "a < length (l_segs l) \<Longrightarrow> a \<noteq> l_active l \<Longrightarrow> seg_at (rolled s l) a = seg_at l a"
    "l_commits (rolled s l) = l_commits l" "l_generation (rolled s l) = l_generation l"
  using assms
  by (simp_all add: rolled_def Let_def active_def seg_at_def set_active_def log_Next_def seg_Seal_def nth_append)

lemma log_rep_rolled:
  assumes "log_rep d l pre b rs" "rs \<noteq> []" "fresh_inode i d" "d_node d h = None"
    "opts = Options_withDefaults (c_Segment (l_cfg l))"
  shows "log_rep (disk_syncdir (disk_create (segmentName (log_Next l)) h i d))
      (rolled (fresh_segment h (segmentName (log_Next l)) opts (log_Next l)) l) (pre @ [(b, rs)]) (log_Next l) []"
    (is "log_rep ?d ?l _ ?n _")
proof -
  note rep = log_repD [OF assms(1)]
  let ?s = "fresh_segment h (segmentName ?n) opts ?n"
  obtain r where r: "r \<in> set rs" using assms(2) by (cases rs) auto
  have lt: "b < ?n" using records_ok_range [OF rep(9) r] rep(8) by auto
  then have bases: "\<And>b'. b' \<in> fst ` set pre \<Longrightarrow> b' < ?n" using rep(10) by fastforce
  have free: "d_dir d (segmentName ?n) = None"
    using assms(1) lt bases by (fastforce simp: log_rep_def)
  have held: "held ?d s c" if "held d s c" for s c
    using held_create [OF assms(3,4) free that] by (simp add: held_def seg_rep_def disk_syncdir_def)
  have stored: "stored ?d c" if "stored d c" for c
    using stored_create [OF assms(3,4) free that] by (simp add: stored_def disk_syncdir_def)
  have new: "held ?d ?s (?n, [])"
    using fresh_segment_holds [of h "segmentName ?n" opts ?n]
    by (simp add: held_def seg_rep_def disk_create_def disk_syncdir_def) (simp add: fresh_segment_def)
  have "pieces_ok ((pre @ [(b, rs)]) @ [(?n, [])])"
    using rep(2) lt bases by (auto simp: pieces_ok_def sorted_wrt_append rep(8))
  moreover have "\<forall>c\<in>set (pre @ [(b, rs)]). stored ?d c"
    using rep(3) held_stored [OF rep(4)] stored by auto
  moreover have "a < Suc (length (l_segs l)) \<and> a \<noteq> length (l_segs l) \<and>
      (\<exists>c\<in>set (pre @ [(b, rs)]). fst c = b' \<and> held ?d (seg_at ?l a) c)"
    if "map_of (AList.update (s_base (active l)) (l_active l) (l_sealed l)) b' = Some a" for b' a
  proof (cases "b' = s_base (active l)")
    case True
    then have "a = l_active l" using that by (simp add: update_conv')
    then show ?thesis using True rep(4,7) held [OF rep(4)] by (simp add: rolled_sel) (simp add: held_def)
  next
    case False
    then have "map_of (l_sealed l) b' = Some a" using that by (simp add: update_conv')
    then have "a < length (l_segs l) \<and> a \<noteq> l_active l \<and> (\<exists>c\<in>set pre. fst c = b' \<and> held d (seg_at l a) c)"
      using assms(1) unfolding log_rep_def by blast
    then show ?thesis using held rep(7) by (auto simp: rolled_sel(8))
  qed
  moreover have "b' = ?n \<or> b' \<in> fst ` set (pre @ [(b, rs)])" if "d_dir ?d (segmentName b') \<noteq> None" for b'
    using assms(1) that by (auto simp: log_rep_def disk_create_def disk_syncdir_def split: if_splits)
  moreover have "0 < o_MaxBytes opts" by (simp add: assms(5) Options_withDefaults_def Let_def DefaultMaxBytes_def)
  ultimately show ?thesis using rep(1,7) new assms(1)
    by (simp add: log_rep_def rolled_sel) (simp add: fresh_segment_def)
qed

lemma log_durable_rolled:
  assumes "log_rep d l pre b rs" "log_durable d pre b rs (length rs)" "rs \<noteq> []" "fresh_inode i d" "d_node d h = None"
    and "\<And>j. d_dir d (segmentName b) = Some j \<Longrightarrow> d_stable d j = d_data d j"
  shows "log_durable (disk_syncdir (disk_create (segmentName (log_Next l)) h i d)) (pre @ [(b, rs)]) (log_Next l) [] 0"
proof -
  have "i \<notin> ran (d_dir d)" using assms(4) by (simp add: fresh_inode_def)
  then have "d_dir d nm \<noteq> Some i" for nm by (auto simp: ran_def)
  then show ?thesis
    using assms(2,6) by (auto simp: log_durable_def disk_syncdir_def disk_create_def)
qed

section \<open>Appending keeps the invariant\<close>

text \<open>Replacing the active segment by what a batch append made of it.\<close>

lemma log_inv_append:
  assumes "log_inv d l pre b rs k" "no_links (d_dir d)" "d_dir d (segmentName b) = Some i"
    and "d' = disk_append i p d" "seg_rep d' i s (rs @ zs)" "s_base s = b" "\<not> s_sealed s" "0 < s_maxBytes s"
  shows "log_inv d' (set_active s l) pre b (rs @ zs) k"
proof -
  have rep: "log_rep d l pre b rs" and dur: "log_durable d pre b rs k" using assms(1) by (auto simp: log_inv_def)
  note r = log_repD [OF rep]
  have ne: "fst c \<noteq> b" if "c \<in> set pre" for c using r(10) [of "fst c"] that by auto
  have dir: "d_dir d' = d_dir d" "d_sdir d' = d_sdir d" "d_stable d' = d_stable d"
    by (simp_all add: assms(4) disk_append_def)
  have new: "held d' s (b, rs @ zs)" using assms(3,5,6) by (simp add: held_def dir)
  have "records_ok b (rs @ zs)" using assms(5,6) by (simp add: seg_rep_def seg_holds_def)
  then have pcs: "pieces_ok (pre @ [(b, rs @ zs)])" using r(2) by (simp add: pieces_ok_def)
  have st: "\<forall>c\<in>set pre. stored d' c"
    using r(3) ne stored_append_other [OF _ assms(2,3)] unfolding assms(4) by blast
  have sealed: "a < length (l_segs l) \<and> a \<noteq> l_active l \<and> (\<exists>c\<in>set pre. fst c = b' \<and> held d' (seg_at l a) c)"
    if sl: "map_of (l_sealed l) b' = Some a" for b' a
  proof -
    obtain c where "a < length (l_segs l)" "a \<noteq> l_active l" "c \<in> set pre" "fst c = b'" "held d (seg_at l a) c"
      using log_rep_sealed [OF rep sl] by blast
    then show ?thesis using held_append_other [OF _ assms(2,3)] ne unfolding assms(4) by blast
  qed
  have "log_rep d' (set_active s l) pre b (rs @ zs)"
    using rep new pcs st sealed assms(7,8) r(7) unfolding log_rep_def dir by auto
  moreover have "log_durable d' pre b (rs @ zs) k"
  proof -
    have "d_data d' j = d_data d j" if "c \<in> set pre" "d_dir d (segmentName (fst c)) = Some j" for c j
      using ne [OF that(1)] that(2) assms(2,3) by (auto simp: assms(4) disk_append_def dest: no_linksD)
    then show ?thesis using dur by (auto simp: log_durable_def dir)
  qed
  ultimately show ?thesis by (simp add: log_inv_def)
qed

definition offsets_from :: "Offset \<Rightarrow> nat \<Rightarrow> Offset list" where
  "offsets_from off n = map (\<lambda>i. off + word_of_nat i) [0..<n]"

lemma length_offsets_from [simp]: "length (offsets_from off n) = n"
  by (simp add: offsets_from_def)

lemma offsets_from_add: "offsets_from off (m + n) = offsets_from off m @ offsets_from (off + word_of_nat m) n"
  by (induction n) (simp_all add: offsets_from_def add.assoc)

lemma number_append: "number off (xs @ ys) = number off xs @ number (off + word_of_nat (length xs)) ys"
  by (induction off xs rule: number.induct) (simp_all add: add.assoc)

context reliable_filesystem
begin

lemma seg_Sync_ok:
  assumes "wf st" "d_node (abs st) (s_file s) = Some i"
  obtains st' where "seg_Sync F s st = (None, st')" "wf st'" "abs st' = disk_sync i (abs st)"
  using Sync_step [OF assms] by (metis (no_types, lifting) seg_Sync_def case_prod_conv option.simps(4))

lemma log_Sync_ok:
  assumes "wf st" "log_inv (abs st) l pre b rs k"
  obtains l' st' where "log_Sync F l st = (None, l', st')" "wf st'" "log_inv (abs st') l' pre b rs (length rs)"
    "active l' = active l" "l_cfg l' = l_cfg l" "l_commits l' = l_commits l" "l_generation l' = l_generation l"
    "l_segs l' = l_segs l" "l_active l' = l_active l"
proof -
  obtain i where i: "d_node (abs st) (s_file (active l)) = Some i"
    using assms(2) log_repD(4) by (fastforce simp: log_inv_def held_def seg_rep_def)
  obtain st' where s: "seg_Sync F (active l) st = (None, st')" "wf st'" "abs st' = disk_sync i (abs st)"
    using seg_Sync_ok [OF assms(1) i] .
  have "log_inv (abs st') l pre b rs (length rs)"
    unfolding s(3) by (rule log_inv_sync [OF assms(2) Dir_law [OF assms(1)] i])
  with s show thesis
    by (intro that [of "(let l = l\<lparr>l_sinceSync := 0\<rparr> in case c_Clock (l_cfg l) of None \<Rightarrow> l | Some now \<Rightarrow> l\<lparr>l_lastSync := now st'\<rparr>)" st'])
       (simp_all add: log_Sync_def log_inv_def Let_def split: option.split)
qed

text \<open>In \<^const>\<open>Sync\<close> mode nothing is left undurable; the other modes never lose what was durable.\<close>

lemma maybeSync_ok:
  assumes "wf st" "log_inv (abs st) l pre b rs k"
  obtains l' st' k' where "maybeSync F l st = (None, l', st')" "wf st'" "log_inv (abs st') l' pre b rs k'"
    "k \<le> k'" "c_Durability (l_cfg l) = Sync \<Longrightarrow> k' = length rs"
    "active l' = active l" "l_cfg l' = l_cfg l" "l_commits l' = l_commits l" "l_generation l' = l_generation l"
proof -
  have k: "k \<le> length rs" using assms(2) by (simp add: log_inv_def log_durable_def)
  obtain l1 st1 where s: "log_Sync F l st = (None, l1, st1)" "wf st1" "log_inv (abs st1) l1 pre b rs (length rs)"
    "active l1 = active l" "l_cfg l1 = l_cfg l" "l_commits l1 = l_commits l" "l_generation l1 = l_generation l"
    by (rule log_Sync_ok [OF assms]) blast
  have "maybeSync F l st = log_Sync F l st \<or> maybeSync F l st = (None, l, st) \<and> c_Durability (l_cfg l) \<noteq> Sync"
    by (simp add: maybeSync_def split: Durability.split option.split)
  then consider "maybeSync F l st = log_Sync F l st" | "maybeSync F l st = (None, l, st)" "c_Durability (l_cfg l) \<noteq> Sync"
    by blast
  then show thesis
  proof cases
    case 1
    with s k show thesis by (intro that [of l1 st1 "length rs"]) simp_all
  next
    case 2
    with assms show thesis by (intro that [of l st k]) simp_all
  qed
qed

lemma createSegment_ok:
  assumes "wf st" "d_dir (abs st) (segmentName base) = None"
  obtains h i st' where
    "createSegment F cfg base st = (Inr (fresh_segment h (segmentName base) (Options_withDefaults (c_Segment cfg)) base), st')"
    "wf st'" "fresh_inode i (abs st)" "d_node (abs st) h = None"
    "abs st' = disk_syncdir (disk_create (segmentName base) h i (abs st))"
proof -
  obtain h i st1 where c: "fs_Create F (segmentName base) st = (Inr h, st1)" "wf st1" "d_node (abs st) h = None"
    "fresh_inode i (abs st)" "abs st1 = disk_create (segmentName base) h i (abs st)"
    using Create_step [OF assms(1) ValidateName_segmentName assms(2)] .
  obtain st2 where "fs_Sync F st1 = (None, st2)" "wf st2" "abs st2 = disk_syncdir (abs st1)"
    using SyncDir_step [OF c(2)] .
  with c show thesis by (intro that [of h st2 i]) (simp_all add: createSegment_def newSegment_def createNamed_def Let_def)
qed

lemma log_roll_ok:
  assumes "wf st" "log_inv (abs st) l pre b rs k" "rs \<noteq> []"
  obtains l' st' where "log_roll F l st = (None, l', st')" "wf st'"
    "log_inv (abs st') l' (pre @ [(b, rs)]) (log_Next l) [] 0" "log_Next l' = log_Next l"
    "l_cfg l' = l_cfg l" "l_commits l' = l_commits l" "l_generation l' = l_generation l"
proof -
  let ?n = "log_Next l" and ?opts = "Options_withDefaults (c_Segment (l_cfg l))"
  have rep: "log_rep (abs st) l pre b rs" using assms(2) by (simp add: log_inv_def)
  note r = log_repD [OF rep]
  obtain i where i: "d_node (abs st) (s_file (active l)) = Some i" "d_dir (abs st) (segmentName b) = Some i"
    using r(4) by (auto simp: held_def seg_rep_def)
  obtain st1 where s: "seg_Sync F (active l) st = (None, st1)" "wf st1" "abs st1 = disk_sync i (abs st)"
    using seg_Sync_ok [OF assms(1) i(1)] .
  have inv: "log_rep (abs st1) l pre b rs" "log_durable (abs st1) pre b rs (length rs)"
    using log_inv_sync [OF assms(2) Dir_law [OF assms(1)] i(1)] by (simp_all add: s(3) log_inv_def)
  have synced: "d_stable (abs st1) j = d_data (abs st1) j" if "d_dir (abs st1) (segmentName b) = Some j" for j
    using that i(2) by (simp add: s(3) disk_sync_def)
  obtain x where x: "x \<in> set rs" using assms(3) by (cases rs) auto
  have "b < ?n" using records_ok_range [OF r(9) x] r(8) by auto
  then have free: "d_dir (abs st1) (segmentName ?n) = None"
    using inv(1) r(10) by (fastforce simp: log_rep_def)
  obtain h j st2 where c: "createSegment F (l_cfg l) ?n st1 = (Inr (fresh_segment h (segmentName ?n) ?opts ?n), st2)"
    "wf st2" "fresh_inode j (abs st1)" "d_node (abs st1) h = None"
    "abs st2 = disk_syncdir (disk_create (segmentName ?n) h j (abs st1))"
    using createSegment_ok [OF s(2) free] .
  let ?s = "fresh_segment h (segmentName ?n) ?opts ?n"
  have inv2: "log_inv (abs st2) (rolled ?s l) (pre @ [(b, rs)]) ?n [] 0"
    using log_rep_rolled [OF inv(1) assms(3) c(3,4) refl] log_durable_rolled [OF inv assms(3) c(3,4) synced]
    by (simp add: log_inv_def c(5))
  let ?l = "case c_Clock (l_cfg l) of None \<Rightarrow> rolled ?s l | Some now \<Rightarrow> (rolled ?s l)\<lparr>l_lastSync := now st2\<rparr>"
  have nx: "s_next (active (set_active (seg_Seal (active l)) l)) = ?n" "s_base (active (set_active (seg_Seal (active l)) l)) = s_base (active l)"
    using r(7) by (simp_all add: log_Next_def seg_Seal_def)
  have "log_roll F l st = (None, ?l, st2)"
    using s(1) c(1) unfolding log_roll_def rolled_def by (simp add: Let_def nx split: option.split)
  moreover have "log_inv (abs st2) ?l (pre @ [(b, rs)]) ?n [] 0"
    using inv2 by (auto simp: log_inv_def split: option.split)
  moreover have "log_Next ?l = ?n" using r(7) by (auto simp: log_Next_def rolled_sel fresh_segment_def split: option.split)
  ultimately show thesis using c(2) r(7) by (intro that [of ?l st2]) (simp_all add: rolled_sel split: option.split)
qed

text \<open>Making room: after it the active segment is not full and the content is what it was.\<close>

lemma ensure_room:
  assumes "wf st" "log_inv (abs st) l pre b rs k"
  obtains l' st' pre' b' rs' k' where
    "(if seg_Full (active l) then log_roll F l st else (None, l, st)) = (None, l', st')" "wf st'"
    "log_inv (abs st') l' pre' b' rs' k'" "flat (pre' @ [(b', rs')]) = flat (pre @ [(b, rs)])" "log_Next l' = log_Next l"
    "length (flat pre) + k \<le> length (flat pre') + k'"
    "l_cfg l' = l_cfg l" "l_commits l' = l_commits l" "l_generation l' = l_generation l"
proof (cases "seg_Full (active l)")
  case True
  have rep: "log_rep (abs st) l pre b rs" and k: "k \<le> length rs" using assms(2) by (simp_all add: log_inv_def log_durable_def)
  have "rs \<noteq> []" using True log_repD(4,6) [OF rep] by (auto simp: seg_Full_def held_def seg_rep_def seg_holds_def)
  from log_roll_ok [OF assms this] obtain l' st' where r: "log_roll F l st = (None, l', st')" "wf st'"
    "log_inv (abs st') l' (pre @ [(b, rs)]) (log_Next l) [] 0" "log_Next l' = log_Next l"
    "l_cfg l' = l_cfg l" "l_commits l' = l_commits l" "l_generation l' = l_generation l" by metis
  with True k show thesis by (intro that [of l' st' "pre @ [(b, rs)]" "log_Next l" "[]" 0]) simp_all
next
  case False
  with assms show thesis by (intro that [of l st pre b rs k]) simp_all
qed

text \<open>
  The loop appends the longest prefix of the batch that can be framed, at consecutive
  offsets from the log's next one, and stops with an error exactly when an event cannot be.
\<close>

lemma append_loop_ok:
  assumes "wf st" "log_inv (abs st) l pre b rs k" "unat (log_Next l) + length es < 2 ^ 64"
  shows "\<exists>l' st' pre' b' rs' k' err. let good = takeWhile framable es in
    append_loop F es offs l st = ((offs @ offsets_from (log_Next l) (length good), err), l', st') \<and>
    (err = None \<longleftrightarrow> good = es) \<and> wf st' \<and> log_inv (abs st') l' pre' b' rs' k' \<and>
    flat (pre' @ [(b', rs')]) = flat (pre @ [(b, rs)]) @ number (log_Next l) good \<and>
    log_Next l' = log_Next l + word_of_nat (length good) \<and> length (flat pre) + k \<le> length (flat pre') + k' \<and>
    l_cfg l' = l_cfg l \<and> l_commits l' = l_commits l \<and> l_generation l' = l_generation l"
  using assms
proof (induction "length es" arbitrary: es offs l st pre b rs k rule: less_induct)
  case less
  show ?case
  proof (cases es)
    case Nil
    then show ?thesis using less.prems
      by (intro exI [of _ l] exI [of _ st] exI [of _ pre] exI [of _ b] exI [of _ rs] exI [of _ k] exI [of _ None])
         (simp add: offsets_from_def)
  next
    case (Cons e es')
    let ?room = "if seg_Full (active l) then log_roll F l st else (None, l, st)"
    obtain l1 st1 pre1 b1 rs1 k1 where room: "?room = (None, l1, st1)" "wf st1" "log_inv (abs st1) l1 pre1 b1 rs1 k1"
      "flat (pre1 @ [(b1, rs1)]) = flat (pre @ [(b, rs)])" "log_Next l1 = log_Next l"
      "length (flat pre) + k \<le> length (flat pre1) + k1"
      "l_cfg l1 = l_cfg l" "l_commits l1 = l_commits l" "l_generation l1 = l_generation l"
      by (rule ensure_room [OF less.prems(1,2)]) blast
    have rep1: "log_rep (abs st1) l1 pre1 b1 rs1" using room(3) by (simp add: log_inv_def)
    note r1 = log_repD [OF rep1]
    obtain i where i: "d_dir (abs st1) (segmentName b1) = Some i" "seg_rep (abs st1) i (active l1) rs1"
      using r1(4) by (auto simp: held_def)
    obtain n first err s2 st2 where app: "seg_AppendAll F es (active l1) st1 = ((n, first, err), s2, st2)" "\<not> s_sealed s2"
      using seg_AppendAll_ok [OF room(2) _ r1(5), of es] i(2) by (auto simp: seg_rep_def)
    have nx: "s_next (active l1) = log_Next l" using room(5) by (simp add: log_Next_def)
    have fits: "unat (s_next (active l1)) + length es < 2 ^ 64" using less.prems(3) by (simp add: nx)
    note a = seg_AppendAll_rep [OF room(2) i(2) fits app, unfolded nx]
    let ?l2 = "(set_active s2 l1)\<lparr>l_sinceSync := l_sinceSync l1 + int n\<rparr>" and ?rs2 = "rs1 @ number (log_Next l) (take n es)"
    have s2: "s_base s2 = b1" "0 < s_maxBytes s2"
      using r1(4,6) by (subst a(8), simp add: held_def)+
    have inv2: "log_inv (abs st2) ?l2 pre1 b1 ?rs2 k1"
      using log_inv_append [OF room(3) Dir_law [OF room(2)] i(1) a(5) a(6) [unfolded a(3)] s2(1) app(2) s2(2)]
      by (simp add: a(3) log_inv_def)
    have nx2: "log_Next ?l2 = log_Next l + word_of_nat n"
      using log_repD(8) [of "abs st2" ?l2 pre1 b1 ?rs2] inv2 r1(8) room(5) a(2) by (simp add: log_inv_def)
    have "records_ok b1 ?rs2" using inv2 log_repD(9) by (auto simp: log_inv_def)
    then have fr: "list_all framable (take n es)"
      by (auto simp: records_ok_append intro: records_ok_number_framable)
    have good: "takeWhile framable es = take n es @ takeWhile framable (drop n es)"
      using fr takeWhile_append2 [of "take n es" framable "drop n es"] by (simp add: list_all_iff)
    have step: "append_loop F es offs l st =
        (case err of Some err \<Rightarrow> ((offs @ offsets_from (log_Next l) n, Some err), ?l2, st2)
         | None \<Rightarrow> if n = 0 then ((offs @ offsets_from (log_Next l) n,
                       Some (Errorf ''log: segment %s accepted no records and reported no error'' [])), ?l2, st2)
                   else append_loop F (drop n es) (offs @ offsets_from (log_Next l) n) ?l2 st2)"
      using app(1) room(1) by (simp add: Cons Let_def a(3) offsets_from_def split: option.split split del: if_split cong: if_cong)
    show ?thesis
    proof (cases err)
      case (Some x)
      then have "n < length es" "\<not> framable (es ! n)" using a(4) by (auto simp: first_bad_def)
      then have "takeWhile framable es = take n es" "take n es \<noteq> es"
        unfolding good by (simp_all add: Cons_nth_drop_Suc [symmetric])
      with step Some inv2 room nx2 a(1,2) show ?thesis
        by (intro exI [of _ ?l2] exI [of _ st2] exI [of _ pre1] exI [of _ b1] exI [of _ ?rs2] exI [of _ k1] exI [of _ "Some x"])
           simp
    next
      case None
      have n: "0 < n" using a(2) a(7) [OF None] Cons by (cases "n < length es") auto
      have "unat (log_Next l + word_of_nat n) = unat (log_Next l) + n"
        using less.prems(3) a(2) by (simp add: unat_word_ariths unat_of_nat take_bit_eq_mod)
      then have fits2: "unat (log_Next ?l2) + length (drop n es) < 2 ^ 64"
        unfolding nx2 using less.prems(3) a(2) by simp
      have "length (drop n es) < length es" using n Cons by simp
      then have "\<exists>l' st' pre' b' rs' k' err. let good = takeWhile framable (drop n es) in
        append_loop F (drop n es) (offs @ offsets_from (log_Next l) n) ?l2 st2 =
          (((offs @ offsets_from (log_Next l) n) @ offsets_from (log_Next ?l2) (length good), err), l', st') \<and>
        (err = None \<longleftrightarrow> good = drop n es) \<and> wf st' \<and> log_inv (abs st') l' pre' b' rs' k' \<and>
        flat (pre' @ [(b', rs')]) = flat (pre1 @ [(b1, ?rs2)]) @ number (log_Next ?l2) good \<and>
        log_Next l' = log_Next ?l2 + word_of_nat (length good) \<and> length (flat pre1) + k1 \<le> length (flat pre') + k' \<and>
        l_cfg l' = l_cfg ?l2 \<and> l_commits l' = l_commits ?l2 \<and> l_generation l' = l_generation ?l2"
        by (rule less.hyps [OF _ a(1) inv2 fits2])
      then obtain l' st' pre' b' rs' k' err' where ih: "let good = takeWhile framable (drop n es) in
        append_loop F (drop n es) (offs @ offsets_from (log_Next l) n) ?l2 st2 =
          (((offs @ offsets_from (log_Next l) n) @ offsets_from (log_Next ?l2) (length good), err'), l', st') \<and>
        (err' = None \<longleftrightarrow> good = drop n es) \<and> wf st' \<and> log_inv (abs st') l' pre' b' rs' k' \<and>
        flat (pre' @ [(b', rs')]) = flat (pre1 @ [(b1, ?rs2)]) @ number (log_Next ?l2) good \<and>
        log_Next l' = log_Next ?l2 + word_of_nat (length good) \<and> length (flat pre1) + k1 \<le> length (flat pre') + k' \<and>
        l_cfg l' = l_cfg ?l2 \<and> l_commits l' = l_commits ?l2 \<and> l_generation l' = l_generation ?l2" by blast
      have whole: "take n es @ takeWhile framable (drop n es) = es \<longleftrightarrow> takeWhile framable (drop n es) = drop n es"
        by (metis append_take_drop_id same_append_eq)
      have fl: "flat pre1 @ rs1 @ X = flat pre @ rs @ X" for X using room(4) by (simp flip: append_assoc)
      show ?thesis
        unfolding step good using ih n None room a(2)
        by (intro exI [of _ l'] exI [of _ st'] exI [of _ pre'] exI [of _ b'] exI [of _ rs'] exI [of _ k'] exI [of _ err'])
           (auto simp: Let_def nx2 [unfolded log_Next_counters] offsets_from_add number_append add.assoc whole min_def fl
             simp del: takeWhile_eq_all_conv)
    qed
  qed
qed

lemma log_Append_ok:
  assumes "wf st" "log_inv (abs st) l pre b rs k" "unat (log_Next l) + length es < 2 ^ 64"
  defines "good \<equiv> takeWhile framable es"
  obtains err l' st' pre' b' rs' k' where
    "log_Append F es l st = ((offsets_from (log_Next l) (length good), err), l', st')"
    "err = None \<longleftrightarrow> good = es" "wf st'" "log_inv (abs st') l' pre' b' rs' k'"
    "flat (pre' @ [(b', rs')]) = flat (pre @ [(b, rs)]) @ number (log_Next l) good"
    "log_Next l' = log_Next l + word_of_nat (length good)" "length (flat pre) + k \<le> length (flat pre') + k'"
    "c_Durability (l_cfg l) = Sync \<Longrightarrow> good = es \<Longrightarrow> es \<noteq> [] \<Longrightarrow> k' = length rs'"
    "l_cfg l' = l_cfg l" "l_commits l' = l_commits l" "l_generation l' = l_generation l"
proof (cases "es = []")
  case True
  then show thesis using assms
    by (intro that [of None l st pre b rs k]) (simp_all add: log_Append_def offsets_from_def)
next
  case False
  obtain l1 st1 pre1 b1 rs1 k1 err where a:
    "append_loop F es [] l st = ((offsets_from (log_Next l) (length good), err), l1, st1)"
    "err = None \<longleftrightarrow> good = es" "wf st1" "log_inv (abs st1) l1 pre1 b1 rs1 k1"
    "flat (pre1 @ [(b1, rs1)]) = flat (pre @ [(b, rs)]) @ number (log_Next l) good"
    "log_Next l1 = log_Next l + word_of_nat (length good)" "length (flat pre) + k \<le> length (flat pre1) + k1"
    "l_cfg l1 = l_cfg l" "l_commits l1 = l_commits l" "l_generation l1 = l_generation l"
    using append_loop_ok [OF assms(1-3), of "[]"] unfolding good_def [symmetric] Let_def append_Nil by blast
  obtain l2 st2 k2 where m: "maybeSync F l1 st1 = (None, l2, st2)" "wf st2" "log_inv (abs st2) l2 pre1 b1 rs1 k2"
    "k1 \<le> k2" "c_Durability (l_cfg l1) = Sync \<Longrightarrow> k2 = length rs1" "active l2 = active l1"
    "l_cfg l2 = l_cfg l1" "l_commits l2 = l_commits l1" "l_generation l2 = l_generation l1"
    by (rule maybeSync_ok [OF a(3,4)]) blast
  show thesis
  proof (cases err)
    case None
    with a m False show thesis
      by (intro that [of None l2 st2 pre1 b1 rs1 k2]) (simp_all add: log_Append_def log_Next_def)
  next
    case (Some x)
    with a False show thesis by (intro that [of "Some x" l1 st1 pre1 b1 rs1 k1]) (simp_all add: log_Append_def)
  qed
qed

lemma openSealedSegment_ok:
  assumes "wf st" "stored (abs st) c" "records_ok (fst c) (snd c)"
  shows "\<exists>s st'. openSealedSegment F (segmentName (fst c)) opts st = (Inr s, st')"
proof -
  obtain i where i: "d_dir (abs st) (segmentName (fst c)) = Some i" "d_data (abs st) i = seg_bytes (snd c)"
    using assms(2) by (auto simp: stored_def)
  obtain s rec st' where op: "openNamed F (segmentName (fst c)) (fst c) opts False st = (Inr (s, rec), st')"
    using openNamed_ok [OF assms(1) ValidateName_segmentName i(1)] by blast
  obtain j rs t where "d_dir (abs st) (segmentName (fst c)) = Some j" "parse (fst c) (d_data (abs st) j) = (rs, t)"
    "scan_result (zero_Recovery\<lparr>R_Next := fst c\<rparr>) 0 (d_data (abs st) j) rs t rec"
    by (rule openNamed_parse [OF assms(1) op]) blast
  then have "R_Corrupt rec = None" "\<not> R_Torn rec"
    using i parse_seg_bytes [OF assms(3)] by (auto simp: scan_result_def)
  then show ?thesis using op by (simp add: openSealedSegment_def openSegment_def)
qed

lemma segmentFor_ok:
  assumes "wf st" "log_rep (abs st) l pre b rs" "log_First l \<le> off" "off < log_Next l"
  shows "\<exists>a l' st'. segmentFor F off l st = (Inr a, l', st')"
proof -
  note rep = log_repD [OF assms(2)]
  define base where "base = l_bases l ! (sort_Search (length (l_bases l)) (\<lambda>i. l_bases l ! i > off) - 1)"
  have sorted: "sorted_wrt (<) (l_bases l)" "l_bases l \<noteq> []" using rep(1,2) by (simp_all add: pieces_ok_def)
  have rng: "\<not> (off < log_First l \<or> log_Next l \<le> off)" using assms(3,4) by auto
  have "base \<in> set (l_bases l)"
    using base_search(1) [OF sorted assms(3) [unfolded log_First_def]] by (simp add: base_def)
  then consider "base = b" | c where "c \<in> set pre" "fst c = base" using rep(1) by auto
  then show ?thesis
  proof cases
    case 1
    then have "base = s_base (active l)" using rep(4) by (simp add: held_def)
    with rng show ?thesis unfolding segmentFor_def base_def [symmetric] Let_def by simp
  next
    case 2
    have "records_ok (fst c) (snd c)" using rep(2) 2(1) by (auto simp: pieces_ok_def chain_piece)
    then obtain s st' where "openSealedSegment F (segmentName base) (c_Segment (l_cfg l)) st = (Inr s, st')"
      using openSealedSegment_ok [OF assms(1) rep(3) [OF 2(1)]] 2(2) by blast
    with rng show ?thesis
      unfolding segmentFor_def base_def [symmetric] Let_def by (simp split: option.split)
  qed
qed

text \<open>Reading the log is looking the offset up in its content.\<close>

lemma log_Read_ok:
  assumes "wf st" "log_inv (abs st) l pre b rs k"
  obtains res l' st' where "log_Read F off l st = (res, l', st')" "wf st'" "log_inv (abs st') l' pre b rs k" "log_extends l l'"
    "case map_of (flat (pre @ [(b, rs)])) off of
       Some e \<Rightarrow> res = Inr \<lparr>r_Offset = off, r_Event = e, r_Len = RecordLen e\<rparr>
     | None \<Rightarrow> \<exists>err. res = Inl err \<and> same_class err (Sentinel ErrNotFound)"
proof -
  let ?cs = "pre @ [(b, rs)]"
  have rep: "log_rep (abs st) l pre b rs" and dur: "log_durable (abs st) pre b rs k"
    using assms(2) by (auto simp: log_inv_def)
  note r = log_repD [OF rep]
  show thesis
  proof (cases "log_First l \<le> off \<and> off < log_Next l")
    case True
    then obtain a l' st' where sf: "segmentFor F off l st = (Inr a, l', st')"
      using segmentFor_ok [OF assms(1) rep] by blast
    note s = segmentFor_rep [OF assms(1) rep sf]
    obtain c where c: "piece_for off ?cs c" "held (abs st') (seg_at l' a) c" using s(6) by blast
    obtain i where "seg_rep (abs st') i (seg_at l' a) (snd c)" using c(2) by (auto simp: held_def)
    note rd = seg_Read_lookup [OF s(1) this, of off]
    have "log_durable (abs st') pre b rs k" using dur by (subst s(5)) (simp add: log_durable_def)
    with s rd sf show thesis unfolding piece_for_lookup [OF r(2) c(1), symmetric]
      by (intro that [of "seg_Read F (seg_at l' a) off st'" l' st']) (simp_all add: log_Read_def log_inv_def)
  next
    case False
    have ch: "chain 0 ?cs" "chain_end 0 ?cs = log_Next l" using r(2,8) by (simp_all add: pieces_ok_def)
    have "chain (log_First l) ?cs"
      using ch(1) by (cases pre) (auto simp: log_First_def r(1) nth_append)
    then have "log_First l \<le> fst x \<and> fst x < log_Next l" if "x \<in> set (flat ?cs)" for x
      using chain_range [OF _ that, of "log_First l"] chain_range [OF ch(1) that] ch(2) by auto
    then have "map_of (flat ?cs) off = None" using False by (auto simp: map_of_eq_None_iff)
    with False assms show thesis
      by (intro that [of "Inl (Errorf ''%w: %d is outside the log, which holds [%d, %d)'' [Sentinel ErrNotFound])" l st])
         (auto simp: log_Read_def segmentFor_def same_class_def not_less map_add_def)
  qed
qed

end

section \<open>Opening what a log left\<close>

text \<open>A directory that \<^verbatim>\<open>Open\<close> can make a log of: whole sealed segments and one that parses.\<close>

definition disk_holds :: "disk \<Rightarrow> piece list \<Rightarrow> Offset \<Rightarrow> entry list \<Rightarrow> tail \<Rightarrow> bool" where
  "disk_holds d pre b rs t \<longleftrightarrow>
     pieces_ok (pre @ [(b, rs)]) \<and> (\<forall>c\<in>set pre. stored d c) \<and>
     (\<exists>i. d_dir d (segmentName b) = Some i \<and> parse b (d_data d i) = (rs, t)) \<and>
     (\<forall>b'. d_dir d (segmentName b') \<noteq> None \<longleftrightarrow> b' = b \<or> b' \<in> fst ` set pre)"

definition openable :: "'s Config \<Rightarrow> bool" where
  "openable cfg \<longleftrightarrow> \<not> (c_Durability cfg = Batch \<and> sint (c_SyncInterval cfg) > 0 \<and> c_Clock cfg = None)"

lemma set_map_filter_parse: "set (List.map_filter parseSegmentName ns) = {b. segmentName b \<in> set ns}"
  by (induction ns) (auto simp: map_filter_simps parseSegmentName_Some split: option.split)

lemma distinct_map_filter_parse: "distinct ns \<Longrightarrow> distinct (List.map_filter parseSegmentName ns)"
proof (induction ns)
  case (Cons n ns)
  then show ?case
    by (auto simp: map_filter_simps parseSegmentName_Some set_map_filter_parse split: option.split)
qed (simp add: map_filter_simps)

lemma sorted_bases:
  assumes "distinct ns" "\<And>b. segmentName b \<in> set ns \<longleftrightarrow> b \<in> set bs" "sorted_wrt (<) bs"
  shows "sort (List.map_filter parseSegmentName ns) = bs"
  using assms distinct_map_filter_parse [OF assms(1)]
  by (intro sorted_distinct_set_unique) (auto simp: set_map_filter_parse strict_sorted_iff)

lemma Config_withDefaults_sel [simp]:
  "c_Durability (Config_withDefaults cfg) = c_Durability cfg" "c_SyncInterval (Config_withDefaults cfg) = c_SyncInterval cfg"
  "c_Clock (Config_withDefaults cfg) = c_Clock cfg" "c_Segment (Config_withDefaults cfg) = Options_withDefaults (c_Segment cfg)"
  by (simp_all add: Config_withDefaults_def Let_def)

lemma Options_withDefaults_pos [simp]: "0 < o_MaxBytes (Options_withDefaults opts)" "0 < o_IndexInterval (Options_withDefaults opts)"
  by (simp_all add: Options_withDefaults_def Let_def DefaultMaxBytes_def DefaultIndexInterval_def)

lemma opened_disk_frame:
  assumes "no_links (d_dir d)" "d_dir d (segmentName b) = Some i" "parse b (d_data d i) = (rs, t)"
  shows "d_dir (opened_disk h i trunc rs' t d) = d_dir d" "d_sdir (opened_disk h i trunc rs' t d) = d_sdir d"
    "d_stable (opened_disk h i trunc rs' t d) = d_stable d"
    "d_dir d nm = Some j \<Longrightarrow> nm \<noteq> segmentName b \<Longrightarrow> d_data (opened_disk h i trunc rs' t d) j = d_data d j"
  using assms by (auto simp: opened_disk_def disk_truncate_def disk_open_def dest: no_linksD)

lemma same_files_opened:
  assumes "no_links (d_dir d)" "d_dir d (segmentName b) = Some i" "d_node d h = None" "N \<inter> segment_names = {}"
  shows "same_files N d (opened_disk h i trunc rs t d)"
proof -
  have "j \<noteq> i" if "nm \<in> N" "d_dir d nm = Some j" for nm j
    using that assms(1,2,4) by (auto dest: no_linksD)
  then show ?thesis using assms(3)
    by (auto simp: same_files_def opened_disk_def disk_truncate_def disk_open_def)
qed

lemma new_Log_active [simp]: "active (new_Log cfg bases s) = s" "log_Next (new_Log cfg bases s) = s_next s"
  by (simp_all add: new_Log_def active_def seg_at_def log_Next_def)

context reliable_filesystem
begin

lemma log_Open_ok:
  assumes "wf st" "disk_holds (abs st) pre b rs t" "openable cfg"
  obtains l rec st' h i where "log_Open F cfg st = (Inr (l, rec), st')" "wf st'" "log_rep (abs st') l pre b rs"
    "R_Records rec = length rs" "R_Next rec = log_Next l" "R_Torn rec = (t = TornTail)"
    "R_Corrupt rec = None \<longleftrightarrow> t \<noteq> CorruptTail" "d_dir (abs st) (segmentName b) = Some i"
    "parse b (d_data (abs st) i) = (rs, t)" "abs st' = opened_disk h i True rs t (abs st)" "l_cfg l = Config_withDefaults cfg"
    "l_commits l = None" "d_node (abs st) h = None"
proof -
  obtain i where hold: "pieces_ok (pre @ [(b, rs)])" "\<And>c. c \<in> set pre \<Longrightarrow> stored (abs st) c"
    "d_dir (abs st) (segmentName b) = Some i" "parse b (d_data (abs st) i) = (rs, t)"
    "\<And>b'. d_dir (abs st) (segmentName b') \<noteq> None \<longleftrightarrow> b' = b \<or> b' \<in> fst ` set pre"
    using assms(2) unfolding disk_holds_def by blast
  let ?bs = "map fst pre @ [b]" and ?cfg = "Config_withDefaults cfg"
  have nw: "no_wrap rs" using hold(1) by (auto simp: pieces_ok_def records_ok_def)
  obtain ns where ns: "fs_List F st = Inr ns" "distinct ns" "set ns = dom (d_dir (abs st))"
    using List_ok [OF assms(1)] List_law [OF assms(1)] by blast
  have bases: "sort (List.map_filter parseSegmentName ns) = ?bs"
  proof (rule sorted_bases [OF ns(2)])
    show "segmentName b' \<in> set ns \<longleftrightarrow> b' \<in> set ?bs" for b' unfolding ns(3) domIff hold(5) by simp
  qed (use hold(1) in \<open>simp add: pieces_ok_def\<close>)
  obtain s rec st' where op: "openNamed F (segmentName b) b (c_Segment ?cfg) True st = (Inr (s, rec), st')"
    using openNamed_ok [OF assms(1) ValidateName_segmentName hold(3)] by blast
  have rep: "seg_rep (abs st') i s rs" using openNamed_rep [OF assms(1) op hold(3,4) nw] by simp
  obtain j rs' t' where p: "d_dir (abs st) (segmentName b) = Some j" "parse b (d_data (abs st) j) = (rs', t')" "wf st'"
    "abs st' = opened_disk (s_file s) j True rs' t' (abs st)"
    "scan_result (zero_Recovery\<lparr>R_Next := b\<rparr>) 0 (d_data (abs st) j) rs' t' rec" "s_base s = b" "\<not> s_sealed s"
    "s_maxBytes s = o_MaxBytes (Options_withDefaults (c_Segment ?cfg))" "d_node (abs st) (s_file s) = None"
    by (rule openNamed_parse [OF assms(1) op]) blast
  then have e: "j = i" "rs' = rs" "t' = t" using hold(3,4) by auto
  let ?l = "case c_Clock cfg of None \<Rightarrow> new_Log ?cfg ?bs s | Some now \<Rightarrow> (new_Log ?cfg ?bs s)\<lparr>l_lastSync := now st'\<rparr>"
  note fr = opened_disk_frame [OF Dir_law [OF assms(1)] hold(3,4), where h = "s_file s" and trunc = True and rs' = rs, folded p(4) [unfolded e]]
  have ne: "fst c \<noteq> b" if "c \<in> set pre" for c using hold(1) that by (force simp: pieces_ok_def sorted_wrt_append)
  have "stored (abs st') c" if "c \<in> set pre" for c
    using hold(2) [OF that] ne [OF that] fr by (auto simp: stored_def)
  then have "log_rep (abs st') (new_Log ?cfg ?bs s) pre b rs"
    using hold rep p(6-8) fr(1) unfolding log_rep_def new_Log_active
    by (auto simp: new_Log_def held_def)
  then have "log_rep (abs st') ?l pre b rs" by (simp split: option.split)
  moreover have "log_Open F cfg st = (Inr (?l, rec), st')"
    using assms(3) ns(1) bases op
    by (simp add: log_Open_def openSegmentTruncating_def openSegment_def Let_def openable_def split: option.split)
  moreover have "R_Next rec = log_Next ?l"
    using p(5) rep e by (auto simp: scan_result_def seg_rep_def seg_holds_def p(6) split: option.split)
  ultimately show thesis using p e hold(3,4)
    by (intro that [of ?l rec st' i "s_file s"]) (auto simp: scan_result_def zero_Recovery_def new_Log_def split: option.split)
qed

text \<open>An empty directory gives an empty log at offset 0, its name durable from the start.\<close>

lemma log_Open_fresh:
  assumes "wf st" "\<And>b. d_dir (abs st) (segmentName b) = None" "openable cfg"
  obtains l st' where "log_Open F cfg st = (Inr (l, zero_Recovery), st')" "wf st'" "log_inv (abs st') l [] 0 [] 0"
    "l_cfg l = Config_withDefaults cfg" "l_commits l = None"
    "\<And>nm. nm \<notin> segment_names \<Longrightarrow> d_dir (abs st') nm = d_dir (abs st) nm \<and> d_sdir (abs st') nm = d_dir (abs st) nm"
proof -
  let ?cfg = "Config_withDefaults cfg" and ?n = "segmentName 0"
  obtain ns where ns: "fs_List F st = Inr ns" "distinct ns" "set ns = dom (d_dir (abs st))"
    using List_ok [OF assms(1)] List_law [OF assms(1)] by blast
  have bases: "sort (List.map_filter parseSegmentName ns) = []"
    using ns assms(2) by (intro sorted_bases) auto
  obtain h i st' where c: "createSegment F ?cfg 0 st = (Inr (fresh_segment h ?n (Options_withDefaults (c_Segment ?cfg)) 0), st')"
    "wf st'" "fresh_inode i (abs st)" "d_node (abs st) h = None" "abs st' = disk_syncdir (disk_create ?n h i (abs st))"
    using createSegment_ok [OF assms(1) assms(2)] .
  let ?s = "fresh_segment h ?n (Options_withDefaults (c_Segment ?cfg)) 0"
  have "seg_rep (abs st') i ?s []"
    using fresh_segment_holds [of h ?n "Options_withDefaults (c_Segment ?cfg)" 0]
    by (simp add: seg_rep_def c(5) disk_syncdir_def disk_create_def) (simp add: fresh_segment_def)
  then have "log_inv (abs st') (new_Log ?cfg [0] ?s) [] 0 [] 0"
    using assms(2) unfolding log_inv_def log_rep_def log_durable_def new_Log_active
    by (auto simp: new_Log_def held_def pieces_ok_def c(5) disk_syncdir_def disk_create_def split: if_splits)
       (simp_all add: fresh_segment_def)
  moreover have "log_Open F cfg st = (Inr (new_Log ?cfg [0] ?s, zero_Recovery), st')"
    using assms(3) ns(1) bases c(1) by (simp add: log_Open_def Let_def openable_def)
  moreover have "d_dir (abs st') nm = d_dir (abs st) nm \<and> d_sdir (abs st') nm = d_dir (abs st) nm" if "nm \<notin> segment_names" for nm
    using that by (auto simp: c(5) disk_syncdir_def disk_create_def)
  ultimately show thesis using c(2) by (intro that [of "new_Log ?cfg [0] ?s" st']) (simp_all add: new_Log_def)
qed

end

section \<open>Power cuts\<close>

lemma records_ok_take: "records_ok lo rs \<Longrightarrow> records_ok lo (take k rs)"
  by (metis append_take_drop_id records_ok_append)

text \<open>
  What has to survive, by name, for a log to be opened from it: every sealed segment whole, and
  an active one that parses to its records and ends in nothing worse than a torn one.
\<close>

definition recovers :: "(string \<Rightarrow> bytes option) \<Rightarrow> piece list \<Rightarrow> Offset \<Rightarrow> entry list \<Rightarrow> bool" where
  "recovers m pre b rs \<longleftrightarrow>
     pieces_ok (pre @ [(b, rs)]) \<and> (\<forall>c\<in>set pre. m (segmentName (fst c)) = Some (seg_bytes (snd c))) \<and>
     (\<exists>bs t. m (segmentName b) = Some bs \<and> parse b bs = (rs, t) \<and> t \<noteq> CorruptTail) \<and>
     (\<forall>b'. m (segmentName b') \<noteq> None \<longrightarrow> b' = b \<or> b' \<in> fst ` set pre)"

lemma log_inv_recovers:
  assumes "log_inv d l pre b rs k"
  shows "recovers (survived d) pre b (take k rs)"
proof -
  have rep: "log_rep d l pre b rs" and dur: "log_durable d pre b rs k" using assms by (auto simp: log_inv_def)
  note r = log_repD [OF rep]
  have sv: "survived d (segmentName b') = map_option (d_stable d) (d_dir d (segmentName b'))" for b'
    using dur by (simp add: survived_def log_durable_def)
  obtain i where i: "d_dir d (segmentName b) = Some i" using r(4) by (auto simp: held_def)
  then have "\<exists>t. parse b (d_stable d i) = (take k rs, t) \<and> t \<noteq> CorruptTail" using dur by (auto simp: log_durable_def)
  moreover have "survived d (segmentName (fst c)) = Some (seg_bytes (snd c))" if "c \<in> set pre" for c
    using r(3) [OF that] dur that by (auto simp: stored_def sv log_durable_def)
  moreover have "pieces_ok (pre @ [(b, take k rs)])" using r(2,9) by (simp add: pieces_ok_def records_ok_take)
  moreover have "b' = b \<or> b' \<in> fst ` set pre" if "survived d (segmentName b') \<noteq> None" for b'
    using rep that by (auto simp: log_rep_def sv)
  ultimately show ?thesis using i unfolding recovers_def by (auto simp: sv)
qed

lemma recovers_holds:
  assumes "recovers (survived d) pre b rs"
  shows "\<exists>t. disk_holds (disk_crash d) pre b rs t \<and> t \<noteq> CorruptTail"
    and "log_durable (disk_crash d) pre b rs (length rs)"
proof -
  let ?d = "disk_crash d"
  have vis: "survived d nm = map_option (d_data ?d) (d_dir ?d nm)" for nm using survived_visible [of d nm] by simp
  have st: "d_sdir ?d = d_dir ?d" by (simp add: disk_crash_def)
  have same: "d_stable ?d i = d_data ?d i" if "d_dir ?d nm = Some i" for nm i
    using that by (auto simp: disk_crash_def ran_def)
  have c: "c \<in> set pre \<Longrightarrow> survived d (segmentName (fst c)) = Some (seg_bytes (snd c))" for c
    using assms by (simp add: recovers_def)
  obtain bs t where a: "survived d (segmentName b) = Some bs" "parse b bs = (rs, t)" "t \<noteq> CorruptTail"
    using assms by (auto simp: recovers_def)
  have ok: "pieces_ok (pre @ [(b, rs)])" "\<And>b'. survived d (segmentName b') \<noteq> None \<Longrightarrow> b' = b \<or> b' \<in> fst ` set pre"
    using assms by (auto simp: recovers_def)
  have "d_dir ?d (segmentName b') \<noteq> None \<longleftrightarrow> b' = b \<or> b' \<in> fst ` set pre" for b'
    using ok(2) [of b'] c a(1) by (force simp: vis)
  moreover have "stored ?d x" if "x \<in> set pre" for x using c [OF that] by (auto simp: stored_def vis)
  moreover obtain i where i: "d_dir ?d (segmentName b) = Some i" "d_data ?d i = bs" using a(1) by (auto simp: vis)
  ultimately show "\<exists>t. disk_holds ?d pre b rs t \<and> t \<noteq> CorruptTail" using ok(1) a(2,3) unfolding disk_holds_def by blast
  show "log_durable ?d pre b rs (length rs)" using st same i a(2,3) by (auto simp: log_durable_def)
qed

context reliable_filesystem
begin

text \<open>Opening after a power cut gives back what survived, all of it durable.\<close>

lemma recovers_Open:
  assumes "recovers (survived d) pre b rs" "wf st" "abs st = disk_crash d" "openable cfg"
  obtains l' rec st' where "log_Open F cfg st = (Inr (l', rec), st')" "wf st'"
    "log_inv (abs st') l' pre b rs (length rs)" "R_Corrupt rec = None" "R_Records rec = length rs" "R_Next rec = log_Next l'"
    "l_cfg l' = Config_withDefaults cfg" "l_commits l' = None"
    "\<And>N. N \<inter> segment_names = {} \<Longrightarrow> same_files N (abs st) (abs st')"
proof -
  obtain t where t: "disk_holds (abs st) pre b rs t" "t \<noteq> CorruptTail"
    using recovers_holds(1) [OF assms(1)] assms(3) by auto
  have dur: "log_durable (abs st) pre b rs (length rs)" using recovers_holds(2) [OF assms(1)] assms(3) by simp
  obtain l' rec st' h i where o: "log_Open F cfg st = (Inr (l', rec), st')" "wf st'" "log_rep (abs st') l' pre b rs"
    "R_Records rec = length rs" "R_Next rec = log_Next l'" "R_Corrupt rec = None \<longleftrightarrow> t \<noteq> CorruptTail"
    "d_dir (abs st) (segmentName b) = Some i" "parse b (d_data (abs st) i) = (rs, t)"
    "abs st' = opened_disk h i True rs t (abs st)" "l_cfg l' = Config_withDefaults cfg"
    "l_commits l' = None" "d_node (abs st) h = None"
    by (rule log_Open_ok [OF assms(2) t(1) assms(4)]) (rule that; assumption)
  note fr = opened_disk_frame [OF Dir_law [OF assms(2)] o(7,8), where h = h and trunc = True and rs' = rs, folded o(9)]
  have "segmentName (fst c) \<noteq> segmentName b" if "c \<in> set pre" for c
    using log_repD(10) [OF o(3), of "fst c"] that by auto
  then have "log_durable (abs st') pre b rs (length rs)"
    using dur fr by (auto simp: log_durable_def)
  moreover have "same_files N (abs st) (abs st')" if "N \<inter> segment_names = {}" for N
    unfolding o(9) by (rule same_files_opened [OF Dir_law [OF assms(2)] o(7,12) that])
  ultimately show thesis using o t(2) by (intro that [of l' rec st']) (simp_all add: log_inv_def)
qed

text \<open>
  So opening after a power cut gives back every sealed segment and a prefix of the active one
  that has at least what was synced, as a log with the same guarantees.
\<close>

lemma log_crash_Open:
  assumes "log_inv d l pre b rs k" "wf st" "abs st = disk_crash d" "openable cfg"
  obtains l' rec st' where "log_Open F cfg st = (Inr (l', rec), st')" "wf st'"
    "log_inv (abs st') l' pre b (take k rs) k" "R_Corrupt rec = None" "R_Records rec = k" "R_Next rec = log_Next l'"
    "l_cfg l' = Config_withDefaults cfg" "l_commits l' = None"
    "\<And>N. N \<inter> segment_names = {} \<Longrightarrow> same_files N (abs st) (abs st')"
proof -
  have "length (take k rs) = k" using assms(1) by (simp add: log_inv_def log_durable_def)
  with recovers_Open [OF log_inv_recovers [OF assms(1)] assms(2-4)] that show thesis by metis
qed

end

end
