(* ===== verification/Log_Reader.thy ===== *)
theory Log_Reader
  imports Log_Log
begin

text \<open>
  \<^verbatim>\<open>log/reader.go\<close>: cursors. A reader holds the address of a segment, a byte position in it and
  the offset it wants next. Its methods may open segments, so they pass the log and the
  filesystem through.

  The loop of \<^verbatim>\<open>seek\<close> has no bound in its text: it ends because every step moves to a later
  segment. It is a partial function whose value \<^const>\<open>None\<close> means running forever, and on
  every log that satisfies the invariant it is shown to return.
\<close>

section \<open>The code\<close>

record Reader =
  rd_seg :: "nat option"
  rd_pos :: nat
  rd_next :: Offset
  rd_generation :: "64 word"

definition log_Reader :: "Offset \<Rightarrow> 's Log \<Rightarrow> Reader res" where
  "log_Reader from l =
     (if from < log_First l \<or> from > log_Next l then
        Inl (Errorf ''%w: %d is outside the log, which holds [%d, %d]'' [Sentinel ErrNotFound])
      else Inr \<lparr>rd_seg = None, rd_pos = 0, rd_next = from, rd_generation = l_generation l\<rparr>)"

partial_function (option) seek ::
  "'s fs_ops \<Rightarrow> Offset \<Rightarrow> Reader \<Rightarrow> 's Log \<Rightarrow> 's \<Rightarrow> (error option \<times> Reader \<times> 's Log \<times> 's) option" where
  "seek F off r l st =
     (if off < log_Next l then
        (case segmentFor F off l st of
           (Inl err, l, st) \<Rightarrow> Some (Some err, r, l, st)
         | (Inr a, l, st) \<Rightarrow>
             (case locateFrom F (seg_at l a) off st of
                Inr (pos, found) \<Rightarrow>
                  Some (None, \<lparr>rd_seg = Some a, rd_pos = pos, rd_next = found, rd_generation = l_generation l\<rparr>, l, st)
              | Inl err \<Rightarrow>
                  if \<not> errors_Is err ErrNotFound then Some (Some err, r, l, st)
                  else (case baseAfter (s_base (seg_at l a)) l of
                          None \<Rightarrow>
                            Some (None, \<lparr>rd_seg = None, rd_pos = 0, rd_next = off, rd_generation = l_generation l\<rparr>, l, st)
                        | Some next \<Rightarrow> seek F next r l st)))
      else Some (None, \<lparr>rd_seg = None, rd_pos = 0, rd_next = off, rd_generation = l_generation l\<rparr>, l, st))"

definition reader_Seek ::
  "'s fs_ops \<Rightarrow> Offset \<Rightarrow> Reader \<Rightarrow> 's Log \<Rightarrow> 's \<Rightarrow> (error option \<times> Reader \<times> 's Log \<times> 's) option" where
  "reader_Seek F off r l st =
     (if off < log_First l \<or> off > log_Next l then
        Some (Some (Errorf ''%w: %d is outside the log, which holds [%d, %d]'' [Sentinel ErrNotFound]), r, l, st)
      else if off = log_Next l then
        Some (None, \<lparr>rd_seg = None, rd_pos = 0, rd_next = off, rd_generation = l_generation l\<rparr>, l, st)
      else seek F off r l st)"

text \<open>The part of \<^verbatim>\<open>Next\<close> after the cursor has a segment.\<close>

definition read_here ::
  "'s fs_ops \<Rightarrow> Reader \<Rightarrow> 's Log \<Rightarrow> 's \<Rightarrow> Record res \<times> Reader \<times> 's Log \<times> 's" where
  "read_here F r l st =
     (case rd_seg r of
        None \<Rightarrow> (Inl (Sentinel ErrEndOfLog), r, l, st)
      | Some a \<Rightarrow>
          (case readRecordFrom F (seg_at l a) (rd_pos r) (rd_next r) st of
             Inl err \<Rightarrow> (Inl (Errorf ''log: read at or after offset %d: %w'' [err]), r, l, st)
           | Inr rec \<Rightarrow> (Inr rec, r\<lparr>rd_pos := rd_pos r + r_Len rec, rd_next := r_Offset rec + 1\<rparr>, l, st)))"

definition must_seek :: "Reader \<Rightarrow> 's Log \<Rightarrow> bool" where
  "must_seek r l \<longleftrightarrow>
     (case rd_seg r of None \<Rightarrow> True | Some a \<Rightarrow> rd_next r \<ge> s_next (seg_at l a)) \<or>
     rd_generation r \<noteq> l_generation l"

definition reader_Next ::
  "'s fs_ops \<Rightarrow> Reader \<Rightarrow> 's Log \<Rightarrow> 's \<Rightarrow> (Record res \<times> Reader \<times> 's Log \<times> 's) option" where
  "reader_Next F r l st =
     (if rd_next r \<ge> log_Next l then Some (Inl (Sentinel ErrEndOfLog), r, l, st)
      else if must_seek r l then
        (case seek F (rd_next r) r l st of
           None \<Rightarrow> None
         | Some (Some err, r, l, st) \<Rightarrow> Some (Inl err, r, l, st)
         | Some (None, r, l, st) \<Rightarrow> Some (read_here F r l st))
      else Some (read_here F r l st))"

definition reader_Offset :: "Reader \<Rightarrow> Offset" where
  "reader_Offset r = rd_next r"

section \<open>What a cursor points at\<close>

text \<open>
  A cursor that holds a segment of the current generation stands between two records of it,
  the way an index entry does.
\<close>

definition reader_ok :: "disk \<Rightarrow> 's Log \<Rightarrow> piece list \<Rightarrow> Reader \<Rightarrow> bool" where
  "reader_ok d l cs r \<longleftrightarrow>
     log_First l \<le> rd_next r \<and>
     (\<forall>a. rd_seg r = Some a \<longrightarrow> rd_generation r = l_generation l \<longrightarrow>
        (\<exists>c\<in>set cs. held d (seg_at l a) c \<and>
           index_entry_ok (fst c) (snd c) \<lparr>ix_offset = rd_next r, ix_pos = rd_pos r\<rparr>))"

lemma from_off_skip_gap:
  assumes "lo \<le> hi" "\<And>r. r \<in> set rs \<Longrightarrow> fst r < lo \<or> hi \<le> fst r"
  shows "from_off hi rs = from_off lo rs"
  unfolding from_off_def
proof (intro dropWhile_cong refl)
  fix r
  assume "r \<in> set rs"
  then show "fst r < hi \<longleftrightarrow> fst r < lo" using assms(1) assms(2) [of r] by auto
qed

text \<open>Splitting the content at the segment an offset falls in.\<close>

lemma piece_split:
  assumes "pieces_ok cs" "piece_for off cs c"
  obtains xs ys where "cs = xs @ c # ys" "\<And>r. r \<in> set (flat xs) \<Longrightarrow> fst r < fst c"
    "\<And>r. r \<in> set (flat ys) \<Longrightarrow> off < fst r" "\<And>x. x \<in> set ys \<Longrightarrow> off < fst x"
proof -
  obtain xs ys where cs: "cs = xs @ c # ys" using assms(2) split_list by (metis piece_for_def)
  have ok: "chain 0 xs" "chain_end 0 xs \<le> fst c" "chain (end_off (fst c) (snd c)) ys" "\<And>x. x \<in> set ys \<Longrightarrow> fst c < fst x"
    using assms(1) by (cases c; auto simp: cs pieces_ok_def sorted_wrt_append)+
  have later: "off < fst x" if "x \<in> set ys" for x
    using assms(2) ok(4) [OF that] that by (intro not_le_imp_less notI) (auto simp: cs piece_for_def)
  have "off < fst r" if "r \<in> set (flat ys)" for r
  proof (cases ys)
    case (Cons y ys')
    have "chain (fst y) ys" using ok(3) by (cases y) (auto simp: Cons)
    then show ?thesis using later [of y] chain_range [of "fst y" ys r] that by (auto simp: Cons)
  qed (use that in simp)
  moreover have "fst r < fst c" if "r \<in> set (flat xs)" for r
    using chain_range [OF ok(1) that] ok(2) by auto
  ultimately show thesis using cs later that by blast
qed

lemma from_off_pieces:
  assumes "pieces_ok cs" "piece_for off cs c" "from_off off (snd c) = r # zs"
  shows "\<exists>ws. from_off off (flat cs) = r # ws"
proof -
  obtain xs ys where s: "cs = xs @ c # ys" "\<And>r. r \<in> set (flat xs) \<Longrightarrow> fst r < fst c"
    by (rule piece_split [OF assms(1,2)]) blast
  have "fst x < off" if "x \<in> set (flat xs)" for x
    using s(2) [OF that] assms(2) by (auto simp: piece_for_def)
  then have "from_off off (flat cs) = from_off off (snd c @ flat ys)"
    by (simp add: s(1) from_off_def from_off_skip)
  moreover have "\<not> (\<forall>x\<in>set (snd c). fst x < off)"
    using assms(3) by (metis dropWhile_eq_Nil_conv from_off_def list.distinct(1))
  ultimately show ?thesis using assms(3) by (auto simp: from_off_def dropWhile_append)
qed

text \<open>Hopping to the next segment when the rest of this one is a hole.\<close>

lemma baseAfter_spec:
  assumes "sorted_wrt (<) (l_bases l)"
  shows "case baseAfter base l of
      None \<Rightarrow> \<forall>c\<in>set (l_bases l). c \<le> base
    | Some n \<Rightarrow> n \<in> set (l_bases l) \<and> base < n \<and> (\<forall>c\<in>set (l_bases l). base < c \<longrightarrow> n \<le> c)"
proof -
  let ?bs = "l_bases l"
  let ?i = "sort_Search (length ?bs) (\<lambda>i. ?bs ! i > base)"
  have mono: "?bs ! a \<le> ?bs ! c" if "a \<le> c" "c < length ?bs" for a c
    using that assms by (cases "a = c") (auto simp: sorted_wrt_iff_nth_less less_imp_le)
  then have "base < ?bs ! c" if "a \<le> c" "c < length ?bs" "base < ?bs ! a" for a c
    using that by (meson less_le_trans)
  then have search: "?i \<le> length ?bs" "a < ?i \<Longrightarrow> \<not> base < ?bs ! a" "?i \<le> c \<Longrightarrow> c < length ?bs \<Longrightarrow> base < ?bs ! c" for a c
    using sort_Search_correct [of "length ?bs" "\<lambda>i. ?bs ! i > base"] by blast+
  show ?thesis
  proof (cases "?i = length ?bs")
    case True
    then have "\<forall>c\<in>set ?bs. c \<le> base" using search(2) by (metis in_set_conv_nth not_le_imp_less)
    then show ?thesis using True by (simp add: baseAfter_def Let_def)
  next
    case False
    then have i: "?i < length ?bs" using search(1) by simp
    have "?bs ! ?i \<le> c" if c: "c \<in> set ?bs" "base < c" for c
    proof -
      obtain j where j: "j < length ?bs" "c = ?bs ! j" using c(1) by (auto simp: in_set_conv_nth)
      then show ?thesis using mono [of ?i j] search(2) [of j] c(2) by (cases "j < ?i") auto
    qed
    then show ?thesis using False i search(3) [of ?i] by (simp add: baseAfter_def Let_def)
  qed
qed

section \<open>Seeking always returns\<close>

lemma log_extends_seg_at: "log_extends l l' \<Longrightarrow> a < length (l_segs l) \<Longrightarrow> seg_at l' a = seg_at l a"
  by (auto simp: log_extends_def seg_at_def nth_append)

text \<open>
  Where a seek ends: at the first record at or after the offset, or caught up with the tail.
\<close>

definition sought :: "disk \<Rightarrow> 's Log \<Rightarrow> piece list \<Rightarrow> Offset \<Rightarrow> Reader \<Rightarrow> bool" where
  "sought d l cs off r \<longleftrightarrow>
     rd_generation r = l_generation l \<and>
     (case from_off off (flat cs) of
        [] \<Rightarrow> rd_seg r = None \<and> rd_next r = log_Next l
      | x # _ \<Rightarrow> rd_next r = fst x \<and>
          (\<exists>a c. rd_seg r = Some a \<and> c \<in> set cs \<and> held d (seg_at l a) c \<and>
             rd_next r < end_off (fst c) (snd c) \<and>
             index_entry_ok (fst c) (snd c) \<lparr>ix_offset = rd_next r, ix_pos = rd_pos r\<rparr>))"

lemma sought_cong: "from_off n (flat cs) = from_off off (flat cs) \<Longrightarrow> sought d l cs n r \<Longrightarrow> sought d l cs off r"
  by (simp only: sought_def)

lemma index_entry_takeWhile:
  assumes "records_ok base rs" "from_off off rs = x # zs"
  shows "index_entry_ok base rs \<lparr>ix_offset = fst x, ix_pos = length (seg_bytes (takeWhile (\<lambda>r. fst r < off) rs))\<rparr>"
proof -
  let ?xs = "takeWhile (\<lambda>r. fst r < off) rs"
  have rs: "rs = ?xs @ x # zs"
    using assms(2) takeWhile_dropWhile_id [of "\<lambda>r. fst r < off" rs] by (simp add: from_off_def)
  then have "records_ok base ?xs" "records_ok (end_off base ?xs) (x # zs)" using assms(1) records_ok_append by metis+
  then have "end_off base ?xs \<le> fst x" "records_ok (fst x) (x # zs)" by auto
  moreover have "end_off (fst x) (x # zs) = end_off base rs" using arg_cong [OF rs, of "end_off base"] by simp
  ultimately show ?thesis unfolding index_entry_ok_def using rs by (intro exI [of _ ?xs] exI [of _ "x # zs"]) simp
qed

lemma fewer_after:
  fixes n :: Offset
  assumes "n \<in> set bs" "off < n"
  shows "length (filter (\<lambda>c. n < c) bs) < length (filter (\<lambda>c. off < c) bs)"
proof -
  have "filter (\<lambda>c. n < c) bs = filter (\<lambda>c. n < c) (filter (\<lambda>c. off < c) bs)"
    using assms(2) by (auto intro!: filter_cong)
  then show ?thesis using assms length_filter_less [of n "filter (\<lambda>c. off < c) bs" "\<lambda>c. n < c"] by simp
qed

context reliable_filesystem
begin

lemma seek_ok:
  assumes "wf st" "log_inv (abs st) l pre b rs k" "log_First l \<le> off" "off \<le> log_Next l"
  shows "\<exists>r' l' st'. seek F off r l st = Some (None, r', l', st') \<and> wf st' \<and> log_inv (abs st') l' pre b rs k \<and>
    log_extends l l' \<and> sought (abs st') l' (pre @ [(b, rs)]) off r'"
  using assms
proof (induction "length (filter (\<lambda>c. off < c) (l_bases l))" arbitrary: off l st rule: less_induct)
  case less
  let ?cs = "pre @ [(b, rs)]"
  have rep: "log_rep (abs st) l pre b rs" and dur: "log_durable (abs st) pre b rs k"
    using less.prems(2) by (auto simp: log_inv_def)
  note r = log_repD [OF rep]
  show ?case
  proof (cases "off < log_Next l")
    case False
    then have off: "off = log_Next l" using less.prems(4) by simp
    have "fst x < off" if "x \<in> set (flat ?cs)" for x
      using chain_range [OF _ that, of 0] r(2,8) by (auto simp: pieces_ok_def off)
    then have "from_off off (flat ?cs) = []" by (simp add: from_off_def)
    with False off less.prems show ?thesis by (subst seek.simps) (simp add: sought_def)
  next
    case True
    obtain a l1 st1 where sf: "segmentFor F off l st = (Inr a, l1, st1)"
      using segmentFor_ok [OF less.prems(1) rep less.prems(3) True] by blast
    note s = segmentFor_rep [OF less.prems(1) rep sf]
    note ext = log_extends_sel [OF s(3) r(7)]
    have inv1: "log_inv (abs st1) l1 pre b rs k"
      using s(2) dur by (simp add: log_inv_def) (subst s(5), simp add: log_durable_def)
    obtain c i where c: "piece_for off ?cs c" "held (abs st1) (seg_at l1 a) c" "seg_rep (abs st1) i (seg_at l1 a) (snd c)"
      "s_base (seg_at l1 a) = fst c"
      using s(6) by (auto simp: held_def)
    then have cok: "records_ok (fst c) (snd c)" by (simp add: seg_rep_def seg_holds_def)
    have lo: "(if off < fst c then fst c else off) = off" using c(1) by (auto simp: piece_for_def)
    note loc = locateFrom_finds [OF s(1) c(3), of off, unfolded c(4) lo]
    show ?thesis
    proof (cases "from_off off (snd c)")
      case (Cons x zs)
      let ?r = "\<lparr>rd_seg = Some a, rd_pos = length (seg_bytes (takeWhile (\<lambda>r. fst r < off) (snd c))),
                 rd_next = fst x, rd_generation = l_generation l1\<rparr>"
      obtain ws where fo: "from_off off (flat ?cs) = x # ws" using from_off_pieces [OF r(2) c(1) Cons] by blast
      have "x \<in> set (snd c)" using Cons unfolding from_off_def by (metis list.set_intros(1) set_dropWhileD)
      then have "fst x < end_off (fst c) (snd c)" using records_ok_range [OF cok] by blast
      moreover have "c \<in> set ?cs" using c(1) by (simp add: piece_for_def)
      ultimately have "sought (abs st1) l1 ?cs off ?r"
        using c(2) index_entry_takeWhile [OF cok Cons]
        unfolding sought_def fo list.case by (intro conjI exI [of _ a] exI [of _ c]) simp_all
      moreover have "seek F off r l st = Some (None, ?r, l1, st1)"
        using True sf loc Cons by (subst seek.simps) simp
      ultimately show ?thesis using s(1,3) inv1 by blast
    next
      case Nil
      have sorted: "sorted_wrt (<) (l_bases l1)" using r(1,2) ext(1) by (simp add: pieces_ok_def)
      have bs: "set (l_bases l1) = fst ` set ?cs" using ext(1) r(1) by simp
      note ba = baseAfter_spec [OF sorted, of "fst c", unfolded bs]
      have below: "fst x < off" if "x \<in> set (snd c)" for x using Nil that by (auto simp: from_off_def)
      show ?thesis
      proof (cases "baseAfter (fst c) l1")
        case None
        then have "fst c = b" using ba c(1) r(10) [of "fst c"] by (auto simp: piece_for_def)
        then have "c = (b, rs)" using c(1) r(2) by (intro piece_unique [of ?cs]) (auto simp: piece_for_def)
        then have "from_off off (snd c) \<noteq> []"
          using from_off_nonempty [of b rs off] r(8,9) True c(1) by (auto simp: piece_for_def)
        with Nil show ?thesis by simp
      next
        case (Some n)
        then have n: "n \<in> fst ` set ?cs" "fst c < n" "\<And>x. x \<in> fst ` set ?cs \<Longrightarrow> fst c < x \<Longrightarrow> n \<le> x" using ba by auto
        have offn: "off < n"
          using n(1,2) c(1) by (intro not_le_imp_less notI) (auto simp: piece_for_def)
        obtain xs ys where sp: "?cs = xs @ c # ys" "\<And>r. r \<in> set (flat xs) \<Longrightarrow> fst r < fst c"
          "\<And>x. x \<in> set ys \<Longrightarrow> off < fst x"
          by (rule piece_split [OF r(2) c(1)]) blast
        have ge: "n \<le> fst x" if "x \<in> set (flat ys)" for x
        proof -
          have "chain n ys" if "ys \<noteq> []"
          proof -
            have y: "hd ys \<in> set ys" using that by simp
            have "fst c \<le> off" using c(1) by (simp add: piece_for_def)
            also have "off < fst (hd ys)" by (rule sp(3) [OF y])
            finally have "fst c < fst (hd ys)" .
            then have "n \<le> fst (hd ys)" using n(3) [of "fst (hd ys)"] y unfolding sp(1) by auto
            moreover have "chain (end_off (fst c) (snd c)) ys" using r(2) unfolding pieces_ok_def sp(1) by (cases c) simp
            ultimately show ?thesis using that by (cases ys) auto
          qed
          then show ?thesis using that chain_range [of n ys x] by (cases ys) auto
        qed
        have gap: "fst x < off \<or> n \<le> fst x" if "x \<in> set (flat ?cs)" for x
        proof -
          have "fst c \<le> off" using c(1) by (simp add: piece_for_def)
          moreover have "x \<in> set (flat xs) \<or> x \<in> set (snd c) \<or> x \<in> set (flat ys)" using that unfolding sp(1) by auto
          ultimately show ?thesis using sp(2) [of x] below [of x] ge [of x] by auto
        qed
        have fo: "from_off n (flat ?cs) = from_off off (flat ?cs)"
          using offn gap by (intro from_off_skip_gap) auto
        have nb: "n \<le> log_Next l" using n(1) r(2,8) records_ok_ge [OF r(9)] r(10) by (auto intro: order_trans less_imp_le)
        have fewer: "length (filter (\<lambda>c. n < c) (l_bases l1)) < length (filter (\<lambda>c. off < c) (l_bases l))"
          using fewer_after [OF _ offn, of "l_bases l"] n(1) bs ext(1) by simp
        have "\<exists>r' l' st'. seek F n r l1 st1 = Some (None, r', l', st') \<and> wf st' \<and> log_inv (abs st') l' pre b rs k \<and>
          log_extends l1 l' \<and> sought (abs st') l' ?cs n r'"
          using fewer offn less.prems(3) nb ext by (intro less.hyps [OF _ s(1) inv1]) auto
        moreover have "seek F off r l st = seek F n r l1 st1"
          using True sf loc Nil Some c(4) by (subst seek.simps) simp
        ultimately show ?thesis using log_extends_trans [OF s(3)] sought_cong [OF fo] by auto
      qed
    qed
  qed
qed

text \<open>One step of a cursor standing in a segment.\<close>

lemma read_here_step:
  assumes "wf st" "rd_seg r = Some a" "held (abs st) (seg_at l a) c"
    and "index_entry_ok (fst c) (snd c) \<lparr>ix_offset = rd_next r, ix_pos = rd_pos r\<rparr>" "rd_next r < end_off (fst c) (snd c)"
  obtains x zs where "from_off (rd_next r) (snd c) = x # zs"
    "read_here F r l st = (Inr \<lparr>r_Offset = fst x, r_Event = snd x, r_Len = RecordLen (snd x)\<rparr>,
       r\<lparr>rd_pos := rd_pos r + RecordLen (snd x), rd_next := fst x + 1\<rparr>, l, st)"
    "index_entry_ok (fst c) (snd c) \<lparr>ix_offset = fst x + 1, ix_pos = rd_pos r + RecordLen (snd x)\<rparr>"
proof -
  obtain i where i: "seg_rep (abs st) i (seg_at l a) (snd c)" "s_base (seg_at l a) = fst c" using assms(3) by (auto simp: held_def)
  then have rep: "records_ok (fst c) (snd c)" "d_node (abs st) (s_file (seg_at l a)) = Some i" "d_data (abs st) i = seg_bytes (snd c)"
    by (auto simp: seg_rep_def seg_holds_def)
  obtain xs ys where e: "snd c = xs @ ys" "rd_pos r = length (seg_bytes xs)" "end_off (fst c) xs \<le> rd_next r"
    "records_ok (rd_next r) ys" "end_off (rd_next r) ys = end_off (fst c) (snd c)"
    using assms(4) by (auto simp: index_entry_ok_def)
  obtain x zs where ys: "ys = x # zs" using e(5) assms(5) by (cases ys) auto
  have x: "rd_next r \<le> fst x" "fst x \<noteq> - 1" "framable (snd x)" "records_ok (fst x + 1) zs" using e(4) by (simp_all add: ys)
  have read: "readRecordFrom F (seg_at l a) (rd_pos r) (rd_next r) st =
      Inr \<lparr>r_Offset = fst x, r_Event = snd x, r_Len = RecordLen (snd x)\<rparr>"
    unfolding e(2) using rep(3) x by (intro readRecordFrom_entry [OF assms(1) rep(2), where rest = "seg_bytes zs"]) (simp_all add: e(1) ys)
  have "fst w < rd_next r" if "w \<in> set xs" for w
    using records_ok_range [of "fst c" xs w] that rep(1) e(1,3) by (auto simp: records_ok_append)
  then have "from_off (rd_next r) (snd c) = x # zs" using x(1) by (simp add: e(1) ys from_off_def from_off_skip)
  moreover have "index_entry_ok (fst c) (snd c) \<lparr>ix_offset = fst x + 1, ix_pos = rd_pos r + RecordLen (snd x)\<rparr>"
    unfolding index_entry_ok_def using x e(2,5) by (intro exI [of _ "xs @ [x]"] exI [of _ zs]) (simp add: e(1) ys)
  ultimately show thesis using assms(2) read by (intro that [of x zs]) (simp_all add: read_here_def)
qed

lemma held_next: "held d s c \<Longrightarrow> s_next s = end_off (fst c) (snd c)"
  by (auto simp: held_def seg_rep_def seg_holds_def)

lemma held_piece_from:
  assumes "pieces_ok cs" "c \<in> set cs" "from_off off (snd c) = x # zs" "fst c \<le> off" "off < end_off (fst c) (snd c)"
  shows "\<exists>ws. from_off off (flat cs) = x # ws"
proof -
  have "fst y \<le> fst c" if "y \<in> set cs" "fst y \<le> off" for y
  proof (rule ccontr)
    assume less: "\<not> fst y \<le> fst c"
    obtain xs ys where cs: "cs = xs @ c # ys" using split_list [OF assms(2)] by blast
    have "fst w < fst c" if "w \<in> set xs" for w using assms(1) that by (auto simp: cs pieces_ok_def sorted_wrt_append)
    from this [of y] have "y \<in> set ys" using that(1) less by (auto simp: cs)
    moreover have "chain (end_off (fst c) (snd c)) ys" using assms(1) by (cases c) (auto simp: cs pieces_ok_def)
    ultimately have "end_off (fst c) (snd c) \<le> fst y" using chain_bases [of _ ys "fst y" "snd y"] by simp
    then show False using assms(5) that(2) by auto
  qed
  then have "piece_for off cs c" using assms(2,4) by (simp add: piece_for_def)
  then show ?thesis using from_off_pieces [OF assms(1) _ assms(3)] by blast
qed

lemma from_off_again:
  assumes "records_ok lo rs" "from_off off rs = x # zs"
  shows "from_off (fst x) rs = x # zs"
proof -
  have rs: "rs = takeWhile (\<lambda>r. fst r < off) rs @ x # zs"
    using assms(2) takeWhile_dropWhile_id [of "\<lambda>r. fst r < off" rs] by (simp add: from_off_def)
  then have "records_ok (end_off lo (takeWhile (\<lambda>r. fst r < off) rs)) (x # zs)" using assms(1) records_ok_append by metis
  then have zs: "records_ok (fst x + 1) zs" "fst x < fst x + 1" by (auto intro: word_less_succ)
  have off: "off \<le> fst x"
    using assms(2) hd_dropWhile [of "\<lambda>r. fst r < off" rs] by (auto simp: from_off_def)
  have "fst r < off \<or> fst x \<le> fst r" if "r \<in> set rs" for r
  proof -
    have "r \<in> set (takeWhile (\<lambda>r. fst r < off) rs) \<or> r = x \<or> r \<in> set zs"
      using arg_cong [OF rs, of set] that by auto
    then consider "r \<in> set (takeWhile (\<lambda>r. fst r < off) rs)" | "r = x" | "r \<in> set zs" by blast
    then show ?thesis
      using zs(2) records_ok_range [OF zs(1), of r] by cases (auto dest: set_takeWhileD)
  qed
  then show ?thesis using from_off_skip_gap [OF off] assms(2) by metis
qed

text \<open>A cursor inside a segment reads the first record of the whole log at or after it.\<close>

lemma read_here_ok:
  assumes "wf st" "log_rep (abs st) l pre b rs" "rd_seg r = Some a" "c \<in> set (pre @ [(b, rs)])" "held (abs st) (seg_at l a) c"
    and "index_entry_ok (fst c) (snd c) \<lparr>ix_offset = rd_next r, ix_pos = rd_pos r\<rparr>" "rd_next r < end_off (fst c) (snd c)"
    and "log_First l \<le> rd_next r"
  obtains x ws r' where "from_off (rd_next r) (flat (pre @ [(b, rs)])) = x # ws"
    "read_here F r l st = (Inr \<lparr>r_Offset = fst x, r_Event = snd x, r_Len = RecordLen (snd x)\<rparr>, r', l, st)"
    "rd_next r' = fst x + 1" "reader_ok (abs st) l (pre @ [(b, rs)]) r'"
proof -
  note p = log_repD [OF assms(2)]
  obtain x zs where x: "from_off (rd_next r) (snd c) = x # zs"
    "read_here F r l st = (Inr \<lparr>r_Offset = fst x, r_Event = snd x, r_Len = RecordLen (snd x)\<rparr>,
       r\<lparr>rd_pos := rd_pos r + RecordLen (snd x), rd_next := fst x + 1\<rparr>, l, st)"
    "index_entry_ok (fst c) (snd c) \<lparr>ix_offset = fst x + 1, ix_pos = rd_pos r + RecordLen (snd x)\<rparr>"
    by (rule read_here_step [OF assms(1,3,5,6,7)]) blast
  have cok: "records_ok (fst c) (snd c)" using p(2) assms(4) chain_piece unfolding pieces_ok_def by blast
  obtain xs ys where "snd c = xs @ ys" "end_off (fst c) xs \<le> rd_next r" using assms(6) by (auto simp: index_entry_ok_def)
  moreover from this have "fst c \<le> end_off (fst c) xs" using cok by (auto simp: records_ok_append intro: records_ok_ge)
  ultimately have "fst c \<le> rd_next r" by simp
  then obtain ws where ws: "from_off (rd_next r) (flat (pre @ [(b, rs)])) = x # ws"
    using held_piece_from [OF p(2) assms(4) x(1) _ assms(7)] by blast
  have xin: "x \<in> set (snd c)" using x(1) unfolding from_off_def by (metis list.set_intros(1) set_dropWhileD)
  then have "fst x \<noteq> - 1" using cok by (auto simp: records_ok_def no_wrap_def)
  moreover have "rd_next r \<le> fst x"
    using x(1) hd_dropWhile [of "\<lambda>q. fst q < rd_next r" "snd c"] by (auto simp: from_off_def)
  ultimately have "log_First l \<le> fst x + 1" using assms(8) word_less_succ [of "fst x"] by auto
  then have "reader_ok (abs st) l (pre @ [(b, rs)]) (r\<lparr>rd_pos := rd_pos r + RecordLen (snd x), rd_next := fst x + 1\<rparr>)"
    unfolding reader_ok_def using x(3) assms(3,4,5) by auto
  with x(2) ws show thesis by (intro that) simp_all
qed

text \<open>
  \<^verbatim>\<open>Next\<close> returns the first record at or after the cursor and moves just past it, or says that
  the cursor has caught up; it always returns.
\<close>

lemma reader_Next_ok:
  assumes "wf st" "log_inv (abs st) l pre b rs k" "reader_ok (abs st) l (pre @ [(b, rs)]) r"
  obtains res r' l' st' where "reader_Next F r l st = Some (res, r', l', st')" "wf st'" "log_inv (abs st') l' pre b rs k"
    "log_extends l l'" "reader_ok (abs st') l' (pre @ [(b, rs)]) r'"
    "case from_off (rd_next r) (flat (pre @ [(b, rs)])) of
       [] \<Rightarrow> res = Inl (Sentinel ErrEndOfLog)
     | x # _ \<Rightarrow> res = Inr \<lparr>r_Offset = fst x, r_Event = snd x, r_Len = RecordLen (snd x)\<rparr> \<and> rd_next r' = fst x + 1"
proof -
  let ?cs = "pre @ [(b, rs)]"
  have rep: "log_rep (abs st) l pre b rs" using assms(2) by (simp add: log_inv_def)
  note p = log_repD [OF rep]
  have below: "fst x < log_Next l" if "x \<in> set (flat ?cs)" for x
    using chain_range [OF _ that, of 0] p(2,8) by (auto simp: pieces_ok_def)
  have first: "log_First l \<le> rd_next r" using assms(3) by (simp add: reader_ok_def)
  show thesis
  proof (cases "log_Next l \<le> rd_next r")
    case True
    then have "from_off (rd_next r) (flat ?cs) = []"
      using below by (fastforce simp: from_off_def intro: less_le_trans)
    with True assms show thesis by (intro that [of "Inl (Sentinel ErrEndOfLog)" r l st]) (simp_all add: reader_Next_def)
  next
    case False
    then have nx: "rd_next r \<le> log_Next l" by simp
    show thesis
    proof (cases "must_seek r l")
      case True
      obtain r1 l1 st1 where sk: "seek F (rd_next r) r l st = Some (None, r1, l1, st1)" "wf st1" "log_inv (abs st1) l1 pre b rs k"
        "log_extends l l1" "sought (abs st1) l1 ?cs (rd_next r) r1"
        using seek_ok [OF assms(1,2) first nx] by blast
      have step: "reader_Next F r l st = Some (read_here F r1 l1 st1)" using True False sk(1) by (simp add: reader_Next_def)
      note ext = log_extends_sel [OF sk(4) p(7)]
      show thesis
      proof (cases "from_off (rd_next r) (flat ?cs)")
        case Nil
        then have "rd_seg r1 = None" "rd_next r1 = log_Next l1" using sk(5) by (simp_all add: sought_def)
        moreover from this have "reader_ok (abs st1) l1 ?cs r1" using first nx ext by (simp add: reader_ok_def)
        ultimately show thesis using step sk Nil by (intro that [of "Inl (Sentinel ErrEndOfLog)" r1 l1 st1]) (simp_all add: read_here_def)
      next
        case (Cons x ws)
        then obtain a c where c: "rd_next r1 = fst x" "rd_seg r1 = Some a" "c \<in> set ?cs" "held (abs st1) (seg_at l1 a) c"
          "index_entry_ok (fst c) (snd c) \<lparr>ix_offset = rd_next r1, ix_pos = rd_pos r1\<rparr>" "rd_next r1 < end_off (fst c) (snd c)"
          using sk(5) unfolding sought_def Cons list.case by blast
        have flat_ok: "records_ok 0 (flat ?cs)" using records_ok_flat [of 0 ?cs] p(2) by (simp add: pieces_ok_def)
        have "rd_next r \<le> fst x" using Cons hd_dropWhile [of "\<lambda>q. fst q < rd_next r" "flat ?cs"] by (auto simp: from_off_def)
        then have "log_First l1 \<le> rd_next r1" using first ext c(1) by simp
        then obtain y vs r' where y: "from_off (rd_next r1) (flat ?cs) = y # vs"
          "read_here F r1 l1 st1 = (Inr \<lparr>r_Offset = fst y, r_Event = snd y, r_Len = RecordLen (snd y)\<rparr>, r', l1, st1)"
          "rd_next r' = fst y + 1" "reader_ok (abs st1) l1 ?cs r'"
          using read_here_ok [OF sk(2) _ c(2-6)] sk(3) unfolding log_inv_def by metis
        have "y = x" using y(1) from_off_again [OF flat_ok Cons] c(1) by simp
        with y step sk Cons show thesis by (intro that) simp_all
      qed
    next
      case no: False
      then obtain a where a: "rd_seg r = Some a" "rd_next r < s_next (seg_at l a)" "rd_generation r = l_generation l"
        by (auto simp: must_seek_def split: option.splits)
      then obtain c where c: "c \<in> set ?cs" "held (abs st) (seg_at l a) c"
        "index_entry_ok (fst c) (snd c) \<lparr>ix_offset = rd_next r, ix_pos = rd_pos r\<rparr>"
        using assms(3) unfolding reader_ok_def by blast
      have "rd_next r < end_off (fst c) (snd c)" using a(2) held_next [OF c(2)] by simp
      then obtain x ws r' where "from_off (rd_next r) (flat ?cs) = x # ws"
        "read_here F r l st = (Inr \<lparr>r_Offset = fst x, r_Event = snd x, r_Len = RecordLen (snd x)\<rparr>, r', l, st)"
        "rd_next r' = fst x + 1" "reader_ok (abs st) l ?cs r'"
        using read_here_ok [OF assms(1) rep a(1) c] first by metis
      moreover have "reader_Next F r l st = Some (read_here F r l st)" using False no by (simp add: reader_Next_def)
      ultimately show thesis using assms(1,2) by (intro that) simp_all
    qed
  qed
qed

end

section \<open>Reading on and on\<close>

text \<open>A consumer that calls \<^verbatim>\<open>Next\<close> up to \<open>n\<close> times and stops at the first error.\<close>

fun consume ::
  "'s fs_ops \<Rightarrow> nat \<Rightarrow> Reader \<Rightarrow> 's Log \<Rightarrow> 's \<Rightarrow> (entry list \<times> Reader \<times> 's Log \<times> 's) option" where
  "consume F 0 r l st = Some ([], r, l, st)"
| "consume F (Suc n) r l st =
     (case reader_Next F r l st of
        None \<Rightarrow> None
      | Some (Inl err, r, l, st) \<Rightarrow> Some ([], r, l, st)
      | Some (Inr rec, r, l, st) \<Rightarrow>
          (case consume F n r l st of
             None \<Rightarrow> None
           | Some (xs, r, l, st) \<Rightarrow> Some ((r_Offset rec, r_Event rec) # xs, r, l, st)))"

lemma from_off_after:
  assumes "records_ok lo rs" "from_off off rs = x # zs"
  shows "from_off (fst x + 1) rs = zs"
proof -
  have rs: "rs = takeWhile (\<lambda>r. fst r < off) rs @ x # zs"
    using assms(2) takeWhile_dropWhile_id [of "\<lambda>r. fst r < off" rs] by (simp add: from_off_def)
  let ?xs = "takeWhile (\<lambda>r. fst r < off) rs"
  have "records_ok lo ?xs" "records_ok (end_off lo ?xs) (x # zs)" using assms(1) rs records_ok_append by metis+
  then have x: "end_off lo ?xs \<le> fst x" "fst x < fst x + 1" "records_ok (fst x + 1) zs" by (auto intro: word_less_succ)
  have "fst w < fst x + 1" if "w \<in> set ?xs" for w
    using records_ok_range [OF \<open>records_ok lo ?xs\<close> that] x(1,2) by auto
  then have "from_off (fst x + 1) (?xs @ x # zs) = dropWhile (\<lambda>r. fst r < fst x + 1) zs"
    using x(2) by (simp add: from_off_def from_off_skip)
  also have "\<dots> = zs" using x(3) by (cases zs) auto
  finally show ?thesis using rs by simp
qed

lemma log_Reader_ok:
  assumes "log_rep d l pre b rs" "log_Reader from l = Inr r"
  shows "reader_ok d l (pre @ [(b, rs)]) r" "rd_next r = from"
  using assms(2) by (auto simp: log_Reader_def reader_ok_def not_less split: if_splits)

context reliable_filesystem
begin

lemma consume_ok:
  assumes "wf st" "log_inv (abs st) l pre b rs k" "reader_ok (abs st) l (pre @ [(b, rs)]) r"
  shows "\<exists>r' l' st'. consume F n r l st = Some (take n (from_off (rd_next r) (flat (pre @ [(b, rs)]))), r', l', st') \<and>
    wf st' \<and> log_inv (abs st') l' pre b rs k \<and> reader_ok (abs st') l' (pre @ [(b, rs)]) r'"
  using assms
proof (induction n arbitrary: r l st)
  case (Suc n)
  let ?cs = "pre @ [(b, rs)]"
  obtain res r1 l1 st1 where nx: "reader_Next F r l st = Some (res, r1, l1, st1)" "wf st1" "log_inv (abs st1) l1 pre b rs k"
    "reader_ok (abs st1) l1 ?cs r1"
    "case from_off (rd_next r) (flat ?cs) of
       [] \<Rightarrow> res = Inl (Sentinel ErrEndOfLog)
     | x # _ \<Rightarrow> res = Inr \<lparr>r_Offset = fst x, r_Event = snd x, r_Len = RecordLen (snd x)\<rparr> \<and> rd_next r1 = fst x + 1"
    by (rule reader_Next_ok [OF Suc.prems]) blast
  have ok: "records_ok 0 (flat ?cs)"
    using Suc.prems(2) log_repD(2) records_ok_flat unfolding log_inv_def pieces_ok_def by blast
  show ?case
  proof (cases "from_off (rd_next r) (flat ?cs)")
    case Nil
    with nx show ?thesis by simp
  next
    case (Cons x ws)
    then have "from_off (rd_next r1) (flat ?cs) = ws" using nx(5) from_off_after [OF ok Cons] by simp
    with Suc.IH [OF nx(2-4)] nx(1,5) Cons show ?thesis by auto
  qed
qed simp

end

end
