(* ===== verification/Log_Compact.thy ===== *)
theory Log_Compact
  imports Log_Reader
begin

text \<open>
  \<^verbatim>\<open>log/compact.go\<close>: rewriting a sealed segment to the newest record per key, by writing a
  temporary file and renaming it over the original.

  Go's maps are association lists; the two loops over the source segment are functions over
  the byte position, which every record moves forward.
\<close>

section \<open>The code\<close>

definition compactingSuffix :: string where "compactingSuffix = ''.compacting''"

record Compaction =
  cp_Base :: Offset
  cp_Kept :: nat
  cp_Dropped :: int
  cp_Before :: nat
  cp_After :: nat

function survivors_loop ::
  "'s fs_ops \<Rightarrow> segment \<Rightarrow> 's \<Rightarrow> nat \<Rightarrow> Offset \<Rightarrow> (string \<times> Offset) list \<Rightarrow> (string \<times> Offset) list res" where
  "survivors_loop F src st pos at newest =
     (if pos < s_size src then
        (case readRecordFrom F src pos at st of
           Inl err \<Rightarrow> Inl (Errorf ''log: scan %s for compaction: %w'' [err])
         | Inr rec \<Rightarrow>
             survivors_loop F src st (pos + r_Len rec) (r_Offset rec + 1)
               (AList.update (e_Key (r_Event rec)) (r_Offset rec) newest))
      else Inr newest)"
  by pat_completeness auto
termination
  by (relation "measure (\<lambda>(F, src, st, pos, at, newest). s_size src - pos)") (auto dest: readRecordFrom_Len)

declare survivors_loop.simps [simp del]

definition survivorsOf :: "'s fs_ops \<Rightarrow> segment \<Rightarrow> 's \<Rightarrow> Offset list res" where
  "survivorsOf F src st =
     (case survivors_loop F src st 0 (s_base src) [] of
        Inl err \<Rightarrow> Inl err
      | Inr newest \<Rightarrow> Inr (remdups (map snd newest)))"

definition removeStale :: "'s fs_ops \<Rightarrow> string \<Rightarrow> 's \<Rightarrow> error option \<times> 's" where
  "removeStale F tmp st =
     (case fs_Remove F tmp st of
        (None, st) \<Rightarrow> (None, st)
      | (Some err, st) \<Rightarrow>
          if errors_Is err ErrNotExist then (None, st)
          else (Some (Errorf ''log: remove the stale %s: %w'' [err]), st))"

function copy_loop ::
  "'s fs_ops \<Rightarrow> segment \<Rightarrow> Offset list \<Rightarrow> nat \<Rightarrow> Offset \<Rightarrow> segment \<Rightarrow> 's \<Rightarrow> error option \<times> segment \<times> 's" where
  "copy_loop F src survivors pos at dst st =
     (if pos < s_size src then
        (case readRecordFrom F src pos at st of
           Inl err \<Rightarrow> (Some (Errorf ''log: read %s for compaction: %w'' [err]), dst, st)
         | Inr rec \<Rightarrow>
             if r_Offset rec \<notin> set survivors then
               copy_loop F src survivors (pos + r_Len rec) (r_Offset rec + 1) dst st
             else
               (case seg_appendAt F (r_Offset rec) (r_Event rec) dst st of
                  (Some err, dst, st) \<Rightarrow> (Some (Errorf ''log: write the compacted %s: %w'' [err]), dst, st)
                | (None, dst, st) \<Rightarrow>
                    copy_loop F src survivors (pos + r_Len rec) (r_Offset rec + 1) dst st))
      else (None, dst, st))"
  by pat_completeness auto
termination
  by (relation "measure (\<lambda>(F, src, survivors, pos, at, dst, st). s_size src - pos)") (auto dest: readRecordFrom_Len)

declare copy_loop.simps [simp del]

definition writeCompacted ::
  "'s fs_ops \<Rightarrow> 's Config \<Rightarrow> string \<Rightarrow> Offset \<Rightarrow> segment \<Rightarrow> Offset list \<Rightarrow> 's \<Rightarrow> nat res \<times> 's" where
  "writeCompacted F cfg tmp base src survivors st =
     (case removeStale F tmp st of
        (Some err, st) \<Rightarrow> (Inl err, st)
      | (None, st) \<Rightarrow>
          (case createNamed F tmp base (c_Segment cfg) st of
             (Inl err, st) \<Rightarrow> (Inl err, st)
           | (Inr dst, st) \<Rightarrow>
               (case copy_loop F src survivors 0 (s_base src) dst st of
                  (Some err, dst, st) \<Rightarrow> (Inl err, snd (seg_Close F dst st))
                | (None, dst, st) \<Rightarrow>
                    (case seg_Sync F dst st of
                       (Some err, st) \<Rightarrow> (Inl err, snd (seg_Close F dst st))
                     | (None, st) \<Rightarrow> (Inr (s_size dst), snd (seg_Close F dst st))))))"

definition log_Compact :: "'s fs_ops \<Rightarrow> Offset \<Rightarrow> 's Log \<Rightarrow> 's \<Rightarrow> Compaction res \<times> 's Log \<times> 's" where
  "log_Compact F base l st =
     (if base = s_base (active l) then
        (Inl (Errorf ''log: cannot compact segment %d while it is the active one'' []), l, st)
      else if baseAfter base l = None then
        (Inl (Errorf ''%w: no segment begins at %d'' [Sentinel ErrNotFound]), l, st)
      else
        (case segmentFor F base l st of
           (Inl err, l, st) \<Rightarrow> (Inl err, l, st)
         | (Inr a, l, st) \<Rightarrow>
             let src = seg_at l a in
             (case survivorsOf F src st of
                Inl err \<Rightarrow> (Inl err, l, st)
              | Inr survivors \<Rightarrow>
                  if length survivors = s_count src then
                    (Inr \<lparr>cp_Base = base, cp_Kept = length survivors, cp_Dropped = 0,
                          cp_Before = s_size src, cp_After = s_size src\<rparr>, l, st)
                  else
                    let name = segmentName base; tmp = name @ compactingSuffix in
                    (case writeCompacted F (l_cfg l) tmp base src survivors st of
                       (Inl err, st) \<Rightarrow> (Inl err, l, snd (fs_Remove F tmp st))
                     | (Inr written, st) \<Rightarrow>
                         (case fs_Rename F tmp name st of
                            (Some err, st) \<Rightarrow>
                              (Inl (Errorf ''log: swap in the compacted %s: %w'' [err]), l, snd (fs_Remove F tmp st))
                          | (None, st) \<Rightarrow>
                              (case fs_Sync F st of
                                 (Some err, st) \<Rightarrow>
                                   (Inl (Errorf ''log: sync the directory after compacting %s: %w'' [err]), l, st)
                               | (None, st) \<Rightarrow>
                                   (case seg_Close F src st of
                                      (Some err, st) \<Rightarrow> (Inl err, l, st)
                                    | (None, st) \<Rightarrow>
                                        (Inr \<lparr>cp_Base = base, cp_Kept = length survivors,
                                              cp_Dropped = int (s_count src) - int (length survivors),
                                              cp_Before = s_size src, cp_After = written\<rparr>,
                                         l\<lparr>l_sealed := AList.delete base (l_sealed l),
                                           l_generation := l_generation l + 1\<rparr>, st)))))))) "

fun compact_all_loop ::
  "'s fs_ops \<Rightarrow> Offset \<Rightarrow> Offset list \<Rightarrow> Compaction list \<Rightarrow> 's Log \<Rightarrow> 's \<Rightarrow>
     (Compaction list \<times> error option) \<times> 's Log \<times> 's" where
  "compact_all_loop F act [] out l st = ((out, None), l, st)"
| "compact_all_loop F act (base # bases) out l st =
     (if base = act then compact_all_loop F act bases out l st
      else
        (case log_Compact F base l st of
           (Inl err, l, st) \<Rightarrow> ((out, Some err), l, st)
         | (Inr c, l, st) \<Rightarrow> compact_all_loop F act bases (out @ [c]) l st))"

definition log_CompactAll ::
  "'s fs_ops \<Rightarrow> 's Log \<Rightarrow> 's \<Rightarrow> (Compaction list \<times> error option) \<times> 's Log \<times> 's" where
  "log_CompactAll F l st = compact_all_loop F (s_base (active l)) (log_Segments l) [] l st"

section \<open>What compaction keeps\<close>

text \<open>The newest record of each key, and nothing else.\<close>

definition newest_per_key :: "entry list \<Rightarrow> entry list" where
  "newest_per_key rs =
     filter (\<lambda>r. list_all (\<lambda>x. e_Key (snd x) = e_Key (snd r) \<longrightarrow> fst x \<le> fst r) rs) rs"

fun newest_map :: "entry list \<Rightarrow> (string \<times> Offset) list \<Rightarrow> (string \<times> Offset) list" where
  "newest_map [] m = m"
| "newest_map (r # rs) m = newest_map rs (AList.update (e_Key (snd r)) (fst r) m)"

lemma newest_map_append: "newest_map (xs @ ys) m = newest_map ys (newest_map xs m)"
  by (induction xs m rule: newest_map.induct) simp_all

lemma distinct_newest_map: "distinct (map fst m) \<Longrightarrow> distinct (map fst (newest_map rs m))"
  by (induction rs m rule: newest_map.induct) (simp_all add: distinct_update)

lemma newest_map_lookup:
  assumes "records_ok lo rs"
  shows "map_of (newest_map rs []) key = Some off \<longleftrightarrow>
    (\<exists>r\<in>set rs. e_Key (snd r) = key \<and> fst r = off \<and> (\<forall>x\<in>set rs. e_Key (snd x) = key \<longrightarrow> fst x \<le> off))"
  using assms
proof (induction rs arbitrary: off rule: rev_induct)
  case (snoc r rs)
  have ok: "records_ok lo rs" "end_off lo rs \<le> fst r" using snoc.prems by (auto simp: records_ok_append)
  have lt: "fst x < fst r" if "x \<in> set rs" for x using records_ok_range [OF ok(1) that] ok(2) by auto
  show ?case
  proof (cases "e_Key (snd r) = key")
    case True
    then show ?thesis using lt by (force simp: newest_map_append update_conv')
  next
    case False
    then show ?thesis using snoc.IH [OF ok(1)] by (auto simp: newest_map_append update_conv')
  qed
qed simp

lemma survivors_set:
  assumes "records_ok lo rs"
  shows "off \<in> snd ` set (newest_map rs []) \<longleftrightarrow>
    (\<exists>r\<in>set rs. fst r = off \<and> (\<forall>x\<in>set rs. e_Key (snd x) = e_Key (snd r) \<longrightarrow> fst x \<le> off))"
proof -
  have d: "distinct (map fst (newest_map rs []))" by (simp add: distinct_newest_map)
  have "off \<in> snd ` set (newest_map rs []) \<longleftrightarrow> (\<exists>key. map_of (newest_map rs []) key = Some off)"
    using d by (force simp: image_iff)
  then show ?thesis unfolding newest_map_lookup [OF assms] by blast
qed

lemma newest_per_key_filter:
  assumes "records_ok lo rs"
  shows "filter (\<lambda>r. fst r \<in> snd ` set (newest_map rs [])) rs = newest_per_key rs"
proof -
  have "x = r" if "x \<in> set rs" "r \<in> set rs" "fst x = fst r" for x r
    using that records_ok_distinct [OF assms] by (metis eq_key_imp_eq_value prod.collapse)
  then have "(\<exists>r\<in>set rs. fst r = fst x \<and> (\<forall>y\<in>set rs. e_Key (snd y) = e_Key (snd r) \<longrightarrow> fst y \<le> fst x)) \<longleftrightarrow>
      (\<forall>y\<in>set rs. e_Key (snd y) = e_Key (snd x) \<longrightarrow> fst y \<le> fst x)" if "x \<in> set rs" for x
    using that by metis
  then show ?thesis unfolding newest_per_key_def
    by (intro filter_cong refl) (simp only: survivors_set [OF assms] list_all_iff)
qed

lemma survivors_count:
  assumes "records_ok lo rs"
  shows "length (remdups (map snd (newest_map rs []))) = length (newest_per_key rs)"
proof -
  have d: "distinct (map fst (newest_per_key rs))"
    unfolding newest_per_key_def by (rule distinct_map_filter [OF records_ok_distinct [OF assms]])
  have "snd ` set (newest_map rs []) \<subseteq> fst ` set rs"
  proof
    fix off
    assume "off \<in> snd ` set (newest_map rs [])"
    then show "off \<in> fst ` set rs" unfolding survivors_set [OF assms] by blast
  qed
  moreover have "fst ` {x \<in> set rs. fst x \<in> S} = S" if "S \<subseteq> fst ` set rs" for S using that by blast
  ultimately have "set (map fst (newest_per_key rs)) = snd ` set (newest_map rs [])"
    unfolding newest_per_key_filter [OF assms, symmetric] by simp
  then have "card (set (map snd (newest_map rs []))) = card (set (map fst (newest_per_key rs)))" by simp
  then show ?thesis using distinct_card [OF d] by (simp add: length_remdups_card_conv)
qed

lemma filter_records_ok: "records_ok lo rs \<Longrightarrow> records_ok lo (filter P rs) \<and> end_off lo (filter P rs) \<le> end_off lo rs"
proof (induction rs rule: rev_induct)
  case (snoc r rs)
  then have ok: "records_ok lo rs" "end_off lo rs \<le> fst r" "fst r \<noteq> - 1" "framable (snd r)" by (auto simp: records_ok_append)
  then have "records_ok lo (filter P rs)" "end_off lo (filter P rs) \<le> end_off lo rs" "fst r < fst r + 1"
    using snoc.IH by (auto intro: word_less_succ)
  then show ?case using ok by (auto simp: records_ok_append)
qed simp

section \<open>Leaving the segments alone\<close>

lemma held_same: "held d s c \<Longrightarrow> same_files N d d' \<Longrightarrow> segmentName (fst c) \<in> N \<Longrightarrow> held d' s c"
  by (auto simp: held_def seg_rep_def same_files_def)

lemma stored_same: "stored d c \<Longrightarrow> same_files N d d' \<Longrightarrow> segmentName (fst c) \<in> N \<Longrightarrow> stored d' c"
  by (auto simp: stored_def same_files_def)

lemma log_rep_same:
  assumes "log_rep d l pre b rs" "same_files segment_names d d'"
  shows "log_rep d' l pre b rs"
proof -
  have dir: "d_dir d' (segmentName x) = d_dir d (segmentName x)" for x using assms(2) by (simp add: same_files_def)
  have "\<exists>c\<in>set pre. fst c = b' \<and> held d' (seg_at l a) c" "a < length (l_segs l)" "a \<noteq> l_active l"
    if "map_of (l_sealed l) b' = Some a" for b' a
    using log_rep_sealed [OF assms(1) that] held_same [OF _ assms(2) rangeI] by blast+
  then show ?thesis using assms(1) held_same [OF _ assms(2) rangeI] stored_same [OF _ assms(2) rangeI]
    unfolding log_rep_def dir by blast
qed

lemma log_durable_same:
  "log_durable d pre b rs k \<Longrightarrow> same_files segment_names d d' \<Longrightarrow> log_durable d' pre b rs k"
  by (auto simp: log_durable_def same_files_def)

lemma log_inv_same:
  "log_inv d l pre b rs k \<Longrightarrow> same_files segment_names d d' \<Longrightarrow> log_inv d' l pre b rs k"
  by (auto simp: log_inv_def intro: log_rep_same log_durable_same)

lemma length_segmentName [simp]: "length (segmentName b) = 24"
  by (simp add: segmentName_def segmentSuffix_def) (simp add: segmentDigits_def)

lemma compacting_not_segment [simp]: "segmentName b @ compactingSuffix \<notin> segment_names"
proof
  assume "segmentName b @ compactingSuffix \<in> segment_names"
  then obtain b' where "segmentName b @ compactingSuffix = segmentName b'" by blast
  from arg_cong [OF this, of length] show False by (simp add: compactingSuffix_def)
qed

lemma ValidateName_compacting [simp]: "ValidateName (segmentName b @ compactingSuffix) = None"
  unfolding segmentName_def append.assoc
  by (rule ValidateName_digits [of _ "[]", simplified]) (simp_all add: segmentSuffix_def compactingSuffix_def)

section \<open>The two passes over the source\<close>

context filesystem
begin

lemma survivors_loop_ok:
  assumes "wf st" "d_node (abs st) (s_file src) = Some i"
    and "d_data (abs st) i = seg_bytes (xs @ ys)" "s_size src = length (seg_bytes (xs @ ys))" "records_ok at ys"
  shows "survivors_loop F src st (length (seg_bytes xs)) at m = Inr (newest_map ys m)"
  using assms(3-5)
proof (induction ys arbitrary: xs at m)
  case Nil
  then show ?case by (simp add: survivors_loop.simps [of F src st _ at])
next
  case (Cons r ys)
  have read: "readRecordFrom F src (length (seg_bytes xs)) at st =
      Inr \<lparr>r_Offset = fst r, r_Event = snd r, r_Len = RecordLen (snd r)\<rparr>"
    using Cons.prems by (intro readRecordFrom_entry [OF assms(1,2), where rest = "seg_bytes ys"]) auto
  have "survivors_loop F src st (length (seg_bytes (xs @ [r]))) (fst r + 1) (AList.update (e_Key (snd r)) (fst r) m) =
      Inr (newest_map ys (AList.update (e_Key (snd r)) (fst r) m))"
    using Cons.prems by (intro Cons.IH) auto
  with Cons.prems read show ?case by (simp add: survivors_loop.simps [of F src st _ at])
qed

lemma survivorsOf_ok:
  assumes "wf st" "held (abs st) src c"
  shows "survivorsOf F src st = Inr (remdups (map snd (newest_map (snd c) [])))"
proof -
  obtain i where "seg_rep (abs st) i src (snd c)" "s_base src = fst c" using assms(2) by (auto simp: held_def)
  then show ?thesis
    using survivors_loop_ok [OF assms(1), of src i "[]" "snd c" "s_base src" "[]"]
    by (auto simp: survivorsOf_def seg_rep_def seg_holds_def)
qed

text \<open>The copy, when it succeeds: the survivors and nothing else, in a file no segment name has.\<close>

lemma copy_loop_ok:
  assumes "wf st" "d_node (abs st) (s_file src) = Some i"
    and "d_data (abs st) i = seg_bytes (xs @ ys)" "s_size src = length (seg_bytes (xs @ ys))" "records_ok at ys"
    and "seg_rep (abs st) j dst zs" "i \<noteq> j" "s_base dst \<le> at" "end_off (s_base dst) zs \<le> at"
    and "copy_loop F src surv (length (seg_bytes xs)) at dst st = (None, dst', st')"
  shows "wf st' \<and> seg_rep (abs st') j dst' (zs @ filter (\<lambda>r. fst r \<in> set surv) ys) \<and> s_file dst' = s_file dst \<and>
    (\<exists>p. abs st' = disk_append j p (abs st))"
  using assms
proof (induction ys arbitrary: xs at zs dst st)
  case Nil
  then have "dst' = dst" "st' = st" by (simp_all add: copy_loop.simps [of F src surv _ at])
  then show ?case using Nil by (auto simp: disk_append_def intro!: exI [of _ "[]"])
next
  case (Cons r ys)
  have r: "at \<le> fst r" "fst r \<noteq> - 1" "framable (snd r)" "records_ok (fst r + 1) ys" "fst r < fst r + 1"
    using Cons.prems(5) by (auto intro: word_less_succ)
  have read: "readRecordFrom F src (length (seg_bytes xs)) at st =
      Inr \<lparr>r_Offset = fst r, r_Event = snd r, r_Len = RecordLen (snd r)\<rparr>"
    using Cons.prems r by (intro readRecordFrom_entry [OF Cons.prems(1,2), where rest = "seg_bytes ys"]) auto
  show ?case
  proof (cases "fst r \<in> set surv")
    case False
    then have "copy_loop F src surv (length (seg_bytes (xs @ [r]))) (fst r + 1) dst st = (None, dst', st')"
      using Cons.prems(4,10) read by (simp add: copy_loop.simps [of F src surv _ at])
    moreover have "s_base dst \<le> fst r + 1" "end_off (s_base dst) zs \<le> fst r + 1" using Cons.prems(8,9) r by auto
    ultimately show ?thesis
      using Cons.IH [of st "xs @ [r]" "fst r + 1" dst zs] Cons.prems(1-4,6,7) r(4) False by simp
  next
    case True
    obtain aerr dst1 st1 where app: "seg_appendAt F (fst r) (snd r) dst st = (aerr, dst1, st1)" by (metis surj_pair)
    then have none: "aerr = None" and rest: "copy_loop F src surv (length (seg_bytes (xs @ [r]))) (fst r + 1) dst1 st1 = (None, dst', st')"
      using Cons.prems(4,10) read True
      by (auto simp: copy_loop.simps [of F src surv _ at] split: option.splits)
    note a = seg_appendAt_rep [OF Cons.prems(1,6) r(2) app [unfolded none]]
    have d1: "s_base dst1 = s_base dst" "s_file dst1 = s_file dst" by (subst a(6), simp)+
    have src1: "d_node (abs st1) (s_file src) = Some i" "d_data (abs st1) i = seg_bytes ((xs @ [r]) @ ys)"
      using Cons.prems(2,3,7) by (simp_all add: a(4) disk_append_def)
    have "wf st' \<and> seg_rep (abs st') j dst' ((zs @ [(fst r, snd r)]) @ filter (\<lambda>r. fst r \<in> set surv) ys) \<and>
        s_file dst' = s_file dst1 \<and> (\<exists>p. abs st' = disk_append j p (abs st1))"
      using Cons.prems(4,7,8) r d1 by (intro Cons.IH [OF a(1) src1 _ r(4) a(5) _ _ _ rest]) auto
    then show ?thesis using True d1(2) by (auto simp: a(4) disk_append_def)
  qed
qed

end

section \<open>The swap\<close>

text \<open>
  Renaming the finished file over a sealed segment, syncing the directory and dropping the old
  handle: the log then stands for the compacted piece, and is as durable as before.
\<close>

definition swapped :: "string \<Rightarrow> string \<Rightarrow> handle \<Rightarrow> disk \<Rightarrow> disk" where
  "swapped tmp name h d = disk_close h (disk_syncdir (disk_rename tmp name d))"

lemma swapped_sel:
  assumes "tmp \<noteq> name"
  shows "d_dir (swapped tmp name h d) = ((d_dir d)(tmp := None))(name := d_dir d tmp)"
    "d_sdir (swapped tmp name h d) = d_dir (swapped tmp name h d)" "d_data (swapped tmp name h d) = d_data d"
    "d_stable (swapped tmp name h d) = d_stable d" "d_node (swapped tmp name h d) = (d_node d)(h := None)"
  using assms by (simp_all add: swapped_def disk_close_def disk_syncdir_def disk_rename_def)

lemma same_files_swap:
  assumes "log_durable d pre b rs k" "no_links (d_dir d)" "d_dir d (segmentName x) = Some i" "d_node d h = Some i"
    "tmp \<notin> segment_names"
  shows "same_files (segment_names - {segmentName x}) d (swapped tmp (segmentName x) h d)"
proof -
  have ne: "tmp \<noteq> segmentName y" for y using assms(5) by blast
  have "d_sdir d (segmentName y) = d_dir d (segmentName y)" for y using assms(1) by (simp add: log_durable_def)
  then show ?thesis using assms(2-4) ne
    unfolding same_files_def swapped_sel [OF ne] by (auto dest: no_linksD)
qed

lemma log_inv_swap:
  assumes "log_inv d l (pre1 @ c # pre2) b rs k" "no_links (d_dir d)" "tmp \<notin> segment_names"
    and "d_dir d tmp = Some j" "d_data d j = seg_bytes rs'" "d_stable d j = seg_bytes rs'" "rs' = filter P (snd c)"
    and "d_dir d (segmentName (fst c)) = Some i" "d_node d h = Some i"
  shows "log_inv (swapped tmp (segmentName (fst c)) h d)
    (l\<lparr>l_sealed := AList.delete (fst c) (l_sealed l), l_generation := g\<rparr>) (pre1 @ (fst c, rs') # pre2) b rs k"
    (is "log_inv ?d ?l ?pre b rs k")
proof -
  have rep: "log_rep d l (pre1 @ c # pre2) b rs" and dur: "log_durable d (pre1 @ c # pre2) b rs k"
    using assms(1) by (auto simp: log_inv_def)
  note r = log_repD [OF rep]
  have ne: "tmp \<noteq> segmentName y" for y using assms(3) by blast
  note sel = swapped_sel [OF ne, of "fst c" h d]
  note same = same_files_swap [OF dur assms(2) assms(8,9,3)]
  have other: "segmentName (fst x) \<in> segment_names - {segmentName (fst c)}"
    if "x \<in> set (pre1 @ pre2 @ [(b, rs)])" for x
    using r(2) that by (auto simp: pieces_ok_def sorted_wrt_append dest: less_imp_neq)
  have dir: "d_dir ?d (segmentName x) = (if x = fst c then Some j else d_dir d (segmentName x))" for x
    using ne by (simp add: sel assms(4)) metis
  have cok: "records_ok (fst c) (snd c)" using r(2) by (cases c) (simp add: pieces_ok_def)
  have le: "records_ok (fst c) rs'" "end_off (fst c) rs' \<le> end_off (fst c) (snd c)"
    using filter_records_ok [OF cok, of P] assms(7) by simp_all
  have "chain (end_off (fst c) rs') (pre2 @ [(b, rs)])"
    using r(2) by (intro chain_mono [OF _ le(2)]) (cases c, simp add: pieces_ok_def)
  then have pieces: "pieces_ok (?pre @ [(b, rs)])"
    using r(2) le by (cases c) (auto simp: pieces_ok_def)
  have act: "active ?l = active l" "\<And>a. seg_at ?l a = seg_at l a" by (simp_all add: active_def seg_at_def)
  have st: "\<forall>x\<in>set ?pre. stored ?d x"
  proof
    fix x
    assume "x \<in> set ?pre"
    then consider "x = (fst c, rs')" | "x \<in> set (pre1 @ pre2)" by auto
    then show "stored ?d x"
    proof cases
      case 1
      then show ?thesis using assms(5) dir by (simp add: stored_def sel(3))
    next
      case 2
      then show ?thesis using stored_same [OF r(3) same other] by auto
    qed
  qed
  have sealed: "a < length (l_segs l) \<and> a \<noteq> l_active l \<and> (\<exists>x\<in>set ?pre. fst x = b' \<and> held ?d (seg_at l a) x)"
    if sl: "map_of (AList.delete (fst c) (l_sealed l)) b' = Some a" for b' a
  proof -
    have b': "b' \<noteq> fst c" "map_of (l_sealed l) b' = Some a" using sl by (auto simp: delete_conv' split: if_splits)
    obtain x where x: "x \<in> set (pre1 @ c # pre2)" "fst x = b'" "held d (seg_at l a) x"
      using log_rep_sealed(3) [OF rep b'(2)] by blast
    then have "x \<in> set (pre1 @ pre2)" using b'(1) by auto
    then show ?thesis using x log_rep_sealed(1,2) [OF rep b'(2)] held_same [OF x(3) same other] by auto
  qed
  have names: "b' = b \<or> b' \<in> fst ` set ?pre" if "d_dir ?d (segmentName b') \<noteq> None" for b'
    using rep that unfolding log_rep_def dir by (cases "b' = fst c") auto
  have bases: "l_bases l = map fst ?pre @ [b]" using r(1) by simp
  have "held ?d (active l) (b, rs)" using held_same [OF r(4) same other] by auto
  then have "log_rep ?d ?l ?pre b rs"
    using rep bases pieces st sealed names r(5-7) unfolding log_rep_def act by auto
  moreover have "log_durable ?d ?pre b rs k"
  proof -
    have "d_stable d y = d_data d y" if "x \<in> set (pre1 @ pre2)" "d_dir d (segmentName (fst x)) = Some y" for x y
      using dur that by (auto simp: log_durable_def)
    moreover have "b \<noteq> fst c" using r(10) [of "fst c"] by auto
    ultimately show ?thesis using dur assms(5,6) unfolding log_durable_def sel(2) dir by (auto simp: sel(3,4))
  qed
  ultimately show ?thesis by (simp add: log_inv_def)
qed

section \<open>Compacting one segment\<close>

context reliable_filesystem
begin

lemma copy_loop_total:
  assumes "wf st" "d_node (abs st) (s_file src) = Some i"
    and "d_data (abs st) i = seg_bytes (xs @ ys)" "s_size src = length (seg_bytes (xs @ ys))" "records_ok at ys"
    and "seg_rep (abs st) j dst zs" "i \<noteq> j" "end_off (s_base dst) zs \<le> at"
  shows "\<exists>dst' st'. copy_loop F src surv (length (seg_bytes xs)) at dst st = (None, dst', st')"
  using assms
proof (induction ys arbitrary: xs at zs dst st)
  case Nil
  then show ?case by (simp add: copy_loop.simps [of F src surv _ at])
next
  case (Cons r ys)
  have r: "at \<le> fst r" "fst r \<noteq> - 1" "framable (snd r)" "records_ok (fst r + 1) ys" "fst r < fst r + 1"
    using Cons.prems(5) by (auto intro: word_less_succ)
  have read: "readRecordFrom F src (length (seg_bytes xs)) at st =
      Inr \<lparr>r_Offset = fst r, r_Event = snd r, r_Len = RecordLen (snd r)\<rparr>"
    using Cons.prems r by (intro readRecordFrom_entry [OF Cons.prems(1,2), where rest = "seg_bytes ys"]) auto
  have nx: "s_next dst \<le> fst r" using Cons.prems(6,8) r(1) by (auto simp: seg_rep_def seg_holds_def)
  have ge: "end_off (s_base dst) zs \<le> fst r + 1" using Cons.prems(8) r by auto
  have skip: "\<exists>dst' st'. copy_loop F src surv (length (seg_bytes (xs @ [r]))) (fst r + 1) dst st = (None, dst', st')"
    using Cons.prems(1-4,6,7) r(4) ge by (intro Cons.IH [of st "xs @ [r]" "fst r + 1" dst zs]) simp_all
  obtain dst1 st1 where app: "seg_appendAt F (fst r) (snd r) dst st = (None, dst1, st1)"
    using seg_appendAt_ok [OF Cons.prems(1) _ r(3) nx] Cons.prems(6) by (auto simp: seg_rep_def)
  note a = seg_appendAt_rep [OF Cons.prems(1,6) r(2) app]
  have d1: "s_base dst1 = s_base dst" by (subst a(6)) simp
  have src1: "d_node (abs st1) (s_file src) = Some i" "d_data (abs st1) i = seg_bytes ((xs @ [r]) @ ys)"
    using Cons.prems(2,3,7) by (simp_all add: a(4) disk_append_def)
  have "\<exists>dst' st'. copy_loop F src surv (length (seg_bytes (xs @ [r]))) (fst r + 1) dst1 st1 = (None, dst', st')"
    using Cons.prems(4,7) r d1 by (intro Cons.IH [OF a(1) src1 _ r(4) a(5)]) auto
  with skip read app Cons.prems(4) show ?case by (simp add: copy_loop.simps [of F src surv _ at])
qed

lemma removeStale_ok:
  assumes "wf st" "ValidateName tmp = None"
  obtains st' where "removeStale F tmp st = (None, st')" "wf st'" "d_dir (abs st') tmp = None"
    "\<And>N. tmp \<notin> N \<Longrightarrow> same_files N (abs st) (abs st')"
proof (cases "d_dir (abs st) tmp")
  case None
  then obtain e st' where e: "fs_Remove F tmp st = (Some e, st')" "errors_Is e ErrNotExist"
    using Remove_not_exist [OF assms] by blast
  with Remove_missing [OF assms(1)] None show thesis by (intro that [of st']) (auto simp: removeStale_def)
next
  case (Some i)
  then obtain st' where "fs_Remove F tmp st = (None, st')" "wf st'" "abs st' = disk_remove tmp (abs st)"
    using Remove_step [OF assms] by auto
  then show thesis by (intro that [of st']) (simp_all add: removeStale_def same_files_remove, simp add: disk_remove_def)
qed

lemma seg_Close_ok:
  assumes "wf st" "d_node (abs st) (s_file s) = Some i"
  obtains st' where "seg_Close F s st = (None, st')" "wf st'" "abs st' = disk_close (s_file s) (abs st)"
  using Close_step [OF assms] by (metis (no_types, lifting) seg_Close_def case_prod_conv option.simps(4))

lemma writeCompacted_ok:
  assumes "wf st" "held (abs st) src c" "tmp \<notin> segment_names" "ValidateName tmp = None"
  obtains st' j where "writeCompacted F cfg tmp (fst c) src surv st =
      (Inr (length (seg_bytes (filter (\<lambda>r. fst r \<in> set surv) (snd c)))), st')" "wf st'"
    "same_files segment_names (abs st) (abs st')" "d_dir (abs st') tmp = Some j"
    "d_data (abs st') j = seg_bytes (filter (\<lambda>r. fst r \<in> set surv) (snd c))" "d_stable (abs st') j = d_data (abs st') j"
proof -
  let ?opts = "Options_withDefaults (c_Segment cfg)" and ?rs = "filter (\<lambda>r. fst r \<in> set surv) (snd c)"
  obtain i where i: "d_dir (abs st) (segmentName (fst c)) = Some i" "seg_rep (abs st) i src (snd c)" "s_base src = fst c"
    using assms(2) by (auto simp: held_def)
  obtain st1 where s1: "removeStale F tmp st = (None, st1)" "wf st1" "d_dir (abs st1) tmp = None"
    "same_files segment_names (abs st) (abs st1)"
    using removeStale_ok [OF assms(1,4)] assms(3) by metis
  obtain h j st2 where s2: "fs_Create F tmp st1 = (Inr h, st2)" "wf st2" "d_node (abs st1) h = None" "fresh_inode j (abs st1)"
    "abs st2 = disk_create tmp h j (abs st1)"
    using Create_step [OF s1(2) assms(4) s1(3)] .
  let ?dst = "fresh_segment h tmp ?opts (fst c)"
  have same2: "same_files segment_names (abs st) (abs st2)"
    using same_files_trans [OF s1(4)] same_files_create [OF assms(3) s2(4,3)] s2(5) by simp
  have dst: "seg_rep (abs st2) j ?dst []"
    using fresh_segment_holds [of h tmp ?opts "fst c"]
    by (simp add: seg_rep_def s2(5) disk_create_def) (simp add: fresh_segment_def)
  have str1: "stranger segment_names j (abs st1)" using s2(4) by (auto simp: stranger_def fresh_inode_def ran_def)
  then have str2: "stranger segment_names j (abs st2)" using stranger_same same_files_create [OF assms(3) s2(4,3)] s2(5) by metis
  have src2: "held (abs st2) src c" by (rule held_same [OF assms(2) same2 rangeI])
  then obtain i' where i': "d_dir (abs st2) (segmentName (fst c)) = Some i'" "seg_rep (abs st2) i' src (snd c)" by (auto simp: held_def)
  have ij: "i' \<noteq> j" using str2 i'(1) by (auto simp: stranger_def)
  have sr: "d_node (abs st2) (s_file src) = Some i'" "d_data (abs st2) i' = seg_bytes ([] @ snd c)"
    "s_size src = length (seg_bytes ([] @ snd c))" "records_ok (s_base src) (snd c)"
    using i'(2) by (auto simp: seg_rep_def seg_holds_def)
  have base: "s_base ?dst \<le> s_base src" "end_off (s_base ?dst) [] \<le> s_base src" using i(3) by (simp_all add: fresh_segment_def)
  obtain dst3 st3 where c3: "copy_loop F src surv (length (seg_bytes [])) (s_base src) ?dst st2 = (None, dst3, st3)"
    using copy_loop_total [OF s2(2) sr dst ij base(2)] by blast
  obtain p where s3: "wf st3" "seg_rep (abs st3) j dst3 ?rs" "s_file dst3 = h" "abs st3 = disk_append j p (abs st2)"
    using copy_loop_ok [OF s2(2) sr dst ij base c3] by (auto simp: fresh_segment_def)
  have n3: "d_node (abs st3) (s_file dst3) = Some j" using s3(2) by (simp add: seg_rep_def)
  obtain st4 where s4: "seg_Sync F dst3 st3 = (None, st4)" "wf st4" "abs st4 = disk_sync j (abs st3)"
    using seg_Sync_ok [OF s3(1) n3] .
  have n4: "d_node (abs st4) (s_file dst3) = Some j" using n3 by (simp add: s4(3) disk_sync_def)
  obtain st5 where s5: "seg_Close F dst3 st4 = (None, st5)" "wf st5" "abs st5 = disk_close (s_file dst3) (abs st4)"
    using seg_Close_ok [OF s4(2) n4] .
  have same3: "same_files segment_names (abs st2) (abs st3)" using same_files_strange(1) [OF str2] s3(4) by simp
  have str3: "stranger segment_names j (abs st3)" by (rule stranger_same [OF str2 same3])
  have same4: "same_files segment_names (abs st3) (abs st4)" using same_files_strange(2) [OF str3] s4(3) by simp
  have str4: "stranger segment_names j (abs st4)" by (rule stranger_same [OF str3 same4])
  have "same_files segment_names (abs st4) (abs st5)" using same_files_strange(3) [OF str4 n4] s5(3) by simp
  then have "same_files segment_names (abs st) (abs st5)"
    using same2 same3 same4 same_files_trans by metis
  moreover have "s_size dst3 = length (seg_bytes ?rs)" using s3(2) by (simp add: seg_rep_def seg_holds_def)
  then have "writeCompacted F cfg tmp (fst c) src surv st = (Inr (length (seg_bytes ?rs)), st5)"
    using s1(1) s2(1) c3 s4(1) s5(1) by (simp add: writeCompacted_def createNamed_def Let_def)
  moreover have "d_dir (abs st5) tmp = Some j" "d_data (abs st5) j = seg_bytes ?rs" "d_stable (abs st5) j = d_data (abs st5) j"
    using s3(2) unfolding s5(3) s4(3) by (simp_all add: disk_close_def disk_sync_def seg_rep_def)
      (simp add: s3(4) s2(5) disk_append_def disk_create_def)
  ultimately show thesis using s5(2) by (intro that)
qed

end

text \<open>The pieces after compaction of the segment at \<open>base\<close>.\<close>

definition compact_piece :: "Offset \<Rightarrow> piece \<Rightarrow> piece" where
  "compact_piece base c = (if fst c = base then (fst c, newest_per_key (snd c)) else c)"

lemma compact_piece_split:
  assumes "sorted_wrt (<) (map fst (pre1 @ c # pre2))"
  shows "map (compact_piece (fst c)) (pre1 @ c # pre2) = pre1 @ (fst c, newest_per_key (snd c)) # pre2"
  using assms by (auto simp: compact_piece_def sorted_wrt_append intro!: map_idI)

context reliable_filesystem
begin

text \<open>
  Compacting a sealed segment by its base: the log then holds its newest record per key, every
  other segment as before, and the report counts what went.
\<close>

lemma log_Compact_ok:
  assumes "wf st" "log_inv (abs st) l pre b rs k" "base \<in> fst ` set pre"
  obtains cp l' st' where "log_Compact F base l st = (Inr cp, l', st')" "wf st'"
    "log_inv (abs st') l' (map (compact_piece base) pre) b rs k" "log_Next l' = log_Next l"
    "cp_Base cp = base" "cp_Kept cp = length (newest_per_key (the (map_of pre base)))"
    "int (cp_Kept cp) + cp_Dropped cp = int (length (the (map_of pre base)))"
    "cp_Before cp = length (seg_bytes (the (map_of pre base)))"
    "cp_After cp = length (seg_bytes (newest_per_key (the (map_of pre base))))"
    "l_bases l' = l_bases l" "l_cfg l' = l_cfg l"
proof -
  have rep: "log_rep (abs st) l pre b rs" and dur: "log_durable (abs st) pre b rs k"
    using assms(2) by (auto simp: log_inv_def)
  note r = log_repD [OF rep]
  let ?cs = "pre @ [(b, rs)]"
  have sorted: "sorted_wrt (<) (l_bases l)" using r(1,2) by (simp add: pieces_ok_def)
  have lt: "base < b" using r(10) assms(3) by blast
  have ab: "s_base (active l) = b" using r(4) by (simp add: held_def)
  have after: "baseAfter base l \<noteq> None"
    using baseAfter_spec [OF sorted, of base] r(1) lt by (cases "baseAfter base l") auto
  have "sorted_wrt (<) (map fst pre @ [b])" using r(2) by (simp add: pieces_ok_def)
  then have "log_First l \<le> base" using r(1) assms(3) by (cases pre) (auto simp: log_First_def less_imp_le)
  moreover have "base < log_Next l" using lt records_ok_ge [OF r(9)] r(8) by auto
  ultimately obtain a l1 st1 where sf: "segmentFor F base l st = (Inr a, l1, st1)"
    using segmentFor_ok [OF assms(1) rep] by blast
  note s = segmentFor_rep [OF assms(1) rep sf]
  note ext = log_extends_sel [OF s(3) r(7)]
  have inv1: "log_inv (abs st1) l1 pre b rs k"
    using s(2) dur by (simp add: log_inv_def) (subst s(5), simp add: log_durable_def)
  obtain c where c: "piece_for base ?cs c" "held (abs st1) (seg_at l1 a) c" using s(6) by blast
  obtain x where x: "x \<in> set pre" "fst x = base" using assms(3) by blast
  have "fst c = base" using c(1) x by (intro order_antisym) (auto simp: piece_for_def)
  moreover have "c \<in> set pre" using c(1) lt calculation by (auto simp: piece_for_def)
  ultimately have cp: "c \<in> set pre" "fst c = base" by auto
  obtain pre1 pre2 where pre: "pre = pre1 @ c # pre2" using split_list [OF cp(1)] by blast
  have dist: "distinct (map fst pre)" using r(2) by (auto simp: pieces_ok_def strict_sorted_iff sorted_wrt_append)
  then have mo: "map_of pre base = Some (snd c)" using cp by (metis map_of_is_SomeI prod.collapse)
  have srt: "sorted_wrt (<) (map fst (pre1 @ c # pre2))" using r(2) pre by (simp add: pieces_ok_def sorted_wrt_append)
  note pieces' = compact_piece_split [OF srt, unfolded cp(2), folded pre]
  let ?src = "seg_at l1 a" and ?surv = "remdups (map snd (newest_map (snd c) []))" and ?new = "newest_per_key (snd c)"
  obtain i where i: "d_dir (abs st1) (segmentName base) = Some i" "seg_rep (abs st1) i ?src (snd c)"
    using c(2) cp(2) by (auto simp: held_def)
  have src: "s_size ?src = length (seg_bytes (snd c))" "s_count ?src = length (snd c)" "records_ok base (snd c)"
    "d_node (abs st1) (s_file ?src) = Some i"
    using i(2) c(2) cp(2) by (auto simp: seg_rep_def seg_holds_def held_def)
  note surv = survivorsOf_ok [OF s(1) c(2)] survivors_count [OF src(3)]
  have filt: "filter (\<lambda>r. fst r \<in> set ?surv) (snd c) = ?new" using newest_per_key_filter [OF src(3)] by simp
  show thesis
  proof (cases "length ?new = length (snd c)")
    case True
    then have new: "?new = snd c" unfolding newest_per_key_def
      by (intro filter_True) (metis (no_types, lifting) length_filter_less nat_neq_iff)
    then have mp: "map (compact_piece base) pre = pre" using pieces' pre cp(2) by (cases c) simp
    have "log_Compact F base l st = (Inr \<lparr>cp_Base = base, cp_Kept = length (snd c), cp_Dropped = 0,
        cp_Before = length (seg_bytes (snd c)), cp_After = length (seg_bytes (snd c))\<rparr>, l1, st1)"
      using ab lt after sf surv src new by (simp add: log_Compact_def Let_def)
    then show thesis by (rule that) (use s(1) inv1 ext mo new mp in \<open>simp_all del: map_eq_conv\<close>)
  next
    case False
    let ?tmp = "segmentName base @ compactingSuffix"
    obtain st2 j where w: "writeCompacted F (l_cfg l1) ?tmp (fst c) ?src ?surv st1 = (Inr (length (seg_bytes ?new)), st2)" "wf st2"
      "same_files segment_names (abs st1) (abs st2)" "d_dir (abs st2) ?tmp = Some j"
      "d_data (abs st2) j = seg_bytes ?new" "d_stable (abs st2) j = d_data (abs st2) j"
      using writeCompacted_ok [OF s(1) c(2) compacting_not_segment ValidateName_compacting, where cfg = "l_cfg l1" and surv = ?surv]
      unfolding filt by metis
    have inv2: "log_inv (abs st2) l1 pre b rs k" by (rule log_inv_same [OF inv1 w(3)])
    have i2: "d_dir (abs st2) (segmentName (fst c)) = Some i" "d_node (abs st2) (s_file ?src) = Some i"
      using w(3) i(1) src(4) cp(2) unfolding same_files_def by auto
    obtain st3 where s3: "fs_Rename F ?tmp (segmentName base) st2 = (None, st3)" "wf st3"
      "abs st3 = disk_rename ?tmp (segmentName base) (abs st2)"
      using Rename_step [OF w(2) ValidateName_compacting ValidateName_segmentName] w(4) by (metis option.distinct(1))
    obtain st4 where s4: "fs_Sync F st3 = (None, st4)" "wf st4" "abs st4 = disk_syncdir (abs st3)"
      using SyncDir_step [OF s3(2)] .
    have n4: "d_node (abs st4) (s_file ?src) = Some i"
      using i2(2) by (simp add: s4(3) s3(3) disk_syncdir_def disk_rename_def)
    obtain st5 where s5: "seg_Close F ?src st4 = (None, st5)" "wf st5" "abs st5 = disk_close (s_file ?src) (abs st4)"
      using seg_Close_ok [OF s4(2) n4] .
    let ?l = "l1\<lparr>l_sealed := AList.delete base (l_sealed l1), l_generation := l_generation l1 + 1\<rparr>"
    have "log_inv (swapped ?tmp (segmentName (fst c)) (s_file ?src) (abs st2))
        (l1\<lparr>l_sealed := AList.delete (fst c) (l_sealed l1), l_generation := l_generation l1 + 1\<rparr>)
        (pre1 @ (fst c, ?new) # pre2) b rs k"
      using w(4-6) i2 unfolding newest_per_key_def
      by (intro log_inv_swap [OF inv2 [unfolded pre] Dir_law [OF w(2)] compacting_not_segment]) simp_all
    then have inv5: "log_inv (abs st5) ?l (map (compact_piece base) pre) b rs k"
      by (simp add: pieces' cp(2) s5(3) s4(3) s3(3) swapped_def del: map_eq_conv)
    have nx: "log_Next ?l = log_Next l" using ext by (simp add: log_Next_def active_def seg_at_def)
    have "log_Compact F base l st = (Inr \<lparr>cp_Base = base, cp_Kept = length ?new,
        cp_Dropped = int (length (snd c)) - int (length ?new), cp_Before = length (seg_bytes (snd c)),
        cp_After = length (seg_bytes ?new)\<rparr>, ?l, st5)"
      using ab lt after sf surv src False w(1) s3(1) s4(1) s5(1) cp(2) by (simp add: log_Compact_def Let_def)
    then show thesis by (rule that) (use s5(2) inv5 nx ext mo in \<open>simp_all del: map_eq_conv\<close>)
  qed
qed

lemma compact_all_loop_ok:
  assumes "wf st" "log_inv (abs st) l pre b rs k" "distinct bs" "set bs \<subseteq> insert b (fst ` set pre)"
  shows "\<exists>cps l' st'. compact_all_loop F b bs out l st = ((out @ cps, None), l', st') \<and> wf st' \<and>
    log_inv (abs st') l' (map (\<lambda>c. if fst c \<in> set bs then (fst c, newest_per_key (snd c)) else c) pre) b rs k \<and>
    map cp_Base cps = filter (\<lambda>x. x \<noteq> b) bs \<and> log_Next l' = log_Next l"
  using assms
proof (induction bs arbitrary: out l st pre)
  case (Cons base bs)
  have b: "b \<notin> fst ` set pre" using Cons.prems(2) log_repD(10) [of "abs st" l pre b rs b] by (auto simp: log_inv_def)
  show ?case
  proof (cases "base = b")
    case True
    have "map (\<lambda>c. if fst c \<in> set (base # bs) then (fst c, newest_per_key (snd c)) else c) pre =
        map (\<lambda>c. if fst c \<in> set bs then (fst c, newest_per_key (snd c)) else c) pre"
      using b True by (auto intro!: map_cong)
    with Cons.IH [OF Cons.prems(1,2), of out] Cons.prems(3,4) True show ?thesis by (simp del: map_eq_conv)
  next
    case False
    then have "base \<in> fst ` set pre" using Cons.prems(4) by auto
    from log_Compact_ok [OF Cons.prems(1,2) this] obtain cp l1 st1 where c: "log_Compact F base l st = (Inr cp, l1, st1)"
      "wf st1" "log_inv (abs st1) l1 (map (compact_piece base) pre) b rs k" "log_Next l1 = log_Next l" "cp_Base cp = base"
      by metis
    let ?pre = "map (compact_piece base) pre"
    have fsts: "map fst ?pre = map fst pre" by (simp add: compact_piece_def)
    have "set bs \<subseteq> insert b (fst ` set ?pre)"
      using Cons.prems(4) arg_cong [OF fsts, of set] by (auto simp: image_image)
    then obtain cps l' st' where ih: "compact_all_loop F b bs (out @ [cp]) l1 st1 = (((out @ [cp]) @ cps, None), l', st')" "wf st'"
      "log_inv (abs st') l' (map (\<lambda>c. if fst c \<in> set bs then (fst c, newest_per_key (snd c)) else c) ?pre) b rs k"
      "map cp_Base cps = filter (\<lambda>x. x \<noteq> b) bs" "log_Next l' = log_Next l1"
      using Cons.IH [OF c(2,3), of "out @ [cp]"] Cons.prems(3) by auto
    have "map (\<lambda>c. if fst c \<in> set bs then (fst c, newest_per_key (snd c)) else c) ?pre =
        map (\<lambda>c. if fst c \<in> set (base # bs) then (fst c, newest_per_key (snd c)) else c) pre"
      using Cons.prems(3) by (auto simp: compact_piece_def)
    with ih c False show ?thesis
      by (intro exI [of _ "cp # cps"] exI [of _ l'] exI [of _ st']) (simp del: map_eq_conv map_map)
  qed
qed simp

lemma log_CompactAll_ok:
  assumes "wf st" "log_inv (abs st) l pre b rs k"
  obtains cps l' st' where "log_CompactAll F l st = ((cps, None), l', st')" "wf st'"
    "log_inv (abs st') l' (map (\<lambda>c. (fst c, newest_per_key (snd c))) pre) b rs k"
    "map cp_Base cps = map fst pre" "log_Next l' = log_Next l"
proof -
  have rep: "log_rep (abs st) l pre b rs" using assms(2) by (simp add: log_inv_def)
  note r = log_repD [OF rep]
  have act: "s_base (active l) = b" using r(4) by (simp add: held_def)
  have d: "distinct (map fst pre @ [b])" using r(2) by (auto simp: pieces_ok_def strict_sorted_iff)
  then have "filter (\<lambda>x. x \<noteq> b) (map fst pre @ [b]) = map fst pre" by (auto intro!: filter_True)
  moreover have "map (\<lambda>c. if fst c \<in> set (map fst pre @ [b]) then (fst c, newest_per_key (snd c)) else c) pre =
      map (\<lambda>c. (fst c, newest_per_key (snd c))) pre" by auto
  ultimately show thesis
    using compact_all_loop_ok [OF assms d, of "[]"] that r(1) act unfolding log_CompactAll_def log_Segments_def
    by (auto simp del: map_eq_conv)
qed

text \<open>
  The check that a segment begins at the given offset only asks whether a later segment exists:
  an offset in the middle of a segment passes it.
\<close>

lemma log_Compact_non_base:
  assumes "wf st" "log_inv (abs st) l pre b rs k" "piece_for base (pre @ [(b, rs)]) c" "base < b"
    "newest_per_key (snd c) = snd c"
  obtains cp l' st' where "log_Compact F base l st = (Inr cp, l', st')" "cp_Base cp = base" "cp_Dropped cp = 0"
proof -
  have rep: "log_rep (abs st) l pre b rs" using assms(2) by (simp add: log_inv_def)
  note r = log_repD [OF rep]
  let ?cs = "pre @ [(b, rs)]"
  have sorted: "sorted_wrt (<) (l_bases l)" using r(1,2) by (simp add: pieces_ok_def)
  have ab: "s_base (active l) = b" using r(4) by (simp add: held_def)
  have after: "baseAfter base l \<noteq> None"
    using baseAfter_spec [OF sorted, of base] r(1) assms(4) by (cases "baseAfter base l") auto
  have "log_First l \<le> fst c"
    using assms(3) r(2) by (cases pre) (auto simp: log_First_def r(1) piece_for_def pieces_ok_def less_imp_le)
  then have "log_First l \<le> base" using assms(3) by (auto simp: piece_for_def)
  moreover have "base < log_Next l" using assms(4) records_ok_ge [OF r(9)] r(8) by auto
  ultimately obtain a l1 st1 where sf: "segmentFor F base l st = (Inr a, l1, st1)"
    using segmentFor_ok [OF assms(1) rep] by blast
  note s = segmentFor_rep [OF assms(1) rep sf]
  obtain c' where c': "piece_for base ?cs c'" "held (abs st1) (seg_at l1 a) c'" using s(6) by blast
  have "c' = c" by (rule piece_for_unique [OF r(2) c'(1) assms(3)])
  then have h: "held (abs st1) (seg_at l1 a) c" using c'(2) by simp
  then have src: "s_count (seg_at l1 a) = length (snd c)" "records_ok (fst c) (snd c)"
    by (auto simp: held_def seg_rep_def seg_holds_def)
  have "log_Compact F base l st = (Inr \<lparr>cp_Base = base, cp_Kept = length (snd c), cp_Dropped = 0,
      cp_Before = s_size (seg_at l1 a), cp_After = s_size (seg_at l1 a)\<rparr>, l1, st1)"
    using ab assms(4,5) after sf survivorsOf_ok [OF s(1) h] survivors_count [OF src(2)] src
    by (simp add: log_Compact_def Let_def)
  then show thesis by (rule that) simp_all
qed

end

end
