(* ===== verification/Log_Store.thy ===== *)
theory Log_Store
  imports Log_Compact "HOL-Library.Sublist"
begin

text \<open>
  What a client of a log can rely on, over the simulated filesystem: the log as one list of
  entries of which a known prefix is durable. How the entries are spread over segment files
  is hidden by \<open>is_log\<close>. The sample event and the sample log are inputs for examples.
\<close>

section \<open>A sample event\<close>

text \<open>An event that every witness below can use: it is framable, whatever its offset.\<close>

definition sample_event :: event where
  "sample_event = \<lparr>e_Key = ''k'', e_Time = 5, e_Schema = 1, e_Payload = [1, 2, 3]\<rparr>"

lemma framable_sample [simp]: "framable sample_event"
  by (simp add: framable_def sample_event_def Event_Validate_None RecordLen_def MaxRecordLen_def
      MaxKeyLen_def MaxPayloadLen_def headerBytes_def HeaderLen_def)

lemma RecordLen_sample [simp]: "RecordLen sample_event = 32"
  by (simp add: RecordLen_def sample_event_def HeaderLen_def)

section \<open>The contents of a log\<close>

text \<open>
  \<open>is_log f l es n\<close>: over the simulated filesystem \<open>f\<close>, the log \<open>l\<close> holds the entries
  \<open>es\<close>, of which a power cut would leave at least the first \<open>n\<close>. It hides how the entries
  are split over segments.
\<close>

definition is_log :: "'a simfs_scheme \<Rightarrow> 'a simfs_scheme Log \<Rightarrow> entry list \<Rightarrow> nat \<Rightarrow> bool" where
  "is_log f l es n \<longleftrightarrow>
     wf_sim f \<and> (\<exists>pre b rs k. log_inv (abs_sim f) l pre b rs k \<and> es = flat (pre @ [(b, rs)]) \<and> n = length (flat pre) + k)"

lemma is_logI: "wf_sim f \<Longrightarrow> log_inv (abs_sim f) l pre b rs k \<Longrightarrow> is_log f l (flat (pre @ [(b, rs)])) (length (flat pre) + k)"
  unfolding is_log_def by blast

lemma is_logE:
  assumes "is_log f l es n"
  obtains pre b rs k where "wf_sim f" "log_inv (abs_sim f) l pre b rs k" "es = flat (pre @ [(b, rs)])" "n = length (flat pre) + k"
  using assms unfolding is_log_def by blast

lemma append_is_log:
  assumes "is_log f l es n" "unat (log_Next l) + length xs < 2 ^ 64"
  obtains err l' f' n' where
    "log_Append sim_ops xs l f = ((offsets_from (log_Next l) (length (takeWhile framable xs)), err), l', f')"
    "err = None \<longleftrightarrow> list_all framable xs" "is_log f' l' (es @ number (log_Next l) (takeWhile framable xs)) n'"
    "n \<le> n'" "c_Durability (l_cfg l) = Sync \<Longrightarrow> err = None \<Longrightarrow> xs \<noteq> [] \<Longrightarrow> n' = length es + length xs"
    "log_Next l' = log_Next l + word_of_nat (length (takeWhile framable xs))"
    "l_cfg l' = l_cfg l" "l_commits l' = l_commits l"
proof -
  obtain pre b rs k where i: "wf_sim f" "log_inv (abs_sim f) l pre b rs k" "es = flat (pre @ [(b, rs)])" "n = length (flat pre) + k"
    by (rule is_logE [OF assms(1)])
  obtain err l' f' pre' b' rs' k' where a:
    "log_Append sim_ops xs l f = ((offsets_from (log_Next l) (length (takeWhile framable xs)), err), l', f')"
    "err = None \<longleftrightarrow> takeWhile framable xs = xs" "wf_sim f'" "log_inv (abs_sim f') l' pre' b' rs' k'"
    "flat (pre' @ [(b', rs')]) = flat (pre @ [(b, rs)]) @ number (log_Next l) (takeWhile framable xs)"
    "log_Next l' = log_Next l + word_of_nat (length (takeWhile framable xs))" "length (flat pre) + k \<le> length (flat pre') + k'"
    "c_Durability (l_cfg l) = Sync \<Longrightarrow> takeWhile framable xs = xs \<Longrightarrow> xs \<noteq> [] \<Longrightarrow> k' = length rs'"
    "l_cfg l' = l_cfg l" "l_commits l' = l_commits l"
    by (rule sim.log_Append_ok [OF i(1,2) assms(2)]) blast
  have "err = None \<longleftrightarrow> list_all framable xs" using a(2) by (simp add: takeWhile_eq_all_conv list_all_iff)
  moreover have "length (flat pre') + k' = length es + length xs" if "c_Durability (l_cfg l) = Sync" "err = None" "xs \<noteq> []"
  proof -
    have "takeWhile framable xs = xs" using a(2) that(2) by blast
    then show ?thesis using arg_cong [OF a(5), of length] a(8) that i(3) by (simp del: takeWhile_eq_all_conv)
  qed
  ultimately show thesis using that [OF a(1) _ _ _ _ a(6,9,10)] is_logI [OF a(3,4)] a(5,7) i(3,4) by simp
qed

lemma read_is_log:
  assumes "is_log f l es n"
  obtains res l' f' where "log_Read sim_ops off l f = (res, l', f')" "is_log f' l' es n" "log_extends l l'"
    "case map_of es off of
       Some e \<Rightarrow> res = Inr \<lparr>r_Offset = off, r_Event = e, r_Len = RecordLen e\<rparr>
     | None \<Rightarrow> \<exists>err. res = Inl err \<and> same_class err (Sentinel ErrNotFound)"
proof -
  obtain pre b rs k where i: "wf_sim f" "log_inv (abs_sim f) l pre b rs k" "es = flat (pre @ [(b, rs)])" "n = length (flat pre) + k"
    by (rule is_logE [OF assms])
  obtain res l' f' where r: "log_Read sim_ops off l f = (res, l', f')" "wf_sim f'" "log_inv (abs_sim f') l' pre b rs k" "log_extends l l'"
    "case map_of (flat (pre @ [(b, rs)])) off of
       Some e \<Rightarrow> res = Inr \<lparr>r_Offset = off, r_Event = e, r_Len = RecordLen e\<rparr>
     | None \<Rightarrow> \<exists>err. res = Inl err \<and> same_class err (Sentinel ErrNotFound)"
    by (rule sim.log_Read_ok [OF i(1,2)]) (rule that; assumption)
  show thesis using that [OF r(1) _ r(4)] is_logI [OF r(2,3)] r(5) unfolding i(3,4) by blast
qed

lemma sync_is_log:
  assumes "is_log f l es n"
  obtains l' f' where "log_Sync sim_ops l f = (None, l', f')" "is_log f' l' es (length es)" "active l' = active l"
    "l_cfg l' = l_cfg l" "l_commits l' = l_commits l"
proof -
  obtain pre b rs k where i: "wf_sim f" "log_inv (abs_sim f) l pre b rs k" "es = flat (pre @ [(b, rs)])" "n = length (flat pre) + k"
    by (rule is_logE [OF assms])
  obtain l' f' where s: "log_Sync sim_ops l f = (None, l', f')" "wf_sim f'" "log_inv (abs_sim f') l' pre b rs (length rs)"
    "active l' = active l" "l_cfg l' = l_cfg l" "l_commits l' = l_commits l"
    by (rule sim.log_Sync_ok [OF i(1,2)]) blast
  have "is_log f' l' es (length es)" using is_logI [OF s(2,3)] i(3) by simp
  with s that show thesis by blast
qed

lemma is_log_durable_le: "is_log f l es n \<Longrightarrow> n \<le> length es"
  by (auto simp: is_log_def log_inv_def log_durable_def)

lemma is_log_next:
  assumes "is_log f l es n"
  shows "records_ok 0 es" "end_off 0 es \<le> log_Next l"
proof -
  obtain pre b rs k where i: "wf_sim f" "log_inv (abs_sim f) l pre b rs k" "es = flat (pre @ [(b, rs)])"
    by (rule is_logE [OF assms])
  then have "log_rep (abs_sim f) l pre b rs" by (simp add: log_inv_def)
  note r = log_repD [OF this]
  then show "records_ok 0 es" "end_off 0 es \<le> log_Next l"
    using records_ok_flat [of 0 "pre @ [(b, rs)]"] i(3) by (simp_all add: pieces_ok_def)
qed

lemma is_log_first:
  assumes "is_log f l es n" "x \<in> set es"
  shows "log_First l \<le> fst x"
proof -
  obtain pre b rs k where i: "log_inv (abs_sim f) l pre b rs k" "es = flat (pre @ [(b, rs)])"
    using assms(1) unfolding is_log_def by blast
  then have "log_rep (abs_sim f) l pre b rs" by (simp add: log_inv_def)
  note r = log_repD [OF this]
  obtain c cs where c: "pre @ [(b, rs)] = c # cs" by (cases pre) auto
  have "chain (fst c) (c # cs)" using r(2) c by (cases c) (simp add: pieces_ok_def)
  then have "fst c \<le> fst x" using chain_range assms(2) i(2) c by metis
  moreover have "log_First l = fst c" using r(1) c by (cases pre) (auto simp: log_First_def)
  ultimately show ?thesis by simp
qed

lemma is_log_first_next:
  assumes "is_log f l es n"
  shows "log_First l \<le> log_Next l"
proof -
  obtain pre b rs k where "log_inv (abs_sim f) l pre b rs k" using assms unfolding is_log_def by blast
  then have "log_rep (abs_sim f) l pre b rs" by (simp add: log_inv_def)
  note r = log_repD [OF this]
  have "log_First l \<le> b" using r(1,10) by (cases pre) (auto simp: log_First_def intro: less_imp_le)
  moreover have "b \<le> log_Next l" using records_ok_ge [OF r(9)] r(8) by simp
  ultimately show ?thesis by simp
qed

lemma from_off_filter: "records_ok lo rs \<Longrightarrow> from_off off rs = filter (\<lambda>x. off \<le> fst x) rs"
proof (induction rs arbitrary: lo)
  case (Cons x rs)
  show ?case
  proof (cases "fst x < off")
    case True
    then show ?thesis using Cons by (cases x) (auto simp: from_off_def)
  next
    case False
    have "off \<le> fst y" if "y \<in> set rs" for y
      using records_ok_range [of "fst x + 1" rs y] Cons.prems that False word_less_succ [of "fst x"] by (cases x) auto
    then show ?thesis using False by (simp add: from_off_def not_less filter_id_conv)
  qed
qed (simp add: from_off_def)

lemma crash_is_log:
  assumes "is_log f l es n" "openable cfg"
  obtains l' rec f' where "log_Open sim_ops cfg (sim_Crash f) = (Inr (l', rec), f')" "is_log f' l' (take n es) n"
    "R_Corrupt rec = None" "R_Next rec = log_Next l'" "l_cfg l' = Config_withDefaults cfg" "l_commits l' = None"
    "\<And>N. N \<inter> segment_names = {} \<Longrightarrow> same_files N (disk_crash (abs_sim f)) (abs_sim f')"
    "n = length es \<Longrightarrow> log_Next l' = log_Next l" "log_First l' = log_First l"
proof -
  obtain pre b rs k where i: "wf_sim f" "log_inv (abs_sim f) l pre b rs k" "es = flat (pre @ [(b, rs)])" "n = length (flat pre) + k"
    by (rule is_logE [OF assms(1)])
  note c = sim_Crash_refines [OF i(1)]
  obtain l' rec f' where o: "log_Open sim_ops cfg (sim_Crash f) = (Inr (l', rec), f')" "wf_sim f'"
    "log_inv (abs_sim f') l' pre b (take k rs) k" "R_Corrupt rec = None" "R_Next rec = log_Next l'"
    "l_cfg l' = Config_withDefaults cfg" "l_commits l' = None"
    "\<And>N. N \<inter> segment_names = {} \<Longrightarrow> same_files N (abs_sim (sim_Crash f)) (abs_sim f')"
    by (rule sim.log_crash_Open [OF i(2) c(2) c(1) assms(2)]) blast
  have rep: "log_rep (abs_sim f) l pre b rs" "log_rep (abs_sim f') l' pre b (take k rs)"
    using i(2) o(3) by (simp_all add: log_inv_def)
  have "log_Next l' = log_Next l" if "n = length es"
    using log_repD(8) [OF rep(1)] log_repD(8) [OF rep(2)] that i(3,4) by simp
  moreover have "log_First l' = log_First l"
    using log_repD(1) [OF rep(1)] log_repD(1) [OF rep(2)] by (simp add: log_First_def)
  moreover have "is_log f' l' (take n es) n" using is_logI [OF o(2,3)] i(3,4) by simp
  ultimately show thesis using that [OF o(1) _ o(4-7) o(8) [unfolded c(1)]] by blast
qed

lemma is_log_same:
  assumes "is_log f l es n" "wf_sim f'" "same_files segment_names (abs_sim f) (abs_sim f')"
  shows "is_log f' l es n"
  using assms log_inv_same unfolding is_log_def by blast

lemma is_log_synced_names:
  assumes "is_log f l es n" "nm \<in> segment_names"
  shows "d_sdir (abs_sim f) nm = d_dir (abs_sim f) nm"
  using assms unfolding is_log_def log_inv_def log_durable_def by blast

lemma consume_is_log:
  assumes "is_log f l es n" "log_Reader from l = Inr r"
  obtains r' l' f' where "consume sim_ops m r l f = Some (take m (from_off from es), r', l', f')" "is_log f' l' es n"
proof -
  obtain pre b rs k where i: "wf_sim f" "log_inv (abs_sim f) l pre b rs k" "es = flat (pre @ [(b, rs)])" "n = length (flat pre) + k"
    by (rule is_logE [OF assms(1)])
  have "log_rep (abs_sim f) l pre b rs" using i(2) by (simp add: log_inv_def)
  note r = log_Reader_ok [OF this assms(2)]
  obtain r' l' f' where c: "consume sim_ops m r l f = Some (take m (from_off from es), r', l', f')" "wf_sim f'"
    "log_inv (abs_sim f') l' pre b rs k"
    using sim.consume_ok [OF i(1,2) r(1), of m] r(2) i(3) by auto
  show thesis using that [OF c(1)] is_logI [OF c(2,3)] i(3,4) by simp
qed

text \<open>The entry a reader of one key ends on.\<close>

definition latest :: "string \<Rightarrow> entry list \<Rightarrow> entry option" where
  "latest key es = find (\<lambda>x. e_Key (snd x) = key) (rev es)"

lemma latest_append: "latest key (xs @ ys) = (case latest key ys of None \<Rightarrow> latest key xs | Some x \<Rightarrow> Some x)"
  by (induction ys rule: rev_induct) (auto simp: latest_def)

lemma latest_newest:
  assumes "records_ok lo rs"
  shows "latest key (newest_per_key rs) = latest key rs"
  using assms
proof (induction rs rule: rev_induct)
  case Nil
  then show ?case by (simp add: newest_per_key_def)
next
  case (snoc r rs)
  then have ok: "records_ok lo rs" "end_off lo rs \<le> fst r" by (auto simp: records_ok_append)
  then have lt: "fst x < fst r" if "x \<in> set rs" for x using records_ok_range [OF ok(1) that] by auto
  then have split: "newest_per_key (rs @ [r]) = filter (\<lambda>x. e_Key (snd x) \<noteq> e_Key (snd r)) (newest_per_key rs) @ [r]"
    by (force simp: newest_per_key_def list_all_iff filter_filter intro!: filter_cong dest: less_imp_le)
  have "latest key (filter (\<lambda>x. e_Key (snd x) \<noteq> e_Key (snd r)) xs) = latest key xs" if "e_Key (snd r) \<noteq> key" for xs
    using that by (induction xs rule: rev_induct) (auto simp: latest_def)
  then show ?case using snoc.IH [OF ok(1)] by (auto simp: split latest_append) (simp_all add: latest_def)
qed

lemma newest_subseq: "subseq (newest_per_key rs) rs"
  by (simp add: newest_per_key_def subseq_filter_left)

lemma latest_flat_map:
  assumes "\<And>c. c \<in> set cs \<Longrightarrow> latest key (g c) = latest key (snd c)"
  shows "latest key (flat (map (\<lambda>c. (fst c, g c)) cs)) = latest key (flat cs)"
  using assms by (induction cs) (simp_all add: latest_append split: option.split)

lemma subseq_flat_map:
  assumes "\<And>c. c \<in> set cs \<Longrightarrow> subseq (g c) (snd c)"
  shows "subseq (flat (map (\<lambda>c. (fst c, g c)) cs)) (flat cs)"
  using assms by (induction cs) (simp_all add: list_emb_append_mono)

lemma compact_is_log:
  assumes "is_log f l es n"
  obtains cps l' f' es' n' where "log_CompactAll sim_ops l f = ((cps, None), l', f')" "is_log f' l' es' n'" "subseq es' es"
    "\<And>key. latest key es' = latest key es" "length es' - n' = length es - n" "log_Next l' = log_Next l"
proof -
  obtain pre b rs k where i: "wf_sim f" "log_inv (abs_sim f) l pre b rs k" "es = flat (pre @ [(b, rs)])" "n = length (flat pre) + k"
    by (rule is_logE [OF assms])
  have "pieces_ok (pre @ [(b, rs)])" using i(2) log_repD(2) by (auto simp: log_inv_def)
  then have ok: "records_ok (fst c) (snd c)" if "c \<in> set pre" for c
    using that chain_piece [of 0 "pre @ [(b, rs)]" c] by (simp add: pieces_ok_def)
  let ?pre = "map (\<lambda>c. (fst c, newest_per_key (snd c))) pre"
  obtain cps l' f' where c: "log_CompactAll sim_ops l f = ((cps, None), l', f')" "wf_sim f'"
    "log_inv (abs_sim f') l' ?pre b rs k" "log_Next l' = log_Next l"
    by (rule sim.log_CompactAll_ok [OF i(1,2)]) blast
  show thesis
  proof (rule that [OF c(1) is_logI [OF c(2,3)] _ _ _ c(4)])
    show "subseq (flat (?pre @ [(b, rs)])) es"
      using subseq_flat_map [of pre "\<lambda>c. newest_per_key (snd c)"] newest_subseq i(3) by simp
    show "latest key (flat (?pre @ [(b, rs)])) = latest key es" for key
      using latest_flat_map [of pre key "\<lambda>c. newest_per_key (snd c)"] latest_newest [OF ok] i(3)
      by (simp add: latest_append split: option.split)
  qed (use i(3,4) in simp)
qed

definition sync_config :: "simfs Config" where
  "sync_config = \<lparr>c_Segment = \<lparr>o_MaxBytes = 0, o_IndexInterval = 0\<rparr>, c_Durability = Sync, c_SyncRecords = 0,
     c_SyncInterval = 0, c_Clock = None\<rparr>"

lemma openable_sync_config [simp]: "openable sync_config"
  by (simp add: openable_def sync_config_def)

lemma fresh_log:
  obtains l f where "log_Open sim_ops sync_config sim_NewFS = (Inr (l, zero_Recovery), f)" "is_log (f :: simfs) l [] 0"
    "log_Next l = 0" "log_First l = 0" "c_Durability (l_cfg l) = Sync" "c_Clock (l_cfg l) = None" "l_commits l = None"
    "\<And>nm. nm \<notin> segment_names \<Longrightarrow> d_dir (abs_sim f) nm = None \<and> d_sdir (abs_sim f) nm = None"
proof -
  have none: "d_dir (abs_sim (sim_NewFS :: simfs)) nm = None" for nm by (simp add: sim_NewFS_def)
  obtain l f where o: "log_Open sim_ops sync_config sim_NewFS = (Inr (l, zero_Recovery), f)" "wf_sim f"
    "log_inv (abs_sim f) l [] 0 [] 0" "l_cfg l = Config_withDefaults sync_config" "l_commits l = None"
    "\<And>nm. nm \<notin> segment_names \<Longrightarrow> d_dir (abs_sim f) nm = d_dir (abs_sim (sim_NewFS :: simfs)) nm \<and>
       d_sdir (abs_sim f) nm = d_dir (abs_sim (sim_NewFS :: simfs)) nm"
    by (rule sim.log_Open_fresh [OF wf_sim_NewFS none openable_sync_config]) blast
  have rep: "log_rep (abs_sim f) l [] 0 []" using o(3) by (simp add: log_inv_def)
  have "log_Next l = 0" using log_repD(8) [OF rep] by simp
  moreover have "log_First l = 0" using log_repD(1) [OF rep] by (simp add: log_First_def)
  moreover have "c_Durability (l_cfg l) = Sync" "c_Clock (l_cfg l) = None" using o(4) by (simp_all add: sync_config_def)
  moreover have "is_log f l [] 0" using is_logI [OF o(2,3)] by simp
  ultimately show thesis using that [OF o(1) _ _ _ _ _ o(5)] o(6) none by simp
qed

lemma sample_log:
  obtains l f where "is_log (f :: simfs) l [(0, sample_event)] 1" "log_Next l = 1" "c_Durability (l_cfg l) = Sync"
    "log_First l = 0"
proof -
  obtain l and f :: simfs where o: "is_log f l [] 0" "log_Next l = 0" "c_Durability (l_cfg l) = Sync"
    by (rule fresh_log) blast
  have lt: "unat (log_Next l) + length [sample_event] < 2 ^ 64" by (simp add: o(2))
  obtain l' and f' :: simfs where a: "is_log f' l' [(0, sample_event)] 1" "log_Next l' = 1" "c_Durability (l_cfg l') = Sync"
    by (rule append_is_log [OF o(1) lt]) (use o in auto)
  have "log_First l' \<le> 0" using is_log_first [OF a(1), of "(0, sample_event)"] by simp
  then show thesis using that a by simp
qed

end
