(* ===== verification/Log_Machine.thy ===== *)
theory Log_Machine
  imports Log_Store
begin

text \<open>
  The log as a state machine. The detailed machine takes one call of the log at a time over the
  simulated filesystem, a power cut followed by a new start among them; the abstract machine
  is a list of entries with a durable prefix. Every step of the first is a step of the
  second, and what the second keeps, whatever the order of calls, the first keeps.
\<close>

datatype store_op = OpAppend "event list" | OpSync | OpRead Offset | OpCompactAll | OpCrash

section \<open>The two machines\<close>

inductive log_step :: "simfs Config \<Rightarrow> store_op \<Rightarrow> simfs Log \<times> simfs \<Rightarrow> simfs Log \<times> simfs \<Rightarrow> bool" for cfg where
  step_append: "\<lbrakk>unat (log_Next l) + length xs < 2 ^ 64; log_Append sim_ops xs l f = (r, l', f')\<rbrakk> \<Longrightarrow>
     log_step cfg (OpAppend xs) (l, f) (l', f')"
| step_sync: "log_Sync sim_ops l f = (r, l', f') \<Longrightarrow> log_step cfg OpSync (l, f) (l', f')"
| step_read: "log_Read sim_ops off l f = (r, l', f') \<Longrightarrow> log_step cfg (OpRead off) (l, f) (l', f')"
| step_compact: "log_CompactAll sim_ops l f = (r, l', f') \<Longrightarrow> log_step cfg OpCompactAll (l, f) (l', f')"
| step_crash: "log_Open sim_ops cfg (sim_Crash f) = (Inr (l', rec), f') \<Longrightarrow> log_step cfg OpCrash (l, f) (l', f')"

inductive_cases log_stepE:
  "log_step cfg (OpAppend xs) s t" "log_step cfg OpSync s t" "log_step cfg (OpRead off) s t"
  "log_step cfg OpCompactAll s t" "log_step cfg OpCrash s t"

text \<open>The abstract state: the entries and how many of them are durable.\<close>

inductive spec_step :: "store_op \<Rightarrow> entry list \<times> nat \<Rightarrow> entry list \<times> nat \<Rightarrow> bool" where
  spec_append: "\<lbrakk>end_off 0 es \<le> nx; n \<le> n'; n' \<le> length es + length (takeWhile framable xs)\<rbrakk> \<Longrightarrow>
     spec_step (OpAppend xs) (es, n) (es @ number nx (takeWhile framable xs), n')"
| spec_sync: "spec_step OpSync (es, n) (es, length es)"
| spec_read: "spec_step (OpRead off) (es, n) (es, n)"
| spec_compact: "\<lbrakk>subseq es' es; \<And>key. latest key es' = latest key es; length es' - n' = length es - n\<rbrakk> \<Longrightarrow>
     spec_step OpCompactAll (es, n) (es', n')"
| spec_crash: "spec_step OpCrash (es, n) (take n es, n)"

lemma log_step_refines:
  assumes "log_step cfg op (l, f) (l', f')" "is_log f l es n" "openable cfg"
  shows "\<exists>es' n'. spec_step op (es, n) (es', n') \<and> is_log f' l' es' n'"
  using assms(1)
proof cases
  case (step_append xs r)
  show ?thesis
  proof (rule append_is_log [OF assms(2) step_append(2)])
    fix err l'' f'' n'
    assume a: "log_Append sim_ops xs l f = ((offsets_from (log_Next l) (length (takeWhile framable xs)), err), l'', f'')"
      "is_log f'' l'' (es @ number (log_Next l) (takeWhile framable xs)) n'" "n \<le> n'"
    have "n' \<le> length es + length (takeWhile framable xs)" using is_log_durable_le [OF a(2)] by simp
    then show ?thesis using a step_append spec_append [OF is_log_next(2) [OF assms(2)] a(3)] by auto
  qed
next
  case (step_sync r)
  obtain l'' f'' where "log_Sync sim_ops l f = (None, l'', f'')" "is_log f'' l'' es (length es)"
    by (rule sync_is_log [OF assms(2)]) blast
  then show ?thesis using step_sync spec_sync by auto
next
  case (step_read off r)
  obtain res l'' f'' where "log_Read sim_ops off l f = (res, l'', f'')" "is_log f'' l'' es n"
    by (rule read_is_log [OF assms(2)]) blast
  then show ?thesis using step_read spec_read [of off es n] by auto
next
  case (step_compact r)
  obtain cps l'' f'' es' n' where c: "log_CompactAll sim_ops l f = ((cps, None), l'', f'')" "is_log f'' l'' es' n'"
    "subseq es' es" "\<And>key. latest key es' = latest key es" "length es' - n' = length es - n"
    by (rule compact_is_log [OF assms(2)]) blast
  show ?thesis using step_compact c(1,2) spec_compact [OF c(3,4,5)] by auto
next
  case (step_crash rec)
  obtain l'' rec' f'' where "log_Open sim_ops cfg (sim_Crash f) = (Inr (l'', rec'), f'')" "is_log f'' l'' (take n es) n"
    by (rule crash_is_log [OF assms(2,3)]) blast
  then show ?thesis using step_crash spec_crash by auto
qed

section \<open>Any order of calls\<close>

inductive log_trace :: "simfs Config \<Rightarrow> store_op list \<Rightarrow> simfs Log \<times> simfs \<Rightarrow> simfs Log \<times> simfs \<Rightarrow> bool" for cfg where
  trace_nil: "log_trace cfg [] s s"
| trace_cons: "\<lbrakk>log_step cfg op s s'; log_trace cfg ops s' s''\<rbrakk> \<Longrightarrow> log_trace cfg (op # ops) s s''"

inductive spec_trace :: "store_op list \<Rightarrow> entry list \<times> nat \<Rightarrow> entry list \<times> nat \<Rightarrow> bool" where
  spec_nil: "spec_trace [] a a"
| spec_cons: "\<lbrakk>spec_step op a a'; spec_trace ops a' a''\<rbrakk> \<Longrightarrow> spec_trace (op # ops) a a''"

lemma log_trace_refines:
  assumes "log_trace cfg ops s s'" "is_log (snd s) (fst s) es n" "openable cfg"
  shows "\<exists>es' n'. spec_trace ops (es, n) (es', n') \<and> is_log (snd s') (fst s') es' n'"
  using assms
proof (induction arbitrary: es n)
  case (trace_nil s)
  then show ?case by (blast intro: spec_nil)
next
  case (trace_cons op s s' ops s'')
  obtain es' n' where "spec_step op (es, n) (es', n')" "is_log (snd s') (fst s') es' n'"
    using log_step_refines [of cfg op "fst s" "snd s" "fst s'" "snd s'" es n] trace_cons.hyps(1) trace_cons.prems by auto
  then show ?case using trace_cons.IH trace_cons.prems(2) spec_cons by blast
qed

text \<open>Without compaction, what was durable stays, at its place; the durable part only grows.\<close>

lemma spec_step_durable:
  assumes "spec_step op (es, n) (es', n')" "op \<noteq> OpCompactAll" "n \<le> length es"
  shows "take n es' = take n es" "n \<le> n'" "n' \<le> length es'"
  using assms by (auto elim!: spec_step.cases)

lemma spec_trace_durable:
  assumes "spec_trace ops a a'" "OpCompactAll \<notin> set ops" "snd a \<le> length (fst a)"
  shows "take (snd a) (fst a') = take (snd a) (fst a) \<and> snd a \<le> snd a' \<and> snd a' \<le> length (fst a')"
  using assms
proof (induction)
  case (spec_cons op a a' ops a'')
  have s: "take (snd a) (fst a') = take (snd a) (fst a)" "snd a \<le> snd a'" "snd a' \<le> length (fst a')"
    using spec_step_durable [of op "fst a" "snd a" "fst a'" "snd a'"] spec_cons by auto
  then have t: "take (snd a') (fst a'') = take (snd a') (fst a')" "snd a' \<le> snd a''" "snd a'' \<le> length (fst a'')"
    using spec_cons by auto
  have "take (snd a) (fst a'') = take (snd a) (take (snd a') (fst a''))" using s(2) by (simp add: min_def)
  also have "\<dots> = take (snd a) (fst a')" using s(2) by (simp add: t(1) min_def)
  finally show ?case using s t by simp
qed simp

end
