(* ===== verification/Log_Crash.thy ===== *)
theory Log_Crash
  imports Log_Machine
begin

text \<open>
  The power can fail at any operation of the filesystem, and an operation can fail without it.
  Every call of the log is followed here whatever the operations below it return: a call that
  returns no error has done what it says, and a call that returns one, wherever it stopped,
  leaves on the disk a log that opens to what was durable before it and part of what it was
  asked to add.
\<close>

section \<open>What a call may leave\<close>

text \<open>A log that opens to these entries, or a directory with no segment, which opens empty.\<close>

definition leaves :: "(string \<Rightarrow> bytes option) \<Rightarrow> entry list \<Rightarrow> bool" where
  "leaves m es \<longleftrightarrow> (\<exists>pre b rs. recovers m pre b rs \<and> es = flat (pre @ [(b, rs)]))"

text \<open>At least the first \<open>n\<close> of the entries, nothing but a prefix of them, and the log ends by \<open>nx\<close>.\<close>

definition leaves_from :: "(string \<Rightarrow> bytes option) \<Rightarrow> entry list \<Rightarrow> nat \<Rightarrow> Offset \<Rightarrow> bool" where
  "leaves_from m es n nx \<longleftrightarrow>
     (\<exists>j pre b rs. n \<le> j \<and> j \<le> length es \<and> recovers m pre b rs \<and> take j es = flat (pre @ [(b, rs)]) \<and> end_off b rs \<le> nx)"

lemma leaves_from_leaves: "leaves_from m es n nx \<Longrightarrow> \<exists>j. n \<le> j \<and> j \<le> length es \<and> leaves m (take j es)"
  unfolding leaves_from_def leaves_def by metis

lemma recovers_leaves: "recovers m pre b rs \<Longrightarrow> leaves m (flat pre @ rs)"
  unfolding leaves_def by force

lemma log_inv_leaves:
  assumes "log_inv d l pre b rs k"
  shows "leaves (survived d) (take (length (flat pre) + k) (flat (pre @ [(b, rs)])))"
  using recovers_leaves [OF log_inv_recovers [OF assms]] by simp

lemma end_off_take: "records_ok b rs \<Longrightarrow> end_off b (take k rs) \<le> end_off b rs"
  using records_ok_append [of b "take k rs" "drop k rs"] end_off_append [of b "take k rs" "drop k rs"]
    records_ok_ge [of "end_off b (take k rs)" "drop k rs"] by simp

lemma log_inv_leaves_from:
  assumes "log_inv d l pre b rs k" "n \<le> length (flat pre) + k" "log_Next l \<le> nx"
  shows "leaves_from (survived d) (flat (pre @ [(b, rs)]) @ ys) n nx"
proof -
  have k: "k \<le> length rs" and rep: "log_rep d l pre b rs" using assms(1) by (simp_all add: log_inv_def log_durable_def)
  have "take (length (flat pre) + k) (flat (pre @ [(b, rs)]) @ ys) = flat (pre @ [(b, take k rs)])" using k by simp
  moreover have "length (flat pre) + k \<le> length (flat (pre @ [(b, rs)]) @ ys)" using k by simp
  moreover have "end_off b (take k rs) \<le> nx"
    using end_off_take [OF log_repD(9) [OF rep], of k] log_repD(8) [OF rep] assms(3) by simp
  ultimately show ?thesis using log_inv_recovers [OF assms(1)] assms(2) unfolding leaves_from_def by metis
qed

lemma leaves_from_mono: "leaves_from m es n nx \<Longrightarrow> n' \<le> n \<Longrightarrow> leaves_from m es n' nx"
  unfolding leaves_from_def by (meson order_trans)

lemma leaves_from_later: "leaves_from m es n nx \<Longrightarrow> nx \<le> nx' \<Longrightarrow> leaves_from m es n nx'"
  unfolding leaves_from_def by (meson order_trans)

lemma leaves_from_append:
  assumes "leaves_from m xs n nx"
  shows "leaves_from m (xs @ ys) n nx"
proof -
  obtain j pre b rs where "n \<le> j" "j \<le> length xs" "recovers m pre b rs" "take j xs = flat (pre @ [(b, rs)])" "end_off b rs \<le> nx"
    using assms unfolding leaves_from_def by blast
  then show ?thesis unfolding leaves_from_def by (intro exI [of _ j] exI [of _ pre] exI [of _ b] exI [of _ rs]) simp
qed

section \<open>Segments\<close>

lemma seg_AppendAll_sealed:
  assumes "seg_AppendAll F es s st = ((n, first, err), s', st')" "\<not> s_sealed s" "s_sealed s'"
  shows "n = 0 \<and> err \<noteq> None \<and> (\<exists>p q. file_Append F (s_file s) p st = (q, st'))"
  using assms by (auto simp: seg_AppendAll_def Let_def split: prod.splits option.splits if_splits)

lemma log_inv_opened:
  assumes "log_inv d l pre b rs k" "log_rep d' l' pre b rs" "d' = d\<lparr>d_node := d_node d'\<rparr>"
  shows "log_inv d' l' pre b rs k"
  using assms(1,2) by (simp add: log_inv_def) (subst assms(3), simp add: log_durable_def)

text \<open>A segment was created, and its name made durable.\<close>

definition created :: "'s Config \<Rightarrow> Offset \<Rightarrow> disk \<Rightarrow> segment \<Rightarrow> disk \<Rightarrow> bool" where
  "created cfg base d s d' \<longleftrightarrow>
     (\<exists>h i. s = fresh_segment h (segmentName base) (Options_withDefaults (c_Segment cfg)) base \<and>
        fresh_inode i d \<and> d_node d h = None \<and> d_dir d (segmentName base) = None \<and>
        d' = disk_syncdir (disk_create (segmentName base) h i d))"

context crash_filesystem
begin

lemma seg_Sync_cases:
  assumes "wf st" "d_node (abs st) (s_file s) = Some i" "seg_Sync F s st = (e, st')"
  shows "wf st'" "e = None \<Longrightarrow> abs st' = disk_sync i (abs st)" "e \<noteq> None \<Longrightarrow> survived (abs st') = survived (abs st)"
  using assms Sync_law [OF assms(1,2)] Sync_failed [OF assms(1)]
  by (auto simp: seg_Sync_def split: prod.splits option.splits)

lemma seg_Close_cases:
  assumes "wf st" "seg_Close F s st = (e, st')"
  shows "wf st'" "survived (abs st') = survived (abs st)" "abs st' = abs st \<or> abs st' = disk_close (s_file s) (abs st)"
proof -
  obtain e' where "file_Close F (s_file s) st = (e', st')"
    using assms(2) by (auto simp: seg_Close_def split: prod.splits option.splits)
  note c = Close_quiet [OF assms(1) this]
  then show "wf st'" "abs st' = abs st \<or> abs st' = disk_close (s_file s) (abs st)" by simp_all
  then show "survived (abs st') = survived (abs st)" by auto
qed

lemma createSegment_cases:
  assumes "wf st" "createSegment F cfg base st = (r, st')"
  shows "wf st'" "r = Inl x \<Longrightarrow> survived (abs st') = survived (abs st)" "r = Inr s \<Longrightarrow> created cfg base (abs st) s (abs st')"
proof -
  obtain c st1 where c: "fs_Create F (segmentName base) st = (c, st1)" by (metis surj_pair)
  note q1 = Create_quiet [OF assms(1) c]
  have "wf st' \<and> (r = Inl x \<longrightarrow> survived (abs st') = survived (abs st)) \<and> (r = Inr s \<longrightarrow> created cfg base (abs st) s (abs st'))"
  proof (cases c)
    case (Inl e)
    then have "createSegment F cfg base st = (Inl (Errorf ''log: create segment %s: %w'' [e]), st1)"
      using c by (simp add: createSegment_def newSegment_def createNamed_def)
    then show ?thesis using assms(2) q1 by auto
  next
    case (Inr h)
    let ?s = "fresh_segment h (segmentName base) (Options_withDefaults (c_Segment cfg)) base"
    note l = Create_law [OF assms(1) c [unfolded Inr]]
    obtain e st2 where y: "fs_Sync F st1 = (e, st2)" by (metis surj_pair)
    have cs: "createSegment F cfg base st = (case e of
        Some err \<Rightarrow> (Inl (Errorf ''log: sync the directory after creating %s: %w'' [err]), snd (seg_Close F ?s st2))
      | None \<Rightarrow> (Inr ?s, st2))"
      using c Inr y by (simp add: createSegment_def newSegment_def createNamed_def Let_def split: option.split)
    show ?thesis
    proof (cases e)
      case (Some err)
      have y2: "wf st2 \<and> survived (abs st2) = survived (abs st1)" using SyncDir_failed y q1 Some by blast
      obtain e' st3 where "seg_Close F ?s st2 = (e', st3)" by (metis surj_pair)
      with seg_Close_cases [of st2 ?s e' st3] y2 q1 cs assms(2) Some show ?thesis by auto
    next
      case None
      then have "wf st2 \<and> abs st2 = disk_syncdir (abs st1)" using SyncDir_law y q1 by blast
      with l have "wf st2" "created cfg base (abs st) ?s (abs st2)" unfolding created_def by metis+
      with cs assms(2) None show ?thesis by auto
    qed
  qed
  then show "wf st'" "r = Inl x \<Longrightarrow> survived (abs st') = survived (abs st)" "r = Inr s \<Longrightarrow> created cfg base (abs st) s (abs st')"
    by blast+
qed

section \<open>Syncing and rolling\<close>

lemma log_Sync_cases:
  assumes "wf st" "log_inv (abs st) l pre b rs k" "log_Sync F l st = (e, l', st')"
  shows "wf st'" "e \<noteq> None \<Longrightarrow> survived (abs st') = survived (abs st)"
    "e = None \<Longrightarrow> log_inv (abs st') l' pre b rs (length rs)" "l_cfg l' = l_cfg l" "active l' = active l"
proof -
  obtain i where i: "d_node (abs st) (s_file (active l)) = Some i"
    using assms(2) log_repD(4) by (fastforce simp: log_inv_def held_def seg_rep_def)
  obtain e' st1 where s: "seg_Sync F (active l) st = (e', st1)" by (metis surj_pair)
  note c = seg_Sync_cases [OF assms(1) i s]
  have st: "st' = st1" "(e = None) = (e' = None)"
    using assms(3) s by (auto simp: log_Sync_def split: option.splits)
  show "wf st'" "e \<noteq> None \<Longrightarrow> survived (abs st') = survived (abs st)" using c st by simp_all
  show "l_cfg l' = l_cfg l" "active l' = active l"
    using assms(3) s by (auto simp: log_Sync_def Let_def split: option.splits)
  assume "e = None"
  then have "e' = None" "abs st' = disk_sync i (abs st)" using c(2) st by simp_all
  moreover have "log_inv (disk_sync i (abs st)) l pre b rs (length rs)"
    by (rule log_inv_sync [OF assms(2) Dir_law [OF assms(1)] i])
  ultimately show "log_inv (abs st') l' pre b rs (length rs)"
    using assms(3) s by (auto simp: log_Sync_def log_inv_def Let_def split: option.splits)
qed

lemma maybeSync_cases:
  assumes "wf st" "log_inv (abs st) l pre b rs k" "maybeSync F l st = (e, l', st')"
  shows "wf st'" "e \<noteq> None \<Longrightarrow> survived (abs st') = survived (abs st)"
    "e = None \<Longrightarrow> \<exists>k'\<ge>k. log_inv (abs st') l' pre b rs k' \<and> (c_Durability (l_cfg l) = Sync \<longrightarrow> k' = length rs)"
    "l_cfg l' = l_cfg l" "log_Next l' = log_Next l"
proof -
  have k: "k \<le> length rs" using assms(2) by (simp add: log_inv_def log_durable_def)
  have "maybeSync F l st = log_Sync F l st \<or> maybeSync F l st = (None, l, st) \<and> c_Durability (l_cfg l) \<noteq> Sync"
    by (simp add: maybeSync_def split: Durability.split option.split)
  then consider "log_Sync F l st = (e, l', st')" | "e = None" "l' = l" "st' = st" "c_Durability (l_cfg l) \<noteq> Sync"
    using assms(3) by auto
  then have "wf st' \<and> (e \<noteq> None \<longrightarrow> survived (abs st') = survived (abs st)) \<and>
    (e = None \<longrightarrow> (\<exists>k'\<ge>k. log_inv (abs st') l' pre b rs k' \<and> (c_Durability (l_cfg l) = Sync \<longrightarrow> k' = length rs))) \<and>
    l_cfg l' = l_cfg l \<and> log_Next l' = log_Next l"
  proof cases
    case 1
    from log_Sync_cases [OF assms(1,2) 1] k show ?thesis by (auto simp: log_Next_def)
  next
    case 2
    then show ?thesis using assms(1,2) by auto
  qed
  then show "wf st'" "e \<noteq> None \<Longrightarrow> survived (abs st') = survived (abs st)"
    "e = None \<Longrightarrow> \<exists>k'\<ge>k. log_inv (abs st') l' pre b rs k' \<and> (c_Durability (l_cfg l) = Sync \<longrightarrow> k' = length rs)"
    "l_cfg l' = l_cfg l" "log_Next l' = log_Next l" by blast+
qed


lemma log_roll_cases:
  assumes "wf st" "log_inv (abs st) l pre b rs k" "rs \<noteq> []" "log_roll F l st = (e, l', st')"
  shows "wf st'" "e \<noteq> None \<Longrightarrow> leaves_from (survived (abs st')) (flat (pre @ [(b, rs)])) (length (flat pre) + k) (log_Next l)"
    "e = None \<Longrightarrow> log_inv (abs st') l' (pre @ [(b, rs)]) (log_Next l) [] 0 \<and> log_Next l' = log_Next l \<and> l_cfg l' = l_cfg l"
proof -
  let ?n = "log_Next l"
  have rep: "log_rep (abs st) l pre b rs" and k: "k \<le> length rs" using assms(2) by (simp_all add: log_inv_def log_durable_def)
  note r = log_repD [OF rep]
  obtain i where i: "d_node (abs st) (s_file (active l)) = Some i" "d_dir (abs st) (segmentName b) = Some i"
    using r(4) by (auto simp: held_def seg_rep_def)
  obtain e1 st1 where s: "seg_Sync F (active l) st = (e1, st1)" by (metis surj_pair)
  note c1 = seg_Sync_cases [OF assms(1) i(1) s]
  have nx: "s_next (active (set_active (seg_Seal (active l)) l)) = ?n"
    using r(7) by (simp add: log_Next_def seg_Seal_def)
  obtain r2 st2 where c: "createSegment F (l_cfg l) ?n st1 = (r2, st2)" by (metis surj_pair)
  note c2 = createSegment_cases [OF c1(1) c]
  have inv: "log_inv (abs st1) l pre b rs (length rs)" if "e1 = None"
    unfolding c1(2) [OF that] by (rule log_inv_sync [OF assms(2) Dir_law [OF assms(1)] i(1)])
  have "wf st' \<and> (e \<noteq> None \<longrightarrow> leaves_from (survived (abs st')) (flat (pre @ [(b, rs)])) (length (flat pre) + k) (log_Next l)) \<and>
    (e = None \<longrightarrow> log_inv (abs st') l' (pre @ [(b, rs)]) ?n [] 0 \<and> log_Next l' = ?n \<and> l_cfg l' = l_cfg l)"
  proof (cases e1)
    case (Some x)
    then have "e = Some x" "st' = st1" using assms(4) s by (simp_all add: log_roll_def)
    then show ?thesis using Some c1(1,3) log_inv_leaves_from [OF assms(2), of "length (flat pre) + k" "log_Next l" "[]"] by simp
  next
    case None
    note inv = inv [OF None]
    then have inv': "log_rep (abs st1) l pre b rs" "log_durable (abs st1) pre b rs (length rs)" by (simp_all add: log_inv_def)
    show ?thesis
    proof (cases r2)
      case (Inl x)
      then have "e = Some x" "st' = st2" using assms(4) s c None by (simp_all add: log_roll_def Let_def nx)
      then show ?thesis using c2(1,2) Inl log_inv_leaves_from [OF inv, of "length (flat pre) + k" "log_Next l" "[]"] k by simp
    next
      case (Inr sg)
      obtain h j where cr: "sg = fresh_segment h (segmentName ?n) (Options_withDefaults (c_Segment (l_cfg l))) ?n"
        "fresh_inode j (abs st1)" "d_node (abs st1) h = None" "abs st2 = disk_syncdir (disk_create (segmentName ?n) h j (abs st1))"
        using c2(3) [OF Inr] by (auto simp: created_def)
      have synced: "d_stable (abs st1) j = d_data (abs st1) j" if "d_dir (abs st1) (segmentName b) = Some j" for j
        using that i(2) by (simp add: c1(2) [OF None] disk_sync_def)
      have inv2: "log_inv (abs st2) (rolled sg l) (pre @ [(b, rs)]) ?n [] 0"
        using log_rep_rolled [OF inv'(1) assms(3) cr(2,3) refl] log_durable_rolled [OF inv' assms(3) cr(2,3) synced]
        by (simp add: log_inv_def cr(1,4))
      have res: "e = None" "st' = st2"
        "l' = (case c_Clock (l_cfg l) of None \<Rightarrow> rolled sg l | Some now \<Rightarrow> (rolled sg l)\<lparr>l_lastSync := now st2\<rparr>)"
        using assms(4) s c None Inr unfolding log_roll_def rolled_def by (auto simp: Let_def nx split: option.splits)
      have "log_Next (rolled sg l) = ?n" "l_cfg (rolled sg l) = l_cfg l"
        using r(7) by (simp_all add: log_Next_def rolled_sel cr(1) fresh_segment_def)
      then show ?thesis using inv2 res c2(1) by (auto simp: log_inv_def split: option.split)
    qed
  qed
  then show "wf st'" "e \<noteq> None \<Longrightarrow> leaves_from (survived (abs st')) (flat (pre @ [(b, rs)])) (length (flat pre) + k) (log_Next l)"
    "e = None \<Longrightarrow> log_inv (abs st') l' (pre @ [(b, rs)]) (log_Next l) [] 0 \<and> log_Next l' = log_Next l \<and> l_cfg l' = l_cfg l"
    by blast+
qed


lemma room_cases:
  assumes "wf st" "log_inv (abs st) l pre b rs k"
    and "(if seg_Full (active l) then log_roll F l st else (None, l, st)) = (e, l', st')"
  shows "wf st'" "e \<noteq> None \<Longrightarrow> leaves_from (survived (abs st')) (flat (pre @ [(b, rs)])) (length (flat pre) + k) (log_Next l)"
    "e = None \<Longrightarrow> \<exists>pre' b' rs' k'. log_inv (abs st') l' pre' b' rs' k' \<and> flat (pre' @ [(b', rs')]) = flat (pre @ [(b, rs)]) \<and>
       length (flat pre) + k \<le> length (flat pre') + k' \<and> log_Next l' = log_Next l \<and> l_cfg l' = l_cfg l"
proof (atomize (full), cases "seg_Full (active l)")
  case True
  have rep: "log_rep (abs st) l pre b rs" and k: "k \<le> length rs" using assms(2) by (simp_all add: log_inv_def log_durable_def)
  have ne: "rs \<noteq> []" using True log_repD(4,6) [OF rep] by (auto simp: seg_Full_def held_def seg_rep_def seg_holds_def)
  have roll: "log_roll F l st = (e, l', st')" using assms(3) True by simp
  note c = log_roll_cases [OF assms(1,2) ne roll]
  have "\<exists>pre' b' rs' k'. log_inv (abs st') l' pre' b' rs' k' \<and> flat (pre' @ [(b', rs')]) = flat (pre @ [(b, rs)]) \<and>
       length (flat pre) + k \<le> length (flat pre') + k' \<and> log_Next l' = log_Next l \<and> l_cfg l' = l_cfg l" if "e = None"
    using c(3) [OF that] k
    by (intro exI [of _ "pre @ [(b, rs)]"] exI [of _ "log_Next l"] exI [of _ "[]"] exI [of _ 0]) simp
  with c(1,2) show "wf st' \<and> (e \<noteq> None \<longrightarrow> leaves_from (survived (abs st')) (flat (pre @ [(b, rs)])) (length (flat pre) + k) (log_Next l)) \<and>
    (e = None \<longrightarrow> (\<exists>pre' b' rs' k'. log_inv (abs st') l' pre' b' rs' k' \<and> flat (pre' @ [(b', rs')]) = flat (pre @ [(b, rs)]) \<and>
       length (flat pre) + k \<le> length (flat pre') + k' \<and> log_Next l' = log_Next l \<and> l_cfg l' = l_cfg l))" by blast
next
  case False
  then show "wf st' \<and> (e \<noteq> None \<longrightarrow> leaves_from (survived (abs st')) (flat (pre @ [(b, rs)])) (length (flat pre) + k) (log_Next l)) \<and>
    (e = None \<longrightarrow> (\<exists>pre' b' rs' k'. log_inv (abs st') l' pre' b' rs' k' \<and> flat (pre' @ [(b', rs')]) = flat (pre @ [(b, rs)]) \<and>
       length (flat pre) + k \<le> length (flat pre') + k' \<and> log_Next l' = log_Next l \<and> l_cfg l' = l_cfg l))"
    using assms by auto
qed


section \<open>Appending\<close>

text \<open>
  A batch that was cut off leaves a prefix of the old entries and the new ones, with all that was
  durable; one that was not is all there.
\<close>

lemma append_loop_cases:
  assumes "wf st" "log_inv (abs st) l pre b rs k" "unat (log_Next l) + length es < 2 ^ 64"
    and "append_loop F es offs l st = ((o', err), l', st')"
  shows "wf st' \<and>
    leaves_from (survived (abs st')) (flat (pre @ [(b, rs)]) @ number (log_Next l) es) (length (flat pre) + k) (log_Next l + word_of_nat (length es)) \<and>
    (err = None \<longrightarrow> (\<exists>pre' b' rs' k'. log_inv (abs st') l' pre' b' rs' k' \<and>
       flat (pre' @ [(b', rs')]) = flat (pre @ [(b, rs)]) @ number (log_Next l) es \<and> length (flat pre) + k \<le> length (flat pre') + k' \<and>
       log_Next l' = log_Next l + word_of_nat (length es) \<and> l_cfg l' = l_cfg l))"
  using assms
proof (induction "length es" arbitrary: es offs l st pre b rs k rule: less_induct)
  case less
  show ?case
  proof (cases es)
    case Nil
    then have "err = None" "l' = l" "st' = st" using less.prems(4) by simp_all
    then show ?thesis using less.prems(1,2) Nil log_inv_leaves_from [OF less.prems(2), of "length (flat pre) + k" "log_Next l" "[]"] by auto
  next
    case (Cons e es')
    have later: "log_Next l + word_of_nat m \<le> log_Next l + word_of_nat (length es)" if "m \<le> length es" for m
      using that less.prems(3) by (simp add: word_le_nat_alt unat_word_ariths unat_of_nat take_bit_eq_mod)
    let ?n0 = "length (flat pre) + k" and ?all = "flat (pre @ [(b, rs)]) @ number (log_Next l) es"
      and ?nx = "log_Next l + word_of_nat (length es)"
    obtain e1 l1 st1 where room: "(if seg_Full (active l) then log_roll F l st else (None, l, st)) = (e1, l1, st1)"
      by (metis prod_cases3)
    note roomy = room_cases [OF less.prems(1,2) room]
    show ?thesis
    proof (cases e1)
      case (Some x)
      then have res: "err = Some x" "st' = st1" using less.prems(4) room by (simp_all add: Cons split del: if_split)
      have "leaves_from (survived (abs st1)) ?all ?n0 ?nx"
        using roomy(2) Some leaves_from_append leaves_from_later [OF _ later [of 0]] by fastforce
      then show ?thesis using res roomy(1) by simp
    next
      case None
      obtain pre1 b1 rs1 k1 where inv1: "log_inv (abs st1) l1 pre1 b1 rs1 k1" "flat (pre1 @ [(b1, rs1)]) = flat (pre @ [(b, rs)])"
        "?n0 \<le> length (flat pre1) + k1" "log_Next l1 = log_Next l" "l_cfg l1 = l_cfg l"
        using roomy(3) None by blast
      have rep1: "log_rep (abs st1) l1 pre1 b1 rs1" using inv1(1) by (simp add: log_inv_def)
      note r1 = log_repD [OF rep1]
      obtain i where i: "d_dir (abs st1) (segmentName b1) = Some i" "seg_rep (abs st1) i (active l1) rs1"
        using r1(4) by (auto simp: held_def)
      obtain n first err1 s2 st2 where app: "seg_AppendAll F es (active l1) st1 = ((n, first, err1), s2, st2)"
        by (metis prod_cases3)
      let ?l2 = "(set_active s2 l1)\<lparr>l_sinceSync := l_sinceSync l1 + int n\<rparr>"
        and ?offs = "offs @ map (\<lambda>i. first + word_of_nat i) [0..<n]"
      have step: "append_loop F es offs l st =
          (case err1 of Some err \<Rightarrow> ((?offs, Some err), ?l2, st2)
           | None \<Rightarrow> if n = 0 then ((?offs, Some (Errorf ''log: segment %s accepted no records and reported no error'' [])), ?l2, st2)
                     else append_loop F (drop n es) ?offs ?l2 st2)"
        using app room None by (simp add: Cons Let_def split: option.split split del: if_split cong: if_cong)
      show ?thesis
      proof (cases "s_sealed s2")
        case True
        obtain p q where q: "n = 0" "err1 \<noteq> None" "file_Append F (s_file (active l1)) p st1 = (q, st2)"
          using seg_AppendAll_sealed [OF app r1(5) True] by blast
        then obtain x where res: "err = Some x" "st' = st2" using step less.prems(4) by auto
        have w2: "wf st2" "survived (abs st2) = survived (abs st1)" using Append_quiet [OF roomy(1) q(3)] by simp_all
        have "leaves_from (survived (abs st1)) ?all ?n0 ?nx"
          using log_inv_leaves_from [OF inv1(1,3), of ?nx] later [of 0] inv1(4) unfolding inv1(2) by simp
        then show ?thesis using res w2 by simp
      next
        case False
        have nx: "s_next (active l1) = log_Next l" using inv1(4) by (simp add: log_Next_def)
        have fits: "unat (s_next (active l1)) + length es < 2 ^ 64" using less.prems(3) by (simp add: nx)
        note a = seg_AppendAll_rep [OF roomy(1) i(2) fits app False, unfolded nx]
        let ?rs2 = "rs1 @ number (log_Next l) (take n es)"
        have s2: "s_base s2 = b1" "0 < s_maxBytes s2" using r1(4,6) by (subst a(8), simp add: held_def)+
        have inv2: "log_inv (abs st2) ?l2 pre1 b1 ?rs2 k1"
          using log_inv_append [OF inv1(1) Dir_law [OF roomy(1)] i(1) a(5) a(6) [unfolded a(3)] s2(1) False s2(2)]
          by (simp add: a(3) log_inv_def)
        have nx2: "log_Next ?l2 = log_Next l + word_of_nat n"
          using log_repD(8) [of "abs st2" ?l2 pre1 b1 ?rs2] inv2 r1(8) inv1(4) a(2) by (simp add: log_inv_def)
        have parts: "number (log_Next l) es = number (log_Next l) (take n es) @ number (log_Next l + word_of_nat n) (drop n es)"
          using number_append [of "log_Next l" "take n es" "drop n es"] a(2) by (simp add: min_def)
        have all: "flat (pre1 @ [(b1, ?rs2)]) @ number (log_Next l + word_of_nat n) (drop n es) = ?all"
          using inv1(2) unfolding parts by (simp flip: append_assoc)
        show ?thesis
        proof (cases "err1 = None \<and> n \<noteq> 0")
          case False
          then obtain x where res: "err = Some x" "st' = st2" using step less.prems(4) by (auto split: option.splits if_splits)
          have "leaves_from (survived (abs st2)) ?all ?n0 ?nx" 
            using log_inv_leaves_from [OF inv2 inv1(3), of ?nx "number (log_Next l + word_of_nat n) (drop n es)"] later [OF a(2)]
            unfolding all nx2 by blast
          then show ?thesis using res a(1) by simp
        next
          case True
          have "unat (log_Next l + word_of_nat n) = unat (log_Next l) + n"
            using less.prems(3) a(2) by (simp add: unat_word_ariths unat_of_nat take_bit_eq_mod)
          then have fits2: "unat (log_Next ?l2) + length (drop n es) < 2 ^ 64"
            unfolding nx2 using less.prems(3) a(2) by simp
          have len: "log_Next ?l2 + word_of_nat (length (drop n es)) = log_Next l + word_of_nat (length es)"
            unfolding nx2 using a(2) by (simp add: of_nat_diff)
          have "length (drop n es) < length es" using True Cons by simp
          from less.hyps [OF this a(1) inv2 fits2, unfolded len] step less.prems(4) True
          have ih: "wf st'" "leaves_from (survived (abs st')) ?all (length (flat pre1) + k1) ?nx"
            "err = None \<Longrightarrow> \<exists>pre' b' rs' k'. log_inv (abs st') l' pre' b' rs' k' \<and> flat (pre' @ [(b', rs')]) = ?all \<and>
               length (flat pre1) + k1 \<le> length (flat pre') + k' \<and>
               log_Next l' = ?nx \<and> l_cfg l' = l_cfg ?l2"
            unfolding nx2 all by auto
          have cfg: "l_cfg ?l2 = l_cfg l" using inv1(5) by simp
          have "\<exists>pre' b' rs' k'. log_inv (abs st') l' pre' b' rs' k' \<and> flat (pre' @ [(b', rs')]) = ?all \<and> ?n0 \<le> length (flat pre') + k' \<and>
              log_Next l' = log_Next l + word_of_nat (length es) \<and> l_cfg l' = l_cfg l" if "err = None"
          proof -
            note ih3 = ih(3) [OF that, unfolded cfg]
            obtain pre' b' rs' k' where "log_inv (abs st') l' pre' b' rs' k'" "flat (pre' @ [(b', rs')]) = ?all"
              "length (flat pre1) + k1 \<le> length (flat pre') + k'" "log_Next l' = log_Next l + word_of_nat (length es)" "l_cfg l' = l_cfg l"
              using ih3 by blast
            then show ?thesis using le_trans [OF inv1(3)] by blast
          qed
          then show ?thesis using ih(1,2) inv1(3) leaves_from_mono by blast
        qed
      qed
    qed
  qed
qed

lemma log_Append_cases:
  assumes "wf st" "log_inv (abs st) l pre b rs k" "unat (log_Next l) + length es < 2 ^ 64"
    and "log_Append F es l st = ((offs, err), l', st')"
  shows "wf st'" "leaves_from (survived (abs st')) (flat (pre @ [(b, rs)]) @ number (log_Next l) es) (length (flat pre) + k) (log_Next l + word_of_nat (length es))"
    "err = None \<Longrightarrow> \<exists>pre' b' rs' k'. log_inv (abs st') l' pre' b' rs' k' \<and>
       flat (pre' @ [(b', rs')]) = flat (pre @ [(b, rs)]) @ number (log_Next l) es \<and> length (flat pre) + k \<le> length (flat pre') + k' \<and>
       (c_Durability (l_cfg l) = Sync \<longrightarrow> k = length rs \<or> es \<noteq> [] \<longrightarrow> k' = length rs') \<and>
       log_Next l' = log_Next l + word_of_nat (length es) \<and> l_cfg l' = l_cfg l"
proof (atomize (full), cases "es = []")
  case True
  then have "err = None" "l' = l" "st' = st" using assms(4) by (simp_all add: log_Append_def)
  then show "wf st' \<and> leaves_from (survived (abs st')) (flat (pre @ [(b, rs)]) @ number (log_Next l) es) (length (flat pre) + k) (log_Next l + word_of_nat (length es)) \<and>
    (err = None \<longrightarrow> (\<exists>pre' b' rs' k'. log_inv (abs st') l' pre' b' rs' k' \<and>
       flat (pre' @ [(b', rs')]) = flat (pre @ [(b, rs)]) @ number (log_Next l) es \<and> length (flat pre) + k \<le> length (flat pre') + k' \<and>
       (c_Durability (l_cfg l) = Sync \<longrightarrow> k = length rs \<or> es \<noteq> [] \<longrightarrow> k' = length rs') \<and>
       log_Next l' = log_Next l + word_of_nat (length es) \<and> l_cfg l' = l_cfg l))"
    using assms(1,2) True log_inv_leaves_from [OF assms(2), of "length (flat pre) + k" "log_Next l" "[]"] by auto
next
  case False
  let ?n0 = "length (flat pre) + k" and ?all = "flat (pre @ [(b, rs)]) @ number (log_Next l) es"
      and ?nx = "log_Next l + word_of_nat (length es)"
  obtain o1 e1 l1 st1 where loop: "append_loop F es [] l st = ((o1, e1), l1, st1)" by (metis prod_cases3 surj_pair)
  note a = append_loop_cases [OF assms(1-3) loop]
  show "wf st' \<and> leaves_from (survived (abs st')) ?all ?n0 ?nx \<and>
    (err = None \<longrightarrow> (\<exists>pre' b' rs' k'. log_inv (abs st') l' pre' b' rs' k' \<and> flat (pre' @ [(b', rs')]) = ?all \<and> ?n0 \<le> length (flat pre') + k' \<and>
       (c_Durability (l_cfg l) = Sync \<longrightarrow> k = length rs \<or> es \<noteq> [] \<longrightarrow> k' = length rs') \<and>
       log_Next l' = log_Next l + word_of_nat (length es) \<and> l_cfg l' = l_cfg l))"
  proof (cases e1)
    case (Some x)
    then have "err = Some x" "st' = st1" using assms(4) False loop by (simp_all add: log_Append_def)
    then show ?thesis using a by simp
  next
    case None
    then obtain pre1 b1 rs1 k1 where inv: "log_inv (abs st1) l1 pre1 b1 rs1 k1" "flat (pre1 @ [(b1, rs1)]) = ?all"
      "?n0 \<le> length (flat pre1) + k1" "log_Next l1 = log_Next l + word_of_nat (length es)" "l_cfg l1 = l_cfg l" using a by blast
    have m: "maybeSync F l1 st1 = (err, l', st')" using assms(4) False loop None by (simp add: log_Append_def split: prod.splits)
    have w1: "wf st1" using a by blast
    note c = maybeSync_cases [OF w1 inv(1) m]
    show ?thesis
    proof (cases err)
      case (Some x)
      then show ?thesis using c(1,2) a by simp
    next
      case None
      obtain k' where k': "k1 \<le> k'" "log_inv (abs st') l' pre1 b1 rs1 k'" "c_Durability (l_cfg l1) = Sync \<longrightarrow> k' = length rs1"
        using c(3) [OF None] by blast
      have n0: "?n0 \<le> length (flat pre1) + k'" using inv(3) k'(1) by simp
      have "leaves_from (survived (abs st')) ?all ?n0 ?nx"
        using log_inv_leaves_from [OF k'(2) n0, of ?nx "[]"] inv(4) c(5) unfolding inv(2) by simp
      with c(1,4,5) k'(2,3) n0 inv(2,4,5) show ?thesis by metis
    qed
  qed
qed

section \<open>Reading\<close>

lemma openNamed_quiet:
  assumes "wf st" "openNamed F name base opts trunc st = (r, st')"
  shows "wf st' \<and> survived (abs st') = survived (abs st)"
proof -
  have cl: "wf st2 \<and> survived (abs st2) = survived (abs st1)" if "wf st1" "file_Close F h st1 = (e, st2)" for h e st1 st2
    using Close_quiet [OF that] by auto
  have cl': "wf (snd (file_Close F h st1)) \<and> survived (abs (snd (file_Close F h st1))) = survived (abs st1)" if "wf st1" for h st1
    using cl [OF that] by (metis prod.collapse)
  show ?thesis
    using assms(2) cl'
    by (auto simp: openNamed_def Let_def dest!: Open_quiet [OF assms(1)] split: prod.splits sum.splits option.splits if_splits)
       (metis Truncate_quiet)+
qed

lemma openSealedSegment_quiet:
  assumes "wf st" "openSealedSegment F name opts st = (r, st')"
  shows "wf st' \<and> survived (abs st') = survived (abs st)"
proof -
  obtain r1 st1 where o: "openSegment F name opts False st = (r1, st1)" by (metis surj_pair)
  have q: "wf st1 \<and> survived (abs st1) = survived (abs st)"
    using o openNamed_quiet [OF assms(1)] assms(1) by (auto simp: openSegment_def split: option.splits)
  have cl: "wf (snd (seg_Close F s st1)) \<and> survived (abs (snd (seg_Close F s st1))) = survived (abs st1)" for s
    using seg_Close_cases(1,2) [of st1 s] q by (metis prod.collapse)
  show ?thesis using assms(2) o q cl
    by (auto simp: openSealedSegment_def split: sum.splits option.splits if_splits)
qed

lemma segmentFor_quiet:
  assumes "wf st" "segmentFor F off l st = (r, l', st')"
  shows "wf st' \<and> survived (abs st') = survived (abs st)"
  using assms(2,1) openSealedSegment_quiet [OF assms(1)]
  by (auto simp: segmentFor_def Let_def split: if_splits option.splits prod.splits sum.splits)

lemma log_Read_cases:
  assumes "wf st" "log_inv (abs st) l pre b rs k" "log_Read F off l st = (r, l', st')"
  shows "wf st'" "survived (abs st') = survived (abs st)"
    "r = Inr rec \<Longrightarrow> log_inv (abs st') l' pre b rs k \<and> log_Next l' = log_Next l \<and> l_cfg l' = l_cfg l \<and>
       map_of (flat (pre @ [(b, rs)])) off = Some (r_Event rec) \<and> r_Offset rec = off"
proof -
  obtain q l1 st1 where s: "segmentFor F off l st = (q, l1, st1)" by (metis prod_cases3)
  note qu = segmentFor_quiet [OF assms(1) s]
  have st: "st' = st1" "l' = l1" using assms(3) s by (auto simp: log_Read_def split: sum.splits)
  show "wf st'" "survived (abs st') = survived (abs st)" using qu st by simp_all
  assume r: "r = Inr rec"
  then obtain a where a: "q = Inr a" "seg_Read F (seg_at l1 a) off st1 = Inr rec"
    using assms(3) s by (auto simp: log_Read_def split: sum.splits)
  have rep: "log_rep (abs st) l pre b rs" using assms(2) by (simp add: log_inv_def)
  note f = segmentFor_rep [OF assms(1) rep s [unfolded a(1)]]
  have inv: "log_inv (abs st1) l1 pre b rs k" by (rule log_inv_opened [OF assms(2) f(2,5)])
  obtain c where c: "piece_for off (pre @ [(b, rs)]) c" "held (abs st1) (seg_at l1 a) c" using f(6) by blast
  obtain i where "seg_rep (abs st1) i (seg_at l1 a) (snd c)" using c(2) by (auto simp: held_def)
  note rd = seg_Read_lookup [OF f(1) this, of off]
  have "map_of (flat (pre @ [(b, rs)])) off = Some (r_Event rec) \<and> r_Offset rec = off"
    using rd a(2) unfolding piece_for_lookup [OF log_repD(2) [OF rep] c(1)] by (auto split: option.splits)
  with inv st log_extends_sel(3,9) [OF f(3) log_repD(7) [OF rep]]
  show "log_inv (abs st') l' pre b rs k \<and> log_Next l' = log_Next l \<and> l_cfg l' = l_cfg l \<and>
     map_of (flat (pre @ [(b, rs)])) off = Some (r_Event rec) \<and> r_Offset rec = off" by simp
qed

section \<open>Compacting\<close>

lemma removeStale_cases:
  assumes "wf st" "removeStale F tmp st = (e, st')"
  shows "wf st'" "survived (abs st') = survived (abs st)"
    "e = None \<Longrightarrow> tmp \<notin> N \<Longrightarrow> same_files N (abs st) (abs st')"
proof -
  obtain e' where r: "fs_Remove F tmp st = (e', st')" using assms(2) by (auto simp: removeStale_def split: prod.splits option.splits if_splits)
  show "wf st'" "survived (abs st') = survived (abs st)" using Remove_quiet [OF assms(1) r] by simp_all
  assume "e = None" "tmp \<notin> N"
  then show "same_files N (abs st) (abs st')"
    using assms r Remove_law [OF assms(1), of tmp st'] Remove_missing [OF assms(1), of tmp _ st'] same_files_remove [of tmp N "abs st"]
    by (auto simp: removeStale_def split: option.splits if_splits)
qed

lemma seg_appendAt_quiet:
  assumes "wf st" "seg_appendAt F off e s st = (r, s', st')"
  shows "wf st' \<and> survived (abs st') = survived (abs st)"
  using assms Append_quiet [OF assms(1)]
  by (auto simp: seg_appendAt_def Let_def split: if_splits prod.splits option.splits)

lemma copy_loop_quiet:
  assumes "wf st" "copy_loop F src surv pos at dst st = (e, dst', st')"
  shows "wf st' \<and> survived (abs st') = survived (abs st)"
  using assms
proof (induction "s_size src - pos" arbitrary: pos at dst st rule: less_induct)
  case less
  note code = copy_loop.simps [of F src surv pos at dst st]
  show ?case
  proof (cases "pos < s_size src")
    case False
    then show ?thesis using less.prems by (simp add: code)
  next
    case True
    show ?thesis
    proof (cases "readRecordFrom F src pos at st")
      case (Inl x)
      then show ?thesis using less.prems True by (simp add: code)
    next
      case (Inr rec)
      have dec: "s_size src - (pos + r_Len rec) < s_size src - pos" using True readRecordFrom_Len [OF Inr] by simp
      show ?thesis
      proof (cases "r_Offset rec \<in> set surv")
        case False
        then show ?thesis using less.hyps [OF dec less.prems(1)] less.prems(2) True Inr by (simp add: code)
      next
        case keep: True
        obtain e1 dst1 st1 where a: "seg_appendAt F (r_Offset rec) (r_Event rec) dst st = (e1, dst1, st1)" by (metis prod_cases3)
        note q = seg_appendAt_quiet [OF less.prems(1) a]
        show ?thesis
        proof (cases e1)
          case (Some x)
          then show ?thesis using less.prems(2) True Inr keep a q by (simp add: code)
        next
          case None
          then have "copy_loop F src surv (pos + r_Len rec) (r_Offset rec + 1) dst1 st1 = (e, dst', st')"
            using less.prems(2) True Inr keep a by (simp add: code)
          then show ?thesis using less.hyps [OF dec] q by auto
        qed
      qed
    qed
  qed
qed

lemma writeCompacted_cases:
  assumes "wf st" "held (abs st) src c" "tmp \<notin> segment_names" "writeCompacted F cfg tmp (fst c) src surv st = (r, st')"
  shows "wf st'" "survived (abs st') = survived (abs st)"
    "r = Inr w \<Longrightarrow> same_files segment_names (abs st) (abs st') \<and>
       (\<exists>j. d_dir (abs st') tmp = Some j \<and> d_data (abs st') j = seg_bytes (filter (\<lambda>r. fst r \<in> set surv) (snd c)) \<and>
          d_stable (abs st') j = d_data (abs st') j)"
proof -
  let ?opts = "Options_withDefaults (c_Segment cfg)" and ?rs = "filter (\<lambda>r. fst r \<in> set surv) (snd c)"
  let ?concl = "wf st' \<and> survived (abs st') = survived (abs st) \<and>
    (r = Inr w \<longrightarrow> same_files segment_names (abs st) (abs st') \<and>
       (\<exists>j. d_dir (abs st') tmp = Some j \<and> d_data (abs st') j = seg_bytes ?rs \<and> d_stable (abs st') j = d_data (abs st') j))"
  have closed: "wf (snd (seg_Close F s st1)) \<and> survived (abs (snd (seg_Close F s st1))) = survived (abs st1)" if "wf st1" for s st1
    using seg_Close_cases(1,2) [OF that] by (metis prod.collapse)
  obtain e1 st1 where s1: "removeStale F tmp st = (e1, st1)" by (metis surj_pair)
  note q1 = removeStale_cases [OF assms(1) s1]
  obtain c2 st2 where s2: "fs_Create F tmp st1 = (c2, st2)" by (metis surj_pair)
  note q2 = Create_quiet [OF q1(1) s2]
  have ?concl
  proof (cases "e1 = None \<and> (\<exists>h. c2 = Inr h)")
    case False
    then have "r \<noteq> Inr w \<and> (st' = st1 \<or> st' = st2)"
      using assms(4) s1 s2 by (auto simp: writeCompacted_def createNamed_def Let_def split: option.splits sum.splits)
    then show ?thesis using q1 q2 by auto
  next
    case True
    then obtain h where h: "c2 = Inr h" and e1: "e1 = None" by blast
    note l2 = Create_law [OF q1(1) s2 [unfolded h]]
    obtain j where j: "fresh_inode j (abs st1)" "abs st2 = disk_create tmp h j (abs st1)" using l2 by blast
    let ?dst = "fresh_segment h tmp ?opts (fst c)"
    obtain e3 dst3 st3 where s3: "copy_loop F src surv 0 (s_base src) ?dst st2 = (e3, dst3, st3)" by (metis prod_cases3)
    have w2: "wf st2" using q2 by simp
    note q3 = copy_loop_quiet [OF w2 s3]
    obtain e4 st4 where s4: "seg_Sync F dst3 st3 = (e4, st4)" by (metis surj_pair)
    have wc: "writeCompacted F cfg tmp (fst c) src surv st =
      (case e3 of Some err \<Rightarrow> (Inl err, snd (seg_Close F dst3 st3))
       | None \<Rightarrow> (case e4 of Some err \<Rightarrow> (Inl err, snd (seg_Close F dst3 st4))
          | None \<Rightarrow> (Inr (s_size dst3), snd (seg_Close F dst3 st4))))"
      using s1 s2 s3 s4 e1 h by (simp add: writeCompacted_def createNamed_def Let_def split: option.split)
    show ?thesis
    proof (cases e3)
      case (Some x)
      then show ?thesis using wc assms(4) closed [of st3 dst3] q1 q2 q3 by auto
    next
      case None
      have same2: "same_files segment_names (abs st) (abs st2)"
        using same_files_trans [OF q1(3) [OF e1 assms(3)]] same_files_create [OF assms(3) j(1)] l2 j(2) by simp
      have dst: "seg_rep (abs st2) j ?dst []"
        using fresh_segment_holds [of h tmp ?opts "fst c"]
        by (simp add: seg_rep_def j(2) disk_create_def) (simp add: fresh_segment_def)
      have "stranger segment_names j (abs st1)" using j(1) by (auto simp: stranger_def fresh_inode_def ran_def)
      then have str2: "stranger segment_names j (abs st2)"
        using stranger_same same_files_create [OF assms(3) j(1)] l2 j(2) by metis
      obtain i where i: "d_dir (abs st2) (segmentName (fst c)) = Some i" "seg_rep (abs st2) i src (snd c)" "s_base src = fst c"
        using held_same [OF assms(2) same2 rangeI] by (auto simp: held_def)
      have ij: "i \<noteq> j" using str2 i(1) by (auto simp: stranger_def)
      have sr: "d_node (abs st2) (s_file src) = Some i" "d_data (abs st2) i = seg_bytes ([] @ snd c)"
        "s_size src = length (seg_bytes ([] @ snd c))" "records_ok (s_base src) (snd c)"
        using i(2) by (auto simp: seg_rep_def seg_holds_def)
      have base: "s_base ?dst \<le> s_base src" "end_off (s_base ?dst) [] \<le> s_base src" using i(3) by (simp_all add: fresh_segment_def)
      have c3: "copy_loop F src surv (length (seg_bytes [])) (s_base src) ?dst st2 = (None, dst3, st3)" using s3 None by simp
      obtain p where s3': "wf st3" "seg_rep (abs st3) j dst3 ?rs" "abs st3 = disk_append j p (abs st2)"
        using copy_loop_ok [OF w2 sr dst ij base c3] by auto
      have n3: "d_node (abs st3) (s_file dst3) = Some j" using s3'(2) by (simp add: seg_rep_def)
      note q4 = seg_Sync_cases [OF s3'(1) n3 s4]
      show ?thesis
      proof (cases e4)
        case (Some x)
        then show ?thesis using wc None assms(4) closed [of st4 dst3] q1 q2 q3 q4 by auto
      next
        case None
        note d4 = q4(2) [OF None]
        have un: "j \<notin> ran (d_sdir (abs st3))"
          using j(1) by (simp add: s3'(3) j(2) disk_append_def disk_create_def fresh_inode_def)
        have sv4: "survived (abs st4) = survived (abs st)"
          using survived_sync_unnamed [OF un] d4 q1(2) q2 q3 by simp
        obtain e5 where s5: "seg_Close F dst3 st4 = (e5, st')" and r: "r = Inr (s_size dst3)"
          using wc \<open>e3 = None\<close> None assms(4) by (cases "seg_Close F dst3 st4") auto
        note q5 = seg_Close_cases [OF q4(1) s5]
        have same3: "same_files segment_names (abs st2) (abs st3)" using same_files_strange(1) [OF str2] s3'(3) by simp
        have str3: "stranger segment_names j (abs st3)" by (rule stranger_same [OF str2 same3])
        have same4: "same_files segment_names (abs st3) (abs st4)" using same_files_strange(2) [OF str3] d4 by simp
        have str4: "stranger segment_names j (abs st4)" by (rule stranger_same [OF str3 same4])
        have n4: "d_node (abs st4) (s_file dst3) = Some j" using n3 by (simp add: d4 disk_sync_def)
        have "same_files segment_names (abs st4) (abs st')" using same_files_strange(3) [OF str4 n4] q5(3) by auto
        then have "same_files segment_names (abs st) (abs st')" using same2 same3 same4 same_files_trans by metis
        moreover have "d_dir (abs st4) tmp = Some j" "d_data (abs st4) j = seg_bytes ?rs" "d_stable (abs st4) j = d_data (abs st4) j"
          using s3'(2) by (simp_all add: d4 disk_sync_def seg_rep_def) (simp add: s3'(3) j(2) disk_append_def disk_create_def)
        then have "d_dir (abs st') tmp = Some j" "d_data (abs st') j = seg_bytes ?rs" "d_stable (abs st') j = d_data (abs st') j"
          using q5(3) by (auto simp: disk_close_def)
        ultimately show ?thesis using q5(1,2) sv4 by auto
      qed
    qed
  qed
  then show "wf st'" "survived (abs st') = survived (abs st)"
    "r = Inr w \<Longrightarrow> same_files segment_names (abs st) (abs st') \<and>
       (\<exists>j. d_dir (abs st') tmp = Some j \<and> d_data (abs st') j = seg_bytes ?rs \<and> d_stable (abs st') j = d_data (abs st') j)"
    by blast+
qed

end

text \<open>What compaction makes of the sealed segments: less, and for every key the same last entry.\<close>

definition thinned :: "piece list \<Rightarrow> piece list \<Rightarrow> bool" where
  "thinned cs cs' \<longleftrightarrow>
     list_all2 (\<lambda>c c'. fst c' = fst c \<and> subseq (snd c') (snd c) \<and> (\<forall>key. latest key (snd c') = latest key (snd c))) cs cs'"

lemma thinned_refl [simp]: "thinned cs cs"
  by (simp add: thinned_def list_all2_same)

lemma thinned_trans: "thinned a b \<Longrightarrow> thinned b c \<Longrightarrow> thinned a c"
  unfolding thinned_def by (rule list_all2_trans [where as = a and bs = b and cs = c]) (auto intro: subseq_order.trans)

lemma thinned_fst: "thinned cs cs' \<Longrightarrow> map fst cs' = map fst cs"
  unfolding thinned_def by (induction cs cs' rule: list_all2_induct) simp_all

lemma thinned_flat: "thinned cs cs' \<Longrightarrow> subseq (flat cs') (flat cs) \<and> (\<forall>key. latest key (flat cs') = latest key (flat cs))"
  unfolding thinned_def
  by (induction cs cs' rule: list_all2_induct) (auto simp: latest_append intro!: list_emb_append_mono split: option.split)

lemma thinned_compact:
  assumes "pieces_ok (pre @ [(b, rs)])"
  shows "thinned pre (map (compact_piece base) pre)"
proof -
  have "records_ok (fst c) (snd c)" if "c \<in> set pre" for c
    using that chain_piece [of 0 "pre @ [(b, rs)]" c] assms by (simp add: pieces_ok_def)
  then have "\<forall>key. latest key (newest_per_key (snd c)) = latest key (snd c)" if "c \<in> set pre" for c
    using latest_newest that by blast
  then show ?thesis unfolding thinned_def
    by (auto simp: list_all2_map2 list_all2_same compact_piece_def newest_subseq)
qed

context crash_filesystem
begin

lemma log_Compact_cases:
  assumes "wf st" "log_inv (abs st) l pre b rs k" "base \<in> fst ` set pre" "log_Compact F base l st = (r, l', st')"
  shows "wf st' \<and> (\<exists>pre'. thinned pre pre' \<and> recovers (survived (abs st')) pre' b (take k rs) \<and>
    ((\<exists>cp. r = Inr cp) \<longrightarrow> log_inv (abs st') l' pre' b rs k \<and> log_Next l' = log_Next l \<and> l_cfg l' = l_cfg l))"
proof -
  let ?tmp = "segmentName base @ compactingSuffix" and ?pre = "map (compact_piece base) pre"
  have rep: "log_rep (abs st) l pre b rs" using assms(2) by (simp add: log_inv_def)
  note r = log_repD [OF rep]
  have lt: "base < b" using r(10) assms(3) by blast
  note thin = thinned_compact [OF r(2), of base]
  have rec0: "recovers (survived (abs st)) pre b (take k rs)" by (rule log_inv_recovers [OF assms(2)])
  have unhurt: ?thesis if "wf st'" "survived (abs st') = survived (abs st)" "\<And>cp. r \<noteq> Inr cp"
    using that rec0 thinned_refl by metis
  obtain q l1 st1 where s: "segmentFor F base l st = (q, l1, st1)" by (metis prod_cases3)
  note qu = segmentFor_quiet [OF assms(1) s]
  have removed: "wf (snd (fs_Remove F nm s1)) \<and> survived (abs (snd (fs_Remove F nm s1))) = survived (abs s1)" if "wf s1" for nm s1
    using Remove_quiet [OF that] by (metis prod.collapse)
  consider (early) "st' = st" "\<And>cp. r \<noteq> Inr cp" | (lost) x where "q = Inl x" "st' = st1" "r = Inl x"
    | (found) a where "q = Inr a" "base \<noteq> s_base (active l)" "baseAfter base l \<noteq> None"
    using assms(4) s by (cases "base = s_base (active l)"; cases "baseAfter base l"; cases q) (auto simp: log_Compact_def)
  then show ?thesis
  proof cases
    case early
    then show ?thesis using unhurt assms(1) by simp
  next
    case lost
    then show ?thesis using unhurt qu by simp
  next
    case found
    note f = segmentFor_rep [OF assms(1) rep s [unfolded found(1)]]
    note ext = log_extends_sel [OF f(3) r(7)]
    have inv1: "log_inv (abs st1) l1 pre b rs k" by (rule log_inv_opened [OF assms(2) f(2,5)])
    obtain c where c: "piece_for base (pre @ [(b, rs)]) c" "held (abs st1) (seg_at l1 a) c" using f(6) by blast
    obtain x where x: "x \<in> set pre" "fst x = base" using assms(3) by blast
    have "fst c = base" using c(1) x by (intro order_antisym) (auto simp: piece_for_def)
    moreover have "c \<in> set pre" using c(1) lt calculation by (auto simp: piece_for_def)
    ultimately have cp: "c \<in> set pre" "fst c = base" by auto
    obtain pre1 pre2 where pre: "pre = pre1 @ c # pre2" using split_list [OF cp(1)] by blast
    have srt: "sorted_wrt (<) (map fst (pre1 @ c # pre2))" using r(2) pre by (simp add: pieces_ok_def sorted_wrt_append)
    note pieces' = compact_piece_split [OF srt, unfolded cp(2), folded pre]
    let ?src = "seg_at l1 a" and ?surv = "remdups (map snd (newest_map (snd c) []))" and ?new = "newest_per_key (snd c)"
    obtain i where i: "d_dir (abs st1) (segmentName base) = Some i" "seg_rep (abs st1) i ?src (snd c)"
      using c(2) cp(2) by (auto simp: held_def)
    have src: "records_ok base (snd c)" "d_node (abs st1) (s_file ?src) = Some i"
      using i(2) c(2) cp(2) by (auto simp: seg_rep_def seg_holds_def held_def)
    note surv = survivorsOf_ok [OF f(1) c(2)]
    have filt: "filter (\<lambda>r. fst r \<in> set ?surv) (snd c) = ?new" using newest_per_key_filter [OF src(1)] by simp
    show ?thesis
    proof (cases "length ?surv = s_count ?src")
      case True
      then have res: "st' = st1" "l' = l1" using assms(4) found s surv by (auto simp: log_Compact_def Let_def)
      then show ?thesis using qu inv1 ext(3,9) rec0 thinned_refl by metis
    next
      case False
      obtain r2 st2 where w: "writeCompacted F (l_cfg l1) ?tmp (fst c) ?src ?surv st1 = (r2, st2)" by (metis surj_pair)
      note wc = writeCompacted_cases [OF f(1) c(2) compacting_not_segment w, unfolded filt]
      obtain e3 st3 where ren: "fs_Rename F ?tmp (segmentName base) st2 = (e3, st3)" by (metis surj_pair)
      note q3 = Rename_quiet [OF wc(1) ren]
      obtain e4 st4 where y: "fs_Sync F st3 = (e4, st4)" by (metis surj_pair)
      obtain e5 st5 where cl: "seg_Close F ?src st4 = (e5, st5)" by (metis surj_pair)
      let ?l = "l1\<lparr>l_sealed := AList.delete base (l_sealed l1), l_generation := l_generation l1 + 1\<rparr>"
      have code: "log_Compact F base l st = (case r2 of
          Inl err \<Rightarrow> (Inl err, l1, snd (fs_Remove F ?tmp st2))
        | Inr written \<Rightarrow>
            (case e3 of Some err \<Rightarrow>
               (Inl (Errorf ''log: swap in the compacted %s: %w'' [err]), l1, snd (fs_Remove F ?tmp st3))
             | None \<Rightarrow>
                 (case e4 of Some err \<Rightarrow> (Inl (Errorf ''log: sync the directory after compacting %s: %w'' [err]), l1, st4)
                  | None \<Rightarrow>
                      (case e5 of Some err \<Rightarrow> (Inl err, l1, st5)
                       | None \<Rightarrow> (Inr \<lparr>cp_Base = base, cp_Kept = length ?surv,
                            cp_Dropped = int (s_count ?src) - int (length ?surv),
                            cp_Before = s_size ?src, cp_After = written\<rparr>, ?l, st5)))))"
        unfolding log_Compact_def Let_def using found s surv False w ren y cl cp(2)
        by (simp split del: if_split add: if_not_P split: sum.split option.split)
      consider (fail) "wf st'" "survived (abs st') = survived (abs st2)" "\<And>cp. r \<noteq> Inr cp"
        | (swap) w where "r2 = Inr w" "e3 = None" "e4 = None"
      proof (cases r2)
        case (Inl x)
        then show ?thesis using that(1) code assms(4) removed [OF wc(1), of ?tmp] by simp
      next
        case (Inr w)
        show ?thesis
        proof (cases e3)
          case (Some x)
          then show ?thesis using that(1) code assms(4) Inr removed [of st3 ?tmp] q3 by simp
        next
          case None
          show ?thesis
          proof (cases e4)
            case (Some x)
            then have "wf st4 \<and> survived (abs st4) = survived (abs st3)" using SyncDir_failed y q3 by blast
            then show ?thesis using that(1) code assms(4) Inr None Some q3 by simp
          next
            case None
            then show ?thesis using that(2) Inr \<open>e3 = None\<close> by simp
          qed
        qed
      qed
      then show ?thesis
      proof cases
        case fail
        then show ?thesis using unhurt wc(2) qu by simp
      next
        case swap
        have w2: "wf st2" "wf st3" using wc(1) q3 by simp_all
        obtain j where j: "same_files segment_names (abs st1) (abs st2)" "d_dir (abs st2) ?tmp = Some j"
          "d_data (abs st2) j = seg_bytes ?new" "d_stable (abs st2) j = d_data (abs st2) j" using wc(3) [OF swap(1)] by blast
        have inv2: "log_inv (abs st2) l1 pre b rs k" by (rule log_inv_same [OF inv1 j(1)])
        have i2: "d_dir (abs st2) (segmentName (fst c)) = Some i" "d_node (abs st2) (s_file ?src) = Some i"
          using j(1) i(1) src(2) cp(2) unfolding same_files_def by auto
        have s3: "abs st3 = disk_rename ?tmp (segmentName base) (abs st2)"
          using Rename_law [OF w2(1) ren [unfolded swap(2)]] by simp
        have s4: "wf st4" "abs st4 = disk_syncdir (abs st3)" using SyncDir_law [OF w2(2) y [unfolded swap(3)]] by simp_all
        have n4: "d_node (abs st4) (s_file ?src) = Some i" using i2(2) by (simp add: s4(2) s3 disk_syncdir_def disk_rename_def)
        note q5 = seg_Close_cases [OF s4(1) cl]
        let ?sw = "swapped ?tmp (segmentName (fst c)) (s_file ?src) (abs st2)"
        have sw: "disk_close (s_file ?src) (abs st4) = ?sw" by (simp add: swapped_def s4(2) s3 cp(2))
        have "log_inv ?sw (l1\<lparr>l_sealed := AList.delete (fst c) (l_sealed l1), l_generation := l_generation l1 + 1\<rparr>)
            (pre1 @ (fst c, ?new) # pre2) b rs k"
          using j(2-4) i2 unfolding newest_per_key_def
          by (intro log_inv_swap [OF inv2 [unfolded pre] Dir_law [OF w2(1)] compacting_not_segment]) (simp_all add: cp(2))
        then have inv5: "log_inv ?sw ?l ?pre b rs k" by (simp add: pieces' cp(2) del: map_eq_conv)
        have sv: "survived (abs st5) = survived ?sw" using q5(2) sw [symmetric] by simp
        have st': "st' = st5" using code assms(4) swap by (auto split: option.splits)
        have rec: "recovers (survived (abs st')) ?pre b (take k rs)" unfolding st' sv by (rule log_inv_recovers [OF inv5])
        have "log_inv (abs st') l' ?pre b rs k \<and> log_Next l' = log_Next l \<and> l_cfg l' = l_cfg l" if "r = Inr cp" for cp
        proof -
          have e5: "e5 = None" and l': "l' = ?l" using code assms(4) swap that by (auto split: option.splits)
          have "file_Close F (s_file ?src) st4 = (None, st5)" using cl e5 by (auto simp: seg_Close_def split: prod.splits option.splits)
          then have "abs st5 = ?sw" using Close_law [OF s4(1) n4] sw by simp
          then show ?thesis using inv5 ext(3,9) by (simp add: st' l' log_Next_def active_def seg_at_def)
        qed
        then show ?thesis using rec thin q5(1) st' by blast
      qed
    qed
  qed
qed

lemma compact_all_cases:
  assumes "wf st" "log_inv (abs st) l pre b rs k" "set bs \<subseteq> insert b (fst ` set pre)"
    and "compact_all_loop F b bs out l st = ((cps, e), l', st')"
  shows "wf st' \<and> (\<exists>pre'. thinned pre pre' \<and> recovers (survived (abs st')) pre' b (take k rs) \<and>
    (e = None \<longrightarrow> log_inv (abs st') l' pre' b rs k \<and> log_Next l' = log_Next l \<and> l_cfg l' = l_cfg l))"
  using assms
proof (induction bs arbitrary: out l st pre)
  case Nil
  then show ?case using log_inv_recovers [OF Nil.prems(2)] thinned_refl [of pre] by fastforce
next
  case (Cons base bs)
  show ?case
  proof (cases "base = b")
    case True
    then show ?thesis using Cons.IH [OF Cons.prems(1,2), of out] Cons.prems(3,4) by simp
  next
    case False
    then have mem: "base \<in> fst ` set pre" using Cons.prems(3) by auto
    obtain r l1 st1 where c: "log_Compact F base l st = (r, l1, st1)" by (metis prod_cases3)
    note cc = log_Compact_cases [OF Cons.prems(1,2) mem c]
    show ?thesis
    proof (cases r)
      case (Inl x)
      then have "st' = st1" "e = Some x" using Cons.prems(4) False c by simp_all
      then show ?thesis using cc by auto
    next
      case (Inr cp)
      have w1: "wf st1" using cc by blast
      obtain pre1 where p: "thinned pre pre1" "log_inv (abs st1) l1 pre1 b rs k" "log_Next l1 = log_Next l" "l_cfg l1 = l_cfg l"
        using cc Inr by blast
      have "fst ` set pre1 = fst ` set pre" using thinned_fst [OF p(1)] by (metis list.set_map)
      then have "set bs \<subseteq> insert b (fst ` set pre1)" using Cons.prems(3) by simp
      moreover have "compact_all_loop F b bs (out @ [cp]) l1 st1 = ((cps, e), l', st')" using Cons.prems(4) False c Inr by simp
      ultimately obtain pre' where "wf st'" "thinned pre1 pre'" "recovers (survived (abs st')) pre' b (take k rs)"
        "e = None \<longrightarrow> log_inv (abs st') l' pre' b rs k \<and> log_Next l' = log_Next l1 \<and> l_cfg l' = l_cfg l1"
        using Cons.IH [OF w1 p(2)] by blast
      then show ?thesis using thinned_trans [OF p(1)] p(3,4) by metis
    qed
  qed
qed

lemma log_CompactAll_cases:
  assumes "wf st" "log_inv (abs st) l pre b rs k" "log_CompactAll F l st = ((cps, e), l', st')"
  shows "wf st'" "\<exists>pre'. thinned pre pre' \<and> recovers (survived (abs st')) pre' b (take k rs) \<and>
    (e = None \<longrightarrow> log_inv (abs st') l' pre' b rs k \<and> log_Next l' = log_Next l \<and> l_cfg l' = l_cfg l)"
proof -
  have rep: "log_rep (abs st) l pre b rs" using assms(2) by (simp add: log_inv_def)
  note r = log_repD [OF rep]
  have "s_base (active l) = b" using r(4) by (simp add: held_def)
  then have "compact_all_loop F b (log_Segments l) [] l st = ((cps, e), l', st')"
    using assms(3) by (simp add: log_CompactAll_def)
  from compact_all_cases [OF assms(1,2) _ this] r(1)
  show "wf st'" "\<exists>pre'. thinned pre pre' \<and> recovers (survived (abs st')) pre' b (take k rs) \<and>
    (e = None \<longrightarrow> log_inv (abs st') l' pre' b rs k \<and> log_Next l' = log_Next l \<and> l_cfg l' = l_cfg l)"
    by (auto simp: log_Segments_def)
qed

end

section \<open>Recovery\<close>

context crash_filesystem
begin

text \<open>
  Opening what a power cut left changes nothing of what would survive another one: recovery can
  be cut off itself, as often as it takes.
\<close>

lemma log_Open_quiet:
  assumes "wf st" "abs st = disk_crash d" "leaves (survived d) es" "log_Open F cfg st = (r, st')"
  shows "wf st' \<and> survived (abs st') = survived d"
proof -
  obtain pre b rs where rec: "recovers (survived d) pre b rs" using assms(3) unfolding leaves_def by blast
  then have "survived d (segmentName b) \<noteq> None" by (auto simp: recovers_def)
  then have dir: "segmentName b \<in> dom (d_dir (abs st))" using survived_visible [of d "segmentName b"] assms(2) by auto
  have sv: "survived (abs st) = survived d" by (simp add: assms(2))
  show ?thesis
  proof (cases "fs_List F st")
    case (Inl x)
    then have "st' = st" using assms(4) by (auto simp: log_Open_def Let_def split: if_splits)
    then show ?thesis using assms(1) sv by simp
  next
    case (Inr ns)
    then have "segmentName b \<in> set ns" using List_law [OF assms(1) Inr] dir by simp
    then have "List.map_filter parseSegmentName ns \<noteq> []"
      using set_map_filter_parse [of ns] by (metis (mono_tags, lifting) empty_iff list.set(1) mem_Collect_eq)
    then have ne: "sort (List.map_filter parseSegmentName ns) \<noteq> []" by (metis set_empty set_sort)
    let ?nm = "segmentName (last (sort (List.map_filter parseSegmentName ns)))" and ?cfg = "Config_withDefaults cfg"
    obtain q st1 where q: "openSegmentTruncating F ?nm (c_Segment ?cfg) st = (q, st1)" by (metis surj_pair)
    have "wf st1 \<and> survived (abs st1) = survived (abs st)"
      using q openNamed_quiet [OF assms(1)] assms(1) by (auto simp: openSegmentTruncating_def openSegment_def split: option.splits)
    moreover have "st' = st \<or> st' = st1"
      using assms(4) Inr ne q by (auto simp: log_Open_def Let_def split: if_splits sum.splits prod.splits)
    ultimately show ?thesis using assms(1) sv by auto
  qed
qed

end

text \<open>A log on a disk, whatever the filesystem the disk is seen through.\<close>

definition holds_log :: "disk \<Rightarrow> 's Log \<Rightarrow> entry list \<Rightarrow> nat \<Rightarrow> bool" where
  "holds_log d l es n \<longleftrightarrow> (\<exists>pre b rs k. log_inv d l pre b rs k \<and> es = flat (pre @ [(b, rs)]) \<and> n = length (flat pre) + k)"

lemma is_log_holds: "is_log f l es n \<longleftrightarrow> wf_sim f \<and> holds_log (abs_sim f) l es n"
  by (simp add: is_log_def holds_log_def)

lemma holds_logI: "log_inv d l pre b rs k \<Longrightarrow> holds_log d l (flat (pre @ [(b, rs)])) (length (flat pre) + k)"
  unfolding holds_log_def by blast

lemma holds_log_records:
  assumes "holds_log d l es n"
  shows "records_ok 0 es" "end_off 0 es \<le> log_Next l" "n \<le> length es"
proof -
  obtain pre b rs k where i: "log_inv d l pre b rs k" "es = flat (pre @ [(b, rs)])" "n = length (flat pre) + k"
    using assms unfolding holds_log_def by blast
  then have "log_rep d l pre b rs" by (simp add: log_inv_def)
  note r = log_repD [OF this]
  show "records_ok 0 es" "end_off 0 es \<le> log_Next l"
    using records_ok_flat [of 0 "pre @ [(b, rs)]"] r i(2) by (simp_all add: pieces_ok_def)
  show "n \<le> length es" using i by (simp add: log_inv_def log_durable_def)
qed

context reliable_filesystem
begin

lemma leaves_Open:
  assumes "leaves (survived d) es" "wf st" "abs st = disk_crash d" "openable cfg"
  obtains l rec st' where "log_Open F cfg st = (Inr (l, rec), st')" "wf st'" "holds_log (abs st') l es (length es)"
    "R_Corrupt rec = None" "R_Next rec = log_Next l"
proof -
  obtain pre b rs where p: "recovers (survived d) pre b rs" "es = flat (pre @ [(b, rs)])" using assms(1) unfolding leaves_def by blast
  obtain l rec st' where o: "log_Open F cfg st = (Inr (l, rec), st')" "wf st'" "log_inv (abs st') l pre b rs (length rs)"
    "R_Corrupt rec = None" "R_Next rec = log_Next l"
    by (rule recovers_Open [OF p(1) assms(2-4)]) blast
  have "holds_log (abs st') l es (length es)" using holds_logI [OF o(3)] p(2) by simp
  with o show thesis by (intro that)
qed

end

section \<open>A run that stops at the first error\<close>

text \<open>
  The calls of a program that gives up when one of them returns an error, as the fault harness
  does. A power cut among them ends the run. The result says how many returned none.
\<close>

fun log_call :: "'s fs_ops \<Rightarrow> store_op \<Rightarrow> 's Log \<Rightarrow> 's \<Rightarrow> bool \<times> 's Log \<times> 's" where
  "log_call F (OpAppend xs) l st = (case log_Append F xs l st of ((offs, err), l, st) \<Rightarrow> (err = None, l, st))"
| "log_call F OpSync l st = (case log_Sync F l st of (err, l, st) \<Rightarrow> (err = None, l, st))"
| "log_call F (OpRead off) l st = (case log_Read F off l st of (r, l, st) \<Rightarrow> (\<not> isl r, l, st))"
| "log_call F OpCompactAll l st = (case log_CompactAll F l st of ((cps, err), l, st) \<Rightarrow> (err = None, l, st))"
| "log_call F OpCrash l st = (False, l, st)"

fun run_calls :: "'s fs_ops \<Rightarrow> store_op list \<Rightarrow> 's Log \<Rightarrow> 's \<Rightarrow> nat \<times> 's Log \<times> 's" where
  "run_calls F [] l st = (0, l, st)"
| "run_calls F (op # ops) l st =
     (case log_call F op l st of
        (False, l, st) \<Rightarrow> (0, l, st)
      | (True, l, st) \<Rightarrow> (case run_calls F ops l st of (k, l, st) \<Rightarrow> (Suc k, l, st)))"

fun op_size :: "store_op \<Rightarrow> nat" where
  "op_size (OpAppend xs) = length xs"
| "op_size _ = 0"

text \<open>A batch that was taken has only events that can be framed.\<close>

fun accepted :: "store_op \<Rightarrow> bool" where
  "accepted (OpAppend xs) = list_all framable xs"
| "accepted _ = True"

text \<open>What may be left of a call that was cut off, in terms of the entries alone.\<close>

inductive cut_step :: "store_op \<Rightarrow> entry list \<times> nat \<Rightarrow> entry list \<Rightarrow> bool" where
  cut_append: "\<lbrakk>end_off 0 es \<le> nx; n \<le> j; j \<le> length es + length xs\<rbrakk> \<Longrightarrow>
     cut_step (OpAppend xs) (es, n) (take j (es @ number nx xs))"
| cut_sync: "\<lbrakk>n \<le> j; j \<le> length es\<rbrakk> \<Longrightarrow> cut_step OpSync (es, n) (take j es)"
| cut_read: "cut_step (OpRead off) (es, n) (take n es)"
| cut_compact: "\<lbrakk>subseq es' (take n es); \<And>key. latest key es' = latest key (take n es)\<rbrakk> \<Longrightarrow>
     cut_step OpCompactAll (es, n) es'"
| cut_crash: "cut_step OpCrash (es, n) (take n es)"

inductive_cases cut_stepE:
  "cut_step (OpAppend xs) a es'" "cut_step OpSync a es'" "cut_step (OpRead off) a es'"
  "cut_step OpCompactAll a es'" "cut_step OpCrash a es'"

context crash_filesystem
begin

lemma log_call_cases:
  assumes "wf st" "holds_log (abs st) l es n" "unat (log_Next l) + op_size op < 2 ^ 64" "log_call F op l st = (ok, l', st')"
  shows "wf st' \<and> (\<exists>es'. cut_step op (es, n) es' \<and> leaves (survived (abs st')) es') \<and>
    (ok \<longrightarrow> (\<exists>es1 n1. spec_step op (es, n) (es1, n1) \<and> holds_log (abs st') l' es1 n1 \<and> l_cfg l' = l_cfg l \<and>
       (c_Durability (l_cfg l) = Sync \<longrightarrow> n = length es \<longrightarrow> n1 = length es1) \<and>
       unat (log_Next l') \<le> unat (log_Next l) + op_size op \<and> accepted op))"
proof -
  obtain pre b rs k where i: "log_inv (abs st) l pre b rs k" "es = flat (pre @ [(b, rs)])" "n = length (flat pre) + k"
    using assms(2) unfolding holds_log_def by blast
  have k: "k \<le> length rs" using i(1) by (simp add: log_inv_def log_durable_def)
  note lv = log_inv_leaves [OF i(1), folded i(2,3)]
  note nx = holds_log_records(2) [OF assms(2)]
  show ?thesis
  proof (cases op)
    case (OpAppend xs)
    obtain offs err where a: "log_Append F xs l st = ((offs, err), l', st')" and ok: "ok = (err = None)"
      using assms(4) OpAppend by (auto split: prod.splits)
    have fits: "unat (log_Next l) + length xs < 2 ^ 64" using assms(3) OpAppend by simp
    note c = log_Append_cases [OF assms(1) i(1) fits a, folded i(2,3)]
    obtain j where j: "n \<le> j" "j \<le> length (es @ number (log_Next l) xs)" "leaves (survived (abs st')) (take j (es @ number (log_Next l) xs))"
      using leaves_from_leaves [OF c(2)] by blast
    have "cut_step op (es, n) (take j (es @ number (log_Next l) xs))"
      unfolding OpAppend by (rule cut_append [OF nx j(1)]) (use j(2) in simp)
    moreover have "\<exists>es1 n1. spec_step op (es, n) (es1, n1) \<and> holds_log (abs st') l' es1 n1 \<and> l_cfg l' = l_cfg l \<and>
       (c_Durability (l_cfg l) = Sync \<longrightarrow> n = length es \<longrightarrow> n1 = length es1) \<and>
       unat (log_Next l') \<le> unat (log_Next l) + op_size op \<and> accepted op" if "err = None"
    proof -
      note c3 = c(3) [OF that]
      obtain pre' b' rs' k' where p: "log_inv (abs st') l' pre' b' rs' k'" "flat (pre' @ [(b', rs')]) = es @ number (log_Next l) xs"
        "n \<le> length (flat pre') + k'" "c_Durability (l_cfg l) = Sync \<longrightarrow> k = length rs \<or> xs \<noteq> [] \<longrightarrow> k' = length rs'"
        "log_Next l' = log_Next l + word_of_nat (length xs)" "l_cfg l' = l_cfg l"
        using c3 by blast
      note h = holds_logI [OF p(1), unfolded p(2)]
      have "list_all framable xs"
        using holds_log_records(1) [OF h] by (auto simp: records_ok_append intro: records_ok_number_framable)
      then have tw: "takeWhile framable xs = xs" "accepted op" using OpAppend by (simp_all add: list_all_iff takeWhile_eq_all_conv)
      have "length (flat pre') + k' \<le> length es + length xs" using holds_log_records(3) [OF h] by simp
      then have "spec_step op (es, n) (es @ number (log_Next l) xs, length (flat pre') + k')"
        using spec_append [OF nx p(3), of xs] tw by (simp add: OpAppend del: takeWhile_eq_all_conv)
      moreover have "length (flat pre') + k' = length (es @ number (log_Next l) xs)" if "c_Durability (l_cfg l) = Sync" "n = length es"
        using p(4) that i(2,3) arg_cong [OF p(2), of length] by simp
      moreover have "unat (log_Next l') \<le> unat (log_Next l) + op_size op"
        using fits p(5) OpAppend by (simp add: unat_word_ariths unat_of_nat take_bit_eq_mod)
      ultimately show ?thesis using h p(6) tw(2) by blast
    qed
    ultimately show ?thesis using c(1) j(3) ok by blast
  next
    case OpSync
    obtain err where a: "log_Sync F l st = (err, l', st')" and ok: "ok = (err = None)" using assms(4) OpSync by (auto split: prod.splits)
    note c = log_Sync_cases [OF assms(1) i(1) a]
    have n: "n \<le> length es" using i k by simp
    have full: "holds_log (abs st') l' es (length es)" "leaves (survived (abs st')) (take (length es) es)" if "err = None"
      using holds_logI [OF c(3) [OF that]] log_inv_leaves [OF c(3) [OF that]] i(2) by simp_all
    have "\<exists>es'. cut_step op (es, n) es' \<and> leaves (survived (abs st')) es'"
      using full(2) lv c(2) cut_sync [OF n order_refl] cut_sync [OF order_refl n] unfolding OpSync by (cases err) fastforce+
    then show ?thesis using c(1,4,5) ok full(1) spec_sync [of es n] OpSync by (auto simp: log_Next_def)
  next
    case (OpRead off)
    obtain r where a: "log_Read F off l st = (r, l', st')" and ok: "ok = (\<not> isl r)" using assms(4) OpRead by (auto split: prod.splits)
    note c = log_Read_cases [OF assms(1) i(1) a]
    have "holds_log (abs st') l' es n \<and> l_cfg l' = l_cfg l \<and> log_Next l' = log_Next l" if "\<not> isl r"
      using c(3) that holds_logI [of "abs st'" l' pre b rs k] i(2,3) by (cases r) auto
    then show ?thesis using c(1,2) ok lv cut_read [of off es n] spec_read [of off es n] OpRead by auto
  next
    case OpCompactAll
    obtain cps err where a: "log_CompactAll F l st = ((cps, err), l', st')" and ok: "ok = (err = None)"
      using assms(4) OpCompactAll by (auto split: prod.splits)
    note c = log_CompactAll_cases [OF assms(1) i(1) a]
    obtain pre' where p: "thinned pre pre'" "recovers (survived (abs st')) pre' b (take k rs)"
      "err = None \<longrightarrow> log_inv (abs st') l' pre' b rs k \<and> log_Next l' = log_Next l \<and> l_cfg l' = l_cfg l"
      using c(2) by blast
    note t = thinned_flat [OF p(1)]
    have tk: "take n es = flat pre @ take k rs" using i by simp
    have "subseq (flat pre' @ ys) (flat pre @ ys)" "latest key (flat pre' @ ys) = latest key (flat pre @ ys)" for ys key
      using t by (auto simp: latest_append list_emb_append_mono split: option.split)
    then have cut: "cut_step op (es, n) (flat pre' @ take k rs)"
      and spec: "spec_step op (es, n) (flat pre' @ rs, length (flat pre') + k)"
      unfolding OpCompactAll using i(2,3) by (auto simp: tk intro!: cut_compact spec_compact)
    have "holds_log (abs st') l' (flat pre' @ rs) (length (flat pre') + k)" if "err = None"
      using p(3) that holds_logI [of "abs st'" l' pre' b rs k] by simp
    moreover have "c_Durability (l_cfg l) = Sync \<longrightarrow> n = length es \<longrightarrow> length (flat pre') + k = length (flat pre' @ rs)" using i(2,3) by simp
    moreover have "unat (log_Next l') \<le> unat (log_Next l) + op_size op" "l_cfg l' = l_cfg l" if "err = None" using p(3) that by simp_all
    moreover have "accepted op" using OpCompactAll by simp
    ultimately show ?thesis using c(1) ok cut spec recovers_leaves [OF p(2)] by blast
  next
    case OpCrash
    then have "ok = False" "st' = st" using assms(4) by simp_all
    then show ?thesis using assms(1) lv cut_crash [of es n] OpCrash by auto
  qed
qed

text \<open>Any run of calls, whatever fails in it and wherever the power goes.\<close>

lemma run_calls_cases:
  assumes "wf st" "holds_log (abs st) l es n" "unat (log_Next l) + sum_list (map op_size ops) < 2 ^ 64"
    and "run_calls F ops l st = (k, l', st')"
  shows "wf st' \<and> k \<le> length ops \<and> (\<exists>es1 n1 es2. spec_trace (take k ops) (es, n) (es1, n1) \<and> leaves (survived (abs st')) es2 \<and>
    (if k = length ops then es2 = take n1 es1 \<and> holds_log (abs st') l' es1 n1 else cut_step (ops ! k) (es1, n1) es2) \<and>
    (c_Durability (l_cfg l) = Sync \<longrightarrow> n = length es \<longrightarrow> n1 = length es1) \<and> list_all accepted (take k ops))"
  using assms
proof (induction ops arbitrary: l st es n k)
  case Nil
  obtain pre b rs k where i: "log_inv (abs st) l pre b rs k" "es = flat (pre @ [(b, rs)])" "n = length (flat pre) + k"
    using Nil.prems(2) unfolding holds_log_def by blast
  have "leaves (survived (abs st)) (take n es)" using log_inv_leaves [OF i(1)] i(2,3) by simp
  then show ?case using Nil spec_nil [of "(es, n)"] by (auto intro!: exI [of _ es] exI [of _ n])
next
  case (Cons op ops)
  obtain ok l1 st1 where c: "log_call F op l st = (ok, l1, st1)" by (metis prod_cases3)
  have fits: "unat (log_Next l) + op_size op < 2 ^ 64" using Cons.prems(3) by simp
  note call = log_call_cases [OF Cons.prems(1,2) fits c]
  show ?case
  proof (cases ok)
    case False
    then have "k = 0" "st' = st1" using Cons.prems(4) c by simp_all
    then show ?thesis using call spec_nil [of "(es, n)"] by auto
  next
    case True
    obtain es0 n0 where s: "wf st1" "spec_step op (es, n) (es0, n0)" "holds_log (abs st1) l1 es0 n0" "l_cfg l1 = l_cfg l"
      "c_Durability (l_cfg l) = Sync \<longrightarrow> n = length es \<longrightarrow> n0 = length es0" "unat (log_Next l1) \<le> unat (log_Next l) + op_size op"
      "accepted op" using call True by blast
    obtain k1 where k: "run_calls F ops l1 st1 = (k1, l', st')" "k = Suc k1"
      using Cons.prems(4) c True by (auto split: prod.splits)
    have fits1: "unat (log_Next l1) + sum_list (map op_size ops) < 2 ^ 64" using s(6) Cons.prems(3) by simp
    obtain es1 n1 es2 where ih: "wf st'" "k1 \<le> length ops" "spec_trace (take k1 ops) (es0, n0) (es1, n1)"
      "leaves (survived (abs st')) es2"
      "if k1 = length ops then es2 = take n1 es1 \<and> holds_log (abs st') l' es1 n1 else cut_step (ops ! k1) (es1, n1) es2"
      "c_Durability (l_cfg l1) = Sync \<longrightarrow> n0 = length es0 \<longrightarrow> n1 = length es1" "list_all accepted (take k1 ops)"
      using Cons.IH [OF s(1,3) fits1 k(1)] by blast
    have "spec_trace (take k (op # ops)) (es, n) (es1, n1)" using spec_cons [OF s(2) ih(3)] k(2) by simp
    then show ?thesis using ih s(4,5,7) k(2) by (intro conjI exI [of _ es1] exI [of _ n1] exI [of _ es2]) auto
  qed
qed

end

end
