(* ===== verification/Log_Group.thy ===== *)
theory Log_Group
  imports Log_Compact
begin

text \<open>
  \<^verbatim>\<open>log/group.go\<close>: consumer groups and the log of their commits, which is one more record file
  beside the segments. A \<^verbatim>\<open>Group\<close> is its name; the log it belongs to is passed along.
\<close>

section \<open>The code\<close>

definition commitsFile :: string where "commitsFile = ''commits.groups''"
definition commitSchema :: "16 word" where "commitSchema = 1"
definition commitPayloadLen :: nat where "commitPayloadLen = 8"

record Commit =
  cm_Seq :: Offset
  cm_Group :: string
  cm_Offset :: Offset
  cm_Time :: Time

definition decodeCommit :: "event \<Rightarrow> Offset res" where
  "decodeCommit e =
     (if e_Schema e \<noteq> commitSchema then
        Inl (Errorf ''%w: commit schema is %d, want %d'' [Sentinel ErrCorrupt])
      else if length (e_Payload e) \<noteq> commitPayloadLen then
        Inl (Errorf ''%w: commit payload is %d bytes, want %d'' [Sentinel ErrCorrupt])
      else Inr (le_word (e_Payload e)))"

text \<open>The two loops over the commits log: replaying it into the map, and listing it.\<close>

lemma word_succ_measure: "(seq :: Offset) < n \<Longrightarrow> unat n - unat (seq + 1) < unat n - unat seq"
proof -
  assume "seq < n"
  then have "unat seq < unat n" by (simp add: word_less_nat_alt)
  moreover have "unat n < 2 ^ LENGTH(64)" by (rule unsigned_less)
  ultimately show ?thesis using unat_succ [of seq] by simp
qed

function replay_loop ::
  "'s fs_ops \<Rightarrow> 's \<Rightarrow> segment \<Rightarrow> Offset \<Rightarrow> (string \<times> Offset) list \<Rightarrow> (string \<times> Offset) list res" where
  "replay_loop F st seg seq at =
     (if seq < s_next seg then
        (case seg_Read F seg seq st of
           Inl err \<Rightarrow> Inl (Errorf ''log: replay commit %d: %w'' [err])
         | Inr rec \<Rightarrow>
             (case decodeCommit (r_Event rec) of
                Inl err \<Rightarrow> Inl (Errorf ''log: replay commit %d: %w'' [err])
              | Inr off \<Rightarrow> replay_loop F st seg (seq + 1) (AList.update (e_Key (r_Event rec)) off at)))
      else Inr at)"
  by pat_completeness auto
termination
  by (relation "measure (\<lambda>(F, st, seg, seq, at). unat (s_next seg) - unat seq)") (simp_all add: word_succ_measure)

declare replay_loop.simps [simp del]

definition commits_replay :: "'s fs_ops \<Rightarrow> segment \<Rightarrow> 's \<Rightarrow> (string \<times> Offset) list res" where
  "commits_replay F seg st = replay_loop F st seg 0 []"

definition commits_opts :: "'s Config \<Rightarrow> Options" where
  "commits_opts cfg = \<lparr>o_MaxBytes = 2 ^ 62, o_IndexInterval = o_IndexInterval (c_Segment cfg)\<rparr>"

definition openCommits :: "'s fs_ops \<Rightarrow> 's Log \<Rightarrow> 's \<Rightarrow> error option \<times> 's Log \<times> 's" where
  "openCommits F l st =
     (case l_commits l of
        Some _ \<Rightarrow> (None, l, st)
      | None \<Rightarrow>
          (let opts = commits_opts (l_cfg l);
               opened =
                 (case openNamed F commitsFile 0 opts True st of
                    (Inr (seg, rec), st) \<Rightarrow> (Inr seg, st)
                  | (Inl err, st) \<Rightarrow>
                      if errors_Is err ErrNotExist then
                        (case createNamed F commitsFile 0 opts st of
                           (Inl err, st) \<Rightarrow> (Inl err, st)
                         | (Inr seg, st) \<Rightarrow>
                             (case fs_Sync F st of
                                (Some err, st) \<Rightarrow> (Inl err, st)
                              | (None, st) \<Rightarrow> (Inr seg, st)))
                      else (Inl err, st))
           in case opened of
                (Inl err, st) \<Rightarrow> (Some (Errorf ''log: open %s: %w'' [err]), l, st)
              | (Inr seg, st) \<Rightarrow>
                  (case commits_replay F seg st of
                     Inl err \<Rightarrow> (Some err, l, snd (seg_Close F seg st))
                   | Inr at \<Rightarrow> (None, l\<lparr>l_commits := Some \<lparr>cm_seg = seg, cm_at = at\<rparr>\<rparr>, st))))"

definition log_Group :: "'s fs_ops \<Rightarrow> string \<Rightarrow> 's Log \<Rightarrow> 's \<Rightarrow> string res \<times> 's Log \<times> 's" where
  "log_Group F name l st =
     (if name = [] then (Inl (Errorf ''log: a consumer group needs a name'' []), l, st)
      else if length name > MaxKeyLen then
        (Inl (Errorf ''log: group name is %d bytes, limit is %d'' []), l, st)
      else
        (case openCommits F l st of
           (Some err, l, st) \<Rightarrow> (Inl err, l, st)
         | (None, l, st) \<Rightarrow> (Inr name, l, st)))"

definition group_Commit ::
  "'s fs_ops \<Rightarrow> string \<Rightarrow> Offset \<Rightarrow> 's Log \<Rightarrow> 's \<Rightarrow> error option \<times> 's Log \<times> 's" where
  "group_Commit F name off l st =
     (if off < log_First l \<or> off > log_Next l then
        (Some (Errorf ''%w: cannot commit %d, the log holds [%d, %d]'' [Sentinel ErrNotFound]), l, st)
      else
        (case openCommits F l st of
           (Some err, l, st) \<Rightarrow> (Some err, l, st)
         | (None, l, st) \<Rightarrow>
             let c = the (l_commits l);
                 e = \<lparr>e_Key = name,
                      e_Time = (case c_Clock (l_cfg l) of None \<Rightarrow> 0 | Some now \<Rightarrow> now st),
                      e_Schema = commitSchema, e_Payload = le_bytes 8 off\<rparr>
             in (case seg_Append F e (cm_seg c) st of
                   (Inl err, seg, st) \<Rightarrow>
                     (Some (Errorf ''log: commit %s at %d: %w'' [err]), l\<lparr>l_commits := Some (c\<lparr>cm_seg := seg\<rparr>)\<rparr>, st)
                 | (Inr _, seg, st) \<Rightarrow>
                     (case seg_Sync F seg st of
                        (Some err, st) \<Rightarrow>
                          (Some (Errorf ''log: commit %s at %d: %w'' [err]), l\<lparr>l_commits := Some (c\<lparr>cm_seg := seg\<rparr>)\<rparr>, st)
                      | (None, st) \<Rightarrow>
                          (None, l\<lparr>l_commits := Some \<lparr>cm_seg = seg, cm_at = AList.update name off (cm_at c)\<rparr>\<rparr>, st)))))"

definition group_Committed ::
  "'s fs_ops \<Rightarrow> string \<Rightarrow> 's Log \<Rightarrow> 's \<Rightarrow> (Offset \<times> error option) \<times> 's Log \<times> 's" where
  "group_Committed F name l st =
     (case openCommits F l st of
        (Some err, l, st) \<Rightarrow> ((0, Some err), l, st)
      | (None, l, st) \<Rightarrow>
          (case map_of (cm_at (the (l_commits l))) name of
             None \<Rightarrow> ((log_First l, Some (Errorf ''%w: %s'' [Sentinel ErrNoGroup])), l, st)
           | Some off \<Rightarrow> ((off, None), l, st)))"

definition group_Reader :: "'s fs_ops \<Rightarrow> string \<Rightarrow> 's Log \<Rightarrow> 's \<Rightarrow> Reader res \<times> 's Log \<times> 's" where
  "group_Reader F name l st =
     (case group_Committed F name l st of
        ((off, Some err), l, st) \<Rightarrow>
          if \<not> errors_Is err ErrNoGroup then (Inl err, l, st) else (log_Reader off l, l, st)
      | ((off, None), l, st) \<Rightarrow> (log_Reader off l, l, st))"

definition log_Groups :: "'s fs_ops \<Rightarrow> 's Log \<Rightarrow> 's \<Rightarrow> string list res \<times> 's Log \<times> 's" where
  "log_Groups F l st =
     (case openCommits F l st of
        (Some err, l, st) \<Rightarrow> (Inl err, l, st)
      | (None, l, st) \<Rightarrow> (Inr (sort (map fst (cm_at (the (l_commits l))))), l, st))"

function history_loop ::
  "'s fs_ops \<Rightarrow> 's \<Rightarrow> segment \<Rightarrow> Offset \<Rightarrow> Commit list \<Rightarrow> Commit list res" where
  "history_loop F st seg seq history =
     (if seq < s_next seg then
        (case seg_Read F seg seq st of
           Inl err \<Rightarrow> Inl (Errorf ''log: read commit %d: %w'' [err])
         | Inr rec \<Rightarrow>
             (case decodeCommit (r_Event rec) of
                Inl err \<Rightarrow> Inl (Errorf ''log: commit %d: %w'' [err])
              | Inr off \<Rightarrow>
                  history_loop F st seg (seq + 1)
                    (history @ [\<lparr>cm_Seq = seq, cm_Group = e_Key (r_Event rec), cm_Offset = off,
                                 cm_Time = e_Time (r_Event rec)\<rparr>])))
      else Inr history)"
  by pat_completeness auto
termination
  by (relation "measure (\<lambda>(F, st, seg, seq, history). unat (s_next seg) - unat seq)") (simp_all add: word_succ_measure)

declare history_loop.simps [simp del]

definition log_CommitHistory :: "'s fs_ops \<Rightarrow> 's Log \<Rightarrow> 's \<Rightarrow> Commit list res \<times> 's Log \<times> 's" where
  "log_CommitHistory F l st =
     (case openCommits F l st of
        (Some err, l, st) \<Rightarrow> (Inl err, l, st)
      | (None, l, st) \<Rightarrow> (history_loop F st (cm_seg (the (l_commits l))) 0 [], l, st))"

section \<open>What the commits log stands for\<close>

text \<open>A history of commits, oldest first: the group, the offset and the time of each.\<close>

type_synonym commit_entry = "string \<times> Offset \<times> Time"

definition commit_event :: "commit_entry \<Rightarrow> event" where
  "commit_event = (\<lambda>(name, off, t). \<lparr>e_Key = name, e_Time = t, e_Schema = commitSchema, e_Payload = le_bytes 8 off\<rparr>)"

definition commit_records :: "commit_entry list \<Rightarrow> entry list" where
  "commit_records hs = number 0 (map commit_event hs)"

fun latest_commits :: "commit_entry list \<Rightarrow> (string \<times> Offset) list \<Rightarrow> (string \<times> Offset) list" where
  "latest_commits [] m = m"
| "latest_commits (h # hs) m = latest_commits hs (AList.update (fst h) (fst (snd h)) m)"

definition history_ok :: "commit_entry list \<Rightarrow> bool" where
  "history_ok hs \<longleftrightarrow> length hs < 2 ^ 64 \<and> list_all (\<lambda>h. framable (commit_event h)) hs"

lemma latest_commits_append: "latest_commits (xs @ ys) m = latest_commits ys (latest_commits xs m)"
  by (induction xs m rule: latest_commits.induct) simp_all

text \<open>The map holds the last commit of each group.\<close>

lemma map_of_latest:
  "map_of (latest_commits hs m) g =
     (case find (\<lambda>h. fst h = g) (rev hs) of None \<Rightarrow> map_of m g | Some h \<Rightarrow> Some (fst (snd h)))"
proof (induction hs rule: rev_induct)
  case (snoc h hs)
  then show ?case by (simp add: latest_commits_append update_conv')
qed simp

lemma decodeCommit_event [simp]: "decodeCommit (commit_event h) = Inr (fst (snd h))"
  by (cases h) (simp add: decodeCommit_def commit_event_def commitPayloadLen_def le_word_le_bytes)

lemma commit_records_ok: "history_ok hs \<Longrightarrow> records_ok 0 (commit_records hs)"
  unfolding commit_records_def history_ok_def by (intro records_ok_number) (auto simp: list_all_iff)

lemma map_of_number:
  "unat off + length es < 2 ^ 64 \<Longrightarrow> j < length es \<Longrightarrow> map_of (number off es) (off + word_of_nat j) = Some (es ! j)"
proof (induction off es arbitrary: j rule: number.induct)
  case (2 off e es)
  show ?case
  proof (cases j)
    case (Suc i)
    have u: "unat (off + 1) = unat off + 1" using 2(2) by (intro unat_succ) simp
    have eq: "off + word_of_nat (Suc i) = (off + 1) + word_of_nat i" by (simp add: add.assoc)
    have "map_of (number (off + 1) es) ((off + 1) + word_of_nat i) = Some (es ! i)"
      using 2 u Suc by (intro 2(1)) simp_all
    moreover have "off + word_of_nat (Suc i) \<noteq> off"
    proof
      assume "off + word_of_nat (Suc i) = off"
      then have "(word_of_nat (Suc i) :: Offset) = 0" by (metis add_cancel_right_right)
      then have "unat (word_of_nat (Suc i) :: Offset) = 0" by (simp only: unsigned_0)
      moreover have "Suc i < 2 ^ 64" using 2(2,3) Suc by simp
      then have "unat (word_of_nat (Suc i) :: Offset) = Suc i" by (simp add: unat_of_nat take_bit_eq_mod del: of_nat_Suc)
      ultimately show False by simp
    qed
    ultimately show ?thesis unfolding Suc eq by simp
  qed simp
qed simp

section \<open>Opening and replaying\<close>

definition commits_rep :: "disk \<Rightarrow> commits \<Rightarrow> commit_entry list \<Rightarrow> bool" where
  "commits_rep d c hs \<longleftrightarrow>
     history_ok hs \<and> cm_at c = latest_commits hs [] \<and> \<not> s_sealed (cm_seg c) \<and> s_base (cm_seg c) = 0 \<and>
     (\<exists>i. d_dir d commitsFile = Some i \<and> d_sdir d commitsFile = Some i \<and>
        seg_rep d i (cm_seg c) (commit_records hs) \<and> d_stable d i = d_data d i)"

text \<open>The commits log at rest: absent while nobody has committed, otherwise a durable file.\<close>

definition commits_file :: "disk \<Rightarrow> commit_entry list \<Rightarrow> bool" where
  "commits_file d hs \<longleftrightarrow>
     history_ok hs \<and>
     (hs = [] \<and> d_dir d commitsFile = None \<and> d_sdir d commitsFile = None \<or>
      (\<exists>i. d_dir d commitsFile = Some i \<and> d_sdir d commitsFile = Some i \<and>
         d_data d i = seg_bytes (commit_records hs) \<and> d_stable d i = d_data d i))"

text \<open>The commits log of a log, open or not.\<close>

definition group_inv :: "disk \<Rightarrow> 's Log \<Rightarrow> commit_entry list \<Rightarrow> bool" where
  "group_inv d l hs \<longleftrightarrow>
     (case l_commits l of None \<Rightarrow> commits_file d hs | Some c \<Rightarrow> commits_rep d c hs)"

lemma commits_rep_file: "commits_rep d c hs \<Longrightarrow> commits_file d hs"
  by (auto simp: commits_rep_def commits_file_def seg_rep_def)

lemma group_inv_file: "group_inv d l hs \<Longrightarrow> commits_file d hs"
  by (auto simp: group_inv_def commits_rep_file split: option.splits)

text \<open>A power cut takes nothing from the commits log.\<close>

lemma commits_file_crash: "commits_file d hs \<Longrightarrow> commits_file (disk_crash d) hs"
  by (auto simp: commits_file_def disk_crash_def intro: ranI)

lemma commitsFile_not_segment [simp]: "commitsFile \<notin> segment_names"
proof
  assume "commitsFile \<in> segment_names"
  then obtain b where "commitsFile = segmentName b" by blast
  from arg_cong [OF this, of length] show False by (simp add: commitsFile_def)
qed

lemma ValidateName_commitsFile [simp]: "ValidateName commitsFile = None"
  by (rule ValidateName_None) (simp_all add: commitsFile_def MaxNameLen_def)

lemma commit_event_sel [simp]: "e_Key (commit_event h) = fst h" "e_Time (commit_event h) = snd (snd h)"
  by (cases h, simp add: commit_event_def)+

text \<open>The history as \<open>CommitHistory\<close> lists it: every commit with its place in the sequence.\<close>

definition commit_of :: "nat \<Rightarrow> commit_entry \<Rightarrow> Commit" where
  "commit_of n h = \<lparr>cm_Seq = word_of_nat n, cm_Group = fst h, cm_Offset = fst (snd h), cm_Time = snd (snd h)\<rparr>"

fun commits_from :: "nat \<Rightarrow> commit_entry list \<Rightarrow> Commit list" where
  "commits_from n [] = []"
| "commits_from n (h # hs) = commit_of n h # commits_from (Suc n) hs"

context filesystem
begin

lemma commits_next:
  assumes "seg_rep d i seg (commit_records hs)" "s_base seg = 0"
  shows "s_next seg = word_of_nat (length hs)"
  using assms end_off_number [of 0 "map commit_event hs"] by (simp add: seg_rep_def seg_holds_def commit_records_def)

text \<open>One turn of either loop over the commits log.\<close>

lemma commits_turn:
  assumes "wf st" "seg_rep (abs st) i seg (commit_records hs)" "s_base seg = 0" "history_ok hs" "hs = xs @ y # ys"
  shows "seg_Read F seg (word_of_nat (length xs)) st =
      Inr \<lparr>r_Offset = word_of_nat (length xs), r_Event = commit_event y, r_Len = RecordLen (commit_event y)\<rparr>"
    and "(word_of_nat (length xs) :: Offset) < s_next seg"
proof -
  have len: "length hs < 2 ^ 64" using assms(4) by (simp add: history_ok_def)
  have "map_of (commit_records hs) (0 + word_of_nat (length xs)) = Some (map commit_event hs ! length xs)"
    unfolding commit_records_def using len assms(5) by (intro map_of_number) simp_all
  then have "map_of (commit_records hs) (word_of_nat (length xs)) = Some (commit_event y)"
    using assms(5) by (simp add: nth_append)
  then show "seg_Read F seg (word_of_nat (length xs)) st =
      Inr \<lparr>r_Offset = word_of_nat (length xs), r_Event = commit_event y, r_Len = RecordLen (commit_event y)\<rparr>"
    using seg_Read_lookup [OF assms(1,2), of "word_of_nat (length xs)"] by simp
  show "(word_of_nat (length xs) :: Offset) < s_next seg"
    using len assms(5) unfolding commits_next [OF assms(2,3)]
    by (simp add: word_less_nat_alt unat_of_nat take_bit_eq_mod del: of_nat_Suc of_nat_add)
qed

lemma replay_loop_ok:
  assumes "wf st" "seg_rep (abs st) i seg (commit_records hs)" "s_base seg = 0" "history_ok hs" "hs = xs @ ys"
  shows "replay_loop F st seg (word_of_nat (length xs)) m = Inr (latest_commits ys m)"
  using assms(5)
proof (induction ys arbitrary: xs m)
  case Nil
  then show ?case
    by (simp add: replay_loop.simps [of F st seg "word_of_nat (length xs)"] commits_next [OF assms(2,3)])
next
  case (Cons y ys)
  have "replay_loop F st seg (word_of_nat (length (xs @ [y]))) (AList.update (fst y) (fst (snd y)) m) =
      Inr (latest_commits ys (AList.update (fst y) (fst (snd y)) m))"
    using Cons.prems by (intro Cons.IH) simp
  then show ?case using commits_turn [OF assms(1-4) Cons.prems]
    by (simp add: replay_loop.simps [of F st seg "word_of_nat (length xs)"] add.commute)
qed

lemma history_loop_ok:
  assumes "wf st" "seg_rep (abs st) i seg (commit_records hs)" "s_base seg = 0" "history_ok hs" "hs = xs @ ys"
  shows "history_loop F st seg (word_of_nat (length xs)) acc = Inr (acc @ commits_from (length xs) ys)"
  using assms(5)
proof (induction ys arbitrary: xs acc)
  case Nil
  then show ?case
    by (simp add: history_loop.simps [of F st seg "word_of_nat (length xs)"] commits_next [OF assms(2,3)])
next
  case (Cons y ys)
  have "history_loop F st seg (word_of_nat (length (xs @ [y]))) (acc @ [commit_of (length xs) y]) =
      Inr ((acc @ [commit_of (length xs) y]) @ commits_from (length (xs @ [y])) ys)"
    using Cons.prems by (intro Cons.IH) simp
  then show ?case using commits_turn [OF assms(1-4) Cons.prems]
    by (simp add: history_loop.simps [of F st seg "word_of_nat (length xs)"] add.commute commit_of_def)
qed

lemma commits_replay_ok:
  assumes "wf st" "seg_rep (abs st) i seg (commit_records hs)" "s_base seg = 0" "history_ok hs"
  shows "commits_replay F seg st = Inr (latest_commits hs [])"
  using replay_loop_ok [OF assms, of "[]" hs "[]"] by (simp add: commits_replay_def)

end

text \<open>Keeping the commits log beside the segments changes nothing the log relies on.\<close>

lemma log_inv_commits [simp]: "log_inv d (l\<lparr>l_commits := c\<rparr>) pre b rs k = log_inv d l pre b rs k"
  by (simp add: log_inv_def log_rep_def active_def seg_at_def)

lemma commits_stranger:
  "no_links (d_dir d) \<Longrightarrow> d_dir d commitsFile = Some i \<Longrightarrow> stranger segment_names i d"
  unfolding stranger_def using commitsFile_not_segment no_linksD by metis

text \<open>A clock that counts from the start of a run never shows a negative time.\<close>

definition clock_ok :: "'s Config \<Rightarrow> bool" where
  "clock_ok cfg \<longleftrightarrow> (\<forall>now. c_Clock cfg = Some now \<longrightarrow> (\<forall>st. 0 \<le> sint (now st)))"

lemma framable_commit: "length name \<le> MaxKeyLen \<Longrightarrow> 0 \<le> sint t \<Longrightarrow> framable (commit_event (name, off, t))"
  by (simp add: framable_def commit_event_def commitSchema_def Event_Validate_None RecordLen_def MaxRecordLen_def MaxKeyLen_def
      MaxPayloadLen_def headerBytes_def HeaderLen_def)

context reliable_filesystem
begin

lemma commits_open_existing:
  assumes "wf st" "d_dir (abs st) commitsFile = Some i" "d_data (abs st) i = seg_bytes (commit_records hs)" "history_ok hs"
  obtains seg rec st' where "openNamed F commitsFile 0 opts True st = (Inr (seg, rec), st')" "wf st'"
    "abs st' = disk_open (s_file seg) i (abs st)" "d_node (abs st) (s_file seg) = None"
    "seg_rep (abs st') i seg (commit_records hs)" "s_base seg = 0" "\<not> s_sealed seg"
proof -
  have ok: "records_ok 0 (commit_records hs)" by (rule commit_records_ok [OF assms(4)])
  then have nw: "no_wrap (commit_records hs)" by (simp add: records_ok_def)
  have p: "parse 0 (d_data (abs st) i) = (commit_records hs, Clean)" using parse_seg_bytes [OF ok] assms(3) by simp
  obtain seg rec st' where o: "openNamed F commitsFile 0 opts True st = (Inr (seg, rec), st')"
    using openNamed_ok [OF assms(1) ValidateName_commitsFile assms(2)] by blast
  obtain j rs t where q: "d_dir (abs st) commitsFile = Some j" "parse 0 (d_data (abs st) j) = (rs, t)"
    "d_node (abs st) (s_file seg) = None" "wf st'" "abs st' = opened_disk (s_file seg) j True rs t (abs st)"
    "s_base seg = 0" "\<not> s_sealed seg"
    by (rule openNamed_parse [OF assms(1) o]) blast
  have "seg_rep (abs st') i seg (commit_records hs)" using openNamed_rep [OF assms(1) o assms(2) p nw] by simp
  with q p assms(2) o that show thesis by (simp add: opened_disk_def)
qed

lemma openCommits_ok:
  assumes "wf st" "log_inv (abs st) l pre b rs k" "group_inv (abs st) l hs"
  obtains c st' where "openCommits F l st = (None, l\<lparr>l_commits := Some c\<rparr>, st')" "wf st'"
    "log_inv (abs st') l pre b rs k" "commits_rep (abs st') c hs"
proof (cases "l_commits l")
  case (Some c)
  then have "l\<lparr>l_commits := Some c\<rparr> = l" by (cases l) simp
  then show thesis using Some assms that [of c st] by (simp add: openCommits_def group_inv_def)
next
  case None
  then have cf: "commits_file (abs st) hs" using assms(3) by (simp add: group_inv_def)
  then have hok: "history_ok hs" by (simp add: commits_file_def)
  let ?opts = "commits_opts (l_cfg l)"
  show thesis
  proof (cases "d_dir (abs st) commitsFile")
    case (Some i)
    then have i: "d_sdir (abs st) commitsFile = Some i" "d_data (abs st) i = seg_bytes (commit_records hs)"
      "d_stable (abs st) i = d_data (abs st) i" using cf by (auto simp: commits_file_def)
    obtain seg rec st' where o: "openNamed F commitsFile 0 ?opts True st = (Inr (seg, rec), st')" "wf st'"
      "abs st' = disk_open (s_file seg) i (abs st)" "d_node (abs st) (s_file seg) = None"
      "seg_rep (abs st') i seg (commit_records hs)" "s_base seg = 0" "\<not> s_sealed seg"
      using commits_open_existing [OF assms(1) Some i(2) hok] .
    have "log_inv (abs st') l pre b rs k"
      by (rule log_inv_same [OF assms(2)]) (simp add: o(3,4) same_files_open)
    moreover have "commits_rep (abs st') \<lparr>cm_seg = seg, cm_at = latest_commits hs []\<rparr> hs"
      using o(3,5,6,7) Some i hok by (simp add: commits_rep_def disk_open_def)
    ultimately show thesis
      using o(1,2) None commits_replay_ok [OF o(2,5,6) hok]
      by (intro that [of "\<lparr>cm_seg = seg, cm_at = latest_commits hs []\<rparr>" st']) (simp_all add: openCommits_def Let_def)
  next
    case none: None
    then have hs: "hs = []" "d_sdir (abs st) commitsFile = None" using cf by (auto simp: commits_file_def)
    obtain e st1 where op: "fs_Open F commitsFile st = (Inl e, st1)" "errors_Is e ErrNotExist"
      using Open_not_exist [OF assms(1) ValidateName_commitsFile none] by blast
    then have m: "wf st1" "abs st1 = abs st" using Open_missing [OF assms(1) op] by auto
    obtain h i st2 where c: "fs_Create F commitsFile st1 = (Inr h, st2)" "wf st2" "d_node (abs st) h = None"
      "fresh_inode i (abs st)" "abs st2 = disk_create commitsFile h i (abs st)"
      using Create_step [OF m(1) ValidateName_commitsFile] none unfolding m(2) .
    obtain st3 where s: "fs_Sync F st2 = (None, st3)" "wf st3" "abs st3 = disk_syncdir (abs st2)"
      using SyncDir_step [OF c(2)] .
    let ?seg = "fresh_segment h commitsFile (Options_withDefaults ?opts) 0"
    have rep: "seg_rep (abs st3) i ?seg (commit_records hs)"
      using fresh_segment_holds [of h commitsFile "Options_withDefaults ?opts" 0]
      by (simp add: seg_rep_def hs(1) commit_records_def s(3) c(5) disk_syncdir_def disk_create_def) (simp add: fresh_segment_def)
    have sd: "d_sdir (abs st) nm = d_dir (abs st) nm" if "nm \<in> segment_names" for nm
      using assms(2) that by (auto simp: log_inv_def log_durable_def)
    have same: "same_files segment_names (abs st) (abs st2)"
      unfolding c(5) using c(3,4) by (simp add: same_files_create)
    then have "same_files segment_names (abs st2) (abs st3)"
      unfolding s(3) using sd by (intro same_files_syncdir) (auto simp: same_files_def)
    then have li: "log_inv (abs st3) l pre b rs k"
      by (intro log_inv_same [OF assms(2)] same_files_trans [OF same])
    have cr: "commits_rep (abs st3) \<lparr>cm_seg = ?seg, cm_at = latest_commits hs []\<rparr> hs"
      using rep hok c(4) by (simp add: commits_rep_def s(3) c(5) disk_syncdir_def disk_create_def) (simp add: fresh_segment_def)
    have sb: "s_base ?seg = 0" by (simp add: fresh_segment_def)
    have "openCommits F l st = (None, l\<lparr>l_commits := Some \<lparr>cm_seg = ?seg, cm_at = latest_commits hs []\<rparr>\<rparr>, st3)"
      using op c(1) s(1) None commits_replay_ok [OF s(2) rep sb hok]
      by (simp add: openCommits_def openNamed_def createNamed_def Let_def)
    with s(2) li cr that show thesis by blast
  qed
qed

lemma group_Commit_ok:
  assumes "wf st" "log_inv (abs st) l pre b rs k" "group_inv (abs st) l hs" "Suc (length hs) < 2 ^ 64"
    and "log_First l \<le> off" "off \<le> log_Next l" "length name \<le> MaxKeyLen" "clock_ok (l_cfg l)"
  obtains t l' st' where "group_Commit F name off l st = (None, l', st')" "wf st'" "log_inv (abs st') l' pre b rs k"
    "group_inv (abs st') l' (hs @ [(name, off, t)])" "l' = l\<lparr>l_commits := l_commits l'\<rparr>" "l_commits l' \<noteq> None"
proof -
  obtain c st1 where o: "openCommits F l st = (None, l\<lparr>l_commits := Some c\<rparr>, st1)" "wf st1"
    "log_inv (abs st1) l pre b rs k" "commits_rep (abs st1) c hs"
    using openCommits_ok [OF assms(1-3)] .
  obtain i where i: "d_dir (abs st1) commitsFile = Some i" "d_sdir (abs st1) commitsFile = Some i"
    "seg_rep (abs st1) i (cm_seg c) (commit_records hs)" "d_stable (abs st1) i = d_data (abs st1) i"
    using o(4) by (auto simp: commits_rep_def)
  have hok: "history_ok hs" and at: "cm_at c = latest_commits hs []" and sg: "\<not> s_sealed (cm_seg c)" "s_base (cm_seg c) = 0"
    using o(4) by (simp_all add: commits_rep_def)
  define t where "t = (case c_Clock (l_cfg l) of None \<Rightarrow> 0 | Some now \<Rightarrow> now st1)"
  let ?e = "commit_event (name, off, t)" and ?hs = "hs @ [(name, off, t)]"
  have "0 \<le> sint t" using assms(8) by (auto simp: t_def clock_ok_def split: option.split)
  then have fr: "framable ?e" by (rule framable_commit [OF assms(7)])
  have nx: "s_next (cm_seg c) = word_of_nat (length hs)"
    using i(3) sg(2) end_off_number [of 0 "map commit_event hs"] by (simp add: seg_rep_def seg_holds_def commit_records_def)
  then have lt: "unat (s_next (cm_seg c)) + length [?e] < 2 ^ 64"
    using assms(4) by (simp add: unat_of_nat take_bit_eq_mod)
  have nd: "d_node (abs st1) (s_file (cm_seg c)) = Some i" using i(3) by (simp add: seg_rep_def)
  then have nd': "d_node (abs st1) (s_file (cm_seg c)) \<noteq> None" by simp
  obtain n first err s' st2 where a: "seg_AppendAll F [?e] (cm_seg c) st1 = ((n, first, err), s', st2)" "\<not> s_sealed s'"
    using seg_AppendAll_ok [OF o(2) nd' sg(1), of "[?e]"] by blast
  note r = seg_AppendAll_rep [OF o(2) i(3) lt a]
  have n: "n = 1 \<and> err = None"
    using r(2,4,7) fr by (cases n) (auto simp: first_bad_def split: option.splits)
  have recs: "commit_records hs @ number first (take n [?e]) = commit_records ?hs"
    using n r(3) nx by (simp add: commit_records_def number_append)
  have rep: "seg_rep (abs st2) i s' (commit_records ?hs)" using r(6) unfolding recs .
  then have nd2: "d_node (abs st2) (s_file s') = Some i" by (simp add: seg_rep_def)
  obtain st3 where s: "seg_Sync F s' st2 = (None, st3)" "wf st3" "abs st3 = disk_sync i (abs st2)"
    using seg_Sync_ok [OF r(1) nd2] .
  have str: "stranger segment_names i (abs st1)" by (rule commits_stranger [OF Dir_law [OF o(2)] i(1)])
  have s1: "same_files segment_names (abs st1) (abs st2)" unfolding r(5) by (rule same_files_strange(1) [OF str])
  then have "same_files segment_names (abs st2) (abs st3)"
    unfolding s(3) by (intro same_files_strange(2) stranger_same [OF str])
  then have li: "log_inv (abs st3) l pre b rs k" by (intro log_inv_same [OF o(3)] same_files_trans [OF s1])
  let ?c = "\<lparr>cm_seg = s', cm_at = AList.update name off (cm_at c)\<rparr>"
  have "s_base s' = 0" using arg_cong [OF r(8), of s_base] sg(2) by simp
  moreover have "history_ok ?hs" using hok assms(4) fr by (simp add: history_ok_def)
  moreover have "d_dir (abs st3) commitsFile = Some i" "d_sdir (abs st3) commitsFile = Some i"
    using i(1,2) by (simp_all add: s(3) r(5) disk_sync_def disk_append_def)
  moreover have "seg_rep (abs st3) i s' (commit_records ?hs)" "d_stable (abs st3) i = d_data (abs st3) i"
    using rep by (simp_all add: s(3) seg_rep_def disk_sync_def)
  ultimately have cr: "commits_rep (abs st3) ?c ?hs" using a(2) at by (simp add: commits_rep_def latest_commits_append)
  have "group_Commit F name off l st = (None, l\<lparr>l_commits := Some ?c\<rparr>, st3)"
    using assms(5,6) o(1) a(1) n s(1)
    by (simp add: group_Commit_def seg_Append_def not_less Let_def commit_event_def t_def)
  then show thesis using s(2) li cr by (intro that [of "l\<lparr>l_commits := Some ?c\<rparr>" st3 t]) (simp_all add: group_inv_def)
qed

lemma group_Committed_ok:
  assumes "wf st" "log_inv (abs st) l pre b rs k" "group_inv (abs st) l hs"
  obtains c st' where "wf st'" "log_inv (abs st') (l\<lparr>l_commits := Some c\<rparr>) pre b rs k" "commits_rep (abs st') c hs"
    "group_Committed F name l st =
      ((case find (\<lambda>h. fst h = name) (rev hs) of
          None \<Rightarrow> (log_First l, Some (Errorf ''%w: %s'' [Sentinel ErrNoGroup]))
        | Some h \<Rightarrow> (fst (snd h), None)), l\<lparr>l_commits := Some c\<rparr>, st')"
proof -
  obtain c st' where o: "openCommits F l st = (None, l\<lparr>l_commits := Some c\<rparr>, st')" "wf st'"
    "log_inv (abs st') l pre b rs k" "commits_rep (abs st') c hs"
    using openCommits_ok [OF assms] .
  have at: "map_of (cm_at c) name = (case find (\<lambda>h. fst h = name) (rev hs) of None \<Rightarrow> None | Some h \<Rightarrow> Some (fst (snd h)))"
    using o(4) map_of_latest [of hs "[]" name] by (simp add: commits_rep_def split: option.split)
  then show thesis using o
    by (intro that [of st' c]) (simp_all add: group_Committed_def log_First_def split: option.split)
qed

lemma log_CommitHistory_ok:
  assumes "wf st" "log_inv (abs st) l pre b rs k" "group_inv (abs st) l hs"
  obtains c st' where "wf st'" "log_inv (abs st') (l\<lparr>l_commits := Some c\<rparr>) pre b rs k" "commits_rep (abs st') c hs"
    "log_CommitHistory F l st = (Inr (commits_from 0 hs), l\<lparr>l_commits := Some c\<rparr>, st')"
proof -
  obtain c st' where o: "openCommits F l st = (None, l\<lparr>l_commits := Some c\<rparr>, st')" "wf st'"
    "log_inv (abs st') l pre b rs k" "commits_rep (abs st') c hs"
    using openCommits_ok [OF assms] .
  obtain i where i: "seg_rep (abs st') i (cm_seg c) (commit_records hs)" "s_base (cm_seg c) = 0" "history_ok hs"
    using o(4) by (auto simp: commits_rep_def)
  show thesis using o history_loop_ok [OF o(2) i, of "[]" hs "[]"] that by (simp add: log_CommitHistory_def)
qed

text \<open>A power cut and a new start: the log keeps its durable prefix and every commit.\<close>

lemma group_crash_Open:
  assumes "log_inv d l pre b rs k" "group_inv d l hs" "wf st" "abs st = disk_crash d" "openable cfg"
  obtains l' rec st' where "log_Open F cfg st = (Inr (l', rec), st')" "wf st'"
    "log_inv (abs st') l' pre b (take k rs) k" "group_inv (abs st') l' hs" "R_Corrupt rec = None"
    "l_cfg l' = Config_withDefaults cfg"
proof -
  obtain l' rec st' where o: "log_Open F cfg st = (Inr (l', rec), st')" "wf st'"
    "log_inv (abs st') l' pre b (take k rs) k" "R_Corrupt rec = None" "l_cfg l' = Config_withDefaults cfg"
    "l_commits l' = None" "\<And>N. N \<inter> segment_names = {} \<Longrightarrow> same_files N (abs st) (abs st')"
    by (rule log_crash_Open [OF assms(1,3,4,5)]) blast
  have "same_files {commitsFile} (abs st) (abs st')" by (rule o(7)) (use commitsFile_not_segment in blast)
  moreover have "commits_file (abs st) hs" using commits_file_crash [OF group_inv_file [OF assms(2)]] assms(4) by simp
  ultimately have "group_inv (abs st') l' hs" using o(6) by (auto simp: group_inv_def commits_file_def same_files_def)
  with o that show thesis by blast
qed

end

end
