(* ===== verification/Log_Snapshot.thy ===== *)
theory Log_Snapshot
  imports Log_Group
begin

text \<open>
  Snapshots, \<^verbatim>\<open>log/snapshot.go\<close>: a projection's state and the offset it was folded to, written
  as one framed record under a temporary name and renamed into place. The lemmas show that
  what was written is what is loaded, that a power cut does not take it back, and that none
  of it touches the segments or the commits log.
\<close>

section \<open>Names\<close>

definition snapshotPrefix :: string where "snapshotPrefix = ''snapshot-''"

definition snapshotSuffix :: string where "snapshotSuffix = ''.state''"

record Snapshot =
  sn_Offset :: Offset
  sn_State :: bytes

definition snapshotName :: "Offset \<Rightarrow> string" where
  "snapshotName off = snapshotPrefix @ zero_padded segmentDigits (unat off) @ snapshotSuffix"

definition CutPrefix :: "string \<Rightarrow> string \<Rightarrow> string option" where
  "CutPrefix s prefix =
     (if length prefix \<le> length s \<and> take (length prefix) s = prefix then Some (drop (length prefix) s) else None)"

definition parseSnapshotName :: "string \<Rightarrow> Offset option" where
  "parseSnapshotName name =
     (case CutPrefix name snapshotPrefix of
        None \<Rightarrow> None
      | Some rest \<Rightarrow>
          (case CutSuffix rest snapshotSuffix of
             None \<Rightarrow> None
           | Some digits \<Rightarrow> if length digits \<noteq> segmentDigits then None else ParseUint64 digits))"

section \<open>The operations\<close>

definition snapshotOffsets :: "'s fs_ops \<Rightarrow> 's \<Rightarrow> Offset list res" where
  "snapshotOffsets F st =
     (case fs_List F st of
        Inl err \<Rightarrow> Inl (Errorf ''log: list snapshots: %w'' [err])
      | Inr names \<Rightarrow> Inr (List.map_filter parseSnapshotName names))"

fun remove_loop :: "'s fs_ops \<Rightarrow> Offset \<Rightarrow> Offset list \<Rightarrow> 's \<Rightarrow> error option \<times> 's" where
  "remove_loop F keep [] st = (None, st)"
| "remove_loop F keep (off # offsets) st =
     (if keep \<le> off then remove_loop F keep offsets st
      else
        (case fs_Remove F (snapshotName off) st of
           (None, st) \<Rightarrow> remove_loop F keep offsets st
         | (Some err, st) \<Rightarrow>
             if errors_Is err ErrNotExist then remove_loop F keep offsets st
             else (Some (Errorf ''log: remove the snapshot at %d: %w'' [err]), st)))"

definition removeOlderSnapshots :: "'s fs_ops \<Rightarrow> Offset \<Rightarrow> 's \<Rightarrow> error option \<times> 's" where
  "removeOlderSnapshots F keep st =
     (case snapshotOffsets F st of
        Inl err \<Rightarrow> (Some err, st)
      | Inr offsets \<Rightarrow> remove_loop F keep offsets st)"

definition snapshot_event :: "bytes \<Rightarrow> event" where
  "snapshot_event state = \<lparr>e_Key = [], e_Time = 0, e_Schema = commitSchema, e_Payload = state\<rparr>"

definition log_Snapshot :: "'s fs_ops \<Rightarrow> Offset \<Rightarrow> bytes \<Rightarrow> 's Log \<Rightarrow> 's \<Rightarrow> error option \<times> 's" where
  "log_Snapshot F off state l st =
     (if off < log_First l \<or> off > log_Next l then
        (Some (Errorf ''%w: cannot snapshot at %d, the log holds [%d, %d]'' [Sentinel ErrNotFound]), st)
      else
        let name = snapshotName off; tmp = name @ compactingSuffix in
        (case removeStale F tmp st of
           (Some err, st) \<Rightarrow> (Some err, st)
         | (None, st) \<Rightarrow>
             (case createNamed F tmp off (c_Segment (l_cfg l)) st of
                (Inl err, st) \<Rightarrow> (Some err, st)
              | (Inr seg, st) \<Rightarrow>
                  let (err, seg, st) = seg_appendAt F off (snapshot_event state) seg st;
                      (err, st) = (case err of None \<Rightarrow> seg_Sync F seg st | Some err \<Rightarrow> (Some err, st));
                      st = snd (seg_Close F seg st)
                  in (case err of
                        Some err \<Rightarrow>
                          (Some (Errorf ''log: write the snapshot at %d: %w'' [err]), snd (fs_Remove F tmp st))
                      | None \<Rightarrow>
                          (case fs_Rename F tmp name st of
                             (Some err, st) \<Rightarrow>
                               (Some (Errorf ''log: swap in the snapshot at %d: %w'' [err]), snd (fs_Remove F tmp st))
                           | (None, st) \<Rightarrow>
                               (case fs_Sync F st of
                                  (Some err, st) \<Rightarrow>
                                    (Some (Errorf ''log: sync the directory after snapshotting at %d: %w'' [err]), st)
                                | (None, st) \<Rightarrow> removeOlderSnapshots F off st))))))"

definition log_LatestSnapshot :: "'s fs_ops \<Rightarrow> 's Log \<Rightarrow> 's \<Rightarrow> Snapshot res \<times> 's" where
  "log_LatestSnapshot F l st =
     (case snapshotOffsets F st of
        Inl err \<Rightarrow> (Inl err, st)
      | Inr [] \<Rightarrow> (Inl (Sentinel ErrNoSnapshot), st)
      | Inr offsets \<Rightarrow>
          let latest = last offsets; name = snapshotName latest in
          (case openNamed F name latest (c_Segment (l_cfg l)) False st of
             (Inl err, st) \<Rightarrow> (Inl (Errorf ''log: open the snapshot at %d: %w'' [err]), st)
           | (Inr (seg, rec), st) \<Rightarrow>
               ((case R_Corrupt rec of
                   Some err \<Rightarrow> Inl (Errorf ''log: the snapshot at %d is damaged: %w'' [err])
                 | None \<Rightarrow>
                     if R_Torn rec \<or> R_Records rec \<noteq> 1 then
                       Inl (Errorf ''%w: the snapshot at %d holds %d records and %d torn bytes'' [Sentinel ErrCorrupt])
                     else
                       (case seg_Read F seg latest st of
                          Inl err \<Rightarrow> Inl (Errorf ''log: read the snapshot at %d: %w'' [err])
                        | Inr record \<Rightarrow> Inr \<lparr>sn_Offset = latest, sn_State = e_Payload (r_Event record)\<rparr>)),
                snd (seg_Close F seg st))))"

text \<open>A Go caller gets a snapshot, a reader and an error; the zero snapshot has offset 0 and no state.\<close>

definition log_Restore :: "'s fs_ops \<Rightarrow> 's Log \<Rightarrow> 's \<Rightarrow> (Snapshot \<times> Reader res) \<times> 's" where
  "log_Restore F l st =
     (case log_LatestSnapshot F l st of
        (Inr snap, st) \<Rightarrow> ((snap, log_Reader (sn_Offset snap) l), st)
      | (Inl err, st) \<Rightarrow>
          if errors_Is err ErrNoSnapshot then
            ((\<lparr>sn_Offset = log_First l, sn_State = []\<rparr>, log_Reader (log_First l) l), st)
          else ((\<lparr>sn_Offset = 0, sn_State = []\<rparr>, Inl err), st))"

section \<open>Names, both ways\<close>

lemma parseSnapshotName_name [simp]: "parseSnapshotName (snapshotName off) = Some off"
  by (simp add: parseSnapshotName_def snapshotName_def CutPrefix_def CutSuffix_def)

lemma parseSnapshotName_Some: "parseSnapshotName nm = Some off \<longleftrightarrow> nm = snapshotName off"
proof
  assume p: "parseSnapshotName nm = Some off"
  then obtain rest digits where d: "CutPrefix nm snapshotPrefix = Some rest" "CutSuffix rest snapshotSuffix = Some digits"
    "length digits = segmentDigits" "ParseUint64 digits = Some off"
    by (auto simp: parseSnapshotName_def split: option.splits if_splits)
  have "nm = snapshotPrefix @ rest" using d(1) by (auto simp: CutPrefix_def split: if_splits) (metis append_take_drop_id)
  moreover have "rest = digits @ snapshotSuffix"
    using d(2) by (auto simp: CutSuffix_def split: if_splits) (metis append_take_drop_id)
  moreover have "digits = zero_padded segmentDigits (unat off)"
    using d(3) ParseUint64_Some [OF d(4)] by (intro padded_digits_unique) simp_all
  ultimately show "nm = snapshotName off" by (simp add: snapshotName_def)
qed simp

lemma snapshotName_inject [simp]: "snapshotName a = snapshotName b \<longleftrightarrow> a = b"
  by (metis option.inject parseSnapshotName_name)

lemma less_append_prefix: "(p :: string) @ a < p @ b \<longleftrightarrow> a < b"
  by (induction p) auto

lemma snapshotName_less_iff: "snapshotName a < snapshotName b \<longleftrightarrow> a < b"
  by (simp add: snapshotName_def less_append_prefix less_append_suffix digits_less_iff word_less_nat_alt)

lemma length_snapshotName [simp]: "length (snapshotName off) = 35"
  by (simp add: snapshotName_def snapshotPrefix_def snapshotSuffix_def) (simp add: segmentDigits_def)

lemma ValidateName_snapshotName [simp]: "ValidateName (snapshotName off) = None"
  unfolding snapshotName_def
  by (rule ValidateName_digits) (simp_all add: snapshotPrefix_def snapshotSuffix_def)

lemma ValidateName_snapshot_tmp [simp]: "ValidateName (snapshotName off @ compactingSuffix) = None"
  using ValidateName_digits [of "zero_padded segmentDigits (unat off)" snapshotPrefix "snapshotSuffix @ compactingSuffix"]
  by (simp add: snapshotName_def) (simp add: snapshotPrefix_def snapshotSuffix_def compactingSuffix_def)

abbreviation snapshot_names :: "string set" where
  "snapshot_names \<equiv> range snapshotName \<union> range (\<lambda>off. snapshotName off @ compactingSuffix)"

lemma length_compactingSuffix [simp]: "length compactingSuffix = 11"
  by (simp add: compactingSuffix_def)

lemma compactingSuffix_not_Nil [simp]: "compactingSuffix \<noteq> []"
  by (simp add: compactingSuffix_def)

lemma sorted_le_last: "sorted xs \<Longrightarrow> x \<in> set xs \<Longrightarrow> x \<le> last xs"
  by (induction xs) auto

lemma tmp_not_snapshot [simp]: "snapshotName a @ compactingSuffix \<noteq> snapshotName b"
proof
  assume "snapshotName a @ compactingSuffix = snapshotName b"
  from arg_cong [OF this, of length] show False by simp
qed

lemma snapshot_not_segment: "snapshot_names \<inter> segment_names = {}"
proof -
  have "snapshotName a \<noteq> segmentName b" "snapshotName a @ compactingSuffix \<noteq> segmentName b" for a b
    by (simp_all add: neq_if_length_neq)
  then show ?thesis by blast
qed

lemma commitsFile_not_snapshot: "commitsFile \<notin> snapshot_names"
proof -
  have "commitsFile \<noteq> snapshotName a" "commitsFile \<noteq> snapshotName a @ compactingSuffix" for a
    by (simp_all add: neq_if_length_neq commitsFile_def)
  then show ?thesis by blast
qed

section \<open>What is on the disk\<close>

definition snap_file :: "disk \<Rightarrow> Offset \<Rightarrow> bytes \<Rightarrow> bool" where
  "snap_file d off state \<longleftrightarrow>
     framable (snapshot_event state) \<and>
     (\<exists>i. d_dir d (snapshotName off) = Some i \<and> d_sdir d (snapshotName off) = Some i \<and>
        d_data d i = encode off (snapshot_event state) \<and> d_stable d i = d_data d i)"

text \<open>The newest snapshot, whether the directory was synced since the older ones went or not.\<close>

definition latest_snap :: "disk \<Rightarrow> Offset \<Rightarrow> bytes \<Rightarrow> bool" where
  "latest_snap d off state \<longleftrightarrow>
     snap_file d off state \<and>
     (\<forall>x. d_dir d (snapshotName x) \<noteq> None \<or> d_sdir d (snapshotName x) \<noteq> None \<longrightarrow> x \<le> off)"

definition snaps_below :: "disk \<Rightarrow> Offset \<Rightarrow> bool" where
  "snaps_below d off \<longleftrightarrow> (\<forall>x. d_dir d (snapshotName x) \<noteq> None \<or> d_sdir d (snapshotName x) \<noteq> None \<longrightarrow> x \<le> off)"

lemma latest_snap_crash: "latest_snap d off state \<Longrightarrow> latest_snap (disk_crash d) off state"
  by (auto simp: latest_snap_def snap_file_def disk_crash_def intro: ranI)

lemma latest_snap_same:
  "latest_snap d off state \<Longrightarrow> same_files (range snapshotName) d d' \<Longrightarrow> latest_snap d' off state"
  by (auto simp: latest_snap_def snap_file_def same_files_def)

lemma stranger_create: "fresh_inode j d \<Longrightarrow> nm \<notin> N \<Longrightarrow> stranger N j (disk_create nm h j d)"
  by (auto simp: stranger_def fresh_inode_def ran_def disk_create_def)

lemma same_files_rename:
  "old \<notin> N \<Longrightarrow> new \<notin> N \<Longrightarrow> same_files N d (disk_rename old new d)"
  by (auto simp: same_files_def disk_rename_def)

context reliable_filesystem
begin

lemma snapshotOffsets_ok:
  assumes "wf st"
  obtains offs where "snapshotOffsets F st = Inr offs" "sorted offs"
    "\<And>x. x \<in> set offs \<longleftrightarrow> d_dir (abs st) (snapshotName x) \<noteq> None"
proof -
  obtain ns where ns: "fs_List F st = Inr ns" "sorted ns" "set ns = dom (d_dir (abs st))"
    using List_ok [OF assms] List_law [OF assms] by blast
  have "sorted (List.map_filter parseSnapshotName ns)" using ns(2)
  proof (induction ns)
    case (Cons n ns)
    have "a \<le> b" if "parseSnapshotName n = Some a" "x \<in> set ns" "parseSnapshotName x = Some b" for a b x
    proof -
      have "snapshotName a \<le> snapshotName b" using that Cons.prems by (simp add: parseSnapshotName_Some)
      then show ?thesis using snapshotName_less_iff [of b a] by (simp add: not_less [symmetric])
    qed
    then show ?case using Cons by (auto simp: List.map_filter_simps split: option.split) (auto simp: List.map_filter_def)
  qed (simp add: List.map_filter_simps)
  moreover have "x \<in> set (List.map_filter parseSnapshotName ns) \<longleftrightarrow> d_dir (abs st) (snapshotName x) \<noteq> None" for x
    using ns(3) by (auto simp: List.map_filter_def parseSnapshotName_Some image_iff domIff)
  ultimately show thesis using ns(1) that by (simp add: snapshotOffsets_def)
qed

text \<open>Removing a name that may be missing already.\<close>

lemma Remove_any:
  assumes "wf st" "ValidateName nm = None"
  obtains r st' where "fs_Remove F nm st = (r, st')" "wf st'" "abs st' = disk_remove nm (abs st)"
    "\<And>e. r = Some e \<Longrightarrow> errors_Is e ErrNotExist"
proof (cases "d_dir (abs st) nm")
  case None
  then obtain e st' where e: "fs_Remove F nm st = (Some e, st')" "errors_Is e ErrNotExist"
    using Remove_not_exist [OF assms] by blast
  moreover have "disk_remove nm (abs st) = abs st" using None by (simp add: disk_remove_def fun_upd_idem)
  ultimately show thesis using Remove_missing [OF assms(1) e] that [of "Some e" st'] by simp
next
  case (Some i)
  then show thesis using Remove_step [OF assms] that [of None] by (metis option.distinct(1))
qed

lemma remove_loop_ok:
  assumes "wf st"
  shows "\<exists>st'. remove_loop F keep offs st = (None, st') \<and> wf st' \<and> d_sdir (abs st') = d_sdir (abs st) \<and>
    (\<forall>N. N \<inter> snapshotName ` {..<keep} = {} \<longrightarrow> same_files N (abs st) (abs st')) \<and>
    (\<forall>x. d_dir (abs st') (snapshotName x) =
       (if x \<in> set offs \<and> x < keep then None else d_dir (abs st) (snapshotName x)))"
  using assms
proof (induction offs arbitrary: st)
  case (Cons x offs)
  show ?case
  proof (cases "keep \<le> x")
    case True
    then have "(y \<in> set (x # offs) \<and> y < keep) \<longleftrightarrow> (y \<in> set offs \<and> y < keep)" for y by auto
    then show ?thesis using Cons True by simp
  next
    case False
    obtain r st1 where r: "fs_Remove F (snapshotName x) st = (r, st1)" "wf st1"
      "abs st1 = disk_remove (snapshotName x) (abs st)" "\<And>e. r = Some e \<Longrightarrow> errors_Is e ErrNotExist"
      by (rule Remove_any [OF Cons.prems ValidateName_snapshotName [of x]]) blast
    obtain st' where st': "remove_loop F keep offs st1 = (None, st')" "wf st'" "d_sdir (abs st') = d_sdir (abs st1)"
      "\<And>N. N \<inter> snapshotName ` {..<keep} = {} \<Longrightarrow> same_files N (abs st1) (abs st')"
      "\<And>y. d_dir (abs st') (snapshotName y) =
        (if y \<in> set offs \<and> y < keep then None else d_dir (abs st1) (snapshotName y))"
      using Cons.IH [OF r(2)] by metis
    have "same_files N (abs st) (abs st')" if "N \<inter> snapshotName ` {..<keep} = {}" for N
    proof (rule same_files_trans [OF _ st'(4) [OF that]])
      show "same_files N (abs st) (abs st1)" unfolding r(3) using that False by (intro same_files_remove) auto
    qed
    moreover have "remove_loop F keep (x # offs) st = (None, st')"
      using False r(1,4) st'(1) by (cases r) simp_all
    ultimately show ?thesis using st'(2,3,5) False by (intro exI [of _ st']) (auto simp: r(3) disk_remove_def)
  qed
qed simp

lemma removeOlderSnapshots_ok:
  assumes "wf st"
  obtains st' where "removeOlderSnapshots F keep st = (None, st')" "wf st'" "d_sdir (abs st') = d_sdir (abs st)"
    "\<And>N. N \<inter> snapshotName ` {..<keep} = {} \<Longrightarrow> same_files N (abs st) (abs st')"
    "\<And>x. d_dir (abs st') (snapshotName x) = (if x < keep then None else d_dir (abs st) (snapshotName x))"
proof -
  obtain offs where o: "snapshotOffsets F st = Inr offs" "\<And>x. x \<in> set offs \<longleftrightarrow> d_dir (abs st) (snapshotName x) \<noteq> None"
    using snapshotOffsets_ok [OF assms] by metis
  obtain st' where r: "remove_loop F keep offs st = (None, st')" "wf st'" "d_sdir (abs st') = d_sdir (abs st)"
    "\<And>N. N \<inter> snapshotName ` {..<keep} = {} \<Longrightarrow> same_files N (abs st) (abs st')"
    "\<And>x. d_dir (abs st') (snapshotName x) = (if x \<in> set offs \<and> x < keep then None else d_dir (abs st) (snapshotName x))"
    using remove_loop_ok [OF assms, of keep offs] by metis
  show thesis by (rule that [OF _ r(2,3,4)]) (use o r(1,5) in \<open>auto simp: removeOlderSnapshots_def\<close>)
qed

text \<open>The record written under the temporary name, synced and closed.\<close>

lemma snapshot_write_ok:
  assumes "wf st" "framable (snapshot_event state)" "off \<noteq> - 1" "ValidateName tmp = None"
  obtains h st1 st2 seg st3 st4 st5 j where "removeStale F tmp st = (None, st1)"
    "createNamed F tmp off opts st1 = (Inr (fresh_segment h tmp (Options_withDefaults opts) off), st2)"
    "seg_appendAt F off (snapshot_event state) (fresh_segment h tmp (Options_withDefaults opts) off) st2 = (None, seg, st3)"
    "seg_Sync F seg st3 = (None, st4)" "seg_Close F seg st4 = (None, st5)" "wf st5"
    "\<And>N. tmp \<notin> N \<Longrightarrow> same_files N (abs st) (abs st5)" "d_dir (abs st5) tmp = Some j"
    "d_data (abs st5) j = encode off (snapshot_event state)" "d_stable (abs st5) j = d_data (abs st5) j"
proof -
  let ?opts = "Options_withDefaults opts" and ?e = "snapshot_event state"
  obtain st1 where s1: "removeStale F tmp st = (None, st1)" "wf st1" "d_dir (abs st1) tmp = None"
    "\<And>N. tmp \<notin> N \<Longrightarrow> same_files N (abs st) (abs st1)"
    by (rule removeStale_ok [OF assms(1,4)]) blast
  obtain h j st2 where s2: "fs_Create F tmp st1 = (Inr h, st2)" "wf st2" "d_node (abs st1) h = None" "fresh_inode j (abs st1)"
    "abs st2 = disk_create tmp h j (abs st1)"
    using Create_step [OF s1(2) assms(4) s1(3)] .
  let ?seg = "fresh_segment h tmp ?opts off"
  have rep: "seg_rep (abs st2) j ?seg []"
    using fresh_segment_holds [of h tmp ?opts off] by (simp add: seg_rep_def s2(5) disk_create_def) (simp add: fresh_segment_def)
  then have nd: "d_node (abs st2) (s_file ?seg) \<noteq> None" by (simp add: seg_rep_def)
  have le: "s_next ?seg \<le> off" by (simp add: fresh_segment_def)
  obtain seg st3 where a: "seg_appendAt F off ?e ?seg st2 = (None, seg, st3)"
    using seg_appendAt_ok [OF s2(2) nd assms(2) le] by blast
  note r = seg_appendAt_rep [OF s2(2) rep assms(3) a]
  have n3: "d_node (abs st3) (s_file seg) = Some j" using r(5) by (simp add: seg_rep_def)
  obtain st4 where s4: "seg_Sync F seg st3 = (None, st4)" "wf st4" "abs st4 = disk_sync j (abs st3)"
    using seg_Sync_ok [OF r(1) n3] .
  have n4: "d_node (abs st4) (s_file seg) = Some j" using n3 by (simp add: s4(3) disk_sync_def)
  obtain st5 where s5: "seg_Close F seg st4 = (None, st5)" "wf st5" "abs st5 = disk_close (s_file seg) (abs st4)"
    using seg_Close_ok [OF s4(2) n4] .
  have "same_files N (abs st) (abs st5)" if N: "tmp \<notin> N" for N
  proof -
    have a2: "same_files N (abs st1) (abs st2)" unfolding s2(5) by (rule same_files_create [OF N s2(4,3)])
    have st2: "stranger N j (abs st2)" unfolding s2(5) by (rule stranger_create [OF s2(4) N])
    have a3: "same_files N (abs st2) (abs st3)" unfolding r(4) by (rule same_files_strange(1) [OF st2])
    have a4: "same_files N (abs st3) (abs st4)" unfolding s4(3) by (rule same_files_strange(2) [OF stranger_same [OF st2 a3]])
    have "stranger N j (abs st4)" by (rule stranger_same [OF st2 same_files_trans [OF a3 a4]])
    then have "same_files N (abs st4) (abs st5)" unfolding s5(3) by (rule same_files_strange(3) [OF _ n4])
    then show ?thesis using s1(4) [OF N] a2 a3 a4 same_files_trans by meson
  qed
  moreover have "d_dir (abs st5) tmp = Some j" "d_stable (abs st5) j = d_data (abs st5) j"
    by (simp_all add: s5(3) s4(3) r(4) s2(5) disk_defs)
  moreover have "d_data (abs st5) j = encode off ?e"
    using r(5) by (simp add: s5(3) s4(3) disk_close_def disk_sync_def seg_rep_def seg_bytes_def)
  ultimately show thesis
    using s1(1) s2(1) a s4(1) s5(1,2) by (intro that [of st1 h st2 seg st3 st4 st5 j]) (simp_all add: createNamed_def Let_def)
qed

lemma log_Snapshot_ok:
  assumes "wf st" "log_First l \<le> off" "off \<le> log_Next l" "off \<noteq> - 1" "framable (snapshot_event state)" "snaps_below (abs st) off"
  obtains st' where "log_Snapshot F off state l st = (None, st')" "wf st'" "latest_snap (abs st') off state"
    "\<And>x. d_dir (abs st') (snapshotName x) \<noteq> None \<longleftrightarrow> x = off"
    "\<And>N. N \<inter> snapshot_names = {} \<Longrightarrow> (\<And>nm. nm \<in> N \<Longrightarrow> d_sdir (abs st) nm = d_dir (abs st) nm) \<Longrightarrow> same_files N (abs st) (abs st')"
proof -
  let ?tmp = "snapshotName off @ compactingSuffix" and ?nm = "snapshotName off"
  obtain h st1 st2 seg st3 st4 st5 j where w: "removeStale F ?tmp st = (None, st1)"
    "createNamed F ?tmp off (c_Segment (l_cfg l)) st1 = (Inr (fresh_segment h ?tmp (Options_withDefaults (c_Segment (l_cfg l))) off), st2)"
    "seg_appendAt F off (snapshot_event state) (fresh_segment h ?tmp (Options_withDefaults (c_Segment (l_cfg l))) off) st2 = (None, seg, st3)"
    "seg_Sync F seg st3 = (None, st4)" "seg_Close F seg st4 = (None, st5)" "wf st5"
    "\<And>N. ?tmp \<notin> N \<Longrightarrow> same_files N (abs st) (abs st5)" "d_dir (abs st5) ?tmp = Some j"
    "d_data (abs st5) j = encode off (snapshot_event state)" "d_stable (abs st5) j = d_data (abs st5) j"
    by (rule snapshot_write_ok [OF assms(1,5,4) ValidateName_snapshot_tmp]) blast
  have ex: "d_dir (abs st5) ?tmp \<noteq> None" using w(8) by simp
  obtain st6 where s6: "fs_Rename F ?tmp ?nm st5 = (None, st6)" "wf st6" "abs st6 = disk_rename ?tmp ?nm (abs st5)"
    using Rename_step [OF w(6) ValidateName_snapshot_tmp ValidateName_snapshotName ex] .
  obtain st7 where s7: "fs_Sync F st6 = (None, st7)" "wf st7" "abs st7 = disk_syncdir (abs st6)"
    using SyncDir_step [OF s6(2)] .
  obtain st8 where s8: "removeOlderSnapshots F off st7 = (None, st8)" "wf st8" "d_sdir (abs st8) = d_sdir (abs st7)"
    "\<And>N. N \<inter> snapshotName ` {..<off} = {} \<Longrightarrow> same_files N (abs st7) (abs st8)"
    "\<And>x. d_dir (abs st8) (snapshotName x) = (if x < off then None else d_dir (abs st7) (snapshotName x))"
    by (rule removeOlderSnapshots_ok [OF s7(2), of off]) blast
  have d7: "d_dir (abs st7) = ((d_dir (abs st5))(?tmp := None))(?nm \<mapsto> j)" "d_sdir (abs st7) = d_dir (abs st7)"
    "d_data (abs st7) = d_data (abs st5)" "d_stable (abs st7) = d_stable (abs st5)"
    using w(8) by (simp_all add: s7(3) s6(3) disk_syncdir_def disk_rename_def)
  have "same_files (range snapshotName) (abs st) (abs st5)" by (rule w(7)) auto
  then have old: "d_dir (abs st5) (snapshotName x) = d_dir (abs st) (snapshotName x)" for x by (simp add: same_files_def)
  have below: "x \<le> off" if "d_dir (abs st7) (snapshotName x) \<noteq> None" for x
    using that assms(6) old [of x] by (auto simp: d7 snaps_below_def split: if_splits)
  have "same_files {?nm} (abs st7) (abs st8)" by (rule s8(4)) auto
  then have "snap_file (abs st8) off state"
    using assms(5) w(9,10) d7 by (auto simp: snap_file_def same_files_def)
  moreover have "x \<le> off" if "d_dir (abs st8) (snapshotName x) \<noteq> None \<or> d_sdir (abs st8) (snapshotName x) \<noteq> None" for x
    using that below unfolding s8(3,5) d7(2) by (auto split: if_splits)
  ultimately have "latest_snap (abs st8) off state" by (simp add: latest_snap_def)
  moreover have "d_dir (abs st8) (snapshotName x) \<noteq> None \<longleftrightarrow> x = off" for x
    using below [of x] unfolding s8(5) by (cases "d_dir (abs st7) (snapshotName x)") (auto simp: d7(1))
  moreover have "same_files N (abs st) (abs st8)"
    if N: "N \<inter> snapshot_names = {}" "\<And>nm. nm \<in> N \<Longrightarrow> d_sdir (abs st) nm = d_dir (abs st) nm" for N
  proof -
    have out: "?tmp \<notin> N" "?nm \<notin> N" "N \<inter> snapshotName ` {..<off} = {}" using N(1) by auto
    have a5: "same_files N (abs st) (abs st5)" by (rule w(7) [OF out(1)])
    have a6: "same_files N (abs st5) (abs st6)" unfolding s6(3) by (rule same_files_rename [OF out(1,2)])
    have "same_files N (abs st6) (abs st7)" unfolding s7(3)
      using N(2) same_files_trans [OF a5 a6] by (intro same_files_syncdir) (simp add: same_files_def)
    then show ?thesis using a5 a6 s8(4) [OF out(3)] same_files_trans by meson
  qed
  moreover have "log_Snapshot F off state l st = (None, st8)"
    using assms(2,3) w(1-5) s6(1) s7(1) s8(1) by (simp add: log_Snapshot_def Let_def not_less)
  ultimately show thesis using s8(2) that by blast
qed

lemma log_LatestSnapshot_ok:
  assumes "wf st" "latest_snap (abs st) off state" "off \<noteq> - 1"
  obtains st' where "log_LatestSnapshot F l st = (Inr \<lparr>sn_Offset = off, sn_State = state\<rparr>, st')" "wf st'"
    "\<And>N. same_files N (abs st) (abs st')"
proof -
  let ?e = "snapshot_event state" and ?opts = "c_Segment (l_cfg l)"
  obtain i where i: "d_dir (abs st) (snapshotName off) = Some i" "d_data (abs st) i = seg_bytes [(off, ?e)]" "framable ?e"
    and below: "\<And>x. d_dir (abs st) (snapshotName x) \<noteq> None \<Longrightarrow> x \<le> off"
    using assms(2) by (auto simp: latest_snap_def snap_file_def seg_bytes_def)
  obtain offs where o: "snapshotOffsets F st = Inr offs" "sorted offs" "\<And>x. x \<in> set offs \<longleftrightarrow> d_dir (abs st) (snapshotName x) \<noteq> None"
    by (rule snapshotOffsets_ok [OF assms(1)]) blast
  have off: "off \<in> set offs" using o(3) [of off] i(1) by simp
  then have ne: "offs \<noteq> []" by auto
  have "last offs \<in> set offs" using ne by simp
  then have "last offs \<le> off" using below o(3) by blast
  moreover have "off \<le> last offs" by (rule sorted_le_last [OF o(2) off])
  ultimately have lst: "last offs = off" by simp
  have ok: "records_ok off [(off, ?e)]" using i(3) assms(3) by simp
  have p: "parse off (d_data (abs st) i) = ([(off, ?e)], Clean)" using parse_seg_bytes [OF ok] i(2) by simp
  have nw: "no_wrap [(off, ?e)]" using ok by (simp add: records_ok_def)
  obtain seg rec st1 where op: "openNamed F (snapshotName off) off ?opts False st = (Inr (seg, rec), st1)"
    using openNamed_ok [OF assms(1) ValidateName_snapshotName i(1)] by blast
  obtain j rs t where q: "d_dir (abs st) (snapshotName off) = Some j" "parse off (d_data (abs st) j) = (rs, t)"
    "d_node (abs st) (s_file seg) = None" "wf st1" "abs st1 = opened_disk (s_file seg) j False rs t (abs st)"
    "scan_result (zero_Recovery\<lparr>R_Next := off\<rparr>) 0 (d_data (abs st) j) rs t rec"
    by (rule openNamed_parse [OF assms(1) op]) blast
  then have e: "j = i" "rs = [(off, ?e)]" "t = Clean" using i(1) p by simp_all
  have rep: "seg_rep (abs st1) i seg [(off, ?e)]" using openNamed_rep [OF assms(1) op i(1) p nw] by simp
  then have nd: "d_node (abs st1) (s_file seg) = Some i" by (simp add: seg_rep_def)
  have rd: "seg_Read F seg off st1 = Inr \<lparr>r_Offset = off, r_Event = ?e, r_Len = RecordLen ?e\<rparr>"
    using seg_Read_lookup [OF q(4) rep, of off] by simp
  obtain st2 where cl: "seg_Close F seg st1 = (None, st2)" "wf st2" "abs st2 = disk_close (s_file seg) (abs st1)"
    using seg_Close_ok [OF q(4) nd] .
  have rc: "R_Corrupt rec = None" "\<not> R_Torn rec" "R_Records rec = 1"
    using q(6) e by (auto simp: scan_result_def zero_Recovery_def)
  have "same_files N (abs st) (abs st2)" for N
    using q(3) by (auto simp: same_files_def cl(3) q(5) e(3) opened_disk_def disk_close_def disk_open_def)
  moreover have "log_LatestSnapshot F l st = (Inr \<lparr>sn_Offset = off, sn_State = state\<rparr>, st2)"
    using o(1) ne lst op rc rd cl(1)
    by (cases offs) (simp_all add: log_LatestSnapshot_def Let_def snapshot_event_def)
  ultimately show thesis using cl(2) that by blast
qed

lemma log_Restore_ok:
  assumes "wf st" "latest_snap (abs st) off state" "off \<noteq> - 1"
  obtains st' where "log_Restore F l st = ((\<lparr>sn_Offset = off, sn_State = state\<rparr>, log_Reader off l), st')" "wf st'"
    "\<And>N. same_files N (abs st) (abs st')"
proof -
  obtain st' where "log_LatestSnapshot F l st = (Inr \<lparr>sn_Offset = off, sn_State = state\<rparr>, st')" "wf st'"
    "\<And>N. same_files N (abs st) (abs st')" by (rule log_LatestSnapshot_ok [OF assms]) blast
  then show thesis using that [of st'] by (simp add: log_Restore_def)
qed

text \<open>With no snapshot on the disk, restoring means replaying everything the log holds.\<close>

lemma log_Restore_none:
  assumes "wf st" "\<And>x. d_dir (abs st) (snapshotName x) = None"
  shows "log_LatestSnapshot F l st = (Inl (Sentinel ErrNoSnapshot), st)"
    and "log_Restore F l st = ((\<lparr>sn_Offset = log_First l, sn_State = []\<rparr>, log_Reader (log_First l) l), st)"
proof -
  obtain offs where o: "snapshotOffsets F st = Inr offs" "\<And>x. x \<in> set offs \<longleftrightarrow> d_dir (abs st) (snapshotName x) \<noteq> None"
    by (rule snapshotOffsets_ok [OF assms(1)]) blast
  then have "offs = []" using assms(2) by (cases offs) auto
  then show l: "log_LatestSnapshot F l st = (Inl (Sentinel ErrNoSnapshot), st)" using o(1) by (simp add: log_LatestSnapshot_def)
  then show "log_Restore F l st = ((\<lparr>sn_Offset = log_First l, sn_State = []\<rparr>, log_Reader (log_First l) l), st)"
    by (simp add: log_Restore_def)
qed

end

end
