(* ===== verification/Group_Crash.thy ===== *)
theory Group_Crash
  imports Log_Crash Log_Snapshot
begin

text \<open>
  Commits and snapshots under failures: whatever the filesystem below does, a commit and a
  snapshot have either happened or not, and the log beside them is as it was.
\<close>

section \<open>The commits log\<close>

definition commits_survive :: "(string \<Rightarrow> bytes option) \<Rightarrow> commit_entry list \<Rightarrow> bool" where
  "commits_survive m hs \<longleftrightarrow>
     history_ok hs \<and> (hs = [] \<and> m commitsFile = None \<or> m commitsFile = Some (seg_bytes (commit_records hs)))"

lemma commits_file_survive: "commits_file d hs \<Longrightarrow> commits_survive (survived d) hs"
  by (auto simp: commits_file_def commits_survive_def survived_def)

lemma commits_survive_file: "commits_survive (survived d) hs \<Longrightarrow> commits_file (disk_crash d) hs"
  by (cases "d_sdir d commitsFile") (auto simp: commits_file_def commits_survive_def survived_def disk_crash_def ran_def)

lemmas group_inv_survive = commits_file_survive [OF group_inv_file]

context crash_filesystem
begin

text \<open>Opening a file that parses to its end fails only in the opening.\<close>

lemma openNamed_clean_error:
  assumes "wf st" "\<And>i. d_dir (abs st) name = Some i \<Longrightarrow> parse base (d_data (abs st) i) = (rs, Clean)"
    and "openNamed F name base opts trunc st = (Inl err, st')"
  obtains e where "fs_Open F name st = (Inl e, st')" "err = Errorf ''log: open segment %s: %w'' [e]"
proof (cases "fst (fs_Open F name st)")
  case (Inl e)
  then have o: "fs_Open F name st = (Inl e, snd (fs_Open F name st))" by (metis prod.collapse)
  show thesis by (rule that [of e]) (use assms(3) o in \<open>simp_all add: openNamed_def Let_def split: prod.splits\<close>)
next
  case (Inr h)
  let ?opts = "Options_withDefaults opts"
  obtain st1 where o: "fs_Open F name st = (Inr h, st1)" using Inr by (metis prod.collapse)
  obtain i where i: "wf st1" "d_dir (abs st) name = Some i" "abs st1 = disk_open h i (abs st)"
    using Open_law [OF assms(1) o] by blast
  let ?s0 = "fresh_segment h name ?opts base" and ?b = "d_data (abs st) i"
  have nd: "d_node (abs st1) h = Some i" "d_data (abs st1) i = ?b" by (simp_all add: i(3) disk_open_def)
  obtain rec1 s1 where "scan F ?s0 st1 = (Inr rec1, s1)" "R_Discarded rec1 = 0"
    using scan_loop_parse [OF i(1), of ?s0 i "[]" ?b "zero_Recovery\<lparr>R_Next := base\<rparr>" rs Clean] assms(2) [OF i(2)]
      Size_law [OF i(1) nd(1)] nd parse_sound [of base ?b rs Clean]
    by (auto simp: scan_def zero_Recovery_def fresh_segment_def scan_result_def)
  then show thesis using assms(3) o by (simp add: openNamed_def Let_def)
qed

lemma openCommits_cases:
  assumes "wf st" "log_inv (abs st) l pre b rs k" "group_inv (abs st) l hs" "openCommits F l st = (e, l', st')"
  shows "wf st' \<and> recovers (survived (abs st')) pre b (take k rs) \<and> commits_survive (survived (abs st')) hs \<and>
    (e = None \<longrightarrow> (\<exists>c. l' = l\<lparr>l_commits := Some c\<rparr> \<and> log_inv (abs st') l pre b rs k \<and> commits_rep (abs st') c hs))"
proof -
  note rec0 = log_inv_recovers [OF assms(2)] group_inv_survive [OF assms(3)]
  have unhurt: ?thesis if "wf st'" "survived (abs st') = survived (abs st)" "e \<noteq> None" using that rec0 by auto
  show ?thesis
  proof (cases "l_commits l")
    case (Some c)
    then have "l\<lparr>l_commits := Some c\<rparr> = l" by (cases l) simp
    moreover have "e = None" "l' = l" "st' = st" using assms(4) Some by (simp_all add: openCommits_def)
    moreover have "commits_rep (abs st) c hs" using assms(3) Some by (simp add: group_inv_def)
    ultimately show ?thesis using assms(1,2) rec0 by metis
  next
    case None
    then have cf: "commits_file (abs st) hs" using assms(3) by (simp add: group_inv_def)
    then have hok: "history_ok hs" by (simp add: commits_file_def)
    let ?opts = "commits_opts (l_cfg l)"
    have ok: "records_ok 0 (commit_records hs)" by (rule commit_records_ok [OF hok])
    have clean: "parse 0 (d_data (abs st) i) = (commit_records hs, Clean)" if "d_dir (abs st) commitsFile = Some i" for i
      using cf that parse_seg_bytes [OF ok] by (auto simp: commits_file_def)
    obtain q st1 where q: "openNamed F commitsFile 0 ?opts True st = (q, st1)" by (metis surj_pair)
    note q1 = openNamed_quiet [OF assms(1) q]
    show ?thesis
    proof (cases q)
      case (Inr sr)
      obtain seg rec where sr: "sr = (seg, rec)" by (cases sr)
      note q' = q [unfolded Inr sr]
      obtain j rs' t where p: "d_dir (abs st) commitsFile = Some j" "parse 0 (d_data (abs st) j) = (rs', t)"
        "d_node (abs st) (s_file seg) = None" "abs st1 = opened_disk (s_file seg) j True rs' t (abs st)" "s_base seg = 0" "\<not> s_sealed seg"
        by (rule openNamed_parse [OF assms(1) q']) blast
      have t: "rs' = commit_records hs" "t = Clean" using clean [OF p(1)] p(2) by simp_all
      have d1: "abs st1 = disk_open (s_file seg) j (abs st)" using p(4) t by (simp add: opened_disk_def)
      have rep: "seg_rep (abs st1) j seg (commit_records hs)"
        using openNamed_rep [OF assms(1) q' p(1) clean [OF p(1)]] ok by (simp add: records_ok_def)
      have w1: "wf st1" using q1 by simp
      have "openCommits F l st = (None, l\<lparr>l_commits := Some \<lparr>cm_seg = seg, cm_at = latest_commits hs []\<rparr>\<rparr>, st1)"
        using q' None commits_replay_ok [OF w1 rep p(5) hok] by (simp add: openCommits_def Let_def)
      moreover have "log_inv (abs st1) l pre b rs k"
        by (rule log_inv_same [OF assms(2)]) (simp add: d1 p(3) same_files_open)
      moreover have "d_sdir (abs st) commitsFile = Some j" "d_stable (abs st) j = d_data (abs st) j"
        using cf p(1) by (auto simp: commits_file_def)
      then have "commits_rep (abs st1) \<lparr>cm_seg = seg, cm_at = latest_commits hs []\<rparr> hs"
        using rep p(1,5,6) hok by (simp add: commits_rep_def d1 disk_open_def)
      ultimately show ?thesis using assms(4) q1 rec0 by auto
    next
      case (Inl err)
      note q' = q [unfolded Inl]
      obtain x where x: "fs_Open F commitsFile st = (Inl x, st1)" "err = Errorf ''log: open segment %s: %w'' [x]"
        by (rule openNamed_clean_error [OF assms(1) clean q'])
      show ?thesis
      proof (cases "errors_Is x ErrNotExist")
        case False
        then have "e \<noteq> None" "st' = st1" using assms(4) q' None x(2) by (auto simp: openCommits_def Let_def)
        then show ?thesis using unhurt q1 by simp
      next
        case True
        note m = Open_missing [OF assms(1) x(1) True]
        have hs: "hs = []" using cf m by (auto simp: commits_file_def)
        obtain c2 st2 where c2: "fs_Create F commitsFile st1 = (c2, st2)" by (metis surj_pair)
        have w1: "wf st1" using m by simp
        note q2 = Create_quiet [OF w1 c2]
        obtain e3 st3 where y: "fs_Sync F st2 = (e3, st3)" by (metis surj_pair)
        show ?thesis
        proof (cases "\<exists>h. c2 = Inr h \<and> e3 = None")
          case False
          then have "e \<noteq> None \<and> (st' = st2 \<or> st' = st3 \<and> e3 \<noteq> None)"
            using assms(4) q' None x(2) True c2 y
            by (cases c2; cases e3) (auto simp: openCommits_def createNamed_def Let_def)
          moreover have "wf st3 \<and> survived (abs st3) = survived (abs st2)" if "e3 \<noteq> None"
            using SyncDir_failed [of st2 _ st3] y q2 that by auto
          ultimately show ?thesis using unhurt q1 q2 by auto
        next
          case True
          then obtain h where h: "c2 = Inr h" and e3: "e3 = None" by blast
          obtain i where i: "d_node (abs st) h = None" "fresh_inode i (abs st)" "abs st2 = disk_create commitsFile h i (abs st)"
            using Create_law [OF w1 c2 [unfolded h]] m by auto
          have w2: "wf st2" using q2 by simp
          note s3 = SyncDir_law [OF w2 y [unfolded e3]]
          let ?seg = "fresh_segment h commitsFile (Options_withDefaults ?opts) 0"
          have rep: "seg_rep (abs st3) i ?seg (commit_records hs)"
            using fresh_segment_holds [of h commitsFile "Options_withDefaults ?opts" 0] s3
            by (simp add: seg_rep_def hs commit_records_def i(3) disk_syncdir_def disk_create_def) (simp add: fresh_segment_def)
          have sd: "d_sdir (abs st) nm = d_dir (abs st) nm" if "nm \<in> segment_names" for nm
            using assms(2) that by (auto simp: log_inv_def log_durable_def)
          have same: "same_files segment_names (abs st) (abs st2)" unfolding i(3) using i(1,2) by (simp add: same_files_create)
          then have "same_files segment_names (abs st2) (abs st3)"
            unfolding conjunct2 [OF s3] using sd by (intro same_files_syncdir) (auto simp: same_files_def)
          then have li: "log_inv (abs st3) l pre b rs k" by (intro log_inv_same [OF assms(2)] same_files_trans [OF same])
          have cr: "commits_rep (abs st3) \<lparr>cm_seg = ?seg, cm_at = latest_commits hs []\<rparr> hs"
            using rep hok s3 i(2) by (simp add: commits_rep_def i(3) disk_syncdir_def disk_create_def) (simp add: fresh_segment_def)
          have sb: "s_base ?seg = 0" by (simp add: fresh_segment_def)
          have w3: "wf st3" using s3 by simp
          have "openCommits F l st = (None, l\<lparr>l_commits := Some \<lparr>cm_seg = ?seg, cm_at = latest_commits hs []\<rparr>\<rparr>, st3)"
            using q' x(2) True h e3 c2 y None commits_replay_ok [OF w3 rep sb hok] \<open>errors_Is x ErrNotExist\<close>
            by (simp add: openCommits_def createNamed_def Let_def)
          then show ?thesis
            using assms(4) w3 li cr log_inv_recovers [OF li] commits_file_survive [OF commits_rep_file [OF cr]] by auto
        qed
      qed
    qed
  qed
qed

lemma group_Commit_cases:
  assumes "wf st" "log_inv (abs st) l pre b rs k" "group_inv (abs st) l hs" "Suc (length hs) < 2 ^ 64"
    and "group_Commit F name off l st = (e, l', st')"
  shows "wf st' \<and> recovers (survived (abs st')) pre b (take k rs) \<and>
    (commits_survive (survived (abs st')) hs \<and> e \<noteq> None \<or>
     (\<exists>t. commits_survive (survived (abs st')) (hs @ [(name, off, t)]) \<and> e = None \<and>
        log_inv (abs st') l' pre b rs k \<and> group_inv (abs st') l' (hs @ [(name, off, t)])))"
proof -
  note rec0 = log_inv_recovers [OF assms(2)] group_inv_survive [OF assms(3)]
  show ?thesis
  proof (cases "off < log_First l \<or> off > log_Next l")
    case True
    then have "e \<noteq> None" "st' = st" using assms(5) by (auto simp: group_Commit_def)
    then show ?thesis using assms(1) rec0 by simp
  next
    case inside: False
    obtain e1 l1 st1 where o: "openCommits F l st = (e1, l1, st1)" by (metis prod_cases3)
    note oc = openCommits_cases [OF assms(1-3) o]
    show ?thesis
    proof (cases e1)
      case (Some x)
      then have "e = Some x" "st' = st1" using assms(5) inside o by (auto simp: group_Commit_def)
      then show ?thesis using oc by simp
    next
      case None
      then obtain c where c: "l1 = l\<lparr>l_commits := Some c\<rparr>" "log_inv (abs st1) l pre b rs k" "commits_rep (abs st1) c hs" using oc by blast
      have w1: "wf st1" using oc by blast
      obtain i where i: "d_dir (abs st1) commitsFile = Some i" "d_sdir (abs st1) commitsFile = Some i"
        "seg_rep (abs st1) i (cm_seg c) (commit_records hs)" "d_stable (abs st1) i = d_data (abs st1) i"
        using c(3) by (auto simp: commits_rep_def)
      have hok: "history_ok hs" and at: "cm_at c = latest_commits hs []" and sg: "\<not> s_sealed (cm_seg c)" "s_base (cm_seg c) = 0"
        using c(3) by (simp_all add: commits_rep_def)
      define t where "t = (case c_Clock (l_cfg l) of None \<Rightarrow> 0 | Some now \<Rightarrow> now st1)"
      let ?e = "commit_event (name, off, t)" and ?hs = "hs @ [(name, off, t)]"
      have nx: "s_next (cm_seg c) = word_of_nat (length hs)"
        using i(3) sg(2) end_off_number [of 0 "map commit_event hs"] by (simp add: seg_rep_def seg_holds_def commit_records_def)
      then have lt: "unat (s_next (cm_seg c)) + length [?e] < 2 ^ 64"
        using assms(4) by (simp add: unat_of_nat take_bit_eq_mod)
      obtain n first err s' st2 where a: "seg_AppendAll F [?e] (cm_seg c) st1 = ((n, first, err), s', st2)"
        by (metis prod_cases3)
      obtain e3 st3 where y: "seg_Sync F s' st2 = (e3, st3)" by (metis surj_pair)
      have code: "group_Commit F name off l st =
        (if err \<noteq> None \<or> n \<noteq> 1 then
           (Some (Errorf ''log: commit %s at %d: %w'' [case err of None \<Rightarrow> Errorf ''log: append to %s wrote %d records, want 1'' []
              | Some x \<Rightarrow> x]), l\<lparr>l_commits := Some (c\<lparr>cm_seg := s'\<rparr>)\<rparr>, st2)
         else case e3 of
           Some err \<Rightarrow> (Some (Errorf ''log: commit %s at %d: %w'' [err]), l\<lparr>l_commits := Some (c\<lparr>cm_seg := s'\<rparr>)\<rparr>, st3)
         | None \<Rightarrow> (None, l\<lparr>l_commits := Some \<lparr>cm_seg = s', cm_at = AList.update name off (cm_at c)\<rparr>\<rparr>, st3))"
        using inside o None c(1) a y
        by (simp add: group_Commit_def seg_Append_def not_less Let_def commit_event_def t_def split: option.split)
      have rec1: "recovers (survived (abs st1)) pre b (take k rs)" "commits_survive (survived (abs st1)) hs" using oc by blast+
      show ?thesis
      proof (cases "s_sealed s'")
        case True
        obtain p q where q: "n = 0" "err \<noteq> None" "file_Append F (s_file (cm_seg c)) p st1 = (q, st2)"
          using seg_AppendAll_sealed [OF a sg(1) True] by blast
        then have "e \<noteq> None" "st' = st2" using code assms(5) by auto
        then show ?thesis using Append_quiet [OF w1 q(3)] rec1 by simp
      next
        case False
        note r = seg_AppendAll_rep [OF w1 i(3) lt a False]
        have sv2: "survived (abs st2) = survived (abs st1)" unfolding r(5) by simp
        have nd2: "d_node (abs st2) (s_file s') = Some i" using r(6) by (simp add: seg_rep_def)
        note y' = seg_Sync_cases [OF r(1) nd2 y]
        show ?thesis
        proof (cases "err \<noteq> None \<or> n \<noteq> 1")
          case True
          then have "e \<noteq> None" "st' = st2" using code assms(5) by auto
          then show ?thesis using r(1) sv2 rec1 by simp
        next
          case False
          then have n: "err = None" "n = 1" by simp_all
          show ?thesis
          proof (cases e3)
            case (Some x)
            then have "e \<noteq> None" "st' = st3" using code assms(5) n by auto
            then show ?thesis using y' Some sv2 rec1 by simp
          next
            case None
            note s3 = y'(2) [OF None]
            let ?c = "\<lparr>cm_seg = s', cm_at = AList.update name off (cm_at c)\<rparr>"
            have res: "e = None" "l' = l\<lparr>l_commits := Some ?c\<rparr>" "st' = st3" using code assms(5) n None by simp_all
            have recs: "commit_records hs @ number first (take n [?e]) = commit_records ?hs"
              using n r(3) nx by (simp add: commit_records_def number_append)
            have rep: "seg_rep (abs st2) i s' (commit_records ?hs)" using r(6) unfolding recs .
            have str: "stranger segment_names i (abs st1)" by (rule commits_stranger [OF Dir_law [OF w1] i(1)])
            have s1: "same_files segment_names (abs st1) (abs st2)" unfolding r(5) by (rule same_files_strange(1) [OF str])
            then have "same_files segment_names (abs st2) (abs st3)"
              unfolding s3 by (intro same_files_strange(2) stranger_same [OF str])
            then have li: "log_inv (abs st3) l pre b rs k" by (intro log_inv_same [OF c(2)] same_files_trans [OF s1])
            have "records_ok 0 (commit_records ?hs)" using rep arg_cong [OF r(8), of s_base] sg(2) by (simp add: seg_rep_def seg_holds_def)
            then have fr: "framable ?e" by (simp add: commit_records_def number_append records_ok_append)
            have "s_base s' = 0" using arg_cong [OF r(8), of s_base] sg(2) by simp
            moreover have "history_ok ?hs" using hok assms(4) fr by (simp add: history_ok_def)
            moreover have "d_dir (abs st3) commitsFile = Some i" "d_sdir (abs st3) commitsFile = Some i"
              using i(1,2) by (simp_all add: s3 r(5) disk_sync_def disk_append_def)
            moreover have "seg_rep (abs st3) i s' (commit_records ?hs)" "d_stable (abs st3) i = d_data (abs st3) i"
              using rep by (simp_all add: s3 seg_rep_def disk_sync_def)
            ultimately have cr: "commits_rep (abs st3) ?c ?hs" using False \<open>\<not> s_sealed s'\<close> at by (simp add: commits_rep_def latest_commits_append)
            show ?thesis
              using res y'(1) li cr log_inv_recovers [OF li] commits_file_survive [OF commits_rep_file [OF cr]]
              by (auto simp: group_inv_def)
          qed
        qed
      qed
    qed
  qed
qed

end

context reliable_filesystem
begin

text \<open>What survived of the commits is what a group finds after the restart.\<close>

lemma commits_survive_Open:
  assumes "recovers (survived d) pre b rs" "commits_survive (survived d) hs" "wf st" "abs st = disk_crash d" "openable cfg"
  obtains l rec st1 where "log_Open F cfg st = (Inr (l, rec), st1)" "wf st1" "log_inv (abs st1) l pre b rs (length rs)"
    "group_inv (abs st1) l hs" "R_Corrupt rec = None" "same_files (range snapshotName) (abs st) (abs st1)"
proof -
  obtain l rec st1 where o: "log_Open F cfg st = (Inr (l, rec), st1)" "wf st1" "log_inv (abs st1) l pre b rs (length rs)"
    "R_Corrupt rec = None" "l_commits l = None" "\<And>N. N \<inter> segment_names = {} \<Longrightarrow> same_files N (abs st) (abs st1)"
    by (rule recovers_Open [OF assms(1,3-5)]) blast
  have "same_files {commitsFile} (abs st) (abs st1)" by (rule o(6)) (use commitsFile_not_segment in blast)
  moreover have "commits_file (abs st) hs" using commits_survive_file [OF assms(2)] assms(4) by simp
  ultimately have "group_inv (abs st1) l hs" using o(5) by (auto simp: group_inv_def commits_file_def same_files_def)
  moreover have "same_files (range snapshotName) (abs st) (abs st1)" by (rule o(6)) (use snapshot_not_segment in blast)
  ultimately show thesis using o(1-4) that by blast
qed

end

section \<open>Snapshots\<close>

text \<open>What a power cut leaves of the snapshots: none, or a newest one with this offset and state.\<close>

definition snap_survives :: "(string \<Rightarrow> bytes option) \<Rightarrow> Snapshot option \<Rightarrow> bool" where
  "snap_survives m q \<longleftrightarrow>
     (case q of
        None \<Rightarrow> \<forall>x. m (snapshotName x) = None
      | Some s \<Rightarrow> framable (snapshot_event (sn_State s)) \<and> sn_Offset s \<noteq> - 1 \<and>
          m (snapshotName (sn_Offset s)) = Some (encode (sn_Offset s) (snapshot_event (sn_State s))) \<and>
          (\<forall>x. m (snapshotName x) \<noteq> None \<longrightarrow> x \<le> sn_Offset s))"

lemma snap_survives_Some:
  assumes "snap_survives (survived d) (Some s)"
  shows "latest_snap (disk_crash d) (sn_Offset s) (sn_State s)" "sn_Offset s \<noteq> - 1"
  using assms by (auto simp: snap_survives_def latest_snap_def snap_file_def survived_def disk_crash_def ran_def)

text \<open>
  What can be seen of them before the cut: none, or a newest one whose bytes were synced. A snapshot
  is written and synced under another name, so no other one is ever seen. A new snapshot takes the
  place of the newest one unless that is at a higher offset.
\<close>

definition snap_seen :: "disk \<Rightarrow> Snapshot option \<Rightarrow> bool" where
  "snap_seen d q \<longleftrightarrow>
     (case q of
        None \<Rightarrow> \<forall>x. d_dir d (snapshotName x) = None
      | Some s \<Rightarrow> framable (snapshot_event (sn_State s)) \<and> sn_Offset s \<noteq> - 1 \<and>
          (\<exists>i. d_dir d (snapshotName (sn_Offset s)) = Some i \<and> d_stable d i = encode (sn_Offset s) (snapshot_event (sn_State s))) \<and>
          (\<forall>x. d_dir d (snapshotName x) \<noteq> None \<longrightarrow> x \<le> sn_Offset s))"

definition newest_of :: "Snapshot option \<Rightarrow> Snapshot \<Rightarrow> Snapshot" where
  "newest_of seen new = (case seen of None \<Rightarrow> new | Some s \<Rightarrow> if sn_Offset new < sn_Offset s then s else new)"

lemma snap_survives_None: "snap_survives (survived d) None \<Longrightarrow> d_dir (disk_crash d) (snapshotName x) = None"
  by (simp add: snap_survives_def survived_def disk_crash_def)

context crash_filesystem
begin

text \<open>
  The record written under the temporary name: nothing it does survives, and if it went well the
  file is whole and synced.
\<close>

lemma snapshot_write_cases:
  assumes "wf st" "off \<noteq> - 1" "removeStale F tmp st = (None, st1)" "createNamed F tmp off opts st1 = (Inr seg, st2)"
    and "seg_appendAt F off (snapshot_event state) seg st2 = (e3, seg', st3)"
    and "(case e3 of None \<Rightarrow> seg_Sync F seg' st3 | Some err \<Rightarrow> (Some err, st3)) = (e4, st4)"
    and "seg_Close F seg' st4 = (e5, st5)"
  shows "wf st5" "survived (abs st5) = survived (abs st)"
    "e4 = None \<Longrightarrow> framable (snapshot_event state) \<and> (\<forall>N. tmp \<notin> N \<longrightarrow> same_files N (abs st) (abs st5)) \<and>
       (\<exists>j. d_dir (abs st5) tmp = Some j \<and> d_data (abs st5) j = encode off (snapshot_event state) \<and>
          d_stable (abs st5) j = d_data (abs st5) j)"
proof -
  let ?e = "snapshot_event state"
  note q1 = removeStale_cases [OF assms(1,3)]
  obtain h where h: "fs_Create F tmp st1 = (Inr h, st2)" "seg = fresh_segment h tmp (Options_withDefaults opts) off"
    using assms(4) by (auto simp: createNamed_def Let_def split: prod.splits sum.splits)
  note q2 = Create_quiet [OF q1(1) h(1)]
  obtain j where j: "d_node (abs st1) h = None" "fresh_inode j (abs st1)" "abs st2 = disk_create tmp h j (abs st1)"
    using Create_law [OF q1(1) h(1)] by auto
  have w2: "wf st2" using q2 by simp
  note q3 = seg_appendAt_quiet [OF w2 assms(5)]
  have "wf st4 \<and> survived (abs st4) = survived (abs st) \<and> (e4 = None \<longrightarrow>
      framable ?e \<and> d_node (abs st4) (s_file seg') = Some j \<and> d_dir (abs st4) tmp = Some j \<and>
      d_data (abs st4) j = encode off ?e \<and> d_stable (abs st4) j = d_data (abs st4) j \<and>
      (\<forall>N. tmp \<notin> N \<longrightarrow> same_files N (abs st) (abs st4) \<and> stranger N j (abs st4)))"
  proof (cases e3)
    case (Some x)
    then show ?thesis using assms(6) q1(2) q2 q3 by auto
  next
    case None
    have rep: "seg_rep (abs st2) j seg []"
      using fresh_segment_holds [of h tmp "Options_withDefaults opts" off]
      by (simp add: seg_rep_def j(3) h(2) disk_create_def) (simp add: fresh_segment_def)
    note a = seg_appendAt_rep [OF w2 rep assms(2) assms(5) [unfolded None]]
    have n3: "d_node (abs st3) (s_file seg') = Some j" using a(5) by (simp add: seg_rep_def)
    have y: "seg_Sync F seg' st3 = (e4, st4)" using assms(6) None by simp
    note s4 = seg_Sync_cases [OF a(1) n3 y]
    show ?thesis
    proof (cases e4)
      case (Some x)
      then show ?thesis using s4 q1(2) q2 q3 by simp
    next
      case None
      note d4 = s4(2) [OF None]
      have "j \<notin> ran (d_sdir (abs st3))" using j(2) by (simp add: a(4) j(3) disk_append_def disk_create_def fresh_inode_def)
      then have "survived (abs st4) = survived (abs st)" using survived_sync_unnamed d4 q1(2) q2 q3 by simp
      moreover have "same_files N (abs st) (abs st4) \<and> stranger N j (abs st4)" if N: "tmp \<notin> N" for N
      proof -
        have a2: "same_files N (abs st1) (abs st2)" unfolding j(3) by (rule same_files_create [OF N j(2,1)])
        have str: "stranger N j (abs st2)" unfolding j(3) by (rule stranger_create [OF j(2) N])
        have a3: "same_files N (abs st2) (abs st3)" unfolding a(4) by (rule same_files_strange(1) [OF str])
        have a4: "same_files N (abs st3) (abs st4)" unfolding d4 by (rule same_files_strange(2) [OF stranger_same [OF str a3]])
        show ?thesis
          using q1(3) [OF refl N] a2 a3 a4 stranger_same [OF str same_files_trans [OF a3 a4]] same_files_trans by meson
      qed
      moreover have "d_node (abs st4) (s_file seg') = Some j" "d_dir (abs st4) tmp = Some j"
        "d_data (abs st4) j = encode off ?e" "d_stable (abs st4) j = d_data (abs st4) j"
        using n3 a(5) by (simp_all add: d4 disk_sync_def seg_rep_def seg_bytes_def) (simp add: a(4) j(3) disk_defs)
      ultimately show ?thesis using s4(1) a(2) by blast
    qed
  qed
  note r4 = this
  then have w4: "wf st4" by blast
  note q5 = seg_Close_cases [OF w4 assms(7)]
  show "wf st5" "survived (abs st5) = survived (abs st)" using q5 r4 by simp_all
  assume "e4 = None"
  note r = r4 [THEN conjunct2, THEN conjunct2, rule_format, OF this]
  have "same_files N (abs st) (abs st5)" if "tmp \<notin> N" for N
  proof -
    have "same_files N (abs st) (abs st4)" "stranger N j (abs st4)" using r that by blast+
    then show ?thesis using q5(3) same_files_strange(3) [of N j "abs st4" "s_file seg'"] r same_files_trans by metis
  qed
  moreover have "d_dir (abs st5) = d_dir (abs st4)" "d_data (abs st5) = d_data (abs st4)" "d_stable (abs st5) = d_stable (abs st4)"
    using q5(3) by (auto simp: disk_close_def)
  ultimately show "framable ?e \<and> (\<forall>N. tmp \<notin> N \<longrightarrow> same_files N (abs st) (abs st5)) \<and>
     (\<exists>j. d_dir (abs st5) tmp = Some j \<and> d_data (abs st5) j = encode off ?e \<and> d_stable (abs st5) j = d_data (abs st5) j)"
    using r by auto
qed

lemma remove_loop_quiet:
  "wf st \<Longrightarrow> remove_loop F keep offs st = (e, st') \<Longrightarrow> wf st' \<and> survived (abs st') = survived (abs st)"
proof (induction offs arbitrary: st)
  case (Cons x offs)
  obtain r st1 where r: "fs_Remove F (snapshotName x) st = (r, st1)" by (metis surj_pair)
  note q = Remove_quiet [OF Cons.prems(1) r]
  show ?case using Cons r q by (auto split: if_splits option.splits)
qed simp

lemma removeOlderSnapshots_quiet:
  "wf st \<Longrightarrow> removeOlderSnapshots F keep st = (e, st') \<Longrightarrow> wf st' \<and> survived (abs st') = survived (abs st)"
  by (auto simp: removeOlderSnapshots_def split: sum.splits dest: remove_loop_quiet)

text \<open>
  After the directory was synced the segments and the commits are what they were, and the newest
  snapshot is the new one or one at a higher offset that was there.
\<close>

lemma snapshot_swapped:
  assumes "log_inv (abs st) l pre b rs k" "group_inv (abs st) l hs" "off \<noteq> - 1" "framable (snapshot_event state)"
    and "snap_seen (abs st) seen"
    and "\<And>N. snapshotName off @ compactingSuffix \<notin> N \<Longrightarrow> same_files N (abs st) d5"
    and "d_dir d5 (snapshotName off @ compactingSuffix) = Some j" "d_data d5 j = encode off (snapshot_event state)"
    and "d_stable d5 j = d_data d5 j"
    and "d7 = disk_syncdir (disk_rename (snapshotName off @ compactingSuffix) (snapshotName off) d5)"
  shows "recovers (survived d7) pre b (take k rs)" "commits_survive (survived d7) hs"
    "snap_survives (survived d7) (Some (newest_of seen \<lparr>sn_Offset = off, sn_State = state\<rparr>))"
proof -
  let ?tmp = "snapshotName off @ compactingSuffix" and ?nm = "snapshotName off"
  have synced: "d_sdir (abs st) nm = d_dir (abs st) nm" if "nm \<in> segment_names \<or> nm = commitsFile" for nm
    using that assms(1) group_inv_file [OF assms(2)] by (auto simp: log_inv_def log_durable_def commits_file_def)
  have same: "same_files N (abs st) d7" if N: "N \<subseteq> segment_names \<union> {commitsFile}" for N
  proof -
    have "N \<inter> snapshot_names = {}" using N snapshot_not_segment commitsFile_not_snapshot by (simp add: disjoint_iff subset_iff) metis
    then have out: "?tmp \<notin> N" "?nm \<notin> N" by auto
    note a = same_files_trans [OF assms(6) [OF out(1)] same_files_rename [OF out]]
    have "d_sdir (disk_rename ?tmp ?nm d5) nm = d_dir (disk_rename ?tmp ?nm d5) nm" if "nm \<in> N" for nm
    proof -
      have "d_sdir (abs st) nm = d_dir (abs st) nm" by (rule synced) (use that N in blast)
      then show ?thesis using a that by (simp add: same_files_def)
    qed
    then have "same_files N (disk_rename ?tmp ?nm d5) d7" unfolding assms(10) by (rule same_files_syncdir)
    then show ?thesis using a same_files_trans by blast
  qed
  have "log_inv d7 l pre b rs k" by (rule log_inv_same [OF assms(1) same]) blast
  then show "recovers (survived d7) pre b (take k rs)" by (rule log_inv_recovers)
  have "same_files {commitsFile} (abs st) d7" by (rule same) blast
  then have "commits_file d7 hs" using group_inv_file [OF assms(2)] by (auto simp: commits_file_def same_files_def)
  then show "commits_survive (survived d7) hs" by (rule commits_file_survive)
  have "same_files (range snapshotName) (abs st) d5" by (rule assms(6)) auto
  then have old: "d_dir d5 (snapshotName x) = d_dir (abs st) (snapshotName x)"
    "d_dir (abs st) (snapshotName x) = Some i \<Longrightarrow> d_stable d5 i = d_stable (abs st) i" for x i by (simp_all add: same_files_def)
  have d7: "d_dir d7 = ((d_dir d5)(?tmp := None))(?nm \<mapsto> j)" "d_sdir d7 = d_dir d7" "d_stable d7 = d_stable d5"
    using assms(7) by (simp_all only: assms(10)) (simp_all add: disk_syncdir_def disk_rename_def)
  have sv: "survived d7 (snapshotName x) = (if x = off then Some (encode off (snapshot_event state)) else map_option (d_stable d5) (d_dir (abs st) (snapshotName x)))" for x
    using old(1) [of x] assms(8,9) unfolding survived_def d7 by (simp add: tmp_not_snapshot [THEN not_sym])
  show "snap_survives (survived d7) (Some (newest_of seen \<lparr>sn_Offset = off, sn_State = state\<rparr>))"
  proof (cases seen)
    case None
    then have "d_dir (abs st) (snapshotName x) = None" for x using assms(5) by (simp add: snap_seen_def)
    then show ?thesis using assms(3,4) None by (simp add: snap_survives_def newest_of_def sv)
  next
    case (Some s)
    obtain i where i: "framable (snapshot_event (sn_State s))" "sn_Offset s \<noteq> - 1" "d_dir (abs st) (snapshotName (sn_Offset s)) = Some i"
      "d_stable (abs st) i = encode (sn_Offset s) (snapshot_event (sn_State s))"
      "\<And>x. d_dir (abs st) (snapshotName x) \<noteq> None \<Longrightarrow> x \<le> sn_Offset s"
      using assms(5) Some by (auto simp: snap_seen_def)
    have le: "x \<le> sn_Offset s" if "map_option (d_stable d5) (d_dir (abs st) (snapshotName x)) \<noteq> None" for x
      using i(5) [of x] that by (cases "d_dir (abs st) (snapshotName x)") simp_all
    show ?thesis
    proof (cases "off < sn_Offset s")
      case True
      then show ?thesis using Some i le old(2) [OF i(3)] by (auto simp: snap_survives_def newest_of_def sv)
    next
      case False
      then have "x \<le> off" if "map_option (d_stable d5) (d_dir (abs st) (snapshotName x)) \<noteq> None" for x using le [OF that] by simp
      then show ?thesis using Some False assms(3,4) by (auto simp: snap_survives_def newest_of_def sv)
    qed
  qed
qed

lemma log_Snapshot_cases:
  assumes "wf st" "log_inv (abs st) l pre b rs k" "group_inv (abs st) l hs" "off \<noteq> - 1"
    and "snap_seen (abs st) seen" "log_Snapshot F off state l st = (e, st')"
  shows "wf st' \<and> recovers (survived (abs st')) pre b (take k rs) \<and> commits_survive (survived (abs st')) hs \<and>
    (e \<noteq> None \<and> survived (abs st') = survived (abs st) \<or>
     snap_survives (survived (abs st')) (Some (newest_of seen \<lparr>sn_Offset = off, sn_State = state\<rparr>)))"
proof -
  note rec0 = log_inv_recovers [OF assms(2)] group_inv_survive [OF assms(3)]
  have unhurt: ?thesis if "wf st' \<and> survived (abs st') = survived (abs st)" "e \<noteq> None" using that rec0 by auto
  have removed: "wf (snd (fs_Remove F nm s)) \<and> survived (abs (snd (fs_Remove F nm s))) = survived (abs s)" if "wf s" for nm s
    using Remove_quiet [OF that] by (metis prod.collapse)
  let ?tmp = "snapshotName off @ compactingSuffix" and ?nm = "snapshotName off"
  obtain e1 st1 where s1: "removeStale F ?tmp st = (e1, st1)" by (metis surj_pair)
  note q1 = removeStale_cases [OF assms(1) s1]
  obtain c2 st2 where s2: "createNamed F ?tmp off (c_Segment (l_cfg l)) st1 = (c2, st2)" by (metis surj_pair)
  have q2: "wf st2 \<and> survived (abs st2) = survived (abs st1)"
    using s2 Create_quiet [OF q1(1)] by (auto simp: createNamed_def Let_def split: prod.splits sum.splits)
  show ?thesis
  proof (cases "(off < log_First l \<or> log_Next l < off) \<or> e1 \<noteq> None \<or> (\<exists>x. c2 = Inl x)")
    case True
    then have "e \<noteq> None \<and> (st' = st \<or> st' = st1 \<or> st' = st2)"
      using assms(6) s1 s2 by (auto simp: log_Snapshot_def Let_def split: if_splits option.splits)
    then show ?thesis using unhurt q1 q2 assms(1) by auto
  next
    case False
    then obtain seg where c2: "c2 = Inr seg" and e1: "e1 = None" by (cases c2) auto
    obtain e3 seg' st3 where s3: "seg_appendAt F off (snapshot_event state) seg st2 = (e3, seg', st3)" by (metis prod_cases3)
    obtain e4 st4 where s4: "(case e3 of None \<Rightarrow> seg_Sync F seg' st3 | Some err \<Rightarrow> (Some err, st3)) = (e4, st4)" by (metis surj_pair)
    obtain e5 st5 where s5: "seg_Close F seg' st4 = (e5, st5)" by (metis surj_pair)
    note w = snapshot_write_cases [OF assms(1,4) s1 [unfolded e1] s2 [unfolded c2] s3 s4 s5]
    obtain e6 st6 where s6: "fs_Rename F ?tmp ?nm st5 = (e6, st6)" by (metis surj_pair)
    note q6 = Rename_quiet [OF w(1) s6]
    obtain e7 st7 where s7: "fs_Sync F st6 = (e7, st7)" by (metis surj_pair)
    have code: "log_Snapshot F off state l st =
      (case e4 of
         Some err \<Rightarrow> (Some (Errorf ''log: write the snapshot at %d: %w'' [err]), snd (fs_Remove F ?tmp st5))
       | None \<Rightarrow>
           (case e6 of
              Some err \<Rightarrow> (Some (Errorf ''log: swap in the snapshot at %d: %w'' [err]), snd (fs_Remove F ?tmp st6))
            | None \<Rightarrow>
                (case e7 of
                   Some err \<Rightarrow> (Some (Errorf ''log: sync the directory after snapshotting at %d: %w'' [err]), st7)
                 | None \<Rightarrow> removeOlderSnapshots F off st7)))"
      using False e1 c2 s1 s2 s3 s4 s5 s6 s7 by (simp add: log_Snapshot_def Let_def split: option.split)
    show ?thesis
    proof (cases "e4 = None \<and> e6 = None \<and> e7 = None")
      case False
      have "wf st7 \<and> survived (abs st7) = survived (abs st6)" if "e7 \<noteq> None" using SyncDir_failed [of st6 _ st7] s7 q6 that by auto
      then show ?thesis
        using unhurt code assms(6) False w(1,2) q6 removed [OF w(1), of ?tmp] removed [of st6 ?tmp]
        by (cases e4; cases e6; cases e7) auto
    next
      case True
      then have e4: "e4 = None" and e6: "e6 = None" and e7: "e7 = None" by simp_all
      obtain j where j: "d_dir (abs st5) ?tmp = Some j" "d_data (abs st5) j = encode off (snapshot_event state)"
        "d_stable (abs st5) j = d_data (abs st5) j" using w(3) [OF e4] by blast
      have fr: "framable (snapshot_event state)" and same: "\<And>N. ?tmp \<notin> N \<Longrightarrow> same_files N (abs st) (abs st5)"
        using w(3) [OF e4] by blast+
      have d6: "wf st6" "abs st6 = disk_rename ?tmp ?nm (abs st5)" using Rename_law [OF w(1) s6 [unfolded e6]] by simp_all
      have d7: "wf st7" "abs st7 = disk_syncdir (disk_rename ?tmp ?nm (abs st5))"
        using SyncDir_law [OF d6(1) s7 [unfolded e7]] d6(2) by simp_all
      note sw = snapshot_swapped [OF assms(2-4) fr assms(5) same j d7(2)]
      have "wf st' \<and> survived (abs st') = survived (abs st7)"
        by (rule removeOlderSnapshots_quiet [OF d7(1), of off e]) (use code e4 e6 e7 assms(6) in simp)
      then show ?thesis using sw by auto
    qed
  qed
qed

end

context reliable_filesystem
begin

text \<open>What restoring finds after a power cut, in a log opened over what it left.\<close>

lemma snap_survives_Restore:
  assumes "snap_survives (survived d) q" "wf st" "same_files (range snapshotName) (disk_crash d) (abs st)"
  obtains st' where "log_Restore F l st =
      (case q of None \<Rightarrow> (\<lparr>sn_Offset = log_First l, sn_State = []\<rparr>, log_Reader (log_First l) l)
       | Some s \<Rightarrow> (s, log_Reader (sn_Offset s) l), st')" "\<And>N. same_files N (abs st) (abs st')" "wf st'"
proof (cases q)
  case None
  have "d_dir (abs st) (snapshotName x) = None" for x
    using snap_survives_None assms(1,3) None by (simp add: same_files_def)
  then have "log_Restore F l st = ((\<lparr>sn_Offset = log_First l, sn_State = []\<rparr>, log_Reader (log_First l) l), st)"
    by (rule log_Restore_none(2) [OF assms(2)])
  then show thesis using that [of st] None assms(2) by simp
next
  case (Some s)
  note s = snap_survives_Some [OF assms(1) [unfolded Some]]
  obtain st' where "log_Restore F l st = ((\<lparr>sn_Offset = sn_Offset s, sn_State = sn_State s\<rparr>, log_Reader (sn_Offset s) l), st')"
    "wf st'" "\<And>N. same_files N (abs st) (abs st')"
    by (rule log_Restore_ok [OF assms(2) latest_snap_same [OF s(1) assms(3)] s(2)]) blast
  then show thesis using that [of st'] Some by simp
qed

end

end
