(* ===== verification/Sha256.thy ===== *)
theory Sha256
  imports Spine_Prelude
begin

text \<open>
  \<^verbatim>\<open>crypto/sha256.Sum256\<close>, the one hash \<^verbatim>\<open>core/chain.go\<close> uses, as FIPS 180-4 defines it: the
  message is padded to blocks of 64 bytes, each block is expanded to 64 words and mixed into
  eight words of state. The constants, the leading bits of the fractional parts of roots of
  primes, are written in decimal. The development only needs the length of a digest; the bytes are
  there so that the model of the chain computes.
\<close>

type_synonym word32 = "32 word"

definition rotr :: "nat \<Rightarrow> word32 \<Rightarrow> word32" where
  "rotr n x = drop_bit n x OR push_bit (32 - n) x"

definition round_constants :: "word32 list" where
  "round_constants =
     [1116352408, 1899447441, 3049323471, 3921009573, 961987163, 1508970993,
      2453635748, 2870763221, 3624381080, 310598401, 607225278, 1426881987,
      1925078388, 2162078206, 2614888103, 3248222580, 3835390401, 4022224774,
      264347078, 604807628, 770255983, 1249150122, 1555081692, 1996064986,
      2554220882, 2821834349, 2952996808, 3210313671, 3336571891, 3584528711,
      113926993, 338241895, 666307205, 773529912, 1294757372, 1396182291,
      1695183700, 1986661051, 2177026350, 2456956037, 2730485921, 2820302411,
      3259730800, 3345764771, 3516065817, 3600352804, 4094571909, 275423344,
      430227734, 506948616, 659060556, 883997877, 958139571, 1322822218,
      1537002063, 1747873779, 1955562222, 2024104815, 2227730452, 2361852424,
      2428436474, 2756734187, 3204031479, 3329325298]"

record sha_state =
  h0 :: word32
  h1 :: word32
  h2 :: word32
  h3 :: word32
  h4 :: word32
  h5 :: word32
  h6 :: word32
  h7 :: word32

definition initial_state :: sha_state where
  "initial_state = \<lparr>h0 = 1779033703, h1 = 3144134277, h2 = 1013904242, h3 = 2773480762,
                    h4 = 1359893119, h5 = 2600822924, h6 = 528734635, h7 = 1541459225\<rparr>"

section \<open>The compression function\<close>

definition be_word32 :: "bytes \<Rightarrow> word32" where
  "be_word32 b = foldl (\<lambda>acc x. push_bit 8 acc OR ucast x) 0 b"

definition be_bytes32 :: "word32 \<Rightarrow> bytes" where
  "be_bytes32 w = [ucast (drop_bit 24 w), ucast (drop_bit 16 w), ucast (drop_bit 8 w), ucast w]"

definition be_bytes64 :: "nat \<Rightarrow> bytes" where
  "be_bytes64 n = rev (le_bytes 8 (word_of_nat n :: 64 word))"

fun words_of :: "bytes \<Rightarrow> word32 list" where
  "words_of (a # b # c # d # rest) = be_word32 [a, b, c, d] # words_of rest"
| "words_of _ = []"

text \<open>The schedule, newest word first: each new word mixes those 2, 7, 15 and 16 places back.\<close>

definition next_word :: "word32 list \<Rightarrow> word32" where
  "next_word w =
     (let x = w ! 14; y = w ! 1 in
      w ! 15 + (rotr 7 x XOR rotr 18 x XOR drop_bit 3 x) + w ! 6 + (rotr 17 y XOR rotr 19 y XOR drop_bit 10 y))"

fun schedule :: "nat \<Rightarrow> word32 list \<Rightarrow> word32 list" where
  "schedule 0 w = w"
| "schedule (Suc n) w = schedule n (next_word w # w)"

definition sha_round :: "sha_state \<Rightarrow> word32 \<times> word32 \<Rightarrow> sha_state" where
  "sha_round s kw =
     (let e = h4 s; a = h0 s;
          t1 = h7 s + (rotr 6 e XOR rotr 11 e XOR rotr 25 e) + ((e AND h5 s) XOR (NOT e AND h6 s)) + fst kw + snd kw;
          t2 = (rotr 2 a XOR rotr 13 a XOR rotr 22 a) + ((a AND h1 s) XOR (a AND h2 s) XOR (h1 s AND h2 s))
      in \<lparr>h0 = t1 + t2, h1 = a, h2 = h1 s, h3 = h2 s, h4 = h3 s + t1, h5 = e, h6 = h5 s, h7 = h6 s\<rparr>)"

definition sha_block :: "sha_state \<Rightarrow> bytes \<Rightarrow> sha_state" where
  "sha_block s block =
     (let w = rev (schedule 48 (rev (words_of block)));
          r = foldl sha_round s (zip round_constants w)
      in \<lparr>h0 = h0 s + h0 r, h1 = h1 s + h1 r, h2 = h2 s + h2 r, h3 = h3 s + h3 r,
          h4 = h4 s + h4 r, h5 = h5 s + h5 r, h6 = h6 s + h6 r, h7 = h7 s + h7 r\<rparr>)"

section \<open>The digest\<close>

definition pad :: "bytes \<Rightarrow> bytes" where
  "pad m = m @ [0x80] @ replicate ((119 - length m mod 64) mod 64) 0 @ be_bytes64 (8 * length m)"

function blocks :: "bytes \<Rightarrow> bytes list" where
  "blocks m = (if m = [] then [] else take 64 m # blocks (drop 64 m))"
  by pat_completeness auto
termination by (relation "measure length") simp_all

declare blocks.simps [simp del]

definition Sum256 :: "bytes \<Rightarrow> bytes" where
  "Sum256 m =
     (let s = foldl sha_block initial_state (blocks (pad m))
      in concat (map be_bytes32 [h0 s, h1 s, h2 s, h3 s, h4 s, h5 s, h6 s, h7 s]))"

lemma length_Sum256 [simp]: "length (Sum256 m) = 32"
  by (simp add: Sum256_def Let_def be_bytes32_def)

end
