(* ===== verification/Core_Chain.thy ===== *)
theory Core_Chain
  imports Sha256 Core_Event
begin

text \<open>
  The hash chain of \<^verbatim>\<open>core/chain.go\<close>: one SHA-256 per step over the digest so far, the event and
  the projection's digest. The lemmas show what an equal chain means and what
  \<^verbatim>\<open>Absorbed\<close> counts. The reused scratch buffer is the argument of the hash; it carries
  nothing from one call to the next.
\<close>

type_synonym Digest = bytes

definition chainDomain :: bytes where
  "chainDomain = bytes_of (''event-spine/chain/v1'' @ [CHR 0x00])"

record Chain =
  ch_digest :: Digest
  ch_steps :: "64 word"
  ch_lastChange :: "64 word"
  ch_last :: Digest
  ch_seen :: bool

definition NewChain :: Chain where
  "NewChain = \<lparr>ch_digest = Sum256 chainDomain, ch_steps = 0, ch_lastChange = 0, ch_last = replicate 32 0, ch_seen = False\<rparr>"

definition chain_Advance :: "event \<Rightarrow> Digest \<Rightarrow> Chain \<Rightarrow> Chain" where
  "chain_Advance e proj c =
     (let scratch = Event_AppendCanonical e (ch_digest c) @ proj;
          c = c\<lparr>ch_digest := Sum256 scratch, ch_steps := ch_steps c + 1\<rparr>
      in if \<not> ch_seen c \<or> proj \<noteq> ch_last c
         then c\<lparr>ch_lastChange := ch_steps c, ch_last := proj, ch_seen := True\<rparr> else c)"

definition chain_Digest :: "Chain \<Rightarrow> Digest" where
  "chain_Digest c = ch_digest c"

definition chain_Steps :: "Chain \<Rightarrow> 64 word" where
  "chain_Steps c = ch_steps c"

definition chain_StepsSinceChange :: "Chain \<Rightarrow> 64 word" where
  "chain_StepsSinceChange c = ch_steps c - ch_lastChange c"

definition chain_Absorbed :: "64 word \<Rightarrow> Chain \<Rightarrow> bool" where
  "chain_Absorbed window c =
     (if sint window \<le> 0 \<or> ch_steps c = 0 then False else sint window \<le> sint (chain_StepsSinceChange c))"

section \<open>Runs\<close>

text \<open>A run is the list of its steps: each event with the projection's digest after it.\<close>

type_synonym run = "(event \<times> Digest) list"

definition advance_all :: "run \<Rightarrow> Chain \<Rightarrow> Chain" where
  "advance_all xs c = fold (\<lambda>x. chain_Advance (fst x) (snd x)) xs c"

definition run_chain :: "run \<Rightarrow> Chain" where
  "run_chain xs = advance_all xs NewChain"

definition step_ok :: "event \<times> Digest \<Rightarrow> bool" where
  "step_ok x \<longleftrightarrow> Event_Validate (fst x) = None \<and> length (snd x) = 32"

text \<open>Every input the hash function is given during a run.\<close>

definition step_input :: "event \<times> Digest \<Rightarrow> Chain \<Rightarrow> bytes" where
  "step_input x c = Event_AppendCanonical (fst x) (ch_digest c) @ snd x"

fun hashed_from :: "Chain \<Rightarrow> run \<Rightarrow> bytes list" where
  "hashed_from c [] = []"
| "hashed_from c (x # xs) = step_input x c # hashed_from (chain_Advance (fst x) (snd x) c) xs"

definition hashed :: "run \<Rightarrow> bytes list" where
  "hashed xs = chainDomain # hashed_from NewChain xs"

lemma advance_all_simps [simp]:
  "advance_all [] c = c" "advance_all (x # xs) c = advance_all xs (chain_Advance (fst x) (snd x) c)"
  "advance_all (xs @ ys) c = advance_all ys (advance_all xs c)"
  by (simp_all add: advance_all_def)

lemma hashed_from_append [simp]: "hashed_from c (xs @ ys) = hashed_from c xs @ hashed_from (advance_all xs c) ys"
  by (induction xs arbitrary: c) simp_all

lemma run_chain_snoc: "run_chain (xs @ [x]) = chain_Advance (fst x) (snd x) (run_chain xs)"
  by (simp add: run_chain_def)

lemma hashed_snoc: "hashed (xs @ [x]) = hashed xs @ [step_input x (run_chain xs)]"
  by (simp add: hashed_def run_chain_def)

lemma Advance_digest: "ch_digest (chain_Advance e d c) = Sum256 (step_input (e, d) c)"
  by (simp add: chain_Advance_def step_input_def Let_def)

lemma length_run_digest [simp]: "length (ch_digest (run_chain xs)) = 32"
  by (cases xs rule: rev_cases) (simp_all add: run_chain_snoc Advance_digest, simp add: run_chain_def NewChain_def)

section \<open>What an equal chain means\<close>

text \<open>The input of a step determines the digest before it, the event and the projection.\<close>

lemma step_input_inject:
  assumes "step_ok x" "step_ok y" "length (ch_digest c) = 32" "length (ch_digest d) = 32" "step_input x c = step_input y d"
  shows "ch_digest c = ch_digest d \<and> x = y"
proof -
  let ?cx = "Event_AppendCanonical (fst x) []" and ?cy = "Event_AppendCanonical (fst y) []"
  have eq: "ch_digest c @ (?cx @ snd x) = ch_digest d @ (?cy @ snd y)"
    using assms(5) AppendCanonical_append [of "fst x" "ch_digest c"] AppendCanonical_append [of "fst y" "ch_digest d"]
    by (simp add: step_input_def)
  then have dig: "ch_digest c = ch_digest d" and rest: "?cx @ snd x = ?cy @ snd y" using assms(3,4) by simp_all
  have "?cx = ?cy" "snd x = snd y" using rest assms(1,2) by (simp_all add: step_ok_def)
  moreover from this have "fst x = fst y"
    using assms(1,2) by (intro AppendCanonical_inject) (simp_all add: step_ok_def Event_Validate_None)
  ultimately show ?thesis using dig by (simp add: prod_eq_iff)
qed

lemma step_input_not_domain: "step_ok x \<Longrightarrow> length (ch_digest c) = 32 \<Longrightarrow> step_input x c \<noteq> chainDomain"
  by (auto simp: step_input_def step_ok_def chainDomain_def bytes_of_def dest!: arg_cong [of _ _ length])

lemma hashed_members: "chainDomain \<in> set (hashed xs)" "step_input x (run_chain xs) \<in> set (hashed (xs @ [x]))"
  by (simp add: hashed_def, simp add: hashed_snoc)

lemma run_digest: "chain_Digest (run_chain []) = Sum256 chainDomain"
  "chain_Digest (run_chain (xs @ [x])) = Sum256 (step_input x (run_chain xs))"
  by (simp add: chain_Digest_def run_chain_def NewChain_def, simp add: chain_Digest_def run_chain_snoc Advance_digest)

lemma chain_nonempty:
  assumes "step_ok x" "inj_on Sum256 A" "set (hashed (xs @ [x])) \<subseteq> A"
  shows "chain_Digest (run_chain (xs @ [x])) \<noteq> chain_Digest (run_chain [])"
proof
  assume "chain_Digest (run_chain (xs @ [x])) = chain_Digest (run_chain [])"
  then have "step_input x (run_chain xs) = chainDomain"
    using inj_onD [OF assms(2)] assms(3) hashed_members unfolding run_digest by (meson subsetD)
  then show False using step_input_not_domain [OF assms(1)] by simp
qed

lemma chain_binding:
  assumes "list_all step_ok xs" "list_all step_ok ys" "inj_on Sum256 (set (hashed xs) \<union> set (hashed ys))"
    "chain_Digest (run_chain xs) = chain_Digest (run_chain ys)"
  shows "xs = ys"
  using assms
proof (induction xs arbitrary: ys rule: rev_induct)
  case Nil
  show ?case
  proof (rule ccontr)
    assume "[] \<noteq> ys"
    then obtain zs y where ys: "ys = zs @ [y]" by (metis rev_exhaust)
    then show False using chain_nonempty [OF _ Nil(3), of y zs] Nil(2,4) by simp
  qed
next
  case (snoc x xs)
  have "ys \<noteq> []" using chain_nonempty [OF _ snoc.prems(3), of x xs] snoc.prems(1,4) by auto
  then obtain zs y where ys: "ys = zs @ [y]" by (metis rev_exhaust)
  have eq: "Sum256 (step_input x (run_chain xs)) = Sum256 (step_input y (run_chain zs))"
    using snoc.prems(4) unfolding ys run_digest .
  have "step_input x (run_chain xs) = step_input y (run_chain zs)"
    by (rule inj_onD [OF snoc.prems(3) eq]) (simp_all add: ys hashed_members)
  then have dig: "ch_digest (run_chain xs) = ch_digest (run_chain zs)" and xy: "x = y"
    using step_input_inject [of x y "run_chain xs" "run_chain zs"] snoc.prems(1,2) ys by simp_all
  have "inj_on Sum256 (set (hashed xs) \<union> set (hashed zs))"
    by (rule inj_on_subset [OF snoc.prems(3)]) (auto simp: ys hashed_snoc)
  then have "xs = zs" using snoc.IH [of zs] snoc.prems(1,2) ys dig by (simp add: chain_Digest_def)
  then show ?case using ys xy by simp
qed

section \<open>What \<open>Absorbed\<close> counts\<close>

text \<open>The number of steps at the end of a run over which the projection's digest was the same.\<close>

definition still :: "run \<Rightarrow> nat" where
  "still xs = length (takeWhile (\<lambda>x. snd x = snd (last xs)) (rev xs))"

lemma still_snoc:
  "still (xs @ [x]) = (if xs \<noteq> [] \<and> snd (last xs) = snd x then Suc (still xs) else 1)"
  by (cases xs rule: rev_cases) (auto simp: still_def)

lemma still_le: "still xs \<le> length xs"
  using length_takeWhile_le [of _ "rev xs"] by (simp add: still_def)

lemma still_pos: "xs \<noteq> [] \<Longrightarrow> 0 < still xs"
  by (cases xs rule: rev_cases) (auto simp: still_snoc)

lemma run_chain_counts:
  "ch_steps (run_chain xs) = word_of_nat (length xs) \<and>
   (xs \<noteq> [] \<longrightarrow> ch_seen (run_chain xs) \<and> ch_last (run_chain xs) = snd (last xs) \<and>
      ch_lastChange (run_chain xs) = word_of_nat (length xs - still xs + 1)) \<and>
   (xs = [] \<longrightarrow> \<not> ch_seen (run_chain xs))"
proof (induction xs rule: rev_induct)
  case Nil
  then show ?case by (simp add: run_chain_def NewChain_def)
next
  case (snoc x xs)
  show ?case
  proof (cases "xs \<noteq> [] \<and> snd (last xs) = snd x")
    case True
    then have "chain_Advance (fst x) (snd x) (run_chain xs) =
        (run_chain xs)\<lparr>ch_digest := Sum256 (step_input x (run_chain xs)), ch_steps := ch_steps (run_chain xs) + 1\<rparr>"
      using snoc by (simp add: chain_Advance_def Let_def step_input_def)
    then show ?thesis using snoc True by (simp add: run_chain_snoc still_snoc add.commute)
  next
    case False
    then have "\<not> ch_seen (run_chain xs) \<or> snd x \<noteq> ch_last (run_chain xs)" using snoc by auto
    then show ?thesis using snoc False
      by (simp add: run_chain_snoc chain_Advance_def Let_def still_snoc add.commute) blast
  qed
qed

lemma chain_since:
  assumes "xs \<noteq> []"
  shows "chain_StepsSinceChange (run_chain xs) = word_of_nat (still xs - 1)"
proof -
  have "length xs = (length xs - still xs + 1) + (still xs - 1)" using still_le [of xs] still_pos [OF assms] by simp
  then have "(word_of_nat (length xs) :: 64 word) = word_of_nat (length xs - still xs + 1) + word_of_nat (still xs - 1)"
    by (metis of_nat_add)
  then show ?thesis using run_chain_counts [of xs] assms by (simp add: chain_StepsSinceChange_def)
qed

lemma chain_Absorbed_iff:
  assumes "length xs < 2 ^ 63"
  shows "chain_Absorbed w (run_chain xs) \<longleftrightarrow> 0 < sint w \<and> sint w < int (still xs)"
proof (cases "xs = []")
  case True
  then show ?thesis by (simp add: chain_Absorbed_def still_def run_chain_def NewChain_def)
next
  case False
  have st: "still xs < 2 ^ 63" using still_le [of xs] assms by simp
  have "(word_of_nat (length xs) :: 64 word) \<noteq> 0"
    using assms False sint_small [OF assms] by (metis length_0_conv of_nat_eq_0_iff signed_0)
  moreover have "sint (chain_StepsSinceChange (run_chain xs)) = int (still xs) - 1"
    using chain_since [OF False] sint_small [of "still xs - 1"] st still_pos [OF False] by simp
  ultimately show ?thesis using run_chain_counts [of xs] by (auto simp: chain_Absorbed_def)
qed

end
