(* ===== verification/Core_Cycle.thy ===== *)
theory Core_Cycle
  imports Core_Chain
begin

text \<open>
  The command cycle, \<^verbatim>\<open>core/cycle.go\<close> and \<^verbatim>\<open>core/deps.go\<close>: command, validation, events, projection.

  The dependencies, the decider and the projection are interfaces, and their implementations
  may share objects: a teller reads the balances its ledger holds. They are operations on one
  state \<open>'w\<close> that stands for all the objects behind them. A nil interface is \<open>None\<close>. The
  contract a decider has to keep is the locale \<open>pure_decider\<close>: deciding reads the state and
  does not change it.
\<close>

section \<open>Dependencies\<close>

text \<open>A call that panics is \<open>None\<close>.\<close>

record 'w Source_ops =
  so_Uint64 :: "'w \<Rightarrow> 64 word \<times> 'w"
  so_Intn :: "int \<Rightarrow> 'w \<Rightarrow> (int \<times> 'w) option"

record 'w Clock_ops =
  co_Now :: "'w \<Rightarrow> Time"
  co_Timer :: "64 word \<Rightarrow> 'w \<Rightarrow> nat \<times> 'w"

record 'w Deps =
  dp_Clock :: "'w Clock_ops option"
  dp_Rand :: "'w Source_ops option"
  dp_IDs :: "(string \<Rightarrow> 'w \<Rightarrow> string \<times> 'w) option"
  dp_Sched :: "(int \<Rightarrow> 'w \<Rightarrow> (int \<times> 'w) option) option"

definition Deps_Validate :: "'w Deps \<Rightarrow> error option" where
  "Deps_Validate d =
     (if dp_Clock d = None then Some (errMissingDep ''Clock'')
      else if dp_Rand d = None then Some (errMissingDep ''Rand'')
      else if dp_IDs d = None then Some (errMissingDep ''IDs'')
      else if dp_Sched d = None then Some (errMissingDep ''Sched'')
      else None)"

record 'w Projection =
  pj_Apply :: "event \<Rightarrow> 'w \<Rightarrow> error option \<times> 'w"
  pj_Digest :: "'w \<Rightarrow> Digest"

type_synonym 'w Decider = "command \<Rightarrow> 'w \<Rightarrow> event list res \<times> 'w"

section \<open>The cycle\<close>

record 'w Cycle =
  cy_deps :: "'w Deps"
  cy_dec :: "'w Decider"
  cy_proj :: "'w Projection"
  cy_chain :: Chain
  cy_poison :: "error option"

definition NewCycle :: "'w Deps \<Rightarrow> 'w Decider option \<Rightarrow> 'w Projection option \<Rightarrow> 'w Cycle res" where
  "NewCycle deps dec proj =
     (case Deps_Validate deps of
        Some err \<Rightarrow> Inl err
      | None \<Rightarrow>
          (case dec of
             None \<Rightarrow> Inl (errMissingDep ''Decider'')
           | Some dec \<Rightarrow>
               (case proj of
                  None \<Rightarrow> Inl (errMissingDep ''Projection'')
                | Some proj \<Rightarrow>
                    Inr \<lparr>cy_deps = deps, cy_dec = dec, cy_proj = proj, cy_chain = NewChain, cy_poison = None\<rparr>)))"

fun apply_loop :: "nat \<Rightarrow> event list \<Rightarrow> 'w Cycle \<Rightarrow> 'w \<Rightarrow> error option \<times> 'w Cycle \<times> 'w" where
  "apply_loop i [] c w = (None, c, w)"
| "apply_loop i (e # es) c w =
     (case pj_Apply (cy_proj c) e w of
        (Some err, w) \<Rightarrow>
          let poison = Errorf ''%w: event %d: %w'' [Sentinel ErrPoisoned, err]
          in (Some poison, c\<lparr>cy_poison := Some poison\<rparr>, w)
      | (None, w) \<Rightarrow>
          apply_loop (Suc i) es (c\<lparr>cy_chain := chain_Advance e (pj_Digest (cy_proj c) w) (cy_chain c)\<rparr>) w)"

definition cycle_apply :: "event list \<Rightarrow> 'w Cycle \<Rightarrow> 'w \<Rightarrow> error option \<times> 'w Cycle \<times> 'w" where
  "cycle_apply es c w = apply_loop 0 es c w"

text \<open>The loop of \<open>Submit\<close> that stamps the events, gives them the command's key and checks them.\<close>

fun stamp_loop :: "Time \<Rightarrow> command \<Rightarrow> event list \<Rightarrow> event list res" where
  "stamp_loop now cmd [] = Inr []"
| "stamp_loop now cmd (e # es) =
     (let e = e\<lparr>e_Time := now\<rparr>;
          e = (if e_Key e = '''' then e\<lparr>e_Key := c_Key cmd\<rparr> else e)
      in case Event_Validate e of
           Some err \<Rightarrow> Inl (Errorf ''event %d of %s: %w'' [err])
         | None \<Rightarrow>
             (case stamp_loop now cmd es of Inl err \<Rightarrow> Inl err | Inr es \<Rightarrow> Inr (e # es)))"

definition cycle_Submit :: "command \<Rightarrow> 'w Cycle \<Rightarrow> 'w \<Rightarrow> event list res \<times> 'w Cycle \<times> 'w" where
  "cycle_Submit cmd c w =
     (case cy_poison c of
        Some err \<Rightarrow> (Inl err, c, w)
      | None \<Rightarrow>
          (case Command_Validate cmd of
             Some err \<Rightarrow> (Inl err, c, w)
           | None \<Rightarrow>
               (case cy_dec c cmd w of
                  (Inl err, w) \<Rightarrow> (Inl (Errorf ''decide %s: %w'' [err]), c, w)
                | (Inr events, w) \<Rightarrow>
                    if events = [] then (Inr [], c, w)
                    else
                      (case stamp_loop (co_Now (the (dp_Clock (cy_deps c))) w) cmd events of
                         Inl err \<Rightarrow> (Inl err, c, w)
                       | Inr events \<Rightarrow>
                           (case cycle_apply events c w of
                              (Some err, c, w) \<Rightarrow> (Inl err, c, w)
                            | (None, c, w) \<Rightarrow> (Inr events, c, w))))))"

fun validate_loop :: "event list \<Rightarrow> error option" where
  "validate_loop [] = None"
| "validate_loop (e # es) =
     (case Event_Validate e of
        Some err \<Rightarrow> Some (Errorf ''replayed event %d: %w'' [err])
      | None \<Rightarrow> validate_loop es)"

definition cycle_Fold :: "event list \<Rightarrow> 'w Cycle \<Rightarrow> 'w \<Rightarrow> error option \<times> 'w Cycle \<times> 'w" where
  "cycle_Fold events c w =
     (case cy_poison c of
        Some err \<Rightarrow> (Some err, c, w)
      | None \<Rightarrow>
          (case validate_loop events of
             Some err \<Rightarrow> (Some err, c, w)
           | None \<Rightarrow> cycle_apply events c w))"

definition cycle_Chain :: "'w Cycle \<Rightarrow> Chain" where
  "cycle_Chain c = cy_chain c"

definition cycle_Digest :: "'w Cycle \<Rightarrow> 'w \<Rightarrow> Digest" where
  "cycle_Digest c w = pj_Digest (cy_proj c) w"

section \<open>Applying\<close>

lemma validate_loop_None: "validate_loop es = None \<longleftrightarrow> list_all (\<lambda>e. Event_Validate e = None) es"
  by (induction es) (auto split: option.split)

lemma stamp_loop_valid:
  "stamp_loop now cmd es = Inr es' \<Longrightarrow> list_all (\<lambda>e. Event_Validate e = None \<and> e_Time e = now) es' \<and> length es' = length es"
  by (induction es arbitrary: es') (auto simp: Let_def split: option.splits sum.splits if_splits)

text \<open>
  What a projection alone makes of a list of events: the run it produces and the state it
  ends in, or \<open>None\<close> when it refuses an event.
\<close>

fun fold_run :: "'w Projection \<Rightarrow> event list \<Rightarrow> 'w \<Rightarrow> (run \<times> 'w) option" where
  "fold_run P [] w = Some ([], w)"
| "fold_run P (e # es) w =
     (case pj_Apply P e w of
        (Some err, w) \<Rightarrow> None
      | (None, w) \<Rightarrow> (case fold_run P es w of None \<Rightarrow> None | Some (xs, w') \<Rightarrow> Some ((e, pj_Digest P w) # xs, w')))"

lemma fold_run_append:
  "fold_run P (xs @ ys) w =
     (case fold_run P xs w of
        None \<Rightarrow> None
      | Some (r, w) \<Rightarrow> (case fold_run P ys w of None \<Rightarrow> None | Some (s, w) \<Rightarrow> Some (r @ s, w)))"
  by (induction xs arbitrary: w) (auto split: option.split prod.split)

lemma apply_loop_ok:
  "apply_loop i es c w = (None, c', w') \<longleftrightarrow>
     (\<exists>xs. fold_run (cy_proj c) es w = Some (xs, w') \<and> c' = c\<lparr>cy_chain := advance_all xs (cy_chain c)\<rparr>)"
proof (induction i es c w rule: apply_loop.induct)
  case (2 i e es c w)
  then show ?case by (auto simp: Let_def split: prod.splits option.splits)
qed auto

lemma apply_loop_error:
  "apply_loop i es c w = (Some err, c', w') \<Longrightarrow> cy_poison c' = Some err \<and> errors_Is err ErrPoisoned"
  by (induction i es c w rule: apply_loop.induct) (auto simp: Let_def split: prod.splits option.splits)

lemma cycle_Fold_ok:
  "cycle_Fold es c w = (None, c', w') \<longleftrightarrow>
     cy_poison c = None \<and> list_all (\<lambda>e. Event_Validate e = None) es \<and>
     (\<exists>xs. fold_run (cy_proj c) es w = Some (xs, w') \<and> c' = c\<lparr>cy_chain := advance_all xs (cy_chain c)\<rparr>)"
  by (auto simp: cycle_Fold_def cycle_apply_def apply_loop_ok validate_loop_None [symmetric] split: option.split)

text \<open>Folding in one batch or in two makes no difference.\<close>

lemma cycle_Fold_append:
  "cycle_Fold (xs @ ys) c w = (None, c', w') \<longleftrightarrow>
     (\<exists>c1 w1. cycle_Fold xs c w = (None, c1, w1) \<and> cycle_Fold ys c1 w1 = (None, c', w'))"
  unfolding cycle_Fold_ok by (auto simp: fold_run_append split: option.splits)

section \<open>Deciding\<close>

locale pure_decider =
  fixes dec :: "'w Decider"
  assumes decide_pure: "dec cmd w = (r, w') \<Longrightarrow> w' = w"
begin

text \<open>A live run and the replay of the events it returned are the same run.\<close>

lemma submit_is_fold:
  assumes "cy_dec c = dec" "cycle_Submit cmd c w = (Inr es, c', w')"
  shows "cycle_Fold es c w = (None, c', w')"
proof -
  have p: "cy_poison c = None" using assms(2) by (auto simp: cycle_Submit_def split: option.splits)
  obtain evs where d: "dec cmd w = (Inr evs, w)"
    using assms decide_pure by (auto simp: cycle_Submit_def split: option.splits prod.splits sum.splits)
  show ?thesis
  proof (cases "evs = []")
    case True
    then show ?thesis using assms p d by (auto simp: cycle_Submit_def cycle_Fold_def cycle_apply_def split: option.splits)
  next
    case False
    then obtain es' where s: "stamp_loop (co_Now (the (dp_Clock (cy_deps c))) w) cmd evs = Inr es'"
      using assms p d by (auto simp: cycle_Submit_def split: option.splits sum.splits)
    then have e: "cycle_apply es' c w = (None, c', w')" "es = es'"
      using assms p d False by (auto simp: cycle_Submit_def split: option.splits prod.splits)
    have "validate_loop es' = None"
      using stamp_loop_valid [OF s] by (simp add: validate_loop_None list_all_iff)
    then show ?thesis using p e by (simp add: cycle_Fold_def)
  qed
qed

text \<open>A rejected command changes nothing, unless applying broke, and then the cycle is poisoned.\<close>

lemma submit_rejected:
  assumes "cy_dec c = dec" "cycle_Submit cmd c w = (Inl err, c', w')"
  shows "c' = c \<and> w' = w \<or> cy_poison c' = Some err \<and> errors_Is err ErrPoisoned"
  using assms decide_pure
  by (auto simp: cycle_Submit_def cycle_apply_def split: option.splits prod.splits sum.splits if_splits
      dest!: apply_loop_error)

end

lemma poisoned_refuses:
  assumes "cy_poison c = Some err"
  shows "cycle_Submit cmd c w = (Inl err, c, w)" "cycle_Fold es c w = (Some err, c, w)"
  using assms by (simp_all add: cycle_Submit_def cycle_Fold_def)

end
