(* ===== verification/Sim_Deps.thy ===== *)
theory Sim_Deps
  imports Core_Cycle
begin

text \<open>
  The deterministic dependencies of \<^verbatim>\<open>sim/deps.go\<close>: virtual time with polled timers, the
  splitmix64 generator and its unbiased bounded draw, sequential identifiers and the seeded
  scheduler. A panic is \<open>None\<close>. The rejection loop of \<^verbatim>\<open>Intn\<close> has no bound of its own; it is
  shown to end because the generator visits every state, one of which it accepts.
\<close>

section \<open>Time\<close>

record timer =
  tm_due :: Time
  tm_cancelled :: bool

record Clock =
  ck_now :: Time
  ck_timers :: "timer list"

definition NewClock :: Clock where
  "NewClock = \<lparr>ck_now = 0, ck_timers = []\<rparr>"

definition clock_Now :: "Clock \<Rightarrow> Time" where
  "clock_Now c = ck_now c"

definition clock_Advance :: "64 word \<Rightarrow> Clock \<Rightarrow> Clock option" where
  "clock_Advance d c = (if sint d < 0 then None else Some (c\<lparr>ck_now := ck_now c + d\<rparr>))"

definition clock_Set :: "Time \<Rightarrow> Clock \<Rightarrow> Clock" where
  "clock_Set t c = c\<lparr>ck_now := t\<rparr>"

text \<open>A timer is a pointer into the clock's list: its place there.\<close>

definition clock_Timer :: "64 word \<Rightarrow> Clock \<Rightarrow> nat \<times> Clock" where
  "clock_Timer d c = (length (ck_timers c), c\<lparr>ck_timers := ck_timers c @ [\<lparr>tm_due = ck_now c + d, tm_cancelled = False\<rparr>]\<rparr>)"

definition timer_Ready :: "Time \<Rightarrow> timer \<Rightarrow> bool" where
  "timer_Ready now t \<longleftrightarrow> \<not> tm_cancelled t \<and> sint (tm_due t) \<le> sint now"

definition timer_Deadline :: "nat \<Rightarrow> Clock \<Rightarrow> Time" where
  "timer_Deadline i c = tm_due (ck_timers c ! i)"

definition timer_Cancel :: "nat \<Rightarrow> Clock \<Rightarrow> Clock" where
  "timer_Cancel i c = c\<lparr>ck_timers := (ck_timers c)[i := (ck_timers c ! i)\<lparr>tm_cancelled := True\<rparr>]\<rparr>"

definition clock_Due :: "Clock \<Rightarrow> nat list" where
  "clock_Due c = filter (\<lambda>i. timer_Ready (ck_now c) (ck_timers c ! i)) [0..<length (ck_timers c)]"

section \<open>Randomness\<close>

record Source =
  src_state :: "64 word"

definition NewSource :: "64 word \<Rightarrow> Source" where
  "NewSource seed = \<lparr>src_state = seed\<rparr>"

definition splitmix :: "64 word \<Rightarrow> 64 word" where
  "splitmix z =
     (let z = (z XOR drop_bit 30 z) * 0xbf58476d1ce4e5b9;
          z = (z XOR drop_bit 27 z) * 0x94d049bb133111eb
      in z XOR drop_bit 31 z)"

definition source_Uint64 :: "Source \<Rightarrow> 64 word \<times> Source" where
  "source_Uint64 s = (let st = src_state s + 0x9e3779b97f4a7c15 in (splitmix st, s\<lparr>src_state := st\<rparr>))"

text \<open>\<^verbatim>\<open>bits.Mul64\<close>: the two halves of the 128-bit product.\<close>

definition Mul64 :: "64 word \<Rightarrow> 64 word \<Rightarrow> 64 word \<times> 64 word" where
  "Mul64 a b = (word_of_nat (unat a * unat b div 2 ^ 64), word_of_nat (unat a * unat b mod 2 ^ 64))"

partial_function (option) intn_loop ::
  "64 word \<Rightarrow> 64 word \<Rightarrow> 64 word \<times> 64 word \<Rightarrow> Source \<Rightarrow> (64 word \<times> Source) option" where
  "intn_loop bound threshold p s =
     (if snd p < threshold then
        (case source_Uint64 s of (x, s) \<Rightarrow> intn_loop bound threshold (Mul64 x bound) s)
      else Some (fst p, s))"

declare intn_loop.simps [code]

definition source_Intn :: "int \<Rightarrow> Source \<Rightarrow> (int \<times> Source) option" where
  "source_Intn n s =
     (if n \<le> 0 then None
      else
        let bound = word_of_int n :: 64 word;
            (x, s) = source_Uint64 s;
            p = Mul64 x bound
        in case (if snd p < bound then intn_loop bound (- bound mod bound) p s else Some (fst p, s)) of
             None \<Rightarrow> None
           | Some (hi, s) \<Rightarrow> Some (sint hi, s))"

section \<open>Identifiers and scheduling\<close>

type_synonym IDGen = "(string \<times> 64 word) list"

definition NewIDGen :: IDGen where
  "NewIDGen = []"

text \<open>\<^verbatim>\<open>%012d\<close> of an \<^verbatim>\<open>int64\<close>: a sign counts against the width.\<close>

definition fmt_012d :: "64 word \<Rightarrow> string" where
  "fmt_012d n = (if 0 \<le> sint n then zero_padded 12 (nat (sint n)) else ''-'' @ zero_padded 11 (nat (- sint n)))"

definition idgen_NextID :: "string \<Rightarrow> IDGen \<Rightarrow> string \<times> IDGen" where
  "idgen_NextID kind g =
     (let n = (case map_of g kind of None \<Rightarrow> 0 | Some n \<Rightarrow> n) + 1
      in (kind @ ''-'' @ fmt_012d n, AList.update kind n g))"

record Scheduler =
  sched_src :: Source

definition NewScheduler :: "64 word \<Rightarrow> Scheduler" where
  "NewScheduler seed = \<lparr>sched_src = NewSource (seed XOR 0x5deece66d)\<rparr>"

definition sched_Choose :: "int \<Rightarrow> Scheduler \<Rightarrow> (int \<times> Scheduler) option" where
  "sched_Choose ready s =
     (if ready \<le> 1 then Some (0, s)
      else (case source_Intn ready (sched_src s) of
              None \<Rightarrow> None
            | Some (i, src) \<Rightarrow> Some (i, s\<lparr>sched_src := src\<rparr>)))"

text \<open>The objects a wired run shares, and the dependency set over them.\<close>

record sim_world =
  sw_clock :: Clock
  sw_rand :: Source
  sw_ids :: IDGen
  sw_sched :: Scheduler

definition sim_deps_ops :: "'a sim_world_scheme Deps" where
  "sim_deps_ops =
     \<lparr>dp_Clock = Some \<lparr>co_Now = (\<lambda>w. clock_Now (sw_clock w)),
        co_Timer = (\<lambda>d w. case clock_Timer d (sw_clock w) of (i, c) \<Rightarrow> (i, w\<lparr>sw_clock := c\<rparr>))\<rparr>,
      dp_Rand = Some \<lparr>so_Uint64 = (\<lambda>w. case source_Uint64 (sw_rand w) of (x, s) \<Rightarrow> (x, w\<lparr>sw_rand := s\<rparr>)),
        so_Intn = (\<lambda>n w. case source_Intn n (sw_rand w) of None \<Rightarrow> None | Some (x, s) \<Rightarrow> Some (x, w\<lparr>sw_rand := s\<rparr>))\<rparr>,
      dp_IDs = Some (\<lambda>kind w. case idgen_NextID kind (sw_ids w) of (x, g) \<Rightarrow> (x, w\<lparr>sw_ids := g\<rparr>)),
      dp_Sched = Some (\<lambda>n w. case sched_Choose n (sw_sched w) of None \<Rightarrow> None | Some (x, s) \<Rightarrow> Some (x, w\<lparr>sw_sched := s\<rparr>))\<rparr>"

definition sim_Deps :: "64 word \<Rightarrow> sim_world Deps \<times> sim_world" where
  "sim_Deps seed =
     (sim_deps_ops,
      \<lparr>sw_clock = NewClock, sw_rand = NewSource seed, sw_ids = NewIDGen, sw_sched = NewScheduler seed\<rparr>)"

section \<open>The bounded draw\<close>

text \<open>The generator reaches every state: its increment is odd, hence invertible.\<close>

lemma splitmix_full: "splitmix 0xcf9a04affa6badc0 = - 1"
  by (simp add: splitmix_def Let_def)

lemma source_reaches:
  fixes st target :: "64 word"
  shows "\<exists>k. st + word_of_nat (Suc k) * 0x9e3779b97f4a7c15 = target"
proof
  let ?c = "0x9e3779b97f4a7c15 :: 64 word" and ?d = "0xf1de83e19937733d :: 64 word"
  have "word_of_nat (Suc (unat ((target - st) * ?d - 1))) = (target - st) * ?d" by simp
  moreover have "?d * ?c = 1" by simp
  ultimately have "word_of_nat (Suc (unat ((target - st) * ?d - 1))) * ?c = target - st"
    by (simp only: mult.assoc mult_1_right)
  then show "st + word_of_nat (Suc (unat ((target - st) * ?d - 1))) * ?c = target" by (metis add.commute diff_add_cancel)
qed

text \<open>The largest draw is accepted whatever the bound.\<close>

lemma Mul64_prod: "(hi, lo) = Mul64 a b \<Longrightarrow> unat hi * 2 ^ 64 + unat lo = unat a * unat b"
proof -
  assume p: "(hi, lo) = Mul64 a b"
  have ab: "unat a < 2 ^ 64" "unat b < 2 ^ 64" using unsigned_less [of a] unsigned_less [of b] by simp_all
  then have "unat a * unat b < 2 ^ 64 * 2 ^ 64" by (intro mult_strict_mono') simp_all
  then have "unat a * unat b div 2 ^ 64 < 2 ^ 64" by (simp only: less_mult_imp_div_less)
  then show ?thesis using p by (simp add: Mul64_def unat_of_nat take_bit_eq_mod)
qed

lemma Mul64_lo: "snd (Mul64 a b) = a * b"
  by (rule word_unat_eq_iff [THEN iffD2]) (simp add: Mul64_def unat_of_nat take_bit_eq_mod unat_word_ariths(2))

lemma intn_accepts: "\<not> snd (Mul64 (- 1) bound) < - bound mod (bound :: 64 word)"
  by (simp add: Mul64_lo not_less word_le_nat_alt unat_mod_distrib)

lemma intn_loop_ends:
  assumes "\<not> snd (Mul64 (splitmix (src_state s + word_of_nat (Suc k) * 0x9e3779b97f4a7c15)) bound) < t"
  shows "\<exists>x s'. intn_loop bound t (Mul64 y bound) s = Some (fst (Mul64 x bound), s') \<and> \<not> snd (Mul64 x bound) < t"
  using assms
proof (induction k arbitrary: y s)
  case 0
  show ?case
  proof (cases "snd (Mul64 y bound) < t")
    case True
    then have "intn_loop bound t (Mul64 y bound) s = Some (fst (Mul64 (splitmix (src_state s + 0x9e3779b97f4a7c15)) bound),
        s\<lparr>src_state := src_state s + 0x9e3779b97f4a7c15\<rparr>)"
      using 0 by (subst intn_loop.simps) (simp add: source_Uint64_def Let_def intn_loop.simps)
    then show ?thesis using 0 by auto
  qed (auto simp: intn_loop.simps)
next
  case (Suc k)
  show ?case
  proof (cases "snd (Mul64 y bound) < t")
    case True
    let ?s = "s\<lparr>src_state := src_state s + 0x9e3779b97f4a7c15\<rparr>" and ?x = "splitmix (src_state s + 0x9e3779b97f4a7c15)"
    have "\<exists>x s'. intn_loop bound t (Mul64 ?x bound) ?s = Some (fst (Mul64 x bound), s') \<and> \<not> snd (Mul64 x bound) < t"
      using Suc.prems by (intro Suc.IH) (simp add: algebra_simps)
    moreover have "intn_loop bound t (Mul64 y bound) s = intn_loop bound t (Mul64 ?x bound) ?s"
      using True by (subst intn_loop.simps) (simp add: source_Uint64_def Let_def)
    ultimately show ?thesis by simp
  qed (auto simp: intn_loop.simps)
qed

lemma Mul64_hi_less: "0 < unat b \<Longrightarrow> unat (fst (Mul64 a b)) < unat b"
proof -
  assume b: "0 < unat b"
  have "unat a < 2 ^ 64" using unsigned_less [of a] by simp
  then have "unat a * unat b < unat b * 2 ^ 64" using b by simp
  then have "unat a * unat b div 2 ^ 64 < unat b" by (simp only: less_mult_imp_div_less)
  moreover have "unat b < 2 ^ 64" using unsigned_less [of b] by simp
  ultimately show ?thesis by (simp add: Mul64_def unat_of_nat take_bit_eq_mod)
qed

text \<open>
  The draw always returns, and what it returns is the high half of an accepted product: the
  early test against the bound skips the loop only where the loop would not run.
\<close>

lemma source_Intn_ok:
  assumes "0 < n" "n < 2 ^ 63"
  obtains x s' where "source_Intn n s = Some (uint (fst (Mul64 x (word_of_int n))), s')"
    "\<not> snd (Mul64 x (word_of_int n)) < - word_of_int n mod (word_of_int n :: 64 word)"
    "uint (fst (Mul64 x (word_of_int n))) < n"
proof -
  let ?b = "word_of_int n :: 64 word" and ?x = "fst (source_Uint64 s)" and ?s = "snd (source_Uint64 s)"
  let ?t = "- ?b mod ?b"
  have ub: "unat ?b = nat n" using assms by (simp add: nat_uint_eq [symmetric] uint_word_of_int)
  then have b: "0 < ?b" using assms by (simp add: word_less_nat_alt)
  have small: "sint (fst (Mul64 x ?b)) = uint (fst (Mul64 x ?b))" "uint (fst (Mul64 x ?b)) < n" for x
  proof -
    have "unat (fst (Mul64 x ?b)) < nat n" using Mul64_hi_less [of ?b x] ub assms by simp
    then show "uint (fst (Mul64 x ?b)) < n" by (simp add: nat_uint_eq [symmetric] del: nat_uint_eq)
    then have "uint (fst (Mul64 x ?b)) < 2 ^ 63" using assms(2) by simp
    moreover have "- (2 ^ 63) \<le> uint (fst (Mul64 x ?b))" by (rule order_trans [of _ 0]) simp_all
    ultimately show "sint (fst (Mul64 x ?b)) = uint (fst (Mul64 x ?b))"
      by (simp add: sint_uint signed_take_bit_int_eq_self)
  qed
  obtain k where k: "src_state ?s + word_of_nat (Suc k) * 0x9e3779b97f4a7c15 = 0xcf9a04affa6badc0"
    using source_reaches by blast
  have "\<not> snd (Mul64 (splitmix (src_state ?s + word_of_nat (Suc k) * 0x9e3779b97f4a7c15)) ?b) < ?t"
    unfolding k splitmix_full by (rule intn_accepts)
  from intn_loop_ends [OF this, of ?x] obtain x s' where
    l: "intn_loop ?b ?t (Mul64 ?x ?b) ?s = Some (fst (Mul64 x ?b), s')" "\<not> snd (Mul64 x ?b) < ?t" by blast
  have "?t < ?b" by (rule word_mod_less_divisor [OF b])
  then show thesis
  proof (cases "snd (Mul64 ?x ?b) < ?b")
    case True
    then have "source_Intn n s = Some (uint (fst (Mul64 x ?b)), s')"
      using l(1) assms small(1) by (simp add: source_Intn_def Let_def case_prod_beta)
    then show thesis using that l(2) small(2) by blast
  next
    case False
    then have "source_Intn n s = Some (uint (fst (Mul64 ?x ?b)), ?s)"
      using assms small(1) by (simp add: source_Intn_def Let_def case_prod_beta)
    moreover have "\<not> snd (Mul64 ?x ?b) < ?t" using False \<open>?t < ?b\<close> by (meson less_trans)
    ultimately show thesis using that small(2) by blast
  qed
qed

text \<open>
  No value is favoured: of the draws the loop accepts, each value comes from exactly
  \<open>2 ^ 64 div n\<close> of them.
\<close>

lemma card_multiples:
  assumes "0 < (n :: nat)"
  shows "card {k. a \<le> k * n \<and> k * n < a + m * n} = m"
proof -
  let ?c = "(a + n - 1) div n"
  have lo: "a \<le> k * n \<longleftrightarrow> ?c \<le> k" for k
  proof -
    have "?c \<le> k \<longleftrightarrow> a + n - 1 < Suc k * n" using assms by (simp only: less_Suc_eq_le [symmetric] div_less_iff_less_mult)
    also have "\<dots> \<longleftrightarrow> a \<le> k * n" using assms by auto
    finally show ?thesis by simp
  qed
  have hi: "k * n < a + m * n \<longleftrightarrow> k < ?c + m" for k
  proof (cases "m \<le> k")
    case True
    then obtain j where j: "k = m + j" using le_Suc_ex by blast
    have "k * n < a + m * n \<longleftrightarrow> \<not> a \<le> j * n" by (simp add: j add_mult_distrib not_le)
    then show ?thesis unfolding lo by (simp add: j not_le)
  next
    case False
    then have "k * n < m * n" using assms by simp
    then have "k * n < a + m * n" by (rule trans_less_add2)
    then show ?thesis using False by simp
  qed
  have "{k. a \<le> k * n \<and> k * n < a + m * n} = {?c..<?c + m}" unfolding lo hi by auto
  then show ?thesis by simp
qed

lemma div_mod_window:
  assumes "0 < (M :: nat)"
  shows "(r \<le> y mod M \<and> y div M = v) \<longleftrightarrow> v * M + r \<le> y \<and> y < Suc v * M"
proof -
  have split: "y div M * M + y mod M = y" by (rule div_mult_mod_eq)
  have lt: "y mod M < M" using assms by simp
  show ?thesis
  proof
    assume "r \<le> y mod M \<and> y div M = v"
    then show "v * M + r \<le> y \<and> y < Suc v * M" using split lt by auto
  next
    assume y: "v * M + r \<le> y \<and> y < Suc v * M"
    then have "y div M = v" by (intro div_nat_eqI) (auto simp: mult.commute)
    then show "r \<le> y mod M \<and> y div M = v" using y split by auto
  qed
qed

definition intn_draws :: "int \<Rightarrow> int \<Rightarrow> 64 word set" where
  "intn_draws n v =
     {x. \<not> snd (Mul64 x (word_of_int n)) < - word_of_int n mod (word_of_int n) \<and> uint (fst (Mul64 x (word_of_int n))) = v}"

lemma unat_threshold:
  assumes "0 < unat (b :: 64 word)"
  shows "unat (- b mod b) = 2 ^ 64 mod unat b"
proof -
  have lt: "unat b < 2 ^ 64" using unsigned_less [of b] by simp
  have "uint (- b) = (- uint b) mod 2 ^ 64" by (simp add: uint_word_ariths(4))
  also have "\<dots> = (2 ^ 64 - uint b) mod 2 ^ 64" by (rule minus_mod_self1 [symmetric])
  also have "\<dots> = 2 ^ 64 - uint b"
  proof (rule mod_pos_pos_trivial)
    show "0 \<le> 2 ^ 64 - uint b" using uint_lt2p [of b] by simp
    have "int (unat b) = uint b" by simp
    then show "2 ^ 64 - uint b < 2 ^ 64" using assms by linarith
  qed
  finally have "int (unat (- b)) = 2 ^ 64 - int (unat b)" by simp
  then have "int (unat (- b)) = int (2 ^ 64 - unat b)" using lt by (simp only: of_nat_diff less_imp_le of_nat_power of_nat_numeral)
  then have "unat (- b) = 2 ^ 64 - unat b" by (simp only: of_nat_eq_iff)
  then have "unat (- b mod b) = (2 ^ 64 - unat b) mod unat b" by (simp add: unat_mod_distrib)
  also have "\<dots> = 2 ^ 64 mod unat b" using lt by (intro le_mod_geq [symmetric] less_imp_le)
  finally show ?thesis .
qed

lemma intn_uniform:
  assumes "0 < n" "n < 2 ^ 63" "0 \<le> v" "v < n"
  shows "card (intn_draws n v) = 2 ^ 64 div nat n"
proof -
  let ?b = "word_of_int n :: 64 word" and ?n = "nat n" and ?v = "nat v"
  have ub: "unat ?b = ?n" using assms by (simp add: nat_uint_eq [symmetric] uint_word_of_int)
  have pos: "0 < ?n" using assms by simp
  have t: "unat (- ?b mod ?b) = 2 ^ 64 mod ?n" using unat_threshold [of ?b] ub pos by simp
  have iff: "x \<in> intn_draws n v \<longleftrightarrow> unat x * ?n mod 2 ^ 64 \<ge> 2 ^ 64 mod ?n \<and> unat x * ?n div 2 ^ 64 = ?v" for x :: "64 word"
  proof -
    have "unat (snd (Mul64 x ?b)) = unat x * ?n mod 2 ^ 64" using ub by (simp add: Mul64_def unat_of_nat take_bit_eq_mod)
    moreover have "unat (fst (Mul64 x ?b)) = unat x * ?n div 2 ^ 64"
      using Mul64_prod [of "fst (Mul64 x ?b)" "snd (Mul64 x ?b)" x ?b] ub calculation by (simp add: minus_mod_eq_div_mult [symmetric])
    moreover have "uint (fst (Mul64 x ?b)) = v \<longleftrightarrow> unat (fst (Mul64 x ?b)) = ?v"
      using assms(3) by (simp only: unat_eq_nat_uint eq_nat_nat_iff uint_ge_0)
    ultimately show ?thesis using t by (simp only: intn_draws_def mem_Collect_eq not_less word_le_nat_alt)
  qed
  let ?M = "2 ^ 64 :: nat"
  let ?a = "?v * ?M + ?M mod ?n" and ?m = "?M div ?n"
  have "?M mod ?n + ?m * ?n = ?M" by (rule mod_div_mult_eq)
  then have fin: "?a + ?m * ?n = Suc ?v * ?M" by (simp only: add.assoc mult_Suc add.commute)
  have eq: "(?M mod ?n \<le> y mod ?M \<and> y div ?M = ?v) \<longleftrightarrow> ?a \<le> y \<and> y < ?a + ?m * ?n" for y
    unfolding fin by (rule div_mod_window) simp
  have "unat ` intn_draws n v = {k. ?a \<le> k * ?n \<and> k * ?n < ?a + ?m * ?n}"
  proof (intro equalityI subsetI)
    fix k assume "k \<in> {k. ?a \<le> k * ?n \<and> k * ?n < ?a + ?m * ?n}"
    then have k: "?M mod ?n \<le> k * ?n mod ?M \<and> k * ?n div ?M = ?v" unfolding eq by simp
    then have "k * ?n < Suc ?v * ?M" using eq [of "k * ?n"] unfolding fin by blast
    also have "\<dots> \<le> ?n * ?M" using assms(3,4) by (intro mult_right_mono) simp_all
    finally have "k < ?M" using pos by (metis mult.commute nat_mult_less_cancel_disj)
    then have "unat (word_of_nat k :: 64 word) = k" by (simp add: unat_of_nat take_bit_eq_mod)
    then show "k \<in> unat ` intn_draws n v" using k iff [of "word_of_nat k"] by (metis imageI)
  qed (use iff eq in auto)
  then have "card (unat ` intn_draws n v) = ?m" by (simp only: card_multiples [OF pos])
  moreover have "inj_on unat (intn_draws n v)" by (intro inj_onI word_unat_eq_iff [THEN iffD2])
  ultimately show ?thesis using card_image by metis
qed

section \<open>Identifiers and timers\<close>

lemma zero_padded_less:
  assumes "a < 10 ^ w" "b < 10 ^ w" "0 < w"
  shows "zero_padded w a < zero_padded w b \<longleftrightarrow> a < b"
  using assms by (simp add: digits_less_iff length_zero_padded)

definition idgen_count :: "string \<Rightarrow> IDGen \<Rightarrow> 64 word" where
  "idgen_count kind g = (case map_of g kind of None \<Rightarrow> 0 | Some n \<Rightarrow> n)"

lemma idgen_count_NextID:
  "idgen_count kind' (snd (idgen_NextID kind g)) = (if kind' = kind then idgen_count kind g + 1 else idgen_count kind' g)"
  by (simp add: idgen_count_def idgen_NextID_def Let_def update_conv')

lemma fst_NextID: "fst (idgen_NextID kind g) = kind @ ''-'' @ fmt_012d (idgen_count kind g + 1)"
  by (simp add: idgen_count_def idgen_NextID_def Let_def)

lemma clock_Due_set: "set (clock_Due c) = {i. i < length (ck_timers c) \<and> timer_Ready (ck_now c) (ck_timers c ! i)}"
  by (auto simp: clock_Due_def)

lemma clock_Due_sorted: "sorted_wrt (<) (clock_Due c)"
  by (simp add: clock_Due_def sorted_wrt_filter)

lemma sim_Deps_valid: "Deps_Validate (fst (sim_Deps seed)) = None"
  by (simp add: sim_Deps_def sim_deps_ops_def Deps_Validate_def)

end
