(* ===== verification/Harness_Fault.thy ===== *)
theory Harness_Fault
  imports Sim_Deps
begin

text \<open>
  \<^verbatim>\<open>internal/devtools/harness/fault.go\<close> and \<^verbatim>\<open>shape.go\<close>: what a run of the fault harness is
  configured with, and the text a corpus file stores it as.

  An \<^verbatim>\<open>int\<close> is 64 bits wide on the platforms the harness runs on, so positions and arguments
  are \<open>64 word\<close>s read with \<^const>\<open>sint\<close>. The parsers use \<^verbatim>\<open>strings.TrimSpace\<close>,
  \<^verbatim>\<open>strings.FieldsSeq\<close>, \<^verbatim>\<open>strings.Cut\<close> and \<^verbatim>\<open>strconv.ParseInt\<close>; these come first. White
  space is Unicode's, in UTF-8: no encoding of a space begins inside another character, so
  looking for it byte by byte finds what decoding finds.
\<close>

section \<open>Strings and numbers\<close>

definition is_space_rune :: "string \<Rightarrow> bool" where
  "is_space_rune s \<longleftrightarrow>
     (case map of_char s :: nat list of
        [a] \<Rightarrow> 9 \<le> a \<and> a \<le> 13 \<or> a = 32
      | [a, b] \<Rightarrow> a = 0xC2 \<and> (b = 0x85 \<or> b = 0xA0)
      | [a, b, c] \<Rightarrow>
          a = 0xE1 \<and> b = 0x9A \<and> c = 0x80 \<or>
          a = 0xE2 \<and> b = 0x80 \<and> (0x80 \<le> c \<and> c \<le> 0x8A \<or> c = 0xA8 \<or> c = 0xA9 \<or> c = 0xAF) \<or>
          a = 0xE2 \<and> b = 0x81 \<and> c = 0x9F \<or>
          a = 0xE3 \<and> b = 0x80 \<and> c = 0x80
      | _ \<Rightarrow> False)"

text \<open>The length of the space a string begins with, or 0.\<close>

definition space_len :: "string \<Rightarrow> nat" where
  "space_len s =
     (if s = [] then 0
      else if is_space_rune (take 1 s) then 1
      else if is_space_rune (take 2 s) then 2
      else if is_space_rune (take 3 s) then 3 else 0)"

function trim_left :: "string \<Rightarrow> string" where
  "trim_left s = (if space_len s = 0 then s else trim_left (drop (space_len s) s))"
  by pat_completeness auto
termination
  by (relation "measure length") (auto simp: space_len_def split: if_splits)

declare trim_left.simps [simp del]

function trim_right :: "string \<Rightarrow> string" where
  "trim_right s =
     (if s = [] then []
      else if is_space_rune (drop (length s - 1) s) then trim_right (take (length s - 1) s)
      else if is_space_rune (drop (length s - 2) s) then trim_right (take (length s - 2) s)
      else if is_space_rune (drop (length s - 3) s) then trim_right (take (length s - 3) s)
      else s)"
  by pat_completeness auto
termination
  by (relation "measure length") auto

declare trim_right.simps [simp del]

definition TrimSpace :: "string \<Rightarrow> string" where
  "TrimSpace s = trim_right (trim_left s)"

text \<open>The fields of a string, \<open>cur\<close> being the one that is being read.\<close>

function fields_loop :: "string \<Rightarrow> string \<Rightarrow> string list" where
  "fields_loop cur s =
     (case s of
        [] \<Rightarrow> if cur = [] then [] else [cur]
      | c # cs \<Rightarrow>
          if space_len s = 0 then fields_loop (cur @ [c]) cs
          else (if cur = [] then [] else [cur]) @ fields_loop [] (drop (space_len s) s))"
  by pat_completeness auto
termination
  by (relation "measure (\<lambda>(cur, s). length s)") auto

declare fields_loop.simps [simp del]

definition FieldsSeq :: "string \<Rightarrow> string list" where
  "FieldsSeq s = fields_loop [] s"

definition Cut :: "string \<Rightarrow> char \<Rightarrow> (string \<times> string) option" where
  "Cut s c = (if c \<in> set s then Some (takeWhile (\<lambda>x. x \<noteq> c) s, tl (dropWhile (\<lambda>x. x \<noteq> c) s)) else None)"

lemma Cut_shorter:
  assumes "Cut s c = Some (a, b)"
  shows "length b < length s"
proof -
  have "b = tl (dropWhile (\<lambda>x. x \<noteq> c) s)" "c \<in> set s" using assms by (auto simp: Cut_def drop_Suc split: if_splits)
  then show ?thesis using length_dropWhile_le [of "\<lambda>x. x \<noteq> c" s] by (cases s) auto
qed

text \<open>\<^verbatim>\<open>strconv.ParseInt(s, 10, 64)\<close>, and \<^verbatim>\<open>strconv.Atoi\<close>, which accepts the same strings.\<close>

definition ParseInt64 :: "string \<Rightarrow> 64 word res" where
  "ParseInt64 s =
     (let (neg, ds) = (case s of [] \<Rightarrow> (False, []) | c # cs \<Rightarrow>
            if c = CHR ''-'' then (True, cs) else if c = CHR ''+'' then (False, cs) else (False, s))
      in case ParseUint64 ds of
           None \<Rightarrow> Inl (Errorf ''strconv.ParseInt: parsing %q'' [])
         | Some u \<Rightarrow>
             if \<not> neg \<and> unat u \<ge> 2 ^ 63 \<or> neg \<and> unat u > 2 ^ 63
             then Inl (Errorf ''strconv.ParseInt: parsing %q: value out of range'' [])
             else Inr (if neg then - u else u))"

text \<open>\<^verbatim>\<open>%d\<close> of a signed integer.\<close>

definition fmt_d :: "64 word \<Rightarrow> string" where
  "fmt_d n = (if sint n < 0 then CHR ''-'' # dec_digits (nat (- sint n)) else dec_digits (nat (sint n)))"

text \<open>\<^verbatim>\<open>strings.Join(out, " ")\<close>.\<close>

fun join_space :: "string list \<Rightarrow> string" where
  "join_space [] = []"
| "join_space [s] = s"
| "join_space (s # t # ss) = s @ '' '' @ join_space (t # ss)"

section \<open>Faults\<close>

datatype Kind = Crash | WriteError | ShortWrite | SyncError | BitFlip | ClockBack | CrashZeros | CrashTorn

definition kindNames :: "(Kind \<times> string) list" where
  "kindNames =
     [(Crash, ''crash''), (WriteError, ''writeerror''), (ShortWrite, ''shortwrite''), (SyncError, ''syncerror''),
      (BitFlip, ''bitflip''), (ClockBack, ''clockback''), (CrashZeros, ''crashzeros''), (CrashTorn, ''crashtorn'')]"

definition Kinds :: "Kind list" where
  "Kinds = [Crash, WriteError, ShortWrite, SyncError, BitFlip, ClockBack, CrashZeros, CrashTorn]"

definition Crashes :: "Kind list" where
  "Crashes = [Crash, CrashZeros, CrashTorn]"

text \<open>Every kind has a name, so the branch of \<^verbatim>\<open>String\<close> for a kind without one is not reached.\<close>

definition Kind_String :: "Kind \<Rightarrow> string" where
  "Kind_String k = (case map_of kindNames k of Some name \<Rightarrow> name | None \<Rightarrow> ''Kind(%d)'')"

text \<open>The Go loop visits the map in no fixed order; names being distinct, the order does not matter.\<close>

definition parseKind :: "string \<Rightarrow> Kind option" where
  "parseKind s = map_of (map (\<lambda>(kind, name). (name, kind)) kindNames) s"

record Fault =
  ft_Kind :: Kind
  ft_At :: "64 word"
  ft_Arg :: "64 word"

definition Fault_String :: "Fault \<Rightarrow> string" where
  "Fault_String f =
     (if ft_Arg f \<noteq> 0 then Kind_String (ft_Kind f) @ ''@'' @ fmt_d (ft_At f) @ '':'' @ fmt_d (ft_Arg f)
      else Kind_String (ft_Kind f) @ ''@'' @ fmt_d (ft_At f))"

definition FormatFaults :: "Fault list \<Rightarrow> string" where
  "FormatFaults faults = (if faults = [] then ''none'' else join_space (map Fault_String faults))"

definition parse_fault :: "string \<Rightarrow> Fault res" where
  "parse_fault field =
     (case Cut field CHR ''@'' of
        None \<Rightarrow> Inl (Errorf ''harness: %q is not kind@at'' [])
      | Some (name, rest) \<Rightarrow>
          (case parseKind name of
             None \<Rightarrow> Inl (Errorf ''harness: %q is not a known fault'' [])
           | Some kind \<Rightarrow>
               let (at, arg) = (case Cut rest CHR '':'' of Some (a, b) \<Rightarrow> (a, b) | None \<Rightarrow> (rest, [])) in
               (case ParseInt64 at of
                  Inl err \<Rightarrow> Inl (Errorf ''harness: %q has a bad position: %w'' [err])
                | Inr n \<Rightarrow>
                    if arg = [] then Inr \<lparr>ft_Kind = kind, ft_At = n, ft_Arg = 0\<rparr>
                    else
                      (case ParseInt64 arg of
                         Inl err \<Rightarrow> Inl (Errorf ''harness: %q has a bad argument: %w'' [err])
                       | Inr v \<Rightarrow> Inr \<lparr>ft_Kind = kind, ft_At = n, ft_Arg = v\<rparr>))))"

fun parse_faults_loop :: "string list \<Rightarrow> Fault list \<Rightarrow> Fault list res" where
  "parse_faults_loop [] faults = Inr faults"
| "parse_faults_loop (field # rest) faults =
     (case parse_fault field of
        Inl err \<Rightarrow> Inl err
      | Inr fault \<Rightarrow> parse_faults_loop rest (faults @ [fault]))"

definition ParseFaults :: "string \<Rightarrow> Fault list res" where
  "ParseFaults s =
     (let s = TrimSpace s in
      if s = [] \<or> s = ''none'' then Inr [] else parse_faults_loop (FieldsSeq s) [])"

section \<open>Shapes\<close>

record Shape =
  sh_SegmentBytes :: "64 word"
  sh_IndexInterval :: "64 word"
  sh_MaxPayload :: "64 word"
  sh_MaxBatch :: "64 word"
  sh_SyncRecords :: "64 word"

definition zero_Shape :: Shape where
  "zero_Shape = \<lparr>sh_SegmentBytes = 0, sh_IndexInterval = 0, sh_MaxPayload = 0, sh_MaxBatch = 0, sh_SyncRecords = 0\<rparr>"

definition DefaultSegmentBytes :: "64 word" where "DefaultSegmentBytes = push_bit 10 4"
definition harness_DefaultIndexInterval :: "64 word" where "harness_DefaultIndexInterval = 256"
definition DefaultMaxPayload :: "64 word" where "DefaultMaxPayload = 200"
definition DefaultMaxBatch :: "64 word" where "DefaultMaxBatch = 4"
definition harness_DefaultSyncRecords :: "64 word" where "harness_DefaultSyncRecords = 16"

definition Shape_withDefaults :: "Shape \<Rightarrow> Shape" where
  "Shape_withDefaults s =
     (let s = (if sint (sh_SegmentBytes s) \<le> 0 then s\<lparr>sh_SegmentBytes := DefaultSegmentBytes\<rparr> else s);
          s = (if sint (sh_IndexInterval s) \<le> 0 then s\<lparr>sh_IndexInterval := harness_DefaultIndexInterval\<rparr> else s);
          s = (if sint (sh_MaxPayload s) \<le> 0 then s\<lparr>sh_MaxPayload := DefaultMaxPayload\<rparr> else s);
          s = (if sint (sh_MaxBatch s) \<le> 0 then s\<lparr>sh_MaxBatch := DefaultMaxBatch\<rparr> else s);
          s = (if sint (sh_SyncRecords s) \<le> 0 then s\<lparr>sh_SyncRecords := harness_DefaultSyncRecords\<rparr> else s)
      in s)"

definition Shape_IsDefault :: "Shape \<Rightarrow> bool" where
  "Shape_IsDefault s \<longleftrightarrow> s = Shape_withDefaults zero_Shape \<or> s = zero_Shape"

definition Shape_String :: "Shape \<Rightarrow> string" where
  "Shape_String s =
     (let d = Shape_withDefaults s in
      ''seg='' @ fmt_d (sh_SegmentBytes d) @ '' index='' @ fmt_d (sh_IndexInterval d) @
      '' payload='' @ fmt_d (sh_MaxPayload d) @ '' batch='' @ fmt_d (sh_MaxBatch d) @
      '' syncrecords='' @ fmt_d (sh_SyncRecords d))"

fun parse_shape_loop :: "string list \<Rightarrow> Shape \<Rightarrow> Shape res" where
  "parse_shape_loop [] shape = Inr shape"
| "parse_shape_loop (field # rest) shape =
     (case Cut field CHR ''='' of
        None \<Rightarrow> Inl (Errorf ''harness: %q is not key=value'' [])
      | Some (key, val) \<Rightarrow>
          (case ParseInt64 val of
             Inl err \<Rightarrow> Inl (Errorf ''harness: %q has a bad value: %w'' [err])
           | Inr n \<Rightarrow>
               if key = ''seg'' then parse_shape_loop rest (shape\<lparr>sh_SegmentBytes := n\<rparr>)
               else if key = ''index'' then parse_shape_loop rest (shape\<lparr>sh_IndexInterval := n\<rparr>)
               else if key = ''payload'' then parse_shape_loop rest (shape\<lparr>sh_MaxPayload := n\<rparr>)
               else if key = ''batch'' then parse_shape_loop rest (shape\<lparr>sh_MaxBatch := n\<rparr>)
               else if key = ''syncrecords'' then parse_shape_loop rest (shape\<lparr>sh_SyncRecords := n\<rparr>)
               else Inl (Errorf ''harness: %q is not part of a shape'' [])))"

definition ParseShape :: "string \<Rightarrow> Shape res" where
  "ParseShape s = parse_shape_loop (FieldsSeq (TrimSpace s)) zero_Shape"

text \<open>One entry of a short list, chosen by the source.\<close>

definition choose_from :: "'a list \<Rightarrow> Source \<Rightarrow> ('a \<times> Source) option" where
  "choose_from xs src =
     (case source_Intn (int (length xs)) src of None \<Rightarrow> None | Some (i, src) \<Rightarrow> Some (xs ! nat i, src))"

definition shapeFor :: "Source \<Rightarrow> (Shape \<times> Source) option" where
  "shapeFor src =
     (case choose_from [512, push_bit 10 4, push_bit 10 64] src of None \<Rightarrow> None | Some (seg, src) \<Rightarrow>
      case choose_from [64, 256, push_bit 10 4] src of None \<Rightarrow> None | Some (index, src) \<Rightarrow>
      case choose_from [16, 200, 2000] src of None \<Rightarrow> None | Some (payload, src) \<Rightarrow>
      case choose_from [1, 4, 32] src of None \<Rightarrow> None | Some (batch, src) \<Rightarrow>
      case choose_from [1, 16, 256] src of None \<Rightarrow> None | Some (syncs, src) \<Rightarrow>
        Some (\<lparr>sh_SegmentBytes = seg, sh_IndexInterval = index, sh_MaxPayload = payload, sh_MaxBatch = batch,
               sh_SyncRecords = syncs\<rparr>, src))"

record harness_Config =
  hc_Seed :: "64 word"
  hc_Steps :: "64 word"
  hc_Faults :: "Fault list"
  hc_Durability :: string
  hc_Shape :: Shape
  hc_Workload :: string

section \<open>Numbers, both ways\<close>

lemma ParseUint64_dec_digits: "n < 2 ^ 64 \<Longrightarrow> ParseUint64 (dec_digits n) = Some (word_of_nat n)"
  by (simp add: ParseUint64_def)

lemma dec_digits_Cons:
  obtains c cs where "dec_digits n = c # cs" "is_digit c" "c \<noteq> CHR ''-''" "c \<noteq> CHR ''+''"
proof -
  obtain c cs where c: "dec_digits n = c # cs" using dec_digits_nonempty [of n] by (cases "dec_digits n") auto
  then have d: "is_digit c" using dec_digits_digits [of n] by simp
  show thesis by (rule that [OF c d]) (use d in \<open>auto simp: is_digit_def\<close>)
qed

lemma ParseInt64_fmt_d [simp]: "ParseInt64 (fmt_d n) = Inr n"
proof (cases "sint n < 0")
  case True
  define k where "k = nat (- sint n)"
  have k: "k \<le> 2 ^ 63" using sint_ge [of n] True by (simp add: k_def)
  then have u: "unat (word_of_nat k :: 64 word) = k" by (simp add: unat_of_nat take_bit_eq_mod)
  have "(word_of_nat k :: 64 word) = word_of_int (int k)" by simp
  also have "int k = - sint n" using True by (simp add: k_def)
  also have "word_of_int (- sint n) = - n" by simp
  finally have "- (word_of_nat k :: 64 word) = n" by simp
  moreover have "fmt_d n = CHR ''-'' # dec_digits k" using True by (simp add: fmt_d_def k_def)
  moreover have "k < 2 ^ 64" using k by simp
  ultimately show ?thesis using k by (simp add: ParseInt64_def ParseUint64_dec_digits u)
next
  case False
  define k where "k = nat (sint n)"
  have k: "k < 2 ^ 63" using sint_lt [of n] False by (simp add: k_def nat_less_iff)
  then have u: "unat (word_of_nat k :: 64 word) = k" by (simp add: unat_of_nat take_bit_eq_mod)
  have "(word_of_nat k :: 64 word) = word_of_int (int k)" by simp
  also have "int k = sint n" using False by (simp add: k_def)
  finally have w: "(word_of_nat k :: 64 word) = n" by simp
  have f: "fmt_d n = dec_digits k" using False by (simp add: fmt_d_def k_def)
  obtain c cs where c: "dec_digits k = c # cs" "c \<noteq> CHR ''-''" "c \<noteq> CHR ''+''" by (rule dec_digits_Cons)
  have "k < 2 ^ 64" using k by simp
  then show ?thesis using k u w c ParseUint64_dec_digits [of k] by (simp add: ParseInt64_def f)
qed

section \<open>Fields, both ways\<close>

text \<open>Printable characters other than the space; a space, of any length, contains none of them.\<close>

definition plain :: "char \<Rightarrow> bool" where
  "plain c \<longleftrightarrow> 33 \<le> (of_char c :: nat) \<and> (of_char c :: nat) \<le> 126"

lemma is_space_rune_plain: "is_space_rune s \<Longrightarrow> \<not> list_ex plain s"
  by (auto simp: is_space_rune_def plain_def list_ex_iff split: list.splits)

lemma space_len_plain [simp]: "plain c \<Longrightarrow> space_len (c # s) = 0"
proof -
  assume "plain c"
  then have "\<not> is_space_rune (take (Suc n) (c # s))" for n using is_space_rune_plain [of "take (Suc n) (c # s)"] by auto
  from this [of 0] this [of 1] this [of 2] show ?thesis by (simp add: space_len_def numeral_2_eq_2 numeral_3_eq_3)
qed

lemma space_len_space [simp]: "space_len (CHR '' '' # s) = 1"
  by (simp add: space_len_def is_space_rune_def)

lemma fields_loop_plain:
  "list_all plain w \<Longrightarrow> fields_loop cur (w @ s) = fields_loop (cur @ w) s"
proof (induction w arbitrary: cur)
  case (Cons c w)
  then show ?case by (subst fields_loop.simps) simp
qed simp

lemma fields_loop_Nil [simp]: "cur \<noteq> [] \<Longrightarrow> fields_loop cur [] = [cur]"
  by (subst fields_loop.simps) simp

lemma fields_loop_space [simp]: "cur \<noteq> [] \<Longrightarrow> fields_loop cur (CHR '' '' # s) = cur # fields_loop [] s"
  by (subst fields_loop.simps) simp

lemma FieldsSeq_join:
  "list_all (\<lambda>w. w \<noteq> [] \<and> list_all plain w) ws \<Longrightarrow> FieldsSeq (join_space ws) = ws"
proof (induction ws rule: join_space.induct)
  case 1
  show ?case by (simp add: FieldsSeq_def) (subst fields_loop.simps, simp)
next
  case (2 w)
  then show ?case using fields_loop_plain [of w "[]" "[]"] by (simp add: FieldsSeq_def)
next
  case (3 w v ws)
  then show ?case using fields_loop_plain [of w "[]"] by (simp add: FieldsSeq_def)
qed

lemma TrimSpace_plain:
  assumes "plain (hd s)" "plain (last s)" "s \<noteq> []"
  shows "TrimSpace s = s"
proof -
  obtain c cs where s: "s = c # cs" using assms(3) by (cases s) auto
  have l: "trim_left s = s" using assms(1) by (subst trim_left.simps) (simp add: s)
  have "last s \<in> set (drop (length s - Suc k) s)" for k
    using assms(3) last_in_set [of "drop (length s - Suc k) s"] by (cases s) (simp_all add: last_drop)
  then have "\<not> is_space_rune (drop (length s - Suc k) s)" for k
    using is_space_rune_plain assms(2) by (auto simp: list_ex_iff)
  from this [of 0] this [of 1] this [of 2] have "trim_right s = s"
    using assms(3) by (subst trim_right.simps) (simp add: numeral_2_eq_2 numeral_3_eq_3)
  with l show ?thesis by (simp add: TrimSpace_def)
qed

lemma join_space_ends:
  assumes "list_all (\<lambda>w. w \<noteq> [] \<and> list_all plain w) ws" "ws \<noteq> []"
  shows "join_space ws \<noteq> [] \<and> plain (hd (join_space ws)) \<and> plain (last (join_space ws))"
  using assms
proof (induction ws rule: join_space.induct)
  case (2 w)
  then show ?case using last_in_set [of w] hd_in_set [of w] by (auto simp: list_all_iff)
next
  case (3 w v ws)
  then show ?case using hd_in_set [of w] by (auto simp: list_all_iff)
qed simp

lemma Cut_append [simp]: "c \<notin> set a \<Longrightarrow> Cut (a @ c # b) c = Some (a, b)"
  by (auto simp: Cut_def takeWhile_append dropWhile_append)

lemma Cut_None [simp]: "c \<notin> set a \<Longrightarrow> Cut a c = None"
  by (simp add: Cut_def)

section \<open>What is printed is read back\<close>

lemma fmt_d_chars: "c \<in> set (fmt_d n) \<Longrightarrow> is_digit c \<or> c = CHR ''-''"
  using dec_digits_digits [of "nat (sint n)"] dec_digits_digits [of "nat (- sint n)"]
  by (auto simp: fmt_d_def list_all_iff split: if_splits)

lemma fmt_d_nonempty [simp]: "fmt_d n \<noteq> []"
  by (simp add: fmt_d_def)

lemma fmt_d_plain [simp]: "list_all plain (fmt_d n)"
proof -
  have "plain c" if "c \<in> set (fmt_d n)" for c using fmt_d_chars [OF that] by (auto simp: plain_def is_digit_def)
  then show ?thesis by (simp add: list_all_iff)
qed

lemma fmt_d_no_sep [simp]: "CHR ''@'' \<notin> set (fmt_d n)" "CHR '':'' \<notin> set (fmt_d n)" "CHR ''='' \<notin> set (fmt_d n)"
  using fmt_d_chars [of "CHR ''@''" n] fmt_d_chars [of "CHR '':''" n] fmt_d_chars [of "CHR ''=''" n]
  by (auto simp: is_digit_def)

lemma Kind_String_facts [simp]:
  "parseKind (Kind_String k) = Some k" "list_all plain (Kind_String k)" "CHR ''@'' \<notin> set (Kind_String k)"
  by (cases k; simp add: Kind_String_def parseKind_def kindNames_def plain_def)+

lemma Fault_String_plain: "Fault_String f \<noteq> [] \<and> list_all plain (Fault_String f)"
proof -
  have "plain CHR ''@''" "plain CHR '':''" by (simp_all add: plain_def)
  then show ?thesis by (simp add: Fault_String_def)
qed

lemma parse_fault_String [simp]: "parse_fault (Fault_String f) = Inr f"
proof (cases "ft_Arg f = 0")
  case True
  then show ?thesis by (simp add: Fault_String_def parse_fault_def)
next
  case False
  have "Cut (Kind_String (ft_Kind f) @ CHR ''@'' # fmt_d (ft_At f) @ CHR '':'' # fmt_d (ft_Arg f)) CHR ''@'' =
      Some (Kind_String (ft_Kind f), fmt_d (ft_At f) @ CHR '':'' # fmt_d (ft_Arg f))"
    by (rule Cut_append) simp
  with False show ?thesis by (simp add: Fault_String_def parse_fault_def)
qed

lemma parse_faults_loop_map: "parse_faults_loop (map Fault_String fs) acc = Inr (acc @ fs)"
  by (induction fs arbitrary: acc) simp_all

lemma faults_plain: "list_all (\<lambda>w. w \<noteq> [] \<and> list_all plain w) (map Fault_String fs)"
  using Fault_String_plain by (auto simp: list_all_iff)

lemma join_space_has: "w \<in> set ws \<Longrightarrow> set w \<subseteq> set (join_space ws)"
  by (induction ws rule: join_space.induct) auto

lemma ParseFaults_FormatFaults: "ParseFaults (FormatFaults fs) = Inr fs"
proof (cases "fs = []")
  case True
  have "TrimSpace ''none'' = ''none''" by (rule TrimSpace_plain) (simp_all add: plain_def)
  then show ?thesis by (simp add: True FormatFaults_def ParseFaults_def)
next
  case False
  let ?s = "join_space (map Fault_String fs)"
  have e: "?s \<noteq> [] \<and> plain (hd ?s) \<and> plain (last ?s)" by (rule join_space_ends [OF faults_plain]) (simp add: False)
  then have t: "TrimSpace ?s = ?s" by (intro TrimSpace_plain) simp_all
  have "CHR ''@'' \<in> set (Fault_String (hd fs))" by (simp add: Fault_String_def)
  then have "CHR ''@'' \<in> set ?s" using join_space_has [of "Fault_String (hd fs)" "map Fault_String fs"] False by auto
  then have "?s \<noteq> ''none''" by auto
  then show ?thesis
    using e by (simp add: False FormatFaults_def ParseFaults_def t FieldsSeq_join [OF faults_plain] parse_faults_loop_map)
qed

definition shape_fields :: "Shape \<Rightarrow> string list" where
  "shape_fields d =
     [''seg='' @ fmt_d (sh_SegmentBytes d), ''index='' @ fmt_d (sh_IndexInterval d),
      ''payload='' @ fmt_d (sh_MaxPayload d), ''batch='' @ fmt_d (sh_MaxBatch d),
      ''syncrecords='' @ fmt_d (sh_SyncRecords d)]"

lemma Shape_String_fields: "Shape_String s = join_space (shape_fields (Shape_withDefaults s))"
  by (simp add: Shape_String_def shape_fields_def Let_def)

lemma Cut_key: "CHR ''='' \<notin> set key \<Longrightarrow> s = key @ CHR ''='' # fmt_d n \<Longrightarrow> Cut s CHR ''='' = Some (key, fmt_d n)"
  by simp

lemma ParseShape_String: "ParseShape (Shape_String s) = Inr (Shape_withDefaults s)"
proof -
  let ?d = "Shape_withDefaults s"
  have p: "list_all (\<lambda>w. w \<noteq> [] \<and> list_all plain w) (shape_fields ?d)" by (simp add: shape_fields_def plain_def)
  have "TrimSpace (Shape_String s) = Shape_String s"
    using join_space_ends [OF p] by (intro TrimSpace_plain) (simp_all add: Shape_String_fields shape_fields_def)
  moreover have "parse_shape_loop (shape_fields ?d) zero_Shape = Inr ?d"
    unfolding shape_fields_def
    by (simp add: Cut_key [of "''seg''"] Cut_key [of "''index''"] Cut_key [of "''payload''"] Cut_key [of "''batch''"]
        Cut_key [of "''syncrecords''"] zero_Shape_def)
  ultimately show ?thesis by (simp add: ParseShape_def Shape_String_fields FieldsSeq_join [OF p])
qed

lemma Shape_withDefaults_idem [simp]: "Shape_withDefaults (Shape_withDefaults s) = Shape_withDefaults s"
  by (simp add: Shape_withDefaults_def Let_def DefaultSegmentBytes_def harness_DefaultIndexInterval_def DefaultMaxPayload_def
      DefaultMaxBatch_def harness_DefaultSyncRecords_def)

end
