(* ===== verification/Harness_FS.thy ===== *)
theory Harness_FS
  imports Harness_Fault Group_Crash
begin

text \<open>
  \<^verbatim>\<open>internal/devtools/harness/fs.go\<close>: the simulated filesystem with faults scheduled against it.

  The Go type holds a pointer to a \<^verbatim>\<open>sim.FS\<close>; here the state extends the simulated one, so the
  operations it forwards are those of \<^verbatim>\<open>sim/fs.go\<close> at the extended type. A \<^verbatim>\<open>faultyFile\<close>
  wraps a \<^verbatim>\<open>simFile\<close> that was opened under the same name, so its name is the simulated one's.

  Without scheduled bit flips the filesystem keeps the contract of \<^verbatim>\<open>core/fs.go\<close> whatever else
  is scheduled, and it is shown to: what an operation that returns no error has done is what
  the interface says. With nothing scheduled it is as reliable as the disk below it.
\<close>

section \<open>State\<close>

record Op =
  op_Index :: "64 word"
  op_Kind :: string
  op_Name :: string
  op_Step :: "64 word"
  op_Fault :: "Fault option"

record hfs = simfs +
  h_byOp :: "(64 word \<times> Fault list) list"
  h_ops :: "64 word"
  h_crashed :: bool
  h_lastWritten :: string
  h_fired :: "Fault list"
  h_signature :: "64 word"
  h_trace :: "Op list"
  h_tracing :: bool
  h_atStep :: "64 word"

text \<open>The faults an operation has; a Go map answers a missing key with the empty slice.\<close>

definition faults_at :: "(64 word \<times> Fault list) list \<Rightarrow> 64 word \<Rightarrow> Fault list" where
  "faults_at m n = (case map_of m n of None \<Rightarrow> [] | Some fs \<Rightarrow> fs)"

fun schedule :: "Fault list \<Rightarrow> (64 word \<times> Fault list) list \<Rightarrow> (64 word \<times> Fault list) list" where
  "schedule [] byOp = byOp"
| "schedule (f # fs) byOp =
     (if ft_Kind f = ClockBack then schedule fs byOp
      else schedule fs (AList.update (ft_At f) (faults_at byOp (ft_At f) @ [f]) byOp))"

text \<open>A fresh \<^verbatim>\<open>FS\<close> over a disk: no operation counted, nothing fired.\<close>

definition fresh_hfs :: "(64 word \<times> Fault list) list \<Rightarrow> 'a hfs_scheme \<Rightarrow> 'a hfs_scheme" where
  "fresh_hfs byOp f = f\<lparr>h_byOp := byOp, h_ops := 0, h_crashed := False, h_lastWritten := [], h_fired := [],
     h_signature := 0, h_trace := [], h_tracing := False, h_atStep := 0\<rparr>"

definition harness_NewFS :: "Fault list \<Rightarrow> hfs" where
  "harness_NewFS faults =
     simfs.extend sim_NewFS \<lparr>h_byOp = schedule faults [], h_ops = 0, h_crashed = False, h_lastWritten = [], h_fired = [],
       h_signature = 0, h_trace = [], h_tracing = False, h_atStep = 0\<rparr>"

definition hfs_Copy :: "'a hfs_scheme \<Rightarrow> 'a hfs_scheme" where
  "hfs_Copy f = fresh_hfs [] (sim_Clone f)"

definition hfs_recovered :: "'a hfs_scheme \<Rightarrow> 'a hfs_scheme" where
  "hfs_recovered f = fresh_hfs [] f"

definition hfs_AtStep :: "64 word \<Rightarrow> 'a hfs_scheme \<Rightarrow> 'a hfs_scheme" where
  "hfs_AtStep step f = f\<lparr>h_atStep := step\<rparr>"

definition hfs_Tracing :: "bool \<Rightarrow> 'a hfs_scheme \<Rightarrow> 'a hfs_scheme" where
  "hfs_Tracing b f = f\<lparr>h_tracing := b\<rparr>"

definition hasFired :: "Kind \<Rightarrow> 'a hfs_scheme \<Rightarrow> bool" where
  "hasFired kind f \<longleftrightarrow> list_ex (\<lambda>fault. ft_Kind fault = kind) (h_fired f)"

section \<open>Counting, recording, injecting\<close>

definition fnv_fold :: "byte \<Rightarrow> 64 word \<Rightarrow> 64 word" where
  "fnv_fold b sig = (sig XOR ucast b) * 1099511628211"

definition hfs_note :: "string \<Rightarrow> string \<Rightarrow> 'a hfs_scheme \<Rightarrow> 'a hfs_scheme" where
  "hfs_note kind name f =
     (let sig = (if h_signature f = 0 then 14695981039346656037 else h_signature f);
          sig = fnv_fold (ucast (h_ops f)) sig;
          sig = fnv_fold (ucast (drop_bit 8 (h_ops f))) sig;
          sig = fold fnv_fold (bytes_of kind) sig;
          sig = fold fnv_fold (bytes_of name) sig;
          f = f\<lparr>h_signature := sig\<rparr>
      in if h_tracing f
         then f\<lparr>h_trace := h_trace f @ [\<lparr>op_Index = h_ops f, op_Kind = kind, op_Name = name, op_Step = h_atStep f,
                op_Fault = None\<rparr>]\<rparr>
         else f)"

definition hfs_record :: "Fault \<Rightarrow> 'a hfs_scheme \<Rightarrow> 'a hfs_scheme" where
  "hfs_record fault f =
     (let f = f\<lparr>h_fired := h_fired f @ [fault]\<rparr>
      in if h_tracing f \<and> h_trace f \<noteq> []
         then f\<lparr>h_trace := butlast (h_trace f) @ [(last (h_trace f))\<lparr>op_Fault := Some fault\<rparr>]\<rparr>
         else f)"

text \<open>Go's \<^verbatim>\<open>%\<close>, whose result has the sign of the dividend.\<close>

definition go_rem :: "int \<Rightarrow> int \<Rightarrow> int" where
  "go_rem a b = sgn a * (\<bar>a\<bar> mod \<bar>b\<bar>)"

text \<open>
  The bit a flip inverts. The shift count is converted to unsigned first, so a negative remainder
  is a shift past the width of the byte and inverts nothing.
\<close>

definition flip_mask :: "int \<Rightarrow> byte" where
  "flip_mask arg = (if go_rem arg 8 < 0 then 0 else push_bit (nat (go_rem arg 8)) 1)"

definition hfs_flip :: "64 word \<Rightarrow> 'a hfs_scheme \<Rightarrow> bool \<times> 'a hfs_scheme" where
  "hfs_flip arg f =
     (if h_lastWritten f = [] then (False, f)
      else
        (case sim_Open (h_lastWritten f) f of
           (Inl err, f) \<Rightarrow> (False, f)
         | (Inr h, f) \<Rightarrow>
             (case simFile_Size h f of
                Inl err \<Rightarrow> (False, snd (simFile_Close h f))
              | Inr sz \<Rightarrow>
                  if sz = 0 then (False, snd (simFile_Close h f))
                  else
                    let at = go_rem (sint arg) sz;
                        at = (if at < 0 then at + sz else at)
                    in (case simFile_ReadAt h 1 at f of
                          (buf, Some err) \<Rightarrow> (False, snd (simFile_Close h f))
                        | (buf, None) \<Rightarrow>
                            (case sim_Overwrite (h_lastWritten f) at [hd buf XOR flip_mask (sint arg)] f of
                               (err, f) \<Rightarrow> (err = None, snd (simFile_Close h f)))))))"

text \<open>The loop over the faults of an operation. A kind the \<^verbatim>\<open>switch\<close> does not name is passed over.\<close>

fun apply_faults :: "Fault list \<Rightarrow> 'a hfs_scheme \<Rightarrow> error option \<times> 'a hfs_scheme" where
  "apply_faults [] f = (None, f)"
| "apply_faults (fault # faults) f =
     (case ft_Kind fault of
        Crash \<Rightarrow> (Some (Sentinel ErrCrashed), hfs_record fault ((sim_Crash f)\<lparr>h_crashed := True\<rparr>))
      | WriteError \<Rightarrow> (Some (Errorf ''%w at operation %d'' [Sentinel ErrInjected]), hfs_record fault f)
      | SyncError \<Rightarrow> (Some (Errorf ''%w at operation %d'' [Sentinel ErrInjected]), hfs_record fault f)
      | BitFlip \<Rightarrow>
          (case hfs_flip (ft_Arg fault) f of
             (True, f) \<Rightarrow> apply_faults faults (hfs_record fault f)
           | (False, f) \<Rightarrow> apply_faults faults f)
      | _ \<Rightarrow> apply_faults faults f)"

definition hfs_op :: "string \<Rightarrow> string \<Rightarrow> 'a hfs_scheme \<Rightarrow> error option \<times> 'a hfs_scheme" where
  "hfs_op kind name f =
     (if h_crashed f then (Some (Sentinel ErrCrashed), f)
      else
        let f = hfs_note kind name (f\<lparr>h_ops := h_ops f + 1\<rparr>)
        in apply_faults (faults_at (h_byOp f) (h_ops f)) f)"

text \<open>
  A write of no bytes with a short write scheduled divides by zero, which ends a Go process. It
  is the error of the second branch here, which no caller matches on; the log never issues such
  a write.
\<close>

fun short_write_loop :: "Fault list \<Rightarrow> nat \<Rightarrow> 'a hfs_scheme \<Rightarrow> (error + nat option) \<times> 'a hfs_scheme" where
  "short_write_loop [] len f = (Inr None, f)"
| "short_write_loop (fault # faults) len f =
     (if ft_Kind fault \<noteq> ShortWrite then short_write_loop faults len f
      else if len = 0 then (Inl (Errorf ''runtime error: integer divide by zero'' []), f)
      else
        let n = go_rem (sint (ft_Arg fault)) (int len);
            n = (if n \<le> 0 then int (len div 2) else n)
        in if n = 0 then (Inr None, f)
           else (Inr (Some (nat n)), f\<lparr>h_fired := h_fired f @ [fault]\<rparr>))"

definition hfs_shortWrite :: "nat \<Rightarrow> 'a hfs_scheme \<Rightarrow> (error + nat option) \<times> 'a hfs_scheme" where
  "hfs_shortWrite len f = short_write_loop (faults_at (h_byOp f) (h_ops f)) len f"

section \<open>The operations\<close>

definition hfs_Create :: "string \<Rightarrow> 'a hfs_scheme \<Rightarrow> handle res \<times> 'a hfs_scheme" where
  "hfs_Create name f =
     (case hfs_op ''create'' name f of (Some err, f) \<Rightarrow> (Inl err, f) | (None, f) \<Rightarrow> sim_Create name f)"

definition hfs_Open :: "string \<Rightarrow> 'a hfs_scheme \<Rightarrow> handle res \<times> 'a hfs_scheme" where
  "hfs_Open name f =
     (case hfs_op ''open'' name f of (Some err, f) \<Rightarrow> (Inl err, f) | (None, f) \<Rightarrow> sim_Open name f)"

definition hfs_Remove :: "string \<Rightarrow> 'a hfs_scheme \<Rightarrow> error option \<times> 'a hfs_scheme" where
  "hfs_Remove name f =
     (case hfs_op ''remove'' name f of (Some err, f) \<Rightarrow> (Some err, f) | (None, f) \<Rightarrow> sim_Remove name f)"

definition hfs_Rename :: "string \<Rightarrow> string \<Rightarrow> 'a hfs_scheme \<Rightarrow> error option \<times> 'a hfs_scheme" where
  "hfs_Rename oldName newName f =
     (case hfs_op ''rename'' oldName f of (Some err, f) \<Rightarrow> (Some err, f) | (None, f) \<Rightarrow> sim_Rename oldName newName f)"

definition hfs_List :: "'a hfs_scheme \<Rightarrow> string list res" where
  "hfs_List f = (if h_crashed f then Inl (Sentinel ErrCrashed) else sim_List f)"

definition hfs_Sync :: "'a hfs_scheme \<Rightarrow> error option \<times> 'a hfs_scheme" where
  "hfs_Sync f = (case hfs_op ''syncdir'' ''.'' f of (Some err, f) \<Rightarrow> (Some err, f) | (None, f) \<Rightarrow> sim_Sync f)"

definition faultyFile_Append ::
  "handle \<Rightarrow> bytes \<Rightarrow> 'a hfs_scheme \<Rightarrow> (nat \<times> error option) \<times> 'a hfs_scheme" where
  "faultyFile_Append h p f =
     (let name = f_name (sim_file h f); f = f\<lparr>h_lastWritten := name\<rparr> in
      case hfs_op ''append'' name f of
        (Some err, f) \<Rightarrow> ((0, Some err), f)
      | (None, f) \<Rightarrow>
          (case hfs_shortWrite (length p) f of
             (Inl panic, f) \<Rightarrow> ((0, Some panic), f)
           | (Inr None, f) \<Rightarrow> simFile_Append h p f
           | (Inr (Some n), f) \<Rightarrow>
               (case simFile_Append h (take n p) f of
                  ((written, Some err), f) \<Rightarrow> ((written, Some err), f)
                | ((written, None), f) \<Rightarrow>
                    ((written, Some (Errorf ''%w: %d of %d bytes'' [Sentinel ErrInjected])), f))))"

definition faultyFile_Sync :: "handle \<Rightarrow> 'a hfs_scheme \<Rightarrow> error option \<times> 'a hfs_scheme" where
  "faultyFile_Sync h f =
     (case hfs_op ''sync'' (f_name (sim_file h f)) f of (Some err, f) \<Rightarrow> (Some err, f) | (None, f) \<Rightarrow> simFile_Sync h f)"

definition faultyFile_Truncate :: "handle \<Rightarrow> int \<Rightarrow> 'a hfs_scheme \<Rightarrow> error option \<times> 'a hfs_scheme" where
  "faultyFile_Truncate h sz f =
     (case hfs_op ''truncate'' (f_name (sim_file h f)) f of
        (Some err, f) \<Rightarrow> (Some err, f)
      | (None, f) \<Rightarrow> simFile_Truncate h sz f)"

definition faultyFile_ReadAt :: "handle \<Rightarrow> nat \<Rightarrow> int \<Rightarrow> 'a hfs_scheme \<Rightarrow> bytes \<times> error option" where
  "faultyFile_ReadAt h n off f =
     (if h_crashed f then ([], Some (Sentinel ErrCrashed)) else simFile_ReadAt h n off f)"

definition faultyFile_Close :: "handle \<Rightarrow> 'a hfs_scheme \<Rightarrow> error option \<times> 'a hfs_scheme" where
  "faultyFile_Close h f = (if h_crashed f then (None, f) else simFile_Close h f)"

definition harness_ops :: "'a hfs_scheme fs_ops" where
  "harness_ops = \<lparr>fs_Create = hfs_Create, fs_Open = hfs_Open, fs_Remove = hfs_Remove,
     fs_Rename = hfs_Rename, fs_List = hfs_List, fs_Sync = hfs_Sync,
     file_Append = faultyFile_Append, file_ReadAt = faultyFile_ReadAt, file_Truncate = faultyFile_Truncate,
     file_Size = simFile_Size, file_Sync = faultyFile_Sync, file_Close = faultyFile_Close\<rparr>"

section \<open>What an injected fault does\<close>

text \<open>The fields the simulated disk is made of.\<close>

lemma abs_sim_truncate: "abs_sim (simfs.truncate f) = abs_sim f" "wf_sim (simfs.truncate f) \<longleftrightarrow> wf_sim f"
  by (simp_all add: simfs.truncate_def abs_sim_def wf_sim_def fun_eq_iff)

lemma same_disk: "simfs.truncate g = simfs.truncate f \<Longrightarrow> abs_sim g = abs_sim f \<and> (wf_sim g \<longleftrightarrow> wf_sim f)"
  by (metis abs_sim_truncate)

lemma same_disk_file: "simfs.truncate g = simfs.truncate f \<Longrightarrow> sim_file h g = sim_file h f"
  by (cases f; cases g) (simp add: simfs.truncate_def sim_file_def)

lemma hfs_note_facts [simp]:
  "simfs.truncate (hfs_note k nm f) = simfs.truncate f" "h_byOp (hfs_note k nm f) = h_byOp f" "h_ops (hfs_note k nm f) = h_ops f"
  "h_crashed (hfs_note k nm f) = h_crashed f" "h_lastWritten (hfs_note k nm f) = h_lastWritten f" "h_fired (hfs_note k nm f) = h_fired f"
  "hfs.more (hfs_note k nm f) = hfs.more f"
  by (simp_all add: hfs_note_def Let_def simfs.truncate_def)

lemma hfs_record_facts [simp]:
  "simfs.truncate (hfs_record x f) = simfs.truncate f" "h_byOp (hfs_record x f) = h_byOp f" "h_ops (hfs_record x f) = h_ops f"
  "h_crashed (hfs_record x f) = h_crashed f" "h_fired (hfs_record x f) = h_fired f @ [x]" "hfs.more (hfs_record x f) = hfs.more f"
  by (simp_all add: hfs_record_def Let_def simfs.truncate_def)

lemma truncate_upd [simp]:
  "simfs.truncate (f\<lparr>h_ops := n\<rparr>) = simfs.truncate f" "simfs.truncate (f\<lparr>h_crashed := b\<rparr>) = simfs.truncate f"
  "simfs.truncate (f\<lparr>h_lastWritten := w\<rparr>) = simfs.truncate f" "simfs.truncate (f\<lparr>h_fired := x\<rparr>) = simfs.truncate f"
  by (simp_all add: simfs.truncate_def)

lemma sim_Crash_truncate: "simfs.truncate (sim_Crash f) = sim_Crash (simfs.truncate f)"
  by (simp add: simfs.truncate_def sim_Crash_def crash_with_def)

lemma sim_Crash_frame [simp]: "h_byOp (sim_Crash f) = h_byOp f" "hfs.more (sim_Crash f) = hfs.more f"
  by (simp_all add: sim_Crash_def crash_with_def)

text \<open>No bit flip is scheduled; or nothing is, and the machine is up.\<close>

definition unflipped :: "'a hfs_scheme \<Rightarrow> bool" where
  "unflipped f \<longleftrightarrow> (\<forall>(n, fs)\<in>set (h_byOp f). \<forall>x\<in>set fs. ft_Kind x \<noteq> BitFlip)"

lemma unflipped_at: "unflipped f \<Longrightarrow> x \<in> set (faults_at (h_byOp f) n) \<Longrightarrow> ft_Kind x \<noteq> BitFlip"
  by (cases "map_of (h_byOp f) n") (auto simp: unflipped_def faults_at_def dest: map_of_SomeD)

lemma apply_faults_cases:
  assumes "\<forall>x\<in>set xs. ft_Kind x \<noteq> BitFlip" "apply_faults xs f = (r, f')"
  shows "r = None \<and> f' = f \<or>
    (\<exists>x\<in>set xs. ft_Kind x = Crash \<and> r = Some (Sentinel ErrCrashed) \<and> f' = hfs_record x ((sim_Crash f)\<lparr>h_crashed := True\<rparr>)) \<or>
    (\<exists>x\<in>set xs. ft_Kind x \<in> {WriteError, SyncError} \<and> r = Some (Errorf ''%w at operation %d'' [Sentinel ErrInjected]) \<and> f' = hfs_record x f)"
  using assms
proof (induction xs arbitrary: r f')
  case (Cons x xs)
  then show ?case by (cases "ft_Kind x") auto
qed simp

text \<open>
  The outcomes of counting an operation: it goes ahead on the same disk, it fails on the same
  disk, or the machine stops, now or before.
\<close>

lemma hfs_op_cases:
  assumes "unflipped f" "hfs_op k nm f = (r, f')"
  obtains (ahead) "r = None" "\<not> h_crashed f" "\<not> h_crashed f'" "simfs.truncate f' = simfs.truncate f" "h_byOp f' = h_byOp f"
  | (fails) "r = Some (Errorf ''%w at operation %d'' [Sentinel ErrInjected])" "\<not> h_crashed f" "\<not> h_crashed f'"
      "simfs.truncate f' = simfs.truncate f" "h_byOp f' = h_byOp f"
  | (stops) "r = Some (Sentinel ErrCrashed)" "\<not> h_crashed f" "h_crashed f'"
      "simfs.truncate f' = sim_Crash (simfs.truncate f)" "h_byOp f' = h_byOp f"
  | (stopped) "r = Some (Sentinel ErrCrashed)" "h_crashed f" "f' = f"
proof (cases "h_crashed f")
  case True
  then have "r = Some (Sentinel ErrCrashed)" "f' = f" using assms(2) by (simp_all add: hfs_op_def)
  then show ?thesis using True by (intro stopped) simp_all
next
  case False
  let ?g = "hfs_note k nm (f\<lparr>h_ops := h_ops f + 1\<rparr>)"
  have a: "apply_faults (faults_at (h_byOp f) (h_ops f + 1)) ?g = (r, f')"
    using assms(2) False by (simp add: hfs_op_def Let_def)
  have "\<forall>x\<in>set (faults_at (h_byOp f) (h_ops f + 1)). ft_Kind x \<noteq> BitFlip" using unflipped_at [OF assms(1)] by blast
  from apply_faults_cases [OF this a] show ?thesis
  proof (elim disjE bexE conjE)
    assume "r = None" "f' = ?g"
    then show ?thesis by (intro ahead) (simp_all add: False)
  next
    fix x
    assume "r = Some (Sentinel ErrCrashed)" "f' = hfs_record x (sim_Crash ?g\<lparr>h_crashed := True\<rparr>)"
    then show ?thesis by (intro stops) (simp_all add: False sim_Crash_truncate)
  next
    fix x
    assume "r = Some (Errorf ''%w at operation %d'' [Sentinel ErrInjected])" "f' = hfs_record x ?g"
    then show ?thesis by (intro fails) (simp_all add: False)
  qed
qed

section \<open>The faulty filesystem keeps the contract\<close>

text \<open>A stopped machine has no open files; the disk is what the power cut left.\<close>

definition abs_hfs :: "'a hfs_scheme \<Rightarrow> disk" where
  "abs_hfs f = (if h_crashed f then (abs_sim f)\<lparr>d_node := (\<lambda>_. None)\<rparr> else abs_sim f)"

definition wf_hfs :: "'a hfs_scheme \<Rightarrow> bool" where
  "wf_hfs f \<longleftrightarrow> wf_sim f \<and> unflipped f"

lemma abs_hfs_up [simp]: "\<not> h_crashed f \<Longrightarrow> abs_hfs f = abs_sim f"
  by (simp add: abs_hfs_def)

lemma d_node_abs_hfs: "d_node (abs_hfs f) h = Some i \<Longrightarrow> \<not> h_crashed f \<and> d_node (abs_sim f) h = Some i"
  by (auto simp: abs_hfs_def split: if_splits)

text \<open>An operation that was let through has the simulated disk do its work.\<close>

lemma hfs_op_through:
  assumes "wf_hfs f" "hfs_op k nm f = (None, f')"
  shows "wf_sim f' \<and> wf_hfs f' \<and> abs_sim f' = abs_hfs f \<and> abs_hfs f' = abs_hfs f \<and> \<not> h_crashed f'"
proof -
  have u: "unflipped f" and w: "wf_sim f" using assms(1) by (simp_all add: wf_hfs_def)
  show ?thesis
  proof (rule hfs_op_cases [OF u assms(2)])
    assume a: "\<not> h_crashed f" "\<not> h_crashed f'" "simfs.truncate f' = simfs.truncate f" "h_byOp f' = h_byOp f"
    then have "wf_hfs f'" using w u same_disk [OF a(3)] by (simp add: wf_hfs_def unflipped_def)
    then show ?thesis using w a same_disk [OF a(3)] by simp
  qed simp_all
qed

lemma hfs_op_error:
  assumes "wf_hfs f" "hfs_op k nm f = (Some e, f')"
  shows "errors_Is e s \<longleftrightarrow> (s = ErrCrashed \<and> h_crashed f') \<or> (s = ErrInjected \<and> \<not> h_crashed f')"
proof -
  have u: "unflipped f" using assms(1) by (simp add: wf_hfs_def)
  show ?thesis by (rule hfs_op_cases [OF u assms(2)]) auto
qed

text \<open>The simulated operations leave the schedule and the machine alone.\<close>

lemma sim_frames:
  "sim_Create nm f = (r1, g) \<Longrightarrow> h_byOp g = h_byOp f \<and> h_crashed g = h_crashed f \<and> h_ops g = h_ops f"
  "sim_Open nm f = (r1, g) \<Longrightarrow> h_byOp g = h_byOp f \<and> h_crashed g = h_crashed f \<and> h_ops g = h_ops f"
  "sim_Remove nm f = (r2, g) \<Longrightarrow> h_byOp g = h_byOp f \<and> h_crashed g = h_crashed f \<and> h_ops g = h_ops f"
  "sim_Rename nm nm' f = (r2, g) \<Longrightarrow> h_byOp g = h_byOp f \<and> h_crashed g = h_crashed f \<and> h_ops g = h_ops f"
  "sim_Sync f = (r2, g) \<Longrightarrow> h_byOp g = h_byOp f \<and> h_crashed g = h_crashed f \<and> h_ops g = h_ops f"
  "simFile_Append h p f = (r3, g) \<Longrightarrow> h_byOp g = h_byOp f \<and> h_crashed g = h_crashed f \<and> h_ops g = h_ops f"
  "simFile_Truncate h n f = (r2, g) \<Longrightarrow> h_byOp g = h_byOp f \<and> h_crashed g = h_crashed f \<and> h_ops g = h_ops f"
  "simFile_Sync h f = (r2, g) \<Longrightarrow> h_byOp g = h_byOp f \<and> h_crashed g = h_crashed f \<and> h_ops g = h_ops f"
  "simFile_Close h f = (r2, g) \<Longrightarrow> h_byOp g = h_byOp f \<and> h_crashed g = h_crashed f \<and> h_ops g = h_ops f"
  by (auto simp: sim_Create_def sim_Open_def sim_Remove_def sim_Rename_def sim_Sync_def sim_file_defs simFile_Close_def
      set_sim_node_def Let_def split: option.splits if_splits)

lemma wf_hfs_frame: "wf_hfs f \<Longrightarrow> wf_sim g \<Longrightarrow> h_byOp g = h_byOp f \<Longrightarrow> wf_hfs g"
  by (simp add: wf_hfs_def unflipped_def)

lemma short_write_cases:
  "short_write_loop xs len f = (Inr None, g) \<Longrightarrow> g = f"
  by (induction xs) (auto simp: Let_def split: if_splits)

lemma hfs_finish:
  assumes "wf_hfs g" "\<not> h_crashed g" "wf_sim f'" "h_byOp f' = h_byOp g \<and> h_crashed f' = h_crashed g \<and> h_ops f' = h_ops g"
  shows "wf_hfs f' \<and> abs_hfs f' = abs_sim f'"
  using assms wf_hfs_frame [of g f'] by simp

lemma hfs_Create_law:
  assumes "wf_hfs f" "hfs_Create nm f = (Inr h, f')"
  shows "wf_hfs f' \<and> d_dir (abs_hfs f) nm = None \<and> d_node (abs_hfs f) h = None \<and>
    (\<exists>i. fresh_inode i (abs_hfs f) \<and> abs_hfs f' = disk_create nm h i (abs_hfs f))"
proof -
  obtain g where g: "hfs_op ''create'' nm f = (None, g)" "sim_Create nm g = (Inr h, f')"
    using assms(2) by (auto simp: hfs_Create_def split: prod.splits option.splits)
  note t = hfs_op_through [OF assms(1) g(1)]
  then have "wf_sim g" by simp
  note l = sim_Create_law [OF this g(2)]
  with t hfs_finish [OF _ _ _ sim_frames(1) [OF g(2)]] show ?thesis by simp
qed

lemma hfs_Open_law:
  assumes "wf_hfs f" "hfs_Open nm f = (Inr h, f')"
  shows "wf_hfs f' \<and> d_node (abs_hfs f) h = None \<and> (\<exists>i. d_dir (abs_hfs f) nm = Some i \<and> abs_hfs f' = disk_open h i (abs_hfs f))"
proof -
  obtain g where g: "hfs_op ''open'' nm f = (None, g)" "sim_Open nm g = (Inr h, f')"
    using assms(2) by (auto simp: hfs_Open_def split: prod.splits option.splits)
  note t = hfs_op_through [OF assms(1) g(1)]
  then have "wf_sim g" by simp
  note l = sim_Open_law [OF this g(2)]
  with t hfs_finish [OF _ _ _ sim_frames(2) [OF g(2)]] show ?thesis by simp
qed

lemma hfs_missing:
  assumes "wf_hfs f" "errors_Is e ErrNotExist"
  shows "hfs_Open nm f = (Inl e, f') \<Longrightarrow> wf_hfs f' \<and> d_dir (abs_hfs f) nm = None \<and> abs_hfs f' = abs_hfs f"
    "hfs_Remove nm f = (Some e, f') \<Longrightarrow> wf_hfs f' \<and> d_dir (abs_hfs f) nm = None \<and> abs_hfs f' = abs_hfs f"
proof -
  have no: "hfs_op k n f \<noteq> (Some e, f')" for k n using hfs_op_error [OF assms(1), of k n e f' ErrNotExist] assms(2) by auto
  assume "hfs_Open nm f = (Inl e, f')"
  then obtain g where g: "hfs_op ''open'' nm f = (None, g)" "sim_Open nm g = (Inl e, f')"
    using no by (auto simp: hfs_Open_def split: prod.splits option.splits)
  note t = hfs_op_through [OF assms(1) g(1)]
  then have w: "wf_sim g" by simp
  have o: "fs_Open sim_ops nm g = (Inl e, f')" using g(2) by (simp add: sim_ops_def)
  show "wf_hfs f' \<and> d_dir (abs_hfs f) nm = None \<and> abs_hfs f' = abs_hfs f"
    using sim.Open_missing [OF w o assms(2)] t hfs_finish [OF _ _ _ sim_frames(2) [OF g(2)]] by simp
next
  have no: "hfs_op k n f \<noteq> (Some e, f')" for k n using hfs_op_error [OF assms(1), of k n e f' ErrNotExist] assms(2) by auto
  assume "hfs_Remove nm f = (Some e, f')"
  then obtain g where g: "hfs_op ''remove'' nm f = (None, g)" "sim_Remove nm g = (Some e, f')"
    using no by (auto simp: hfs_Remove_def split: prod.splits option.splits)
  note t = hfs_op_through [OF assms(1) g(1)]
  then have w: "wf_sim g" by simp
  have o: "fs_Remove sim_ops nm g = (Some e, f')" using g(2) by (simp add: sim_ops_def)
  show "wf_hfs f' \<and> d_dir (abs_hfs f) nm = None \<and> abs_hfs f' = abs_hfs f"
    using sim.Remove_missing [OF w o assms(2)] t hfs_finish [OF _ _ _ sim_frames(3) [OF g(2)]] by simp
qed

lemma hfs_dir_laws:
  assumes "wf_hfs f"
  shows "hfs_Remove nm f = (None, f') \<Longrightarrow> wf_hfs f' \<and> d_dir (abs_hfs f) nm \<noteq> None \<and> abs_hfs f' = disk_remove nm (abs_hfs f)"
    "hfs_Rename old new f = (None, f') \<Longrightarrow> wf_hfs f' \<and> d_dir (abs_hfs f) old \<noteq> None \<and> abs_hfs f' = disk_rename old new (abs_hfs f)"
    "hfs_Sync f = (None, f') \<Longrightarrow> wf_hfs f' \<and> abs_hfs f' = disk_syncdir (abs_hfs f)"
proof -
  assume "hfs_Remove nm f = (None, f')"
  then obtain g where g: "hfs_op ''remove'' nm f = (None, g)" "sim_Remove nm g = (None, f')"
    by (auto simp: hfs_Remove_def split: prod.splits option.splits)
  note t = hfs_op_through [OF assms(1) g(1)]
  then have "wf_sim g" by simp
  note l = sim_Remove_law [OF this g(2)]
  with t hfs_finish [OF _ _ _ sim_frames(3) [OF g(2)]]
  show "wf_hfs f' \<and> d_dir (abs_hfs f) nm \<noteq> None \<and> abs_hfs f' = disk_remove nm (abs_hfs f)" by simp
next
  assume "hfs_Rename old new f = (None, f')"
  then obtain g where g: "hfs_op ''rename'' old f = (None, g)" "sim_Rename old new g = (None, f')"
    by (auto simp: hfs_Rename_def split: prod.splits option.splits)
  note t = hfs_op_through [OF assms(1) g(1)]
  then have "wf_sim g" by simp
  note l = sim_Rename_law [OF this g(2)]
  with t hfs_finish [OF _ _ _ sim_frames(4) [OF g(2)]]
  show "wf_hfs f' \<and> d_dir (abs_hfs f) old \<noteq> None \<and> abs_hfs f' = disk_rename old new (abs_hfs f)" by simp
next
  assume "hfs_Sync f = (None, f')"
  then obtain g where g: "hfs_op ''syncdir'' ''.'' f = (None, g)" "sim_Sync g = (None, f')"
    by (auto simp: hfs_Sync_def split: prod.splits option.splits)
  note t = hfs_op_through [OF assms(1) g(1)]
  then have w: "wf_sim g" by simp
  have o: "fs_Sync sim_ops g = (None, f')" using g(2) by (simp add: sim_ops_def)
  show "wf_hfs f' \<and> abs_hfs f' = disk_syncdir (abs_hfs f)"
    using sim.SyncDir_law [OF w o] t hfs_finish [OF _ _ _ sim_frames(5) [OF g(2)]] by simp
qed

lemma hfs_file_laws:
  assumes "wf_hfs f" "d_node (abs_hfs f) h = Some i"
  shows "faultyFile_Append h p f = ((n, None), f') \<Longrightarrow> wf_hfs f' \<and> n = length p \<and> abs_hfs f' = disk_append i p (abs_hfs f)"
    "faultyFile_Truncate h (int m) f = (None, f') \<Longrightarrow>
       wf_hfs f' \<and> m \<le> length (d_data (abs_hfs f) i) \<and> abs_hfs f' = disk_truncate i m (abs_hfs f)"
    "faultyFile_Sync h f = (None, f') \<Longrightarrow> wf_hfs f' \<and> abs_hfs f' = disk_sync i (abs_hfs f)"
    "faultyFile_Close h f = (None, f') \<Longrightarrow> wf_hfs f' \<and> abs_hfs f' = disk_close h (abs_hfs f)"
proof -
  assume a: "faultyFile_Append h p f = ((n, None), f')"
  let ?f = "f\<lparr>h_lastWritten := f_name (sim_file h f)\<rparr>"
  obtain g where g: "hfs_op ''append'' (f_name (sim_file h f)) ?f = (None, g)" "hfs_shortWrite (length p) g = (Inr None, g)"
    "simFile_Append h p g = ((n, None), f')"
    using a by (auto simp: faultyFile_Append_def Let_def hfs_shortWrite_def dest: short_write_cases split: prod.splits option.splits sum.splits)
  have "wf_hfs ?f" "abs_hfs ?f = abs_hfs f"
    using assms(1) same_disk [of ?f f] by (simp_all add: wf_hfs_def unflipped_def abs_hfs_def)
  with hfs_op_through [OF _ g(1)] have t: "wf_sim g" "wf_hfs g" "abs_sim g = abs_hfs f" "\<not> h_crashed g" by simp_all
  have nd: "d_node (abs_sim g) h = Some i" using t(3) assms(2) by simp
  show "wf_hfs f' \<and> n = length p \<and> abs_hfs f' = disk_append i p (abs_hfs f)"
    using sim_file_laws(1) [OF t(1) nd g(3)] t hfs_finish [OF t(2,4) _ sim_frames(6) [OF g(3)]] by simp
next
  assume "faultyFile_Truncate h (int m) f = (None, f')"
  then obtain g where g: "hfs_op ''truncate'' (f_name (sim_file h f)) f = (None, g)" "simFile_Truncate h (int m) g = (None, f')"
    by (auto simp: faultyFile_Truncate_def split: prod.splits option.splits)
  note t = hfs_op_through [OF assms(1) g(1)]
  then have w: "wf_sim g" and nd: "d_node (abs_sim g) h = Some i" using assms(2) by simp_all
  show "wf_hfs f' \<and> m \<le> length (d_data (abs_hfs f) i) \<and> abs_hfs f' = disk_truncate i m (abs_hfs f)"
    using sim_file_laws(2) [OF w nd g(2)] t hfs_finish [OF _ _ _ sim_frames(7) [OF g(2)]] by simp
next
  assume "faultyFile_Sync h f = (None, f')"
  then obtain g where g: "hfs_op ''sync'' (f_name (sim_file h f)) f = (None, g)" "simFile_Sync h g = (None, f')"
    by (auto simp: faultyFile_Sync_def split: prod.splits option.splits)
  note t = hfs_op_through [OF assms(1) g(1)]
  then have w: "wf_sim g" and nd: "d_node (abs_sim g) h = Some i" using assms(2) by simp_all
  show "wf_hfs f' \<and> abs_hfs f' = disk_sync i (abs_hfs f)"
    using sim_file_laws(3) [OF w nd g(2)] t hfs_finish [OF _ _ _ sim_frames(8) [OF g(2)]] by simp
next
  assume "faultyFile_Close h f = (None, f')"
  with d_node_abs_hfs [OF assms(2)] have c: "\<not> h_crashed f" "d_node (abs_sim f) h = Some i" "simFile_Close h f = (None, f')"
    by (simp_all add: faultyFile_Close_def)
  have w: "wf_sim f" using assms(1) by (simp add: wf_hfs_def)
  show "wf_hfs f' \<and> abs_hfs f' = disk_close h (abs_hfs f)"
    using sim_Close_law [OF w c(2,3)] c(1) hfs_finish [OF assms(1) c(1) _ sim_frames(9) [OF c(3)]] by simp
qed

lemma harness_reads:
  assumes "wf_hfs s" "d_node (abs_hfs s) h = Some i"
  shows "file_ReadAt harness_ops h n (int pos) s = read_at (d_data (abs_hfs s) i) n pos"
    "file_Size harness_ops h s = Inr (int (length (d_data (abs_hfs s) i)))"
proof -
  have w: "wf_sim s" and c: "\<not> h_crashed s" "d_node (abs_sim s) h = Some i" "d_data (abs_hfs s) = d_data (abs_sim s)"
    using assms d_node_abs_hfs [OF assms(2)] by (simp_all add: wf_hfs_def abs_hfs_def)
  show "file_ReadAt harness_ops h n (int pos) s = read_at (d_data (abs_hfs s) i) n pos"
    unfolding harness_ops_def using sim_ReadAt_law [OF w c(2)] c(1,3) by (simp add: faultyFile_ReadAt_def)
  show "file_Size harness_ops h s = Inr (int (length (d_data (abs_hfs s) i)))"
    unfolding harness_ops_def using sim_file_laws(4) [OF w c(2)] c(3) by simp
qed

interpretation faulty: filesystem harness_ops abs_hfs wf_hfs
proof (unfold_locales, goal_cases)
  case (1 s h i n pos bs e)
  have "file_ReadAt harness_ops h n (int pos) s = read_at (d_data (abs_hfs s) i) n pos"
    by (rule harness_reads [OF 1(1,2)])
  then show ?case using 1(3) by (metis)
next
  case (2 s h i len)
  have "file_Size harness_ops h s = Inr (int (length (d_data (abs_hfs s) i)))"
    by (rule harness_reads [OF 2(1,2)])
  then show ?case using 2(3) by simp
next
  case (3 s ns)
  then show ?case using sim_List_law [of s ns] by (auto simp: harness_ops_def hfs_List_def wf_hfs_def split: if_splits)
next
  case (4 s) then show ?case by (simp add: wf_hfs_def wf_sim_def abs_hfs_def)
next
  case (5 s nm h s') then show ?case using hfs_Create_law by (simp add: harness_ops_def)
next
  case (6 s nm h s') then show ?case using hfs_Open_law by (simp add: harness_ops_def)
next
  case (7 s nm e s') then show ?case using hfs_missing(1) by (simp add: harness_ops_def)
next
  case (8 s nm s') then show ?case using hfs_dir_laws(1) [of s nm s'] by (simp add: harness_ops_def)
next
  case (9 s nm e s') then show ?case using hfs_missing(2) by (simp add: harness_ops_def)
next
  case (10 s old new s') then show ?case using hfs_dir_laws(2) [of s old new s'] by (simp add: harness_ops_def)
next
  case (11 s s') then show ?case using hfs_dir_laws(3) by (simp add: harness_ops_def)
next
  case (12 s h i p n s') then show ?case using hfs_file_laws(1) by (simp add: harness_ops_def)
next
  case (13 s h i n s') then show ?case using hfs_file_laws(2) by (simp add: harness_ops_def)
next
  case (14 s h i s') then show ?case using hfs_file_laws(3) by (simp add: harness_ops_def)
next
  case (15 s h i s') then show ?case using hfs_file_laws(4) by (simp add: harness_ops_def)
next
  case (16 s h n pos)
  then obtain i where i: "d_node (abs_hfs s) h = Some i" by auto
  show ?case unfolding harness_reads(1) [OF 16(1) i] by (rule read_at_ends)
next
  case (17 s h)
  then obtain i where i: "d_node (abs_hfs s) h = Some i" by auto
  show ?case unfolding harness_reads(2) [OF 17(1) i] by blast
qed

text \<open>
  Nor does a fault change what a power cut would leave: the machine that stops leaves just that,
  and an operation that was refused has done nothing.
\<close>

lemma survived_hfs [simp]: "survived (abs_hfs f) = survived (abs_sim f)"
  by (simp add: abs_hfs_def)

lemma hfs_op_quiet:
  assumes "wf_hfs f" "hfs_op k nm f = (r, f')"
  shows "wf_hfs f' \<and> survived (abs_sim f') = survived (abs_sim f)"
proof -
  have u: "unflipped f" and w: "wf_sim f" using assms(1) by (simp_all add: wf_hfs_def)
  have keep: "wf_hfs g" if "wf_sim g" "h_byOp g = h_byOp f" for g using wf_hfs_frame [OF assms(1) that] .
  show ?thesis
  proof (rule hfs_op_cases [OF u assms(2)], goal_cases)
    case 1
    then show ?case using same_disk [OF 1(4)] w keep [OF _ 1(5)] by simp
  next
    case 2
    then show ?case using same_disk [OF 2(4)] w keep [OF _ 2(5)] by simp
  next
    case 3
    have "simfs.truncate f' = simfs.truncate (sim_Crash f)" using 3(4) by (simp add: sim_Crash_truncate)
    then show ?case using same_disk [of f' "sim_Crash f"] sim_Crash_refines [OF w] keep [OF _ 3(5)] by simp
  next
    case 4
    then show ?case using assms(1) by simp
  qed
qed

lemma hfs_after_op:
  assumes "wf_hfs f" "hfs_op k nm f = (None, g)" "wf_sim f' \<and> survived (abs_sim f') = survived (abs_sim g)" "h_byOp f' = h_byOp g"
  shows "wf_hfs f' \<and> survived (abs_sim f') = survived (abs_sim f)"
  using hfs_op_quiet [OF assms(1,2)] assms(3,4) wf_hfs_frame [of g f'] by simp

lemma hfs_quiet:
  assumes "wf_hfs f"
  shows "hfs_Create nm f = (r, f') \<Longrightarrow> wf_hfs f' \<and> survived (abs_sim f') = survived (abs_sim f)"
    "hfs_Open nm f = (r, f') \<Longrightarrow> wf_hfs f' \<and> survived (abs_sim f') = survived (abs_sim f)"
    "hfs_Remove nm f = (e, f') \<Longrightarrow> wf_hfs f' \<and> survived (abs_sim f') = survived (abs_sim f)"
    "hfs_Rename nm nm' f = (e, f') \<Longrightarrow> wf_hfs f' \<and> survived (abs_sim f') = survived (abs_sim f)"
    "faultyFile_Truncate h n f = (e, f') \<Longrightarrow> wf_hfs f' \<and> survived (abs_sim f') = survived (abs_sim f)"
    "hfs_Sync f = (Some x, f') \<Longrightarrow> wf_hfs f' \<and> survived (abs_sim f') = survived (abs_sim f)"
    "faultyFile_Sync h f = (Some x, f') \<Longrightarrow> wf_hfs f' \<and> survived (abs_sim f') = survived (abs_sim f)"
proof -
  note q = hfs_op_quiet [OF assms]
  have w: "wf_sim g" if "hfs_op k nm f = (None, g)" for k nm g using q [OF that] by (simp add: wf_hfs_def)
  have through: "wf_hfs f' \<and> survived (abs_sim f') = survived (abs_sim f)"
    if "case hfs_op k m f of (Some x, g) \<Rightarrow> f' = g | (None, g) \<Rightarrow> act g = (y, f')"
      "\<And>g. wf_sim g \<Longrightarrow> act g = (y, f') \<Longrightarrow> wf_sim f' \<and> survived (abs_sim f') = survived (abs_sim g) \<and> h_byOp f' = h_byOp g" for k m act y
  proof -
    obtain r g where g: "hfs_op k m f = (r, g)" by (metis surj_pair)
    show ?thesis
    proof (cases r)
      case (Some x)
      then show ?thesis using q [OF g] that(1) g by simp
    next
      case None
      then have "act g = (y, f')" using that(1) g by simp
      then show ?thesis using that(2) w g None hfs_after_op [OF assms, of k m g f'] by blast
    qed
  qed
  show "hfs_Create nm f = (r, f') \<Longrightarrow> wf_hfs f' \<and> survived (abs_sim f') = survived (abs_sim f)"
    by (rule through [where k = "''create''" and m = "nm" and act = "sim_Create nm" and y = r]) (auto simp: hfs_Create_def dest: sim_dir_quiet(1) sim_frames(1) split: prod.splits option.splits)
  show "hfs_Open nm f = (r, f') \<Longrightarrow> wf_hfs f' \<and> survived (abs_sim f') = survived (abs_sim f)"
    by (rule through [where k = "''open''" and m = "nm" and act = "sim_Open nm" and y = r]) (auto simp: hfs_Open_def dest: sim_dir_quiet(2) sim_frames(2) split: prod.splits option.splits)
  show "hfs_Remove nm f = (e, f') \<Longrightarrow> wf_hfs f' \<and> survived (abs_sim f') = survived (abs_sim f)"
    by (rule through [where k = "''remove''" and m = "nm" and act = "sim_Remove nm" and y = e]) (auto simp: hfs_Remove_def dest: sim_dir_quiet(3) sim_frames(3) split: prod.splits option.splits)
  show "hfs_Rename nm nm' f = (e, f') \<Longrightarrow> wf_hfs f' \<and> survived (abs_sim f') = survived (abs_sim f)"
    by (rule through [where k = "''rename''" and m = "nm" and act = "sim_Rename nm nm'" and y = e]) (auto simp: hfs_Rename_def dest: sim_dir_quiet(4) sim_frames(4) split: prod.splits option.splits)
  show "faultyFile_Truncate h n f = (e, f') \<Longrightarrow> wf_hfs f' \<and> survived (abs_sim f') = survived (abs_sim f)"
    by (rule through [where k = "''truncate''" and m = "f_name (sim_file h f)" and act = "simFile_Truncate h n" and y = e]) (auto simp: faultyFile_Truncate_def dest: sim_Truncate_quiet sim_frames(7) split: prod.splits option.splits)
  show "hfs_Sync f = (Some x, f') \<Longrightarrow> wf_hfs f' \<and> survived (abs_sim f') = survived (abs_sim f)"
    by (auto simp: hfs_Sync_def sim_Sync_def dest: q split: prod.splits option.splits)
  show "faultyFile_Sync h f = (Some x, f') \<Longrightarrow> wf_hfs f' \<and> survived (abs_sim f') = survived (abs_sim f)"
    by (rule through [where k = "''sync''" and m = "f_name (sim_file h f)" and act = "simFile_Sync h" and y = "Some x"])
       (auto simp: faultyFile_Sync_def simFile_Sync_def split: prod.splits option.splits if_splits)
qed

lemma short_write_quiet:
  "short_write_loop xs len f = (r, g) \<Longrightarrow> abs_sim g = abs_sim f \<and> (wf_sim g \<longleftrightarrow> wf_sim f) \<and> h_byOp g = h_byOp f"
proof (induction xs)
  case (Cons x xs)
  have "abs_sim (f\<lparr>h_fired := y\<rparr>) = abs_sim f \<and> (wf_sim (f\<lparr>h_fired := y\<rparr>) \<longleftrightarrow> wf_sim f)" for y by (rule same_disk) simp
  then show ?case using Cons by (auto simp: Let_def split: if_splits)
qed simp

lemma faulty_Append_quiet:
  assumes "wf_hfs f" "faultyFile_Append h p f = (q, f')"
  shows "wf_hfs f' \<and> survived (abs_sim f') = survived (abs_sim f)"
proof -
  let ?f = "f\<lparr>h_lastWritten := f_name (sim_file h f)\<rparr>"
  have w: "wf_hfs ?f" "abs_sim ?f = abs_sim f" using assms(1) same_disk [of ?f f] by (simp_all add: wf_hfs_def unflipped_def)
  obtain r g where g: "hfs_op ''append'' (f_name (sim_file h f)) ?f = (r, g)" by (metis surj_pair)
  note qg = hfs_op_quiet [OF w(1) g]
  show ?thesis
  proof (cases r)
    case (Some x)
    then show ?thesis using assms(2) g qg w(2) by (simp add: faultyFile_Append_def Let_def)
  next
    case None
    obtain sw k where k: "hfs_shortWrite (length p) g = (sw, k)" by (metis surj_pair)
    have sk: "abs_sim k = abs_sim g" "wf_hfs k"
      using short_write_quiet [OF k [unfolded hfs_shortWrite_def]] qg wf_hfs_frame [of g k] by (simp_all add: wf_hfs_def)
    have "faultyFile_Append h p f = (case hfs_shortWrite (length p) g of
        (Inl panic, f) \<Rightarrow> ((0, Some panic), f)
      | (Inr None, f) \<Rightarrow> simFile_Append h p f
      | (Inr (Some n), f) \<Rightarrow>
          (case simFile_Append h (take n p) f of
             ((written, Some err), f) \<Rightarrow> ((written, Some err), f)
           | ((written, None), f) \<Rightarrow>
               ((written, Some (Errorf ''%w: %d of %d bytes'' [Sentinel ErrInjected])), f)))"
      using g None by (simp add: faultyFile_Append_def Let_def)
    then have "f' = k \<or> f' = snd (simFile_Append h p k) \<or> (\<exists>n. f' = snd (simFile_Append h (take n p) k))"
      using assms(2) k by (auto split: sum.splits option.splits prod.splits) (metis snd_conv)+
    then have "f' = k \<or> (\<exists>bs x. simFile_Append h bs k = (x, f'))" by (metis prod.collapse)
    moreover have "wf_hfs f' \<and> survived (abs_sim f') = survived (abs_sim k)" if "simFile_Append h bs k = (x, f')" for bs x
      using sim_Append_quiet [OF _ that] sim_frames(6) [of h bs k x f'] that sk(2) wf_hfs_frame [of k f'] by (simp add: wf_hfs_def)
    ultimately show ?thesis using sk qg w(2) by auto
  qed
qed

lemma faulty_Close_quiet:
  assumes "wf_hfs f" "faultyFile_Close h f = (e, f')"
  shows "wf_hfs f' \<and> (abs_hfs f' = abs_hfs f \<or> abs_hfs f' = disk_close h (abs_hfs f))"
proof (cases "h_crashed f")
  case True
  then show ?thesis using assms by (simp add: faultyFile_Close_def)
next
  case False
  then have c: "simFile_Close h f = (e, f')" using assms(2) by (simp add: faultyFile_Close_def)
  have "wf_sim f" using assms(1) by (simp add: wf_hfs_def)
  from sim_Close_quiet [OF this c] show ?thesis
    using hfs_finish [OF assms(1) False _ sim_frames(9) [OF c]] False by auto
qed

interpretation cut: crash_filesystem harness_ops abs_hfs wf_hfs
proof (unfold_locales, goal_cases)
  case (1 s nm r s') then show ?case using hfs_quiet(1) by (simp add: harness_ops_def)
next
  case (2 s nm r s') then show ?case using hfs_quiet(2) by (simp add: harness_ops_def)
next
  case (3 s nm e s') then show ?case using hfs_quiet(3) by (simp add: harness_ops_def)
next
  case (4 s old new e s') then show ?case using hfs_quiet(4) by (simp add: harness_ops_def)
next
  case (5 s h p q s') then show ?case using faulty_Append_quiet by (simp add: harness_ops_def)
next
  case (6 s h n e s') then show ?case using hfs_quiet(5) by (simp add: harness_ops_def)
next
  case (7 s h e s') then show ?case using faulty_Close_quiet by (simp add: harness_ops_def)
next
  case (8 s x s') then show ?case using hfs_quiet(6) by (simp add: harness_ops_def)
next
  case (9 s h x s') then show ?case using hfs_quiet(7) by (simp add: harness_ops_def)
qed

section \<open>Faults that do nothing\<close>

text \<open>
  The kinds the \<^verbatim>\<open>switch\<close> of \<^verbatim>\<open>op\<close> has no case for, short writes apart: a schedule made of these
  leaves the filesystem as reliable as the disk below it. An empty schedule is one of them.
\<close>

definition inert :: "'a hfs_scheme \<Rightarrow> bool" where
  "inert f \<longleftrightarrow> (\<forall>(n, fs)\<in>set (h_byOp f). \<forall>x\<in>set fs. ft_Kind x \<in> {ClockBack, CrashZeros, CrashTorn})"

definition wf_inert :: "'a hfs_scheme \<Rightarrow> bool" where
  "wf_inert f \<longleftrightarrow> wf_sim f \<and> inert f \<and> \<not> h_crashed f"

lemma inert_at: "inert f \<Longrightarrow> x \<in> set (faults_at (h_byOp f) n) \<Longrightarrow> ft_Kind x \<in> {ClockBack, CrashZeros, CrashTorn}"
  by (cases "map_of (h_byOp f) n") (auto simp: inert_def faults_at_def dest: map_of_SomeD)

lemma apply_faults_inert: "\<forall>x\<in>set xs. ft_Kind x \<in> {ClockBack, CrashZeros, CrashTorn} \<Longrightarrow> apply_faults xs f = (None, f)"
  by (induction xs) (auto split: Kind.split)

lemma short_write_inert: "\<forall>x\<in>set xs. ft_Kind x \<in> {ClockBack, CrashZeros, CrashTorn} \<Longrightarrow> short_write_loop xs len f = (Inr None, f)"
  by (induction xs) auto

lemma hfs_op_inert_up:
  assumes "inert f" "\<not> h_crashed f"
  shows "hfs_op k nm f = (None, hfs_note k nm (f\<lparr>h_ops := h_ops f + 1\<rparr>))"
proof -
  have "\<forall>x\<in>set (faults_at (h_byOp f) (h_ops f + 1)). ft_Kind x \<in> {ClockBack, CrashZeros, CrashTorn}"
    using inert_at [OF assms(1)] by blast
  then show ?thesis using assms(2) by (simp add: hfs_op_def Let_def apply_faults_inert)
qed

lemma hfs_op_inert: "wf_inert f \<Longrightarrow> hfs_op k nm f = (None, hfs_note k nm (f\<lparr>h_ops := h_ops f + 1\<rparr>))"
  by (simp add: hfs_op_inert_up wf_inert_def)

lemma inert_schedule:
  assumes "\<forall>x\<in>set faults. ft_Kind x \<in> {ClockBack, CrashZeros, CrashTorn}" "h_byOp f = schedule faults []"
  shows "inert f"
proof -
  let ?ok = "\<lambda>fs. \<forall>x\<in>set fs. ft_Kind x \<in> {ClockBack, CrashZeros, CrashTorn}"
  have upd: "\<forall>(n, fs)\<in>set (AList.update k v m). ?ok fs" if "\<forall>(n, fs)\<in>set m. ?ok fs" "?ok v" for k :: "64 word" and v m
    using that by (induction m) auto
  have at: "?ok (faults_at m n)" if "\<forall>(n, fs)\<in>set m. ?ok fs" for m n
    using that by (cases "map_of m n") (fastforce simp: faults_at_def dest: map_of_SomeD)+
  have "\<forall>(n, fs)\<in>set (schedule faults m). ?ok fs" if "\<forall>(n, fs)\<in>set m. ?ok fs" for m
    using assms(1) that
  proof (induction faults arbitrary: m)
    case (Cons x xs)
    have "\<forall>(n, fs)\<in>set (AList.update (ft_At x) (faults_at m (ft_At x) @ [x]) m). ?ok fs"
      by (rule upd [OF Cons.prems(2)]) (use at [OF Cons.prems(2)] Cons.prems(1) in auto)
    then show ?case using Cons by simp
  qed simp
  from this [of "[]"] show ?thesis using assms(2) by (simp add: inert_def)
qed

lemma hfs_shortWrite_inert: "wf_inert f \<Longrightarrow> hfs_shortWrite len f = (Inr None, f)"
  unfolding hfs_shortWrite_def
  by (rule short_write_inert) (use inert_at [of f] in \<open>auto simp: wf_inert_def\<close>)

lemma wf_inert_hfs: "wf_inert f \<Longrightarrow> wf_hfs f"
  by (force simp: wf_inert_def wf_hfs_def inert_def unflipped_def)

lemma wf_inert_frame: "wf_inert f \<Longrightarrow> wf_sim g \<Longrightarrow> h_byOp g = h_byOp f \<and> h_crashed g = h_crashed f \<and> n \<Longrightarrow> wf_inert g"
  by (simp add: wf_inert_def inert_def)

lemma wf_inert_note: "wf_inert f \<Longrightarrow> wf_inert (hfs_note k nm (f\<lparr>h_ops := m\<rparr>)) \<and> abs_sim (hfs_note k nm (f\<lparr>h_ops := m\<rparr>)) = abs_sim f"
  using same_disk [of "hfs_note k nm (f\<lparr>h_ops := m\<rparr>)" f] by (simp add: wf_inert_def inert_def)

lemma wf_inert_lastWritten: "wf_inert f \<Longrightarrow> wf_inert (f\<lparr>h_lastWritten := w\<rparr>) \<and> abs_sim (f\<lparr>h_lastWritten := w\<rparr>) = abs_sim f"
  using same_disk [of "f\<lparr>h_lastWritten := w\<rparr>" f] by (simp add: wf_inert_def inert_def)

lemma abs_hfs_inert [simp]: "wf_inert f \<Longrightarrow> abs_hfs f = abs_sim f"
  by (simp add: wf_inert_def)

text \<open>With such a schedule every operation is the simulated one on a state that counted it.\<close>

lemma inert_step:
  assumes "wf_inert f"
  obtains g where "wf_inert g" "abs_sim g = abs_sim f" "hfs_op k nm f = (None, g)"
  using hfs_op_inert [OF assms] wf_inert_note [OF assms] by blast

lemma inert_append:
  assumes "wf_inert f"
  obtains g where "wf_inert g" "abs_sim g = abs_sim f" "faultyFile_Append h p f = simFile_Append h p g"
proof -
  let ?f = "f\<lparr>h_lastWritten := f_name (sim_file h f)\<rparr>"
  have w: "wf_inert ?f" "abs_sim ?f = abs_sim f" using wf_inert_lastWritten [OF assms] by simp_all
  obtain g where g: "wf_inert g" "abs_sim g = abs_sim ?f" "hfs_op ''append'' (f_name (sim_file h f)) ?f = (None, g)"
    by (rule inert_step [OF w(1)])
  then show thesis using that [of g] w(2) hfs_shortWrite_inert [OF g(1)] by (simp add: faultyFile_Append_def Let_def)
qed

lemma inert_frames:
  assumes "wf_inert f"
  shows "hfs_Create nm f = (r1, g) \<Longrightarrow> h_byOp g = h_byOp f \<and> \<not> h_crashed g"
    "hfs_Open nm f = (r1, g) \<Longrightarrow> h_byOp g = h_byOp f \<and> \<not> h_crashed g"
    "hfs_Remove nm f = (r2, g) \<Longrightarrow> h_byOp g = h_byOp f \<and> \<not> h_crashed g"
    "hfs_Rename old new f = (r2, g) \<Longrightarrow> h_byOp g = h_byOp f \<and> \<not> h_crashed g"
    "hfs_Sync f = (r2, g) \<Longrightarrow> h_byOp g = h_byOp f \<and> \<not> h_crashed g"
    "faultyFile_Append h p f = (r3, g) \<Longrightarrow> h_byOp g = h_byOp f \<and> \<not> h_crashed g"
    "faultyFile_Truncate h n f = (r2, g) \<Longrightarrow> h_byOp g = h_byOp f \<and> \<not> h_crashed g"
    "faultyFile_Sync h f = (r2, g) \<Longrightarrow> h_byOp g = h_byOp f \<and> \<not> h_crashed g"
    "faultyFile_Close h f = (r2, g) \<Longrightarrow> h_byOp g = h_byOp f \<and> \<not> h_crashed g"
proof -
  have c: "\<not> h_crashed f" using assms by (simp add: wf_inert_def)
  note d = hfs_op_inert [OF assms] c
  show "hfs_Create nm f = (r1, g) \<Longrightarrow> h_byOp g = h_byOp f \<and> \<not> h_crashed g"
    using sim_frames(1) [of nm _ r1 g] by (fastforce simp: hfs_Create_def d)
  show "hfs_Open nm f = (r1, g) \<Longrightarrow> h_byOp g = h_byOp f \<and> \<not> h_crashed g"
    using sim_frames(2) [of nm _ r1 g] by (fastforce simp: hfs_Open_def d)
  show "hfs_Remove nm f = (r2, g) \<Longrightarrow> h_byOp g = h_byOp f \<and> \<not> h_crashed g"
    using sim_frames(3) [of nm _ r2 g] by (fastforce simp: hfs_Remove_def d)
  show "hfs_Rename old new f = (r2, g) \<Longrightarrow> h_byOp g = h_byOp f \<and> \<not> h_crashed g"
    using sim_frames(4) [of old new _ r2 g] by (fastforce simp: hfs_Rename_def d)
  show "hfs_Sync f = (r2, g) \<Longrightarrow> h_byOp g = h_byOp f \<and> \<not> h_crashed g"
    using sim_frames(5) [of _ r2 g] by (fastforce simp: hfs_Sync_def d)
  show "faultyFile_Truncate h n f = (r2, g) \<Longrightarrow> h_byOp g = h_byOp f \<and> \<not> h_crashed g"
    using sim_frames(7) [of h n _ r2 g] by (fastforce simp: faultyFile_Truncate_def d)
  show "faultyFile_Sync h f = (r2, g) \<Longrightarrow> h_byOp g = h_byOp f \<and> \<not> h_crashed g"
    using sim_frames(8) [of h _ r2 g] by (fastforce simp: faultyFile_Sync_def d)
  show "faultyFile_Close h f = (r2, g) \<Longrightarrow> h_byOp g = h_byOp f \<and> \<not> h_crashed g"
    using sim_frames(9) [of h _ r2 g] by (fastforce simp: faultyFile_Close_def d)
  have f: "wf_inert (f\<lparr>h_lastWritten := f_name (sim_file h f)\<rparr>)" using wf_inert_lastWritten [OF assms] by simp
  have "wf_inert (hfs_note k nm (f\<lparr>h_lastWritten := f_name (sim_file h f), h_ops := m\<rparr>))" for k nm m
    using wf_inert_note [OF f] by simp
  then show "faultyFile_Append h p f = (r3, g) \<Longrightarrow> h_byOp g = h_byOp f \<and> \<not> h_crashed g"
    using sim_frames(6) [of h p _ r3 g] c by (fastforce simp: faultyFile_Append_def Let_def hfs_op_inert [OF f] hfs_shortWrite_inert)
qed

lemma wf_inertI: "wf_inert f \<Longrightarrow> wf_hfs g \<Longrightarrow> h_byOp g = h_byOp f \<and> \<not> h_crashed g \<Longrightarrow> wf_inert g"
  by (simp add: wf_inert_def wf_hfs_def inert_def)

interpretation idle: reliable_filesystem harness_ops abs_hfs wf_inert
proof (unfold_locales, goal_cases)
  case (1 s h i n pos bs e)
  show ?case by (rule faulty.ReadAt_done [OF wf_inert_hfs [OF 1(1)] 1(2-4)])
next
  case (2 s h i len)
  show ?case by (rule faulty.Size_done [OF wf_inert_hfs [OF 2(1)] 2(2,3)])
next
  case (3 s ns)
  then show ?case by (rule faulty.List_law [OF wf_inert_hfs])
next
  case (4 s)
  then show ?case by (rule faulty.Dir_law [OF wf_inert_hfs])
next
  case (5 s nm h s')
  note w = wf_inert_hfs [OF 5(1)]
  show ?case using hfs_Create_law [OF w] wf_inertI [OF 5(1)] inert_frames(1) [OF 5(1)] 5(2-) abs_hfs_inert [OF 5(1)] by (fastforce simp: harness_ops_def)
next
  case (6 s nm h s')
  note w = wf_inert_hfs [OF 6(1)]
  show ?case using hfs_Open_law [OF w] wf_inertI [OF 6(1)] inert_frames(2) [OF 6(1)] 6(2-) abs_hfs_inert [OF 6(1)] by (fastforce simp: harness_ops_def)
next
  case (7 s nm e s')
  note w = wf_inert_hfs [OF 7(1)]
  show ?case using hfs_missing(1) [OF w] wf_inertI [OF 7(1)] inert_frames(2) [OF 7(1)] 7(2-) abs_hfs_inert [OF 7(1)] by (fastforce simp: harness_ops_def)
next
  case (8 s nm s')
  note w = wf_inert_hfs [OF 8(1)]
  show ?case using hfs_dir_laws(1) [OF w] wf_inertI [OF 8(1)] inert_frames(3) [OF 8(1)] 8(2-) abs_hfs_inert [OF 8(1)] by (fastforce simp: harness_ops_def)
next
  case (9 s nm e s')
  note w = wf_inert_hfs [OF 9(1)]
  show ?case using hfs_missing(2) [OF w] wf_inertI [OF 9(1)] inert_frames(3) [OF 9(1)] 9(2-) abs_hfs_inert [OF 9(1)] by (fastforce simp: harness_ops_def)
next
  case (10 s old new s')
  note w = wf_inert_hfs [OF 10(1)]
  show ?case using hfs_dir_laws(2) [OF w] wf_inertI [OF 10(1)] inert_frames(4) [OF 10(1)] 10(2-) abs_hfs_inert [OF 10(1)] by (fastforce simp: harness_ops_def)
next
  case (11 s s')
  note w = wf_inert_hfs [OF 11(1)]
  show ?case using hfs_dir_laws(3) [OF w] wf_inertI [OF 11(1)] inert_frames(5) [OF 11(1)] 11(2-) abs_hfs_inert [OF 11(1)] by (fastforce simp: harness_ops_def)
next
  case (12 s h i p n s')
  note w = wf_inert_hfs [OF 12(1)]
  show ?case using hfs_file_laws(1) [OF w] wf_inertI [OF 12(1)] inert_frames(6) [OF 12(1)] 12(2-) abs_hfs_inert [OF 12(1)] by (fastforce simp: harness_ops_def)
next
  case (13 s h i n s')
  note w = wf_inert_hfs [OF 13(1)]
  show ?case using hfs_file_laws(2) [OF w] wf_inertI [OF 13(1)] inert_frames(7) [OF 13(1)] 13(2-) abs_hfs_inert [OF 13(1)] by (fastforce simp: harness_ops_def)
next
  case (14 s h i s')
  note w = wf_inert_hfs [OF 14(1)]
  show ?case using hfs_file_laws(3) [OF w] wf_inertI [OF 14(1)] inert_frames(8) [OF 14(1)] 14(2-) abs_hfs_inert [OF 14(1)] by (fastforce simp: harness_ops_def)
next
  case (15 s h i s')
  note w = wf_inert_hfs [OF 15(1)]
  show ?case using hfs_file_laws(4) [OF w] wf_inertI [OF 15(1)] inert_frames(9) [OF 15(1)] 15(2-) abs_hfs_inert [OF 15(1)] by (fastforce simp: harness_ops_def)
next
  case (16 s h n pos)
  show ?case by (rule faulty.ReadAt_ok [OF wf_inert_hfs [OF 16(1)] 16(2)])
next
  case (17 s h)
  show ?case by (rule faulty.Size_ok [OF wf_inert_hfs [OF 17(1)] 17(2)])
next
  case (18 s)
  then show ?case by (simp add: harness_ops_def hfs_List_def sim_List_def wf_inert_def)
next
  case (19 s nm)
  obtain g where g: "wf_inert g" "abs_sim g = abs_sim s" "hfs_op ''create'' nm s = (None, g)" by (rule inert_step [OF 19(1)])
  then show ?case using 19 sim.Create_ok [of g nm] by (simp add: harness_ops_def hfs_Create_def sim_ops_def wf_inert_def)
next
  case (20 s nm)
  obtain g where g: "wf_inert g" "abs_sim g = abs_sim s" "hfs_op ''open'' nm s = (None, g)" by (rule inert_step [OF 20(1)])
  then show ?case using 20 sim.Open_ok [of g nm] by (simp add: harness_ops_def hfs_Open_def sim_ops_def wf_inert_def)
next
  case (21 s nm)
  obtain g where g: "wf_inert g" "abs_sim g = abs_sim s" "hfs_op ''open'' nm s = (None, g)" by (rule inert_step [OF 21(1)])
  then show ?case using 21 sim.Open_not_exist [of g nm] by (simp add: harness_ops_def hfs_Open_def sim_ops_def wf_inert_def)
next
  case (22 s nm)
  obtain g where g: "wf_inert g" "abs_sim g = abs_sim s" "hfs_op ''remove'' nm s = (None, g)" by (rule inert_step [OF 22(1)])
  then show ?case using 22 sim.Remove_ok [of g nm] by (simp add: harness_ops_def hfs_Remove_def sim_ops_def wf_inert_def)
next
  case (23 s nm)
  obtain g where g: "wf_inert g" "abs_sim g = abs_sim s" "hfs_op ''remove'' nm s = (None, g)" by (rule inert_step [OF 23(1)])
  then show ?case using 23 sim.Remove_not_exist [of g nm] by (simp add: harness_ops_def hfs_Remove_def sim_ops_def wf_inert_def)
next
  case (24 s old new)
  obtain g where g: "wf_inert g" "abs_sim g = abs_sim s" "hfs_op ''rename'' old s = (None, g)" by (rule inert_step [OF 24(1)])
  then show ?case using 24 sim.Rename_ok [of g old new] by (simp add: harness_ops_def hfs_Rename_def sim_ops_def wf_inert_def)
next
  case (25 s)
  obtain g where g: "wf_inert g" "abs_sim g = abs_sim s" "hfs_op ''syncdir'' ''.'' s = (None, g)" by (rule inert_step [OF 25(1)])
  then show ?case by (simp add: harness_ops_def hfs_Sync_def sim_Sync_def)
next
  case (26 s h p)
  obtain g where g: "wf_inert g" "abs_sim g = abs_sim s" "faultyFile_Append h p s = simFile_Append h p g" by (rule inert_append [OF 26(1)])
  then show ?case using 26 sim.Append_ok [of g h p] by (simp add: harness_ops_def sim_ops_def wf_inert_def)
next
  case (27 s h i n)
  obtain g where g: "wf_inert g" "abs_sim g = abs_sim s" "hfs_op ''truncate'' (f_name (sim_file h s)) s = (None, g)"
    by (rule inert_step [OF 27(1)])
  then show ?case using 27 sim.Truncate_ok [of g h i n] by (simp add: harness_ops_def faultyFile_Truncate_def sim_ops_def wf_inert_def)
next
  case (28 s h)
  obtain g where g: "wf_inert g" "abs_sim g = abs_sim s" "hfs_op ''sync'' (f_name (sim_file h s)) s = (None, g)"
    by (rule inert_step [OF 28(1)])
  then show ?case using 28 sim.Sync_ok [of g h] by (simp add: harness_ops_def faultyFile_Sync_def sim_ops_def wf_inert_def)
next
  case (29 s h)
  then show ?case by (simp add: harness_ops_def faultyFile_Close_def simFile_Close_def wf_inert_def)
qed

end
