(* ===== verification/Log_Endure.thy ===== *)
theory Log_Endure
  imports Log_Crash
begin

text \<open>
  A program that goes on after a failed append. \<open>Log_Crash\<close> follows a run to its first error; here
  the calls after it are followed too. What makes them safe is in the code's error paths: a segment
  whose write failed refuses further appends, a roll that failed is tried again or fails for good, and
  a failed sync leaves bytes that the next one makes durable.
\<close>

section \<open>The disk after an error\<close>

text \<open>
  A filesystem whose failed operations have either done nothing or were stopped by the machine
  going down, after which none succeeds. Nothing is asked of a failed write, which may have done a
  part of its work.
\<close>

locale enduring_filesystem = crash_filesystem F abs wf
  for F :: "'s fs_ops" and abs :: "'s \<Rightarrow> disk" and wf :: "'s \<Rightarrow> bool" +
  fixes down :: "'s \<Rightarrow> bool"
  assumes Create_error: "\<lbrakk>wf s; fs_Create F nm s = (Inl x, s')\<rbrakk> \<Longrightarrow> down s' \<or> abs s' = abs s"
    and SyncDir_error: "\<lbrakk>wf s; fs_Sync F s = (Some x, s')\<rbrakk> \<Longrightarrow> down s' \<or> abs s' = abs s"
    and Sync_error: "\<lbrakk>wf s; file_Sync F h s = (Some x, s')\<rbrakk> \<Longrightarrow> down s' \<or> abs s' = abs s"
    and Create_down: "\<lbrakk>wf s; down s; fs_Create F nm s = (r, s')\<rbrakk> \<Longrightarrow> down s' \<and> isl r"
    and Append_down: "\<lbrakk>wf s; down s; file_Append F h p s = ((n, e), s')\<rbrakk> \<Longrightarrow> down s' \<and> e \<noteq> None"
    and Sync_down: "\<lbrakk>wf s; down s; file_Sync F h s = (e, s')\<rbrakk> \<Longrightarrow> down s' \<and> e \<noteq> None"
    and Close_down: "\<lbrakk>wf s; down s; file_Close F h s = (e, s')\<rbrakk> \<Longrightarrow> down s'"

section \<open>Runs that go on\<close>

text \<open>Every batch is appended, whatever the appends before it returned; one flag per batch says which did not fail.\<close>

fun append_all_batches :: "'s fs_ops \<Rightarrow> event list list \<Rightarrow> 's Log \<Rightarrow> 's \<Rightarrow> bool list \<times> 's Log \<times> 's" where
  "append_all_batches F [] l st = ([], l, st)"
| "append_all_batches F (b # bs) l st =
     (case log_Append F b l st of
        ((offs, err), l, st) \<Rightarrow>
          (case append_all_batches F bs l st of (oks, l, st) \<Rightarrow> ((err = None) # oks, l, st)))"

section \<open>The states of a log whose calls have failed\<close>

definition unsealed :: "'s Log \<Rightarrow> 's Log" where
  "unsealed l = set_active ((active l)\<lparr>s_sealed := False\<rparr>) l"

lemma set_active_active [simp]: "set_active (active l) l = l"
  by (simp add: set_active_def active_def seg_at_def)

lemma set_active_twice [simp]: "set_active s (set_active t l) = set_active s l"
  by (simp add: set_active_def)

lemma unsealed_sel [simp]: "l_active (unsealed l) = l_active l" "length (l_segs (unsealed l)) = length (l_segs l)" "l_cfg (unsealed l) = l_cfg l"
  by (simp_all add: unsealed_def)

lemma unsealed_Seal:
  assumes "l_active l < length (l_segs l)" "\<not> s_sealed (active l)"
  shows "unsealed (set_active (seg_Seal (active l)) l) = l"
proof -
  have "(seg_Seal (active l))\<lparr>s_sealed := False\<rparr> = active l" using assms(2) by (cases "active l") (simp add: seg_Seal_def)
  then show ?thesis using assms(1) by (simp add: unsealed_def)
qed

text \<open>A roll seals what it is given, so it does not matter whether it was sealed before.\<close>

lemma roll_unsealed:
  assumes "l_active l < length (l_segs l)" "seg_Sync F (active l) st = (None, st1)"
  shows "log_roll F (unsealed l) st = log_roll F l st"
proof -
  have "active (unsealed l) = (active l)\<lparr>s_sealed := False\<rparr>" using assms(1) by (simp add: unsealed_def)
  then have "seg_Sync F (active (unsealed l)) st = (None, st1)"
    "set_active (seg_Seal (active (unsealed l))) (unsealed l) = set_active (seg_Seal (active l)) l"
    using assms(2) by (simp_all add: seg_Sync_def seg_Seal_def unsealed_def)
  then show ?thesis using assms(2) by (simp add: log_roll_def)
qed

text \<open>
  Nothing more will be written: the machine is down; or the active segment was sealed by a write that
  failed; or a roll left the file of the next segment behind without being sure of its name, so that
  no later roll can create it.
\<close>

definition blocked :: "disk \<Rightarrow> 's Log \<Rightarrow> bool" where
  "blocked d l \<longleftrightarrow> (\<exists>i. d_node d (s_file (active l)) = Some i \<and> d_stable d i = d_data d i) \<and>
     d_dir d (segmentName (s_next (active l))) \<noteq> None"

definition stopped :: "bool \<Rightarrow> disk \<Rightarrow> 's Log \<Rightarrow> bool" where
  "stopped dn d l \<longleftrightarrow> dn \<or> l_active l < length (l_segs l) \<and> s_sealed (active l) \<and> (seg_Full (active l) \<longrightarrow> blocked d l)"

text \<open>
  The log holds the entries, of which \<open>n\<close> are durable, and room for \<open>m\<close> more offsets: it is whole, or a
  roll has sealed its active segment and not made the next one, or nothing more will be written.
\<close>

definition going :: "bool \<Rightarrow> disk \<Rightarrow> 's Log \<Rightarrow> entry list \<Rightarrow> nat \<Rightarrow> nat \<Rightarrow> bool" where
  "going dn d l es n m \<longleftrightarrow>
     holds_log d l es n \<and> unat (log_Next l) + m < 2 ^ 64 \<or>
     l_active l < length (l_segs l) \<and> s_sealed (active l) \<and> seg_Full (active l) \<and> n = length es \<and>
       holds_log d (unsealed l) es n \<and> unat (log_Next l) + m < 2 ^ 64 \<or>
     stopped dn d l \<and> n \<le> length es \<and> leaves (survived d) (take n es)"

lemma goingI:
  "holds_log d l es n \<Longrightarrow> unat (log_Next l) + m < 2 ^ 64 \<Longrightarrow> going dn d l es n m"
  "\<lbrakk>l_active l < length (l_segs l); s_sealed (active l); seg_Full (active l); holds_log d (unsealed l) es (length es);
     unat (log_Next l) + m < 2 ^ 64\<rbrakk> \<Longrightarrow> going dn d l es (length es) m"
  "stopped dn d l \<Longrightarrow> n \<le> length es \<Longrightarrow> leaves (survived d) (take n es) \<Longrightarrow> going dn d l es n m"
  unfolding going_def by blast+

lemma going_less: "going dn d l es n m \<Longrightarrow> m' \<le> m \<Longrightarrow> going dn d l es n m'"
  unfolding going_def by auto

lemma going_leaves:
  assumes "going dn d l es n m"
  shows "n \<le> length es" "leaves (survived d) (take n es)"
proof -
  have "n \<le> length es \<and> leaves (survived d) (take n es)" if "holds_log d k es n" for k :: "'a Log"
    using that log_inv_leaves holds_log_records(3) [OF that] unfolding holds_log_def by metis
  then show "n \<le> length es" "leaves (survived d) (take n es)" using assms unfolding going_def by blast+
qed

lemma disk_sync_idle: "d_stable d i = d_data d i \<Longrightarrow> disk_sync i d = d"
  by (cases d) (simp add: disk_sync_def fun_upd_idem)

section \<open>Rolling\<close>

context enduring_filesystem
begin

lemma seg_Sync_error: "\<lbrakk>wf st; seg_Sync F s st = (Some x, st')\<rbrakk> \<Longrightarrow> down st' \<or> abs st' = abs st"
  using Sync_error by (auto simp: seg_Sync_def split: prod.splits option.splits)

lemma seg_Sync_down: "\<lbrakk>wf st; down st; seg_Sync F s st = (e, st')\<rbrakk> \<Longrightarrow> down st' \<and> e \<noteq> None"
  using Sync_down by (auto simp: seg_Sync_def split: prod.splits option.splits)

lemma createSegment_error:
  assumes "wf st" "createSegment F cfg base st = (Inl x, st')"
  shows "down st' \<or> abs st' = abs st \<or>
    (\<exists>h i. fresh_inode i (abs st) \<and> d_node (abs st) h = None \<and>
       (abs st' = disk_create (segmentName base) h i (abs st) \<or> abs st' = disk_close h (disk_create (segmentName base) h i (abs st))))"
proof -
  obtain c st1 where c: "fs_Create F (segmentName base) st = (c, st1)" by (metis surj_pair)
  show ?thesis
  proof (cases c)
    case (Inl e)
    then have "st' = st1" using assms(2) c by (simp add: createSegment_def newSegment_def createNamed_def)
    then show ?thesis using Create_error [OF assms(1) c [unfolded Inl]] by blast
  next
    case (Inr h)
    let ?s = "fresh_segment h (segmentName base) (Options_withDefaults (c_Segment cfg)) base"
    have w1: "wf st1" using Create_quiet [OF assms(1) c] by simp
    note l = Create_law [OF assms(1) c [unfolded Inr]]
    obtain e st2 where y: "fs_Sync F st1 = (e, st2)" by (metis surj_pair)
    have cs: "createSegment F cfg base st = (case e of
        Some err \<Rightarrow> (Inl (Errorf ''log: sync the directory after creating %s: %w'' [err]), snd (seg_Close F ?s st2))
      | None \<Rightarrow> (Inr ?s, st2))"
      using c Inr y by (simp add: createSegment_def newSegment_def createNamed_def Let_def split: option.split)
    then obtain err where e: "e = Some err" using assms(2) by (cases e) auto
    have w2: "wf st2" using SyncDir_failed [OF w1] y e by simp
    obtain e' where cl: "file_Close F h st2 = (e', st')" "seg_Close F ?s st2 = (map_option (\<lambda>e. Errorf ''log: close %s: %w'' [e]) e', st')"
      using cs assms(2) e by (cases "file_Close F h st2") (auto simp: seg_Close_def fresh_segment_def split: option.splits)
    have "down st' \<or> abs st2 = abs st1" using SyncDir_error [OF w1 y [unfolded e]] Close_down [OF w2 _ cl(1)] by blast
    then show ?thesis using Close_quiet [OF w2 cl(1)] l by metis
  qed
qed

lemma createSegment_down: "\<lbrakk>wf st; down st; createSegment F cfg base st = (r, st')\<rbrakk> \<Longrightarrow> down st' \<and> isl r"
  using Create_down by (fastforce simp: createSegment_def newSegment_def createNamed_def Let_def split: prod.splits sum.splits)

text \<open>A roll that failed leaves the entries where they were.\<close>

lemma log_roll_error:
  assumes "wf st" "log_inv (abs st) l pre b rs k" "rs \<noteq> []" "seg_Full (active l)" "unat (log_Next l) + m < 2 ^ 64"
    and "log_roll F l st = (Some x, l', st')"
  shows "\<exists>n. length (flat pre) + k \<le> n \<and> going (down st') (abs st') l' (flat (pre @ [(b, rs)])) n m" "l_cfg l' = l_cfg l"
proof -
  let ?es = "flat (pre @ [(b, rs)])"
  have rep: "log_rep (abs st) l pre b rs" and k: "k \<le> length rs" using assms(2) by (simp_all add: log_inv_def log_durable_def)
  note r = log_repD [OF rep]
  obtain i where i: "d_node (abs st) (s_file (active l)) = Some i" using r(4) by (auto simp: held_def seg_rep_def)
  obtain e1 st1 where s: "seg_Sync F (active l) st = (e1, st1)" by (metis surj_pair)
  note c1 = seg_Sync_cases [OF assms(1) i(1) s]
  note lf = log_roll_cases(2) [OF assms(1-3,6), simplified]
  let ?l = "set_active (seg_Seal (active l)) l"
  have sel: "active ?l = seg_Seal (active l)" "log_Next ?l = log_Next l" "s_next (active ?l) = log_Next l"
    using r(7) by (simp_all add: log_Next_def) (simp_all add: seg_Seal_def)
  have l': "l' = l \<and> e1 \<noteq> None \<or> l' = ?l \<and> (\<exists>x. createSegment F (l_cfg l) (log_Next l) st1 = (Inl x, st')) \<and> e1 = None"
    using assms(6) s sel by (auto simp: log_roll_def Let_def split: option.splits prod.splits sum.splits)
  then show "l_cfg l' = l_cfg l" by auto
  show "\<exists>n. length (flat pre) + k \<le> n \<and> going (down st') (abs st') l' ?es n m"
  proof (cases "down st'")
    case True
    then show ?thesis using leaves_from_leaves [of "survived (abs st')" ?es "length (flat pre) + k" "log_Next l"] lf
      unfolding going_def stopped_def by auto
  next
    case up: False
    show ?thesis
    proof (cases e1)
      case (Some y)
      then have "l' = l" "st' = st1" using l' assms(6) s by (auto simp: log_roll_def)
      moreover have "abs st1 = abs st" using seg_Sync_error [OF assms(1) s [unfolded Some]] up calculation by blast
      ultimately show ?thesis using holds_logI [OF assms(2)] assms(5) unfolding going_def by auto
    next
      case None
      obtain y where l: "l' = ?l" and c: "createSegment F (l_cfg l) (log_Next l) st1 = (Inl y, st')"
        using l' None by blast
      have inv: "log_inv (abs st1) l pre b rs (length rs)"
        unfolding c1(2) [OF None] by (rule log_inv_sync [OF assms(2) Dir_law [OF assms(1)] i])
      have len: "length (flat pre) + k \<le> length ?es" using k by simp
      consider (same) "abs st' = abs st1"
        | (left) h j where "fresh_inode j (abs st1)" "d_node (abs st1) h = None"
          "abs st' = disk_create (segmentName (log_Next l)) h j (abs st1) \<or>
           abs st' = disk_close h (disk_create (segmentName (log_Next l)) h j (abs st1))"
        using createSegment_error [OF c1(1) c] up by blast
      then show ?thesis
      proof cases
        case same
        have "unsealed l' = l" "s_sealed (active l')" "seg_Full (active l')" "log_Next l' = log_Next l" "l_active l' < length (l_segs l')"
          using unsealed_Seal [OF r(7,5)] r(7) assms(4) sel by (simp_all add: l) (simp_all add: seg_Seal_def seg_Full_def)
        moreover have "holds_log (abs st') l ?es (length ?es)" using holds_logI [OF inv] same by simp
        ultimately have "going (down st') (abs st') l' ?es (length ?es) m" using assms(5) by (intro goingI(2)) simp_all
        then show ?thesis using len by blast
      next
        case left
        have sv: "survived (abs st') = survived (abs st1)" by (rule createSegment_cases(2) [OF c1(1) c refl])
        have i1: "d_node (abs st1) (s_file (active l)) = Some i" "d_stable (abs st1) i = d_data (abs st1) i"
          using i by (simp_all add: c1(2) [OF None] disk_sync_def)
        then have "i \<noteq> j" "s_file (active l) \<noteq> h" using left(1,2) by (auto simp: fresh_inode_def ran_def)
        then have "blocked (abs st') l'" using left(3) i1 r(7) sel
          unfolding blocked_def l by (auto simp: disk_create_def disk_close_def seg_Seal_def)
        then have "stopped (down st') (abs st') l'" using r(7) sel by (simp add: stopped_def l) (simp add: seg_Seal_def)
        moreover have "leaves (survived (abs st')) (take (length ?es) ?es)"
          using log_inv_leaves [OF inv] unfolding sv by simp
        ultimately show ?thesis using len unfolding going_def by blast
      qed
    qed
  qed
qed

section \<open>Appending\<close>

lemma room_error:
  assumes "wf st" "log_inv (abs st) l pre b rs k" "unat (log_Next l) + m < 2 ^ 64"
    and "(if seg_Full (active l) then log_roll F l st else (None, l, st)) = (Some x, l', st')"
  shows "\<exists>n. length (flat pre) + k \<le> n \<and> going (down st') (abs st') l' (flat (pre @ [(b, rs)])) n m" "l_cfg l' = l_cfg l"
proof -
  have rep: "log_rep (abs st) l pre b rs" using assms(2) by (simp add: log_inv_def)
  have full: "seg_Full (active l)" and roll: "log_roll F l st = (Some x, l', st')" using assms(4) by (simp_all split: if_splits)
  have ne: "rs \<noteq> []" using full log_repD(4,6) [OF rep] by (auto simp: seg_Full_def held_def seg_rep_def seg_holds_def)
  note e = log_roll_error [OF assms(1,2) ne full assms(3) roll]
  show "\<exists>n. length (flat pre) + k \<le> n \<and> going (down st') (abs st') l' (flat (pre @ [(b, rs)])) n m" by (rule e(1))
  show "l_cfg l' = l_cfg l" by (rule e(2))
qed

lemma room_not_full:
  assumes "wf st" "log_inv (abs st) l pre b rs k"
    and "(if seg_Full (active l) then log_roll F l st else (None, l, st)) = (None, l', st')"
  shows "\<not> seg_Full (active l')"
proof (cases "seg_Full (active l)")
  case True
  have rep: "log_rep (abs st) l pre b rs" using assms(2) by (simp add: log_inv_def)
  have ne: "rs \<noteq> []" using True log_repD(4,6) [OF rep] by (auto simp: seg_Full_def held_def seg_rep_def seg_holds_def)
  have "log_inv (abs st') l' (pre @ [(b, rs)]) (log_Next l) [] 0"
    using log_roll_cases(3) [OF assms(1,2) ne] assms(3) True by auto
  then have "log_rep (abs st') l' (pre @ [(b, rs)]) (log_Next l) []" by (simp add: log_inv_def)
  then show ?thesis using log_repD(4,6) by (fastforce simp: seg_Full_def held_def seg_rep_def seg_holds_def)
qed (use assms(3) in auto)

lemma append_loop_error:
  assumes "wf st" "log_inv (abs st) l pre b rs k" "unat (log_Next l) + (length es + m) < 2 ^ 64"
    and "append_loop F es offs l st = ((o', Some x), l', st')"
  shows "l_cfg l' = l_cfg l \<and> (\<exists>j n. j \<le> length es \<and> length (flat pre) + k \<le> n \<and>
    going (down st') (abs st') l' (flat (pre @ [(b, rs)]) @ number (log_Next l) (take j es)) n m)"
  using assms
proof (induction "length es" arbitrary: es offs l st pre b rs k rule: less_induct)
  case less
  show ?case
  proof (cases es)
    case Nil
    then show ?thesis using less.prems(4) by simp
  next
    case (Cons e es')
    let ?n0 = "length (flat pre) + k" and ?all = "flat (pre @ [(b, rs)])"
    obtain e1 l1 st1 where room: "(if seg_Full (active l) then log_roll F l st else (None, l, st)) = (e1, l1, st1)"
      by (metis prod_cases3)
    note roomy = room_cases [OF less.prems(1,2) room]
    have fits0: "unat (log_Next l) + m < 2 ^ 64" using less.prems(3) by simp
    show ?thesis
    proof (cases e1)
      case (Some y)
      then have "l' = l1" "st' = st1" using less.prems(4) room by (simp_all add: Cons split del: if_split)
      moreover note re = room_error [OF less.prems(1,2) fits0 room [unfolded Some]]
      obtain n where "?n0 \<le> n" "going (down st1) (abs st1) l1 ?all n m" using re(1) by blast
      ultimately show ?thesis using re(2) by (intro conjI exI [of _ 0] exI [of _ n]) simp_all
    next
      case None
      obtain pre1 b1 rs1 k1 where inv1: "log_inv (abs st1) l1 pre1 b1 rs1 k1" "flat (pre1 @ [(b1, rs1)]) = ?all"
        "?n0 \<le> length (flat pre1) + k1" "log_Next l1 = log_Next l" "l_cfg l1 = l_cfg l"
        using roomy(3) None by blast
      have rep1: "log_rep (abs st1) l1 pre1 b1 rs1" using inv1(1) by (simp add: log_inv_def)
      note r1 = log_repD [OF rep1]
      have nf: "\<not> seg_Full (active l1)" by (rule room_not_full [OF less.prems(1,2) room [unfolded None]])
      obtain i where i: "d_dir (abs st1) (segmentName b1) = Some i" "seg_rep (abs st1) i (active l1) rs1"
        using r1(4) by (auto simp: held_def)
      obtain n first err1 s2 st2 where app: "seg_AppendAll F es (active l1) st1 = ((n, first, err1), s2, st2)"
        by (metis prod_cases3)
      let ?l2 = "(set_active s2 l1)\<lparr>l_sinceSync := l_sinceSync l1 + int n\<rparr>"
        and ?offs = "offs @ map (\<lambda>i. first + word_of_nat i) [0..<n]"
      have step: "append_loop F es offs l st =
          (case err1 of Some err \<Rightarrow> ((?offs, Some err), ?l2, st2)
           | None \<Rightarrow> if n = 0 then ((?offs, Some (Errorf ''log: segment %s accepted no records and reported no error'' [])), ?l2, st2)
                     else append_loop F (drop n es) ?offs ?l2 st2)"
        using app room None by (simp add: Cons Let_def split: option.split split del: if_split cong: if_cong)
      have sel2: "active ?l2 = s2" "l_active ?l2 < length (l_segs ?l2)" "l_cfg ?l2 = l_cfg l" using r1(7) inv1(5) by (simp_all add: active_def seg_at_def set_active_def)
      show ?thesis
      proof (cases "s_sealed s2")
        case True
        obtain p q where q: "n = 0" "err1 \<noteq> None" "file_Append F (s_file (active l1)) p st1 = (q, st2)"
          using seg_AppendAll_sealed [OF app r1(5) True] by blast
        then have res: "l' = ?l2" "st' = st2" using step less.prems(4) by auto
        have "s2 = (active l1)\<lparr>s_sealed := True\<rparr>"
          using app r1(5) True by (auto simp: seg_AppendAll_def Let_def split: prod.splits option.splits if_splits)
        then have "stopped (down st2) (abs st2) ?l2" using nf True sel2(1,2) by (simp add: stopped_def seg_Full_def)
        moreover have sv: "survived (abs st2) = survived (abs st1)" using Append_quiet [OF roomy(1) q(3)] by simp
        have "leaves (survived (abs st2)) (take (length (flat pre1) + k1) ?all)"
          using log_inv_leaves [OF inv1(1)] unfolding sv inv1(2) .
        moreover have "length (flat pre1) + length rs1 = length ?all" using arg_cong [OF inv1(2), of length] by simp
        then have "length (flat pre1) + k1 \<le> length ?all" using inv1(1) by (simp add: log_inv_def log_durable_def)
        ultimately have "going (down st2) (abs st2) ?l2 ?all (length (flat pre1) + k1) m" by (intro goingI(3))
        then show ?thesis using res inv1(3) sel2(3) by (intro conjI exI [of _ 0] exI [of _ "length (flat pre1) + k1"]) simp_all
      next
        case False
        have nx: "s_next (active l1) = log_Next l" using inv1(4) by (simp add: log_Next_def)
        have fits: "unat (s_next (active l1)) + length es < 2 ^ 64" using less.prems(3) by (simp add: nx)
        note a = seg_AppendAll_rep [OF roomy(1) i(2) fits app False, unfolded nx]
        let ?rs2 = "rs1 @ number (log_Next l) (take n es)"
        have s2: "s_base s2 = b1" "0 < s_maxBytes s2" using r1(4,6) by (subst a(8), simp add: held_def)+
        have inv2: "log_inv (abs st2) ?l2 pre1 b1 ?rs2 k1"
          using log_inv_append [OF inv1(1) Dir_law [OF roomy(1)] i(1) a(5) a(6) [unfolded a(3)] s2(1) False s2(2)]
          by (simp add: a(3) log_inv_def)
        have nx2: "log_Next ?l2 = log_Next l + word_of_nat n"
          using log_repD(8) [of "abs st2" ?l2 pre1 b1 ?rs2] inv2 r1(8) inv1(4) a(2) by (simp add: log_inv_def)
        have un: "unat (log_Next l + word_of_nat n) = unat (log_Next l) + n"
          using less.prems(3) a(2) by (simp add: unat_word_ariths unat_of_nat take_bit_eq_mod)
        have all: "flat (pre1 @ [(b1, ?rs2)]) = ?all @ number (log_Next l) (take n es)" using inv1(2) by (simp flip: append_assoc)
        show ?thesis
        proof (cases "err1 = None \<and> n \<noteq> 0")
          case False
          then have res: "l' = ?l2" "st' = st2" using step less.prems(4) by (auto split: option.splits if_splits)
          have "going (down st2) (abs st2) ?l2 (?all @ number (log_Next l) (take n es)) (length (flat pre1) + k1) m"
            using holds_logI [OF inv2, unfolded all] less.prems(3) a(2) by (intro goingI(1)) (assumption, unfold nx2 un, simp)
          then show ?thesis using res inv1(3) a(2) sel2(3) by (intro conjI exI [of _ n] exI [of _ "length (flat pre1) + k1"]) simp_all
        next
          case True
          have fits2: "unat (log_Next ?l2) + (length (drop n es) + m) < 2 ^ 64"
            unfolding nx2 un using less.prems(3) a(2) by simp
          have "length (drop n es) < length es" using True Cons by simp
          moreover have "append_loop F (drop n es) ?offs ?l2 st2 = ((o', Some x), l', st')" using step less.prems(4) True by simp
          ultimately obtain j n' where j: "l_cfg l' = l_cfg ?l2" "j \<le> length (drop n es)" "length (flat pre1) + k1 \<le> n'"
            "going (down st') (abs st') l' (flat (pre1 @ [(b1, ?rs2)]) @ number (log_Next ?l2) (take j (drop n es))) n' m"
            using less.hyps [OF _ a(1) inv2 fits2] by blast
          have "number (log_Next l) (take (n + j) es) = number (log_Next l) (take n es) @ number (log_Next l + word_of_nat n) (take j (drop n es))"
            using number_append [of "log_Next l" "take n es" "take j (drop n es)"] a(2) by (simp add: take_add min_def)
          then have "going (down st') (abs st') l' (?all @ number (log_Next l) (take (n + j) es)) n' m"
            using j(4) unfolding all nx2 by simp
          then show ?thesis using j(1-3) inv1(3) sel2(3) a(2) by (intro conjI exI [of _ "n + j"] exI [of _ n']) simp_all
        qed
      qed
    qed
  qed
qed

lemma maybeSync_error:
  assumes "wf st" "maybeSync F l st = (Some x, l', st')"
  shows "l' = l" "down st' \<or> abs st' = abs st"
proof -
  have "log_Sync F l st = (Some x, l', st')"
    using assms(2) by (auto simp: maybeSync_def split: Durability.splits option.splits if_splits)
  then have "seg_Sync F (active l) st = (Some x, st')" "l' = l"
    by (auto simp: log_Sync_def Let_def split: prod.splits option.splits)
  then show "l' = l" "down st' \<or> abs st' = abs st" using seg_Sync_error [OF assms(1)] by blast+
qed

text \<open>An append to a log that is whole.\<close>

lemma log_Append_whole:
  assumes "wf st" "holds_log (abs st) l es n" "unat (log_Next l) + (length xs + m) < 2 ^ 64"
    and "log_Append F xs l st = ((offs, err), l', st')"
  shows "wf st' \<and> l_cfg l' = l_cfg l \<and> (\<exists>j n'. j \<le> length xs \<and> n \<le> n' \<and>
    going (down st') (abs st') l' (es @ number (log_Next l) (take j xs)) n' m \<and>
    (err = None \<longrightarrow> j = length xs \<and> (c_Durability (l_cfg l) = Sync \<longrightarrow> xs \<noteq> [] \<longrightarrow> n' = length es + length xs)))"
proof -
  obtain pre b rs k where i: "log_inv (abs st) l pre b rs k" "es = flat (pre @ [(b, rs)])" "n = length (flat pre) + k"
    using assms(2) unfolding holds_log_def by blast
  have fits: "unat (log_Next l) + length xs < 2 ^ 64" using assms(3) by simp
  have un: "unat (log_Next l + word_of_nat (length xs)) = unat (log_Next l) + length xs"
    using fits by (simp add: unat_word_ariths unat_of_nat take_bit_eq_mod)
  note c = log_Append_cases [OF assms(1) i(1) fits assms(4), folded i(2,3)]
  show ?thesis
  proof (cases err)
    case None
    note c3 = c(3) [OF None]
    obtain pre' b' rs' k' where p: "log_inv (abs st') l' pre' b' rs' k'" "flat (pre' @ [(b', rs')]) = es @ number (log_Next l) xs"
      "n \<le> length (flat pre') + k'" "c_Durability (l_cfg l) = Sync \<longrightarrow> k = length rs \<or> xs \<noteq> [] \<longrightarrow> k' = length rs'"
      "log_Next l' = log_Next l + word_of_nat (length xs)" "l_cfg l' = l_cfg l"
      using c3 by blast
    have "going (down st') (abs st') l' (es @ number (log_Next l) (take (length xs) xs)) (length (flat pre') + k') m"
      using holds_logI [OF p(1), unfolded p(2)] assms(3) by (intro goingI(1)) (simp_all add: p(5) un)
    moreover have "length (flat pre') + length rs' = length es + length xs" using arg_cong [OF p(2), of length] by simp
    ultimately show ?thesis using c(1) p(3,4,6)
      by (intro conjI exI [of _ "length xs"] exI [of _ "length (flat pre') + k'"]) auto
  next
    case (Some x)
    then have ne: "xs \<noteq> []" using assms(4) by (auto simp: log_Append_def)
    obtain o1 e1 l1 st1 where loop: "append_loop F xs [] l st = ((o1, e1), l1, st1)" by (metis prod_cases3 surj_pair)
    show ?thesis
    proof (cases e1)
      case (Some y)
      then have "l' = l1" "st' = st1" using assms(4) ne loop by (simp_all add: log_Append_def)
      then show ?thesis
        using append_loop_error [OF assms(1) i(1) assms(3) loop [unfolded Some], folded i(2,3)] c(1) \<open>err = Some x\<close> by auto
    next
      case None
      have m: "maybeSync F l1 st1 = (Some x, l', st')" using assms(4) ne loop None Some by (simp add: log_Append_def split: prod.splits)
      note a = append_loop_cases [OF assms(1) i(1) fits loop, folded i(2,3)]
      obtain pre1 b1 rs1 k1 where inv: "log_inv (abs st1) l1 pre1 b1 rs1 k1" "flat (pre1 @ [(b1, rs1)]) = es @ number (log_Next l) xs"
        "n \<le> length (flat pre1) + k1" "log_Next l1 = log_Next l + word_of_nat (length xs)" "l_cfg l1 = l_cfg l" using a None by blast
      have w1: "wf st1" using a by blast
      note e = maybeSync_error [OF w1 m]
      note q = maybeSync_cases(2) [OF w1 inv(1) m, simplified]
      have "length (flat pre1) + length rs1 = length (es @ number (log_Next l) xs)" using arg_cong [OF inv(2), of length] by simp
      then have k1: "length (flat pre1) + k1 \<le> length (es @ number (log_Next l) xs)"
        using inv(1) by (simp add: log_inv_def log_durable_def)
      have "leaves (survived (abs st')) (take (length (flat pre1) + k1) (es @ number (log_Next l) xs))"
        using log_inv_leaves [OF inv(1)] unfolding q inv(2) .
      then have "going (down st') (abs st') l' (es @ number (log_Next l) (take (length xs) xs)) (length (flat pre1) + k1) m"
        using e(2) goingI(3) [of "down st'" "abs st'" l' _ "es @ number (log_Next l) xs" m] k1
          goingI(1) [of "abs st'" l' "es @ number (log_Next l) xs" "length (flat pre1) + k1" m "down st'"]
          holds_logI [OF inv(1), unfolded inv(2)] assms(3) by (auto simp: stopped_def e(1) inv(4) un)
      then show ?thesis using c(1) inv(3,5) e(1) Some by (intro conjI exI [of _ "length xs"] exI [of _ "length (flat pre1) + k1"]) simp_all
    qed
  qed
qed

text \<open>One to a log that a failed roll has left without an open segment: it rolls first.\<close>

lemma log_Append_resting:
  assumes "wf st" "l_active l < length (l_segs l)" "s_sealed (active l)" "seg_Full (active l)"
    and "holds_log (abs st) (unsealed l) es (length es)" "unat (log_Next l) + (length xs + m) < 2 ^ 64"
    and "log_Append F xs l st = ((offs, err), l', st')" "xs \<noteq> []"
  shows "wf st' \<and> l_cfg l' = l_cfg l \<and> (\<exists>j n'. j \<le> length xs \<and> length es \<le> n' \<and>
    going (down st') (abs st') l' (es @ number (log_Next l) (take j xs)) n' m \<and>
    (err = None \<longrightarrow> j = length xs \<and> (c_Durability (l_cfg l) = Sync \<longrightarrow> n' = length es + length xs)))"
proof -
  let ?u = "unsealed l"
  have u: "log_Next ?u = log_Next l" "seg_Full (active ?u)" using assms(2,4) by (simp_all add: unsealed_def log_Next_def seg_Full_def)
  obtain e es' where xs: "xs = e # es'" using assms(8) by (cases xs) auto
  obtain e1 st1 where s: "seg_Sync F (active l) st = (e1, st1)" by (metis surj_pair)
  show ?thesis
  proof (cases e1)
    case (Some y)
    then have "err = Some y" "l' = l" "st' = st1" using assms(4,7) s xs by (simp_all add: log_Append_def log_roll_def)
    moreover obtain pre b rs k where i: "log_inv (abs st) ?u pre b rs k" "es = flat (pre @ [(b, rs)])" "length es = length (flat pre) + k"
      using assms(5) unfolding holds_log_def by blast
    have rep: "log_rep (abs st) ?u pre b rs" using i(1) by (simp add: log_inv_def)
    have "s_file (active ?u) = s_file (active l)" using assms(2) by (simp add: unsealed_def)
    then obtain n where "d_node (abs st) (s_file (active l)) = Some n"
      using log_repD(4) [OF rep] by (auto simp: held_def seg_rep_def)
    note c = seg_Sync_cases [OF assms(1) this s]
    have "leaves (survived (abs st1)) (take (length es) es)"
      using c(3) log_inv_leaves [OF i(1), folded i(2,3)] Some by simp
    then have "going (down st1) (abs st1) l es (length es) m"
      using seg_Sync_error [OF assms(1) s [unfolded Some]] goingI(3) [of "down st1" "abs st1" l "length es" es m]
        goingI(2) [OF assms(2-4), of "abs st1" es m "down st1"] assms(5,6) by (auto simp: stopped_def)
    ultimately show ?thesis using c(1) by (intro conjI exI [of _ 0] exI [of _ "length es"]) simp_all
  next
    case None
    have "log_roll F ?u st = log_roll F l st" using roll_unsealed [OF assms(2) s [unfolded None]] .
    then have "append_loop F xs [] ?u st = append_loop F xs [] l st" using u(2) assms(4) by (simp add: xs)
    then have "log_Append F xs ?u st = ((offs, err), l', st')" using assms(7,8) by (simp add: log_Append_def)
    from log_Append_whole [OF assms(1,5) _ this, of m] assms(6,8) show ?thesis by (simp add: u(1))
  qed
qed

text \<open>And to one that will not be written any more.\<close>

lemma append_loop_down:
  assumes "wf st" "down st" "xs \<noteq> []" "append_loop F xs [] l st = ((offs, err), l', st')"
  shows "down st' \<and> err \<noteq> None \<and> wf st' \<and> survived (abs st') = survived (abs st)"
proof -
  obtain e es where xs: "xs = e # es" using assms(3) by (cases xs) auto
  show ?thesis
  proof (cases "seg_Full (active l)")
    case True
    obtain e1 st1 where s: "seg_Sync F (active l) st = (e1, st1)" by (metis surj_pair)
    note d = seg_Sync_down [OF assms(1,2) s]
    then obtain y where y: "e1 = Some y" by blast
    then have "wf st1 \<and> survived (abs st1) = survived (abs st)"
      using s Sync_failed [OF assms(1)] by (auto simp: seg_Sync_def split: prod.splits option.splits)
    then show ?thesis using assms(4) True s d y xs by (auto simp: log_roll_def)
  next
    case False
    obtain n first err1 s2 st2 where app: "seg_AppendAll F xs (active l) st = ((n, first, err1), s2, st2)" by (metis prod_cases3)
    have "n = 0 \<and> (st2 = st \<or> (\<exists>p q. file_Append F (s_file (active l)) p st = (q, st2) \<and> snd q \<noteq> None))"
      using app
      by (auto simp: seg_AppendAll_def Let_def dest: Append_down [OF assms(1,2)] split: prod.splits option.splits if_splits)
    moreover from this have "append_loop F xs [] l st = ((offs, err), l', st2) \<and> err \<noteq> None" if "st' = st2"
      using that assms(4) app False xs by (auto simp: Let_def split: option.splits)
    moreover have "st' = st2" "err \<noteq> None" using assms(4) app False xs calculation(1) by (auto simp: Let_def split: option.splits)
    ultimately show ?thesis using assms(1,2) Append_quiet [OF assms(1)] Append_down [OF assms(1,2)] by (metis prod.collapse)
  qed
qed

lemma append_loop_sealed:
  assumes "wf st" "l_active l < length (l_segs l)" "s_sealed (active l)" "seg_Full (active l) \<longrightarrow> blocked (abs st) l" "xs \<noteq> []"
    and "append_loop F xs [] l st = ((offs, err), l', st')"
  shows "stopped (down st') (abs st') l' \<and> l_cfg l' = l_cfg l \<and> err \<noteq> None \<and> wf st' \<and> survived (abs st') = survived (abs st)"
proof -
  obtain e es where xs: "xs = e # es" using assms(5) by (cases xs) auto
  show ?thesis
  proof (cases "seg_Full (active l)")
    case False
    have "seg_AppendAll F xs (active l) st = ((0, 0, Some (Errorf ''log: append to %s: %w'' [Sentinel ErrSealed])), active l, st)"
      using assms(3) by (simp add: seg_AppendAll_def)
    then have "err \<noteq> None" "l' = l\<lparr>l_sinceSync := l_sinceSync l\<rparr>" "st' = st" using assms(6) False by (auto simp: xs Let_def)
    then show ?thesis using assms(1-3) False by (simp add: stopped_def)
  next
    case True
    obtain i where i: "d_node (abs st) (s_file (active l)) = Some i" "d_stable (abs st) i = d_data (abs st) i"
      "d_dir (abs st) (segmentName (s_next (active l))) \<noteq> None" using assms(4) True unfolding blocked_def by blast
    obtain e1 st1 where s: "seg_Sync F (active l) st = (e1, st1)" by (metis surj_pair)
    note c1 = seg_Sync_cases [OF assms(1) i(1) s]
    have d1: "abs st1 = abs st \<or> down st1"
      using c1(2) seg_Sync_error [OF assms(1)] s disk_sync_idle [of "abs st" i, OF i(2)] by (cases e1) auto
    have sv1: "survived (abs st1) = survived (abs st)" using c1(2,3) disk_sync_idle [of "abs st" i, OF i(2)] by (cases e1) auto
    let ?l = "set_active (seg_Seal (active l)) l"
    have sel: "active ?l = seg_Seal (active l)" "s_next (active ?l) = s_next (active l)" using assms(2) by (simp_all) (simp_all add: seg_Seal_def)
    obtain r2 st2 where c: "createSegment F (l_cfg l) (s_next (active l)) st1 = (r2, st2)" by (metis surj_pair)
    have bad: "isl r2 \<and> (down st2 \<or> abs st2 = abs st)" if "e1 = None"
    proof (cases "down st1")
      case True
      then show ?thesis using createSegment_down [OF c1(1) _ c] by blast
    next
      case False
      then have a: "abs st1 = abs st" using d1 by blast
      have no: "\<not> created cfg base (abs st1) sg d'" if "base = s_next (active l)" for cfg base sg d'
        using i(3) that unfolding created_def a by auto
      have no': "d_dir (abs st1) (segmentName (s_next (active l))) \<noteq> None" using i(3) a by simp
      obtain x where x: "r2 = Inl x" using no createSegment_cases(3) [OF c1(1) c] by (cases r2) blast+
      obtain r st3 where cr: "fs_Create F (segmentName (s_next (active l))) st1 = (r, st3)" by (metis surj_pair)
      then obtain y where "r = Inl y" using Create_law [OF c1(1), of "segmentName (s_next (active l))" _ st3] no' by (cases r) auto
      then have "st2 = st3" "down st3 \<or> abs st3 = abs st1"
        using c cr Create_error [OF c1(1)] by (auto simp: createSegment_def newSegment_def createNamed_def)
      then show ?thesis using x a by simp
    qed
    have q2: "wf st2" "r2 = Inl x \<Longrightarrow> survived (abs st2) = survived (abs st1)" for x
      using createSegment_cases(1,2) [OF c1(1) c] by blast+
    show ?thesis
    proof (cases e1)
      case (Some y)
      then have "err = Some y" "l' = l" "st' = st1" using assms(6) True s xs by (simp_all add: log_roll_def)
      then show ?thesis using d1 c1(1) sv1 assms(2,3,4) by (auto simp: stopped_def)
    next
      case None
      then obtain x where x: "r2 = Inl x" "down st2 \<or> abs st2 = abs st" using bad by (cases r2) auto
      then have "err = Some x" "l' = ?l" "st' = st2" using assms(6) True s c xs None sel by (simp_all add: log_roll_def Let_def)
      moreover have "blocked (abs st) ?l" using assms(4) True sel by (simp add: blocked_def) (simp add: seg_Seal_def)
      ultimately show ?thesis using x q2 sv1 assms(2) sel by (auto simp: stopped_def) (simp add: seg_Seal_def)
    qed
  qed
qed

lemma log_Append_stopped:
  assumes "wf st" "stopped (down st) (abs st) l" "xs \<noteq> []" "log_Append F xs l st = ((offs, err), l', st')"
  shows "stopped (down st') (abs st') l' \<and> err \<noteq> None \<and> wf st' \<and> survived (abs st') = survived (abs st)"
proof -
  obtain o1 e1 l1 st1 where loop: "append_loop F xs [] l st = ((o1, e1), l1, st1)" by (metis prod_cases3 surj_pair)
  have "stopped (down st1) (abs st1) l1 \<and> e1 \<noteq> None \<and> wf st1 \<and> survived (abs st1) = survived (abs st)"
  proof (cases "down st")
    case True
    then show ?thesis using append_loop_down [OF assms(1) _ assms(3) loop] by (simp add: stopped_def)
  next
    case False
    then show ?thesis using append_loop_sealed [OF assms(1) _ _ _ assms(3) loop] assms(2) by (auto simp: stopped_def)
  qed
  then show ?thesis using assms(3,4) loop by (auto simp: log_Append_def)
qed

section \<open>The run\<close>

lemma log_Append_going:
  assumes "wf st" "going (down st) (abs st) l es n (length xs + m)" "log_Append F xs l st = ((offs, err), l', st')"
  obtains j n' nx where "wf st'" "j \<le> length xs" "n \<le> n'" "going (down st') (abs st') l' (es @ number nx (take j xs)) n' m"
    "err = None \<Longrightarrow> j = length xs"
    "err = None \<Longrightarrow> c_Durability (l_cfg l) = Sync \<Longrightarrow> xs \<noteq> [] \<Longrightarrow> n' = length es + length xs"
    "l_cfg l' = l_cfg l \<or> stopped (down st) (abs st) l"
proof (cases "xs = []")
  case True
  then have "err = None" "l' = l" "st' = st" using assms(3) by (simp_all add: log_Append_def)
  then show thesis using that [of 0 n 0] assms(1,2) True by simp
next
  case False
  consider (whole) "holds_log (abs st) l es n" "unat (log_Next l) + (length xs + m) < 2 ^ 64"
    | (resting) "l_active l < length (l_segs l)" "s_sealed (active l)" "seg_Full (active l)" "n = length es"
        "holds_log (abs st) (unsealed l) es n" "unat (log_Next l) + (length xs + m) < 2 ^ 64"
    | (still) "stopped (down st) (abs st) l" "n \<le> length es" "leaves (survived (abs st)) (take n es)"
    using assms(2) unfolding going_def by blast
  then show thesis
  proof cases
    case whole
    then show ?thesis using log_Append_whole [OF assms(1) whole assms(3)] False that by blast
  next
    case resting
    then show ?thesis using log_Append_resting [OF assms(1) resting(1-3) _ resting(6) assms(3) False] that by blast
  next
    case still
    note a = log_Append_stopped [OF assms(1) still(1) False assms(3)]
    then have "going (down st') (abs st') l' (es @ number 0 (take 0 xs)) n m" using goingI(3) [of "down st'" "abs st'" l' n es m] still by simp
    then show ?thesis using that [of 0 n 0] a still(1) by simp
  qed
qed

text \<open>
  What is in the log after a run: of every batch a beginning, all of it if the append did not fail,
  and then durable in \<^const>\<open>Sync\<close> mode. A log that is stopped takes nothing, so its configuration
  does not matter any more.
\<close>

lemma append_all_stopped:
  assumes "wf st" "stopped (down st) (abs st) l" "append_all_batches F batches l st = (oks, l', st')"
  shows "wf st' \<and> length oks = length batches \<and> survived (abs st') = survived (abs st) \<and>
    (\<forall>i<length batches. oks ! i \<longrightarrow> batches ! i = [])"
  using assms
proof (induction batches arbitrary: l st oks)
  case (Cons xs batches)
  obtain offs err l1 st1 where a: "log_Append F xs l st = ((offs, err), l1, st1)" by (metis prod_cases3 surj_pair)
  obtain oks1 where r: "append_all_batches F batches l1 st1 = (oks1, l', st')" "oks = (err = None) # oks1"
    using Cons.prems(3) a by (auto split: prod.splits)
  have q: "stopped (down st1) (abs st1) l1 \<and> wf st1 \<and> survived (abs st1) = survived (abs st) \<and> (err = None \<longrightarrow> xs = [])"
    using log_Append_stopped [OF Cons.prems(1,2) _ a] Cons.prems(1,2) a by (cases "xs = []") (auto simp: log_Append_def)
  then have ih: "wf st'" "length oks1 = length batches" "survived (abs st') = survived (abs st1)"
    "\<forall>i<length batches. oks1 ! i \<longrightarrow> batches ! i = []" using Cons.IH [of st1 l1 oks1] r(1) by blast+
  then show ?case using q r(2) by (auto simp: nth_Cons split: nat.split)
qed simp

lemma append_all_cases:
  assumes "wf st" "going (down st) (abs st) l es n (sum_list (map length batches))" "c_Durability (l_cfg l) = Sync"
    and "append_all_batches F batches l st = (oks, l', st')"
  shows "wf st' \<and> length oks = length batches \<and>
    (\<exists>parts es' n'. list_all2 prefix parts batches \<and> map snd es' = map snd es @ concat parts \<and> n \<le> n' \<and> n' \<le> length es' \<and>
       leaves (survived (abs st')) (take n' es') \<and>
       (\<forall>i<length batches. oks ! i \<longrightarrow> parts ! i = batches ! i \<and>
          (parts ! i \<noteq> [] \<longrightarrow> length es + length (concat (take (Suc i) parts)) \<le> n')))"
  using assms
proof (induction batches arbitrary: l st es n oks)
  case Nil
  then show ?case using going_leaves [OF Nil.prems(2)] by (auto intro!: exI [of _ es] exI [of _ n])
next
  case (Cons xs batches)
  obtain offs err l1 st1 where a: "log_Append F xs l st = ((offs, err), l1, st1)" by (metis prod_cases3 surj_pair)
  obtain oks1 where r: "append_all_batches F batches l1 st1 = (oks1, l', st')" "oks = (err = None) # oks1"
    using Cons.prems(4) a by (auto split: prod.splits)
  have room: "going (down st) (abs st) l es n (length xs + sum_list (map length batches))" using Cons.prems(2) by simp
  obtain j n1 nx where s: "wf st1" "j \<le> length xs" "n \<le> n1"
    "going (down st1) (abs st1) l1 (es @ number nx (take j xs)) n1 (sum_list (map length batches))"
    "err = None \<Longrightarrow> j = length xs" "err = None \<Longrightarrow> xs \<noteq> [] \<Longrightarrow> n1 = length es + length xs"
    "l_cfg l1 = l_cfg l \<or> stopped (down st) (abs st) l"
    by (rule log_Append_going [OF Cons.prems(1) room a]) (use Cons.prems(3) in blast)
  show ?case
  proof (cases "stopped (down st) (abs st) l")
    case True
    note q = append_all_stopped [OF Cons.prems(1) True Cons.prems(4)]
    let ?parts = "map (\<lambda>_. []) (xs # batches) :: event list list"
    have "list_all2 prefix (map (\<lambda>_. []) bs) bs" for bs :: "event list list" by (induction bs) simp_all
    then have "list_all2 prefix ?parts (xs # batches)" .
    moreover have "concat ?parts = []" by simp
    ultimately show ?thesis using q going_leaves [OF Cons.prems(2)]
      by (intro conjI exI [of _ ?parts] exI [of _ es] exI [of _ n]) (auto simp del: list.map)
  next
    case False
    then have "c_Durability (l_cfg l1) = Sync" using s(7) Cons.prems(3) by simp
    then obtain parts es' n' where ih: "wf st'" "length oks1 = length batches" "list_all2 prefix parts batches"
      "map snd es' = map snd (es @ number nx (take j xs)) @ concat parts" "n1 \<le> n'" "n' \<le> length es'"
      "leaves (survived (abs st')) (take n' es')"
      "\<And>i. i < length batches \<Longrightarrow> oks1 ! i \<Longrightarrow> parts ! i = batches ! i \<and>
          (parts ! i \<noteq> [] \<longrightarrow> length (es @ number nx (take j xs)) + length (concat (take (Suc i) parts)) \<le> n')"
      using Cons.IH [OF s(1,4) _ r(1)] by blast
    let ?parts = "take j xs # parts"
    have "list_all2 prefix ?parts (xs # batches)" using ih(3) by (simp add: take_is_prefix)
    moreover have "map snd es' = map snd es @ concat ?parts" using ih(4) by simp
    moreover have "?parts ! i = (xs # batches) ! i \<and> (?parts ! i \<noteq> [] \<longrightarrow> length es + length (concat (take (Suc i) ?parts)) \<le> n')"
      if "i < length (xs # batches)" "oks ! i" for i
    proof (cases i)
      case 0
      then have "err = None" using that(2) r(2) by simp
      then show ?thesis using s(5,6) ih(5) 0 by auto
    next
      case (Suc i')
      then show ?thesis using ih(8) [of i'] that r(2) s(2) by (auto simp: min_def split: if_splits)
    qed
    ultimately show ?thesis using ih(1,2,5-7) r(2) s(3)
      by (intro conjI exI [of _ ?parts] exI [of _ es'] exI [of _ n']) auto
  qed
qed

end

text \<open>A cut through a list of parts leaves every part that lies before it whole.\<close>

lemma take_concat:
  obtains cut where "list_all2 prefix cut parts" "take m (concat parts) = concat cut"
    "\<And>i. i < length parts \<Longrightarrow> parts ! i = [] \<or> length (concat (take (Suc i) parts)) \<le> m \<Longrightarrow> cut ! i = parts ! i"
proof (induction parts arbitrary: m thesis)
  case Nil
  then show ?case by simp
next
  case (Cons p ps)
  obtain cut where c: "list_all2 prefix cut ps" "take (m - length p) (concat ps) = concat cut"
    "\<And>i. i < length ps \<Longrightarrow> ps ! i = [] \<or> length (concat (take (Suc i) ps)) \<le> m - length p \<Longrightarrow> cut ! i = ps ! i"
    by (rule Cons.IH [of "m - length p"]) blast
  show ?case
  proof (rule Cons.prems [of "take m p # cut"])
    show "list_all2 prefix (take m p # cut) (p # ps)" using c(1) by (simp add: take_is_prefix)
    show "take m (concat (p # ps)) = concat (take m p # cut)" using c(2) by simp
    show "(take m p # cut) ! i = (p # ps) ! i"
      if "i < length (p # ps)" "(p # ps) ! i = [] \<or> length (concat (take (Suc i) (p # ps))) \<le> m" for i
    proof (cases i)
      case (Suc i')
      then have "ps ! i' = [] \<or> length p + length (concat (take (Suc i') ps)) \<le> m" using that(2) by simp
      then have "ps ! i' = [] \<or> length (concat (take (Suc i') ps)) \<le> m - length p" by linarith
      then show ?thesis using c(3) [of i'] that(1) Suc by simp
    qed (use that in auto)
  qed
qed

context enduring_filesystem
begin

lemma append_all_leaves:
  assumes "wf st" "holds_log (abs st) l es (length es)" "c_Durability (l_cfg l) = Sync"
    and "unat (log_Next l) + sum_list (map length batches) < 2 ^ 64"
    and "append_all_batches F batches l st = (oks, l', st')"
  obtains es2 parts where "wf st'" "length oks = length batches" "leaves (survived (abs st')) es2" "list_all2 prefix parts batches"
    "map snd es2 = map snd es @ concat parts" "\<And>i. i < length batches \<Longrightarrow> oks ! i \<Longrightarrow> parts ! i = batches ! i"
proof -
  note g = goingI(1) [OF assms(2,4), of "down st"]
  obtain parts es' n' where p: "wf st'" "length oks = length batches" "list_all2 prefix parts batches"
    "map snd es' = map snd es @ concat parts" "length es \<le> n'" "n' \<le> length es'" "leaves (survived (abs st')) (take n' es')"
    "\<And>i. i < length batches \<Longrightarrow> oks ! i \<Longrightarrow> parts ! i = batches ! i \<and>
       (parts ! i \<noteq> [] \<longrightarrow> length es + length (concat (take (Suc i) parts)) \<le> n')"
    using append_all_cases [OF assms(1) g assms(3,5)] by blast
  obtain cut where c: "list_all2 prefix cut parts" "take (n' - length es) (concat parts) = concat cut"
    "\<And>i. i < length parts \<Longrightarrow> parts ! i = [] \<or> length (concat (take (Suc i) parts)) \<le> n' - length es \<Longrightarrow> cut ! i = parts ! i"
    by (rule take_concat [of parts "n' - length es"]) blast
  have len: "length parts = length batches" using p(3) by (rule list_all2_lengthD)
  have "list_all2 prefix cut batches"
    using list_all2_trans [of prefix prefix prefix, OF _ c(1) p(3)] by (auto intro: prefix_order.trans)
  moreover have "map snd (take n' es') = map snd es @ concat cut"
    using p(4,5) c(2) by (simp add: take_map [symmetric])
  moreover have "cut ! i = batches ! i" if i: "i < length batches" "oks ! i" for i
  proof -
    have "parts ! i = [] \<or> length (concat (take (Suc i) parts)) \<le> n' - length es" using p(8) [OF i] by linarith
    then show ?thesis using p(8) [OF i] c(3) [of i] i(1) len by simp
  qed
  ultimately show thesis using that p(1,2,7) by blast
qed

end

end
