(* ===== verification/Harness_Crash.thy ===== *)
theory Harness_Crash
  imports Harness_FS Log_Endure
begin

text \<open>
  The log over the fault harness's filesystem: calls under a schedule of faults, a power cut
  wherever it comes, and the restarts after it, which can be cut off as well.
\<close>

text \<open>The disk that is found after a power cut, by a machine with a schedule of its own.\<close>

definition rebooted :: "(64 word \<times> Fault list) list \<Rightarrow> 'a hfs_scheme \<Rightarrow> 'a hfs_scheme" where
  "rebooted byOp f = fresh_hfs byOp (sim_Crash f)"

lemma rebooted_facts:
  assumes "wf_hfs f"
  shows "abs_hfs (rebooted byOp f) = disk_crash (abs_sim f)" "\<not> h_crashed (rebooted byOp f)"
    "\<forall>(n, fs)\<in>set byOp. \<forall>x\<in>set fs. ft_Kind x \<noteq> BitFlip \<Longrightarrow> wf_hfs (rebooted byOp f)" "wf_inert (rebooted [] f)"
proof -
  have w: "wf_sim f" using assms by (simp add: wf_hfs_def)
  have t: "simfs.truncate (fresh_hfs byOp (sim_Crash f)) = simfs.truncate (sim_Crash f)" for byOp
    by (simp add: fresh_hfs_def simfs.truncate_def)
  note s = same_disk [OF t] sim_Crash_refines [OF w]
  have c: "\<not> h_crashed (fresh_hfs byOp (sim_Crash f))" "h_byOp (fresh_hfs byOp (sim_Crash f)) = byOp" for byOp
    by (simp_all add: fresh_hfs_def)
  show "abs_hfs (rebooted byOp f) = disk_crash (abs_sim f)" "\<not> h_crashed (rebooted byOp f)" "wf_inert (rebooted [] f)"
    using s c by (simp_all add: rebooted_def wf_inert_def inert_def)
  show "\<forall>(n, fs)\<in>set byOp. \<forall>x\<in>set fs. ft_Kind x \<noteq> BitFlip \<Longrightarrow> wf_hfs (rebooted byOp f)"
    using s c by (simp add: rebooted_def wf_hfs_def unflipped_def)
qed

lemma rebooted_recovered: "rebooted [] f = hfs_recovered (sim_Crash f)"
  by (simp add: rebooted_def hfs_recovered_def)

section \<open>Going on after an error\<close>

text \<open>An operation of the harness that failed has done nothing, unless the machine is down.\<close>

lemma hfs_op_error_same:
  assumes "wf_hfs f" "hfs_op k nm f = (Some x, f')"
  shows "h_crashed f' \<or> abs_hfs f' = abs_hfs f"
proof -
  have u: "unflipped f" using assms(1) by (simp add: wf_hfs_def)
  show ?thesis
  proof (rule hfs_op_cases [OF u assms(2)], goal_cases)
    case 2
    then show ?case using same_disk [OF 2(4)] by simp
  qed simp_all
qed

lemma hfs_op_down: "h_crashed f \<Longrightarrow> hfs_op k nm f = (Some (Sentinel ErrCrashed), f)"
  by (simp add: hfs_op_def)

lemma hfs_op_through_error:
  assumes "wf_hfs f" "case hfs_op k nm f of (Some err, g) \<Rightarrow> f' = g | (None, g) \<Rightarrow> abs_sim f' = abs_sim g \<and> h_crashed f' = h_crashed g"
  shows "h_crashed f' \<or> abs_hfs f' = abs_hfs f"
proof (cases "hfs_op k nm f")
  case (Pair r g)
  then show ?thesis
  proof (cases r)
    case None
    then show ?thesis using hfs_op_through [OF assms(1), of k nm g] assms(2) Pair by simp
  next
    case (Some x)
    then show ?thesis using hfs_op_error_same [OF assms(1), of k nm x g] assms(2) Pair by simp
  qed
qed

lemma sim_error_same:
  "sim_Create nm g = (Inl x, f') \<Longrightarrow> f' = g" "simFile_Sync h g = (Some x, f') \<Longrightarrow> f' = g"
  by (auto simp: sim_Create_def simFile_Sync_def Let_def split: option.splits if_splits)

interpretation endures: enduring_filesystem harness_ops abs_hfs wf_hfs h_crashed
proof (unfold_locales, goal_cases)
  case (1 s nm x s')
  then have "case hfs_op ''create'' nm s of (Some err, g) \<Rightarrow> s' = g | (None, g) \<Rightarrow> abs_sim s' = abs_sim g \<and> h_crashed s' = h_crashed g"
    using sim_error_same(1) by (auto simp: harness_ops_def hfs_Create_def split: prod.splits option.splits)
  then show ?case by (rule hfs_op_through_error [OF 1(1)])
next
  case (2 s x s')
  then have "case hfs_op ''syncdir'' ''.'' s of (Some err, g) \<Rightarrow> s' = g | (None, g) \<Rightarrow> abs_sim s' = abs_sim g \<and> h_crashed s' = h_crashed g"
    by (auto simp: harness_ops_def hfs_Sync_def sim_Sync_def split: prod.splits option.splits)
  then show ?case by (rule hfs_op_through_error [OF 2(1)])
next
  case (3 s h x s')
  then have "case hfs_op ''sync'' (f_name (sim_file h s)) s of (Some err, g) \<Rightarrow> s' = g | (None, g) \<Rightarrow> abs_sim s' = abs_sim g \<and> h_crashed s' = h_crashed g"
    using sim_error_same(2) by (auto simp: harness_ops_def faultyFile_Sync_def split: prod.splits option.splits)
  then show ?case by (rule hfs_op_through_error [OF 3(1)])
next
  case (4 s nm r s')
  then show ?case by (auto simp: harness_ops_def hfs_Create_def hfs_op_down)
next
  case (5 s h p n e s')
  then have "h_crashed (s\<lparr>h_lastWritten := f_name (sim_file h s)\<rparr>)" by simp
  then show ?case using 5 by (auto simp: harness_ops_def faultyFile_Append_def Let_def hfs_op_down)
next
  case (6 s h e s')
  then show ?case by (auto simp: harness_ops_def faultyFile_Sync_def hfs_op_down)
next
  case (7 s h e s')
  then show ?case by (auto simp: harness_ops_def faultyFile_Close_def)
qed

text \<open>Power cuts each followed by an attempt to open the log, under a schedule of its own.\<close>

fun failed_boots :: "'a hfs_scheme Config \<Rightarrow> (64 word \<times> Fault list) list list \<Rightarrow> 'a hfs_scheme \<Rightarrow> 'a hfs_scheme" where
  "failed_boots cfg [] f = f"
| "failed_boots cfg (byOp # boots) f = failed_boots cfg boots (snd (log_Open harness_ops cfg (rebooted byOp f)))"

lemma failed_boots_quiet:
  assumes "wf_hfs f" "leaves (survived (abs_sim f)) es" "\<forall>byOp\<in>set boots. \<forall>(n, fs)\<in>set byOp. \<forall>x\<in>set fs. ft_Kind x \<noteq> BitFlip"
  shows "wf_hfs (failed_boots cfg boots f) \<and> survived (abs_sim (failed_boots cfg boots f)) = survived (abs_sim f)"
  using assms
proof (induction boots arbitrary: f)
  case (Cons byOp boots)
  have w: "wf_hfs (rebooted byOp f)" using rebooted_facts(3) [OF Cons.prems(1), of byOp] Cons.prems(3) by simp
  obtain x g where o: "log_Open harness_ops cfg (rebooted byOp f) = (x, g)" by (metis surj_pair)
  have q: "wf_hfs g \<and> survived (abs_sim g) = survived (abs_sim f)"
    using cut.log_Open_quiet [OF w rebooted_facts(1) [OF Cons.prems(1)] Cons.prems(2) o] by simp
  then show ?case using Cons.IH [of g] Cons.prems(2,3) o by simp
qed simp

lemma reopen_leaves:
  assumes "wf_hfs f" "leaves (survived (abs_sim f)) es" "openable cfg"
  obtains l rec f' where "log_Open harness_ops cfg (hfs_recovered (sim_Crash f)) = (Inr (l, rec), f')" "wf_hfs f'"
    "holds_log (abs_hfs f') l es (length es)" "R_Corrupt rec = None" "R_Next rec = log_Next l"
proof -
  obtain l rec f' where o: "log_Open harness_ops cfg (rebooted [] f) = (Inr (l, rec), f')" "wf_inert f'"
    "holds_log (abs_hfs f') l es (length es)" "R_Corrupt rec = None" "R_Next rec = log_Next l"
    by (rule idle.leaves_Open [OF assms(2) rebooted_facts(4,1) [OF assms(1)] assms(3)]) blast
  with that wf_inert_hfs [OF o(2)] show thesis by (simp add: rebooted_recovered)
qed

text \<open>The same with the consumer groups and the snapshots beside the log.\<close>

lemma reopen_groups:
  assumes "wf_hfs f" "recovers (survived (abs_sim f)) pre b rs" "commits_survive (survived (abs_sim f)) hs" "openable cfg"
  obtains l rec f' where "log_Open harness_ops cfg (hfs_recovered (sim_Crash f)) = (Inr (l, rec), f')" "wf_inert f'"
    "log_inv (abs_hfs f') l pre b rs (length rs)" "group_inv (abs_hfs f') l hs"
    "same_files (range snapshotName) (disk_crash (abs_sim f)) (abs_hfs f')"
proof -
  note b = rebooted_facts(1,4) [OF assms(1)]
  obtain l rec f' where "log_Open harness_ops cfg (rebooted [] f) = (Inr (l, rec), f')" "wf_inert f'"
    "log_inv (abs_hfs f') l pre b rs (length rs)" "group_inv (abs_hfs f') l hs"
    "same_files (range snapshotName) (abs_hfs (rebooted [] f)) (abs_hfs f')"
    by (rule idle.commits_survive_Open [OF assms(2,3) b(2,1) assms(4)]) blast
  then show thesis using that unfolding b(1) unfolding rebooted_recovered by blast
qed

text \<open>Appends in terms of the events alone.\<close>

lemma spec_appends:
  assumes "spec_trace (map OpAppend bs) a a'" "list_all accepted (map OpAppend bs)"
  shows "map snd (fst a') = map snd (fst a) @ concat bs"
  using assms
proof (induction bs arbitrary: a)
  case Nil
  then show ?case by (auto elim: spec_trace.cases)
next
  case (Cons b bs)
  obtain c where c: "spec_step (OpAppend b) a c" "spec_trace (map OpAppend bs) c a'"
    using Cons.prems(1) by (auto elim: spec_trace.cases)
  have tw: "takeWhile framable b = b" using Cons.prems(2) by (simp add: list_all_iff takeWhile_eq_all_conv)
  have "map snd (fst c) = map snd (fst a) @ b" using c(1) tw by (auto elim!: spec_step.cases)
  then show ?case using Cons.IH [OF c(2)] Cons.prems(2) by simp
qed

text \<open>A schedule put in place once a log is open, for examples.\<close>

definition every_sync :: "hfs Config" where
  "every_sync = \<lparr>c_Segment = \<lparr>o_MaxBytes = 0, o_IndexInterval = 0\<rparr>, c_Durability = Sync, c_SyncRecords = 0,
     c_SyncInterval = 0, c_Clock = None\<rparr>"

lemma openable_every_sync [simp]: "openable every_sync"
  by (simp add: openable_def every_sync_def)

definition crash_at :: "64 word \<Rightarrow> (64 word \<times> Fault list) list" where
  "crash_at n = [(n, [\<lparr>ft_Kind = Crash, ft_At = n, ft_Arg = 0\<rparr>])]"

lemma armed_store:
  obtains l :: "hfs Log" and f :: hfs where "wf_hfs (f\<lparr>h_byOp := crash_at n\<rparr>)"
    "holds_log (abs_hfs (f\<lparr>h_byOp := crash_at n\<rparr>)) l [] 0" "log_Next l = 0" "log_First l = 0"
    "c_Durability (l_cfg l) = Sync" "group_inv (abs_hfs (f\<lparr>h_byOp := crash_at n\<rparr>)) l []"
    "snap_survives (survived (abs_hfs (f\<lparr>h_byOp := crash_at n\<rparr>))) None"
    "\<And>x. d_dir (abs_hfs (f\<lparr>h_byOp := crash_at n\<rparr>)) (snapshotName x) = None"
proof -
  let ?f = "harness_NewFS []"
  have t: "simfs.truncate ?f = sim_NewFS" by (simp add: harness_NewFS_def simfs.defs sim_NewFS_def)
  have a: "abs_sim ?f = abs_sim sim_NewFS" "wf_sim ?f"
    using abs_sim_truncate [of ?f] abs_sim_truncate [of "sim_NewFS :: simfs"] t by (metis simfs.truncate_def, metis wf_sim_NewFS)
  have w: "wf_inert ?f" "\<not> h_crashed ?f"
    using a(2) by (simp_all add: wf_inert_def inert_def harness_NewFS_def simfs.defs)
  have none: "d_dir (abs_hfs ?f) nm = None" for nm using w a(1) by (simp add: sim_NewFS_def)
  obtain l f where o: "log_Open harness_ops every_sync ?f = (Inr (l, zero_Recovery), f)" "wf_inert f" "log_inv (abs_hfs f) l [] 0 [] 0"
    "l_cfg l = Config_withDefaults every_sync" "l_commits l = None"
    "\<And>nm. nm \<notin> segment_names \<Longrightarrow> d_dir (abs_hfs f) nm = d_dir (abs_hfs ?f) nm \<and> d_sdir (abs_hfs f) nm = d_dir (abs_hfs ?f) nm"
    by (rule idle.log_Open_fresh [OF w(1) none openable_every_sync]) blast
  let ?g = "f\<lparr>h_byOp := crash_at n\<rparr>"
  have same: "abs_sim ?g = abs_sim f" "wf_sim ?g = wf_sim f" by (simp_all add: abs_sim_def wf_sim_def fun_eq_iff)
  then have "wf_hfs ?g" using o(2) by (simp add: wf_hfs_def wf_inert_def unflipped_def crash_at_def)
  moreover have g: "abs_hfs ?g = abs_hfs f" using same by (simp add: abs_hfs_def)
  then have "holds_log (abs_hfs ?g) l [] 0" using holds_logI [OF o(3)] by simp
  moreover have rep: "log_rep (abs_hfs f) l [] 0 []" using o(3) by (simp add: log_inv_def)
  then have "log_Next l = 0" using log_repD(8) [OF rep] by simp
  moreover have "log_First l = 0" using log_repD(1) [OF rep] by (simp add: log_First_def)
  moreover have "c_Durability (l_cfg l) = Sync" using o(4) by (simp add: every_sync_def)
  moreover have out: "d_dir (abs_hfs ?g) nm = None" "d_sdir (abs_hfs ?g) nm = None" if "nm \<notin> segment_names" for nm
    unfolding g using o(6) [OF that] none by simp_all
  have "group_inv (abs_hfs ?g) l []"
    using o(5) out [OF commitsFile_not_segment] by (simp only: group_inv_def commits_file_def history_ok_def option.case) simp
  moreover have snap: "snapshotName x \<notin> segment_names" for x using snapshot_not_segment by (metis UnCI disjoint_iff rangeI)
  then have "snap_survives (survived (abs_hfs ?g)) None" by (simp only: snap_survives_def survived_def option.case out(2) [OF snap]) simp
  moreover have "d_dir (abs_hfs ?g) (snapshotName x) = None" for x by (rule out(1) [OF snap])
  ultimately show thesis using that by blast
qed

lemma armed_log:
  obtains l :: "hfs Log" and f :: hfs where "wf_hfs (f\<lparr>h_byOp := crash_at n\<rparr>)"
    "holds_log (abs_hfs (f\<lparr>h_byOp := crash_at n\<rparr>)) l [] 0" "log_Next l = 0"
    "c_Durability (l_cfg l) = Sync"
  by (rule armed_store) blast

section \<open>Well-formedness\<close>

text \<open>
  One call on a filesystem, whatever it returns; a sync of a file needs the file to be open, the
  other calls take any handle.
\<close>

inductive fs_call :: "'s fs_ops \<Rightarrow> ('s \<Rightarrow> disk) \<Rightarrow> 's \<Rightarrow> 's \<Rightarrow> bool" for F abs where
  call_Create: "fs_Create F nm s = (r, s') \<Longrightarrow> fs_call F abs s s'"
| call_Open: "fs_Open F nm s = (r, s') \<Longrightarrow> fs_call F abs s s'"
| call_Remove: "fs_Remove F nm s = (e, s') \<Longrightarrow> fs_call F abs s s'"
| call_Rename: "fs_Rename F old new s = (e, s') \<Longrightarrow> fs_call F abs s s'"
| call_SyncDir: "fs_Sync F s = (e, s') \<Longrightarrow> fs_call F abs s s'"
| call_Append: "file_Append F h p s = (q, s') \<Longrightarrow> fs_call F abs s s'"
| call_Truncate: "file_Truncate F h n s = (e, s') \<Longrightarrow> fs_call F abs s s'"
| call_Sync: "d_node (abs s) h = Some i \<Longrightarrow> file_Sync F h s = (e, s') \<Longrightarrow> fs_call F abs s s'"
| call_Close: "file_Close F h s = (e, s') \<Longrightarrow> fs_call F abs s s'"

context crash_filesystem
begin

lemma call_wf:
  assumes "fs_call F abs s s'" "wf s"
  shows "wf s'"
  using assms(1)
proof cases
  case (call_Create nm r)
  then show ?thesis using Create_quiet [OF assms(2)] by simp
next
  case (call_Open nm r)
  then show ?thesis using Open_quiet [OF assms(2)] by simp
next
  case (call_Remove nm e)
  then show ?thesis using Remove_quiet [OF assms(2)] by simp
next
  case (call_Rename old new e)
  then show ?thesis using Rename_quiet [OF assms(2)] by simp
next
  case (call_SyncDir e)
  then show ?thesis using SyncDir_law [OF assms(2)] SyncDir_failed [OF assms(2)] by (cases e) simp_all
next
  case (call_Append h p q)
  then show ?thesis using Append_quiet [OF assms(2)] by simp
next
  case (call_Truncate h n e)
  then show ?thesis using Truncate_quiet [OF assms(2)] by simp
next
  case (call_Sync h i e)
  then show ?thesis using Sync_law [OF assms(2)] Sync_failed [OF assms(2)] by (cases e) simp_all
next
  case (call_Close h e)
  then show ?thesis using Close_quiet [OF assms(2)] by simp
qed

end

text \<open>A history of the faulty filesystem: calls, and power cuts followed by a boot with a schedule of its own.\<close>

inductive faulty_step :: "hfs \<Rightarrow> hfs \<Rightarrow> bool" where
  step_call: "fs_call harness_ops abs_hfs f f' \<Longrightarrow> faulty_step f f'"
| step_boot: "\<forall>(n, fs)\<in>set byOp. \<forall>x\<in>set fs. ft_Kind x \<noteq> BitFlip \<Longrightarrow> faulty_step f (rebooted byOp f)"

lemma faulty_step_wf: "faulty_step f f' \<Longrightarrow> wf_hfs f \<Longrightarrow> wf_hfs f'"
  by (induction rule: faulty_step.induct) (auto dest: cut.call_wf intro: rebooted_facts(3))

lemma faulty_steps_wf: "faulty_step\<^sup>*\<^sup>* f f' \<Longrightarrow> wf_hfs f \<Longrightarrow> wf_hfs f'"
  by (induction rule: rtranclp_induct) (auto dest: faulty_step_wf)

end
