(* ===== verification/Ledger.thy ===== *)
theory Ledger
  imports Sim_Deps
begin

text \<open>
  The workload the determinism gate runs, \<^verbatim>\<open>internal/devtools/ledger/ledger.go\<close>: a ledger as
  projection, a teller as decider, and the seeded run that drives both through a cycle over
  the simulated dependencies. Balances and counters are \<^verbatim>\<open>int64\<close> and keep their width. The
  lemmas show that the teller only reads, that money is neither made nor lost by a transfer,
  that no account is overdrawn, and that every run comes to a result.
\<close>

section \<open>Payloads\<close>

definition workloadSchema :: "16 word" where "workloadSchema = 1"

definition payloadBytes :: nat where "payloadBytes = 1 + 2 + 4"

definition opCredit :: byte where "opCredit = 1"

definition opDebit :: byte where "opDebit = 2"

definition AccountID :: "nat \<Rightarrow> string" where
  "AccountID i = ''acct-'' @ zero_padded 4 i"

definition ledger_payload :: "byte \<Rightarrow> nat \<Rightarrow> 64 word \<Rightarrow> bytes" where
  "ledger_payload op idx amount =
     [op] @ le_bytes 2 (word_of_nat idx :: 16 word) @ le_bytes 4 (ucast amount :: 32 word)"

definition payload_idx :: "bytes \<Rightarrow> nat" where
  "payload_idx p = unat (le_word (take 2 (drop 1 p)) :: 16 word)"

definition payload_amount :: "bytes \<Rightarrow> 64 word" where
  "payload_amount p = ucast (le_word (take 4 (drop 3 p)) :: 32 word)"

section \<open>The projection\<close>

record ledger =
  lg_balances :: "64 word list"
  lg_applied :: "64 word"

definition newLedger :: "nat \<Rightarrow> ledger" where
  "newLedger accounts = \<lparr>lg_balances = replicate accounts 0, lg_applied = 0\<rparr>"

definition ledger_Apply :: "event \<Rightarrow> ledger \<Rightarrow> error option \<times> ledger" where
  "ledger_Apply e l =
     (if length (e_Payload e) \<noteq> payloadBytes then (Some (Errorf ''sim: payload is %d bytes, want %d'' []), l)
      else
        let op = e_Payload e ! 0; idx = payload_idx (e_Payload e); amount = payload_amount (e_Payload e);
            bs = lg_balances l
        in if length bs \<le> idx then (Some (Errorf ''sim: account index %d is outside the ledger'' []), l)
           else if op = opCredit then
             (None, l\<lparr>lg_balances := bs[idx := bs ! idx + amount], lg_applied := lg_applied l + 1\<rparr>)
           else if op = opDebit then
             (None, l\<lparr>lg_balances := bs[idx := bs ! idx - amount], lg_applied := lg_applied l + 1\<rparr>)
           else (Some (Errorf ''sim: unknown op %d'' []), l))"

definition ledger_Digest :: "ledger \<Rightarrow> Digest" where
  "ledger_Digest l =
     (let buf = concat (map (le_bytes 8) (lg_balances l)) @ le_bytes 8 (lg_applied l)
      in chain_Digest (chain_Advance \<lparr>e_Key = ''ledger'', e_Time = 0, e_Schema = workloadSchema, e_Payload = buf\<rparr>
                         (replicate 32 0) NewChain))"

section \<open>The decider\<close>

definition ledger_event :: "byte \<Rightarrow> nat \<Rightarrow> 64 word \<Rightarrow> event" where
  "ledger_event op idx amount =
     \<lparr>e_Key = AccountID idx, e_Time = 0, e_Schema = workloadSchema, e_Payload = ledger_payload op idx amount\<rparr>"

definition teller_Decide :: "command \<Rightarrow> ledger \<Rightarrow> event list res" where
  "teller_Decide cmd l =
     (if length (c_Payload cmd) \<noteq> payloadBytes then Inl (Errorf ''sim: command payload is %d bytes, want %d'' [])
      else
        let idx = payload_idx (c_Payload cmd); amount = payload_amount (c_Payload cmd); bs = lg_balances l
        in if length bs \<le> idx then Inl (Errorf ''sim: account index %d is outside the ledger'' [])
           else if c_Name cmd = ''credit'' then Inr [ledger_event opCredit idx amount]
           else if c_Name cmd = ''debit'' then
             if sint (bs ! idx) < sint amount then
               Inl (Errorf ''%w: %s holds %d, needs %d'' [Sentinel ErrInsufficientFunds])
             else Inr [ledger_event opDebit idx amount]
           else if c_Name cmd = ''transfer'' then
             let dst = (idx + 1) mod length bs in
             if sint (bs ! idx) < sint amount then
               Inl (Errorf ''%w: %s holds %d, needs %d'' [Sentinel ErrInsufficientFunds])
             else Inr [ledger_event opDebit idx amount, ledger_event opCredit dst amount]
           else Inl (Errorf ''sim: unknown command %q'' []))"

section \<open>The run\<close>

record Workload =
  wl_Seed :: "64 word"
  wl_Commands :: int
  wl_Accounts :: int

record Result =
  rs_Seed :: "64 word"
  rs_Chain :: Digest
  rs_Projection :: Digest
  rs_Steps :: "64 word"
  rs_Commands :: "64 word"
  rs_Rejected :: "64 word"
  rs_StepsSinceChange :: "64 word"
  rs_Absorbed :: bool
  rs_FinalTime :: Time

definition absorbedWindow :: "64 word" where "absorbedWindow = 32"

definition commandName :: "int \<Rightarrow> string" where
  "commandName roll = (if roll < 5 then ''credit'' else if roll < 8 then ''debit'' else ''transfer'')"

record ledger_world = sim_world +
  lw_ledger :: ledger

definition ledger_projection :: "ledger_world Projection" where
  "ledger_projection =
     \<lparr>pj_Apply = (\<lambda>e w. case ledger_Apply e (lw_ledger w) of (err, l) \<Rightarrow> (err, w\<lparr>lw_ledger := l\<rparr>)),
      pj_Digest = (\<lambda>w. ledger_Digest (lw_ledger w))\<rparr>"

definition ledger_decider :: "ledger_world Decider" where
  "ledger_decider cmd w = (teller_Decide cmd (lw_ledger w), w)"

text \<open>One turn of the loop: the draws, in their order, and then the command.\<close>

definition draw_command :: "int \<Rightarrow> ledger_world \<Rightarrow> (command \<times> ledger_world) option" where
  "draw_command accounts w =
     (case source_Intn 10 (sw_rand w) of None \<Rightarrow> None | Some (roll, s) \<Rightarrow>
      case source_Intn accounts s of None \<Rightarrow> None | Some (idx, s) \<Rightarrow>
      case source_Intn 500 s of None \<Rightarrow> None | Some (a, s) \<Rightarrow>
      case source_Intn 1000 s of None \<Rightarrow> None | Some (d, s) \<Rightarrow>
      case clock_Advance (word_of_int (d + 1)) (sw_clock w) of None \<Rightarrow> None | Some clock \<Rightarrow>
        Some (\<lparr>c_Name = commandName roll, c_Key = AccountID (nat idx),
               c_Payload = ledger_payload 0 (nat idx) (word_of_int (a + 1))\<rparr>,
              w\<lparr>sw_rand := s, sw_clock := clock\<rparr>))"

fun run_loop ::
  "nat \<Rightarrow> int \<Rightarrow> ledger_world Cycle \<Rightarrow> Result \<Rightarrow> ledger_world \<Rightarrow> (error + ledger_world Cycle \<times> Result \<times> ledger_world) option" where
  "run_loop 0 accounts c res w = Some (Inr (c, res, w))"
| "run_loop (Suc n) accounts c res w =
     (case draw_command accounts w of
        None \<Rightarrow> None
      | Some (cmd, w) \<Rightarrow>
          let res = res\<lparr>rs_Commands := rs_Commands res + 1\<rparr> in
          (case cycle_Submit cmd c w of
             (Inr _, c, w) \<Rightarrow> run_loop n accounts c res w
           | (Inl err, c, w) \<Rightarrow>
               if errors_Is err ErrInsufficientFunds then
                 run_loop n accounts c (res\<lparr>rs_Rejected := rs_Rejected res + 1\<rparr>) w
               else Some (Inl (Errorf ''seed %d, command %d (%s): %w'' [err]))))"

definition zero_Result :: "64 word \<Rightarrow> Result" where
  "zero_Result seed =
     \<lparr>rs_Seed = seed, rs_Chain = replicate 32 0, rs_Projection = replicate 32 0, rs_Steps = 0, rs_Commands = 0,
      rs_Rejected = 0, rs_StepsSinceChange = 0, rs_Absorbed = False, rs_FinalTime = 0\<rparr>"

definition start_world :: "Workload \<Rightarrow> ledger_world" where
  "start_world wl =
     sim_world.extend (snd (sim_Deps (wl_Seed wl))) (ledger_world.fields (newLedger (nat (wl_Accounts wl))))"

definition ledger_Run :: "Workload \<Rightarrow> (error + Result) option" where
  "ledger_Run wl =
     (if wl_Commands wl < 1 then Some (Inl (Errorf ''ledger: commands must be at least 1, got %d'' []))
      else if wl_Accounts wl < 2 then Some (Inl (Errorf ''ledger: accounts must be at least 2, got %d'' []))
      else
        (case NewCycle sim_deps_ops (Some ledger_decider) (Some ledger_projection) of
           Inl err \<Rightarrow> Some (Inl err)
         | Inr c \<Rightarrow>
             (case run_loop (nat (wl_Commands wl)) (wl_Accounts wl) c (zero_Result (wl_Seed wl)) (start_world wl) of
                None \<Rightarrow> None
              | Some (Inl err) \<Rightarrow> Some (Inl err)
              | Some (Inr (c, res, w)) \<Rightarrow>
                  let ch = cycle_Chain c in
                  Some (Inr (res\<lparr>rs_Chain := chain_Digest ch, rs_Projection := cycle_Digest c w, rs_Steps := chain_Steps ch,
                    rs_StepsSinceChange := chain_StepsSinceChange ch, rs_Absorbed := chain_Absorbed absorbedWindow ch,
                    rs_FinalTime := clock_Now (sw_clock w)\<rparr>)))))"

section \<open>Payloads, both ways\<close>

lemma payload_facts [simp]:
  "length (ledger_payload op idx amount) = payloadBytes" "ledger_payload op idx amount ! 0 = op"
  "payload_idx (ledger_payload op idx amount) = idx mod 2 ^ 16"
  "payload_amount (ledger_payload op idx amount) = take_bit 32 amount"
proof -
  let ?i = "le_bytes 2 (word_of_nat idx :: 16 word)" and ?a = "le_bytes 4 (ucast amount :: 32 word)"
  have d: "take 2 (drop 1 (ledger_payload op idx amount)) = ?i" "take 4 (drop 3 (ledger_payload op idx amount)) = ?a"
    by (simp_all add: ledger_payload_def numeral_3_eq_3 numeral_2_eq_2)
  show "payload_idx (ledger_payload op idx amount) = idx mod 2 ^ 16"
    unfolding payload_idx_def d by (simp add: le_word_le_bytes unat_of_nat take_bit_eq_mod)
  show "payload_amount (ledger_payload op idx amount) = take_bit 32 amount"
    unfolding payload_amount_def d
    by (rule bit_word_eqI) (auto simp: le_word_le_bytes bit_take_bit_iff bit_ucast_iff)
qed (simp_all add: ledger_payload_def payloadBytes_def)

section \<open>The teller only reads\<close>

interpretation teller: pure_decider ledger_decider
  by unfold_locales (simp add: ledger_decider_def)

section \<open>Money\<close>

definition ledger_total :: "ledger \<Rightarrow> 64 word" where
  "ledger_total l = sum_list (lg_balances l)"

lemma sum_list_update_group:
  "i < length xs \<Longrightarrow> sum_list (xs[i := y]) = sum_list xs + (y - xs ! i)" for xs :: "'a :: ab_group_add list"
proof (induction xs arbitrary: i)
  case (Cons x xs)
  then show ?case by (cases i) (simp_all add: add.assoc)
qed simp

text \<open>What an applied event does to the total, and an event that names the ledger's accounts.\<close>

definition event_delta :: "event \<Rightarrow> 64 word" where
  "event_delta e =
     (if e_Payload e ! 0 = opCredit then payload_amount (e_Payload e) else - payload_amount (e_Payload e))"

lemma ledger_Apply_total:
  "ledger_Apply e l = (None, l') \<Longrightarrow> ledger_total l' = ledger_total l + event_delta e \<and> length (lg_balances l') = length (lg_balances l)"
  by (auto simp: ledger_Apply_def Let_def ledger_total_def event_delta_def sum_list_update_group opCredit_def opDebit_def
      split: if_splits)

lemma ledger_Apply_op [simp]:
  assumes "idx < length (lg_balances l)" "idx < 2 ^ 16" "e_Payload e = ledger_payload op idx a"
  shows "op = opCredit \<Longrightarrow> ledger_Apply e l =
      (None, l\<lparr>lg_balances := (lg_balances l)[idx := lg_balances l ! idx + take_bit 32 a], lg_applied := lg_applied l + 1\<rparr>)"
    "op = opDebit \<Longrightarrow> ledger_Apply e l =
      (None, l\<lparr>lg_balances := (lg_balances l)[idx := lg_balances l ! idx - take_bit 32 a], lg_applied := lg_applied l + 1\<rparr>)"
  using assms by (simp_all add: ledger_Apply_def Let_def opCredit_def opDebit_def)

text \<open>Accounts that hold no debt and no more than a bound.\<close>

definition solvent :: "nat \<Rightarrow> int \<Rightarrow> ledger \<Rightarrow> bool" where
  "solvent accounts m l \<longleftrightarrow> length (lg_balances l) = accounts \<and> (\<forall>b\<in>set (lg_balances l). 0 \<le> sint b \<and> sint b \<le> m)"

lemma sint_add_small:
  "\<lbrakk>0 \<le> sint a; 0 \<le> sint b; sint a + sint b < 2 ^ 63\<rbrakk> \<Longrightarrow> sint (a + b) = sint a + sint (b :: 64 word)"
  by (simp add: sint_word_add signed_take_bit_int_eq_self)

lemma sint_diff_small:
  "\<lbrakk>0 \<le> sint b; sint b \<le> sint a\<rbrakk> \<Longrightarrow> sint (a - b) = sint a - sint (b :: 64 word)"
  using sint_lt [of a] by (simp add: sint_word_diff signed_take_bit_int_eq_self)

lemma solvent_update:
  assumes "solvent n m l" "0 \<le> sint b" "sint b \<le> m'" "m \<le> m'"
  shows "solvent n m' (l\<lparr>lg_balances := (lg_balances l)[i := b], lg_applied := k\<rparr>)"
  using assms set_update_subset_insert [of "lg_balances l" i b] by (fastforce simp: solvent_def)

lemma solvent_nth: "solvent n m l \<Longrightarrow> i < n \<Longrightarrow> 0 \<le> sint (lg_balances l ! i) \<and> sint (lg_balances l ! i) \<le> m"
  by (auto simp: solvent_def)

section \<open>Commands of the workload\<close>

definition cycle_ready :: "ledger_world Cycle \<Rightarrow> bool" where
  "cycle_ready c \<longleftrightarrow>
     cy_deps c = sim_deps_ops \<and> cy_dec c = ledger_decider \<and> cy_proj c = ledger_projection \<and> cy_poison c = None"

lemma length_AccountID: "idx < 2 ^ 16 \<Longrightarrow> length (AccountID idx) \<le> 10"
proof -
  assume "idx < 2 ^ 16"
  then have "idx < 10 ^ 5" by simp
  then have "length (dec_digits idx) \<le> 5" by (rule length_dec_digits) simp
  then show ?thesis by (simp add: AccountID_def zero_padded_def)
qed

lemma AccountID_not_Nil [simp]: "AccountID i \<noteq> []"
  by (simp add: AccountID_def)

lemma ledger_event_valid:
  "0 \<le> sint now \<Longrightarrow> idx < 2 ^ 16 \<Longrightarrow> Event_Validate ((ledger_event op idx a)\<lparr>e_Time := now\<rparr>) = None"
  using length_AccountID [of idx]
  by (simp add: Event_Validate_None ledger_event_def workloadSchema_def MaxKeyLen_def MaxPayloadLen_def headerBytes_def payloadBytes_def)

lemma stamp_ledger_events:
  "0 \<le> sint now \<Longrightarrow> list_all (\<lambda>(op, idx, a). idx < 2 ^ 16) xs \<Longrightarrow>
   stamp_loop now cmd (map (\<lambda>(op, idx, a). ledger_event op idx a) xs) =
     Inr (map (\<lambda>(op, idx, a). (ledger_event op idx a)\<lparr>e_Time := now\<rparr>) xs)"
proof (induction xs)
  case (Cons x xs)
  obtain op idx a where x: "x = (op, idx, a)" by (metis prod_cases3)
  then have "Event_Validate ((ledger_event op idx a)\<lparr>e_Time := now\<rparr>) = None" using Cons.prems by (simp add: ledger_event_valid)
  moreover have "e_Key (ledger_event op idx a) \<noteq> []" by (simp add: ledger_event_def)
  ultimately show ?case using Cons x by simp
qed simp

text \<open>Applying a list of ledger events through a cycle is applying them to the ledger.\<close>

fun post_all :: "(byte \<times> nat \<times> 64 word) list \<Rightarrow> ledger \<Rightarrow> ledger" where
  "post_all [] l = l"
| "post_all ((op, idx, a) # xs) l =
     post_all xs (l\<lparr>lg_balances := (lg_balances l)[idx := lg_balances l ! idx + (if op = opCredit then a else - a)],
                   lg_applied := lg_applied l + 1\<rparr>)"

definition posting_ok :: "nat \<Rightarrow> byte \<times> nat \<times> 64 word \<Rightarrow> bool" where
  "posting_ok n = (\<lambda>(op, idx, a). op \<in> {opCredit, opDebit} \<and> idx < n \<and> n \<le> 2 ^ 16 \<and> take_bit 32 a = a)"

lemma apply_postings:
  assumes "list_all (posting_ok (length (lg_balances (lw_ledger w)))) xs" "cycle_ready c"
  shows "\<exists>ch. apply_loop i (map (\<lambda>(op, idx, a). (ledger_event op idx a)\<lparr>e_Time := now\<rparr>) xs) c w =
    (None, c\<lparr>cy_chain := ch\<rparr>, w\<lparr>lw_ledger := post_all xs (lw_ledger w)\<rparr>)"
  using assms
proof (induction xs arbitrary: i c w)
  case Nil
  then show ?case by (auto intro: exI [of _ "cy_chain c"])
next
  case (Cons x xs)
  obtain op idx a where x: "x = (op, idx, a)" by (metis prod_cases3)
  let ?l = "lw_ledger w" and ?e = "(ledger_event op idx a)\<lparr>e_Time := now\<rparr>"
  let ?l' = "?l\<lparr>lg_balances := (lg_balances ?l)[idx := lg_balances ?l ! idx + (if op = opCredit then a else - a)],
               lg_applied := lg_applied ?l + 1\<rparr>"
  have e: "e_Payload ?e = ledger_payload op idx a" by (simp add: ledger_event_def)
  have ok: "op = opCredit \<or> op = opDebit" "idx < length (lg_balances ?l)" "idx < 2 ^ 16" "take_bit 32 a = a"
    using Cons.prems(1) by (auto simp: x posting_ok_def)
  have ap: "ledger_Apply ?e ?l = (None, ?l')"
    using ok ledger_Apply_op [OF ok(2,3) e] by (auto simp: opCredit_def opDebit_def)
  let ?w = "w\<lparr>lw_ledger := ?l'\<rparr>" and ?c = "c\<lparr>cy_chain := chain_Advance ?e (ledger_Digest ?l') (cy_chain c)\<rparr>"
  have "\<exists>ch. apply_loop (Suc i) (map (\<lambda>(op, idx, a). (ledger_event op idx a)\<lparr>e_Time := now\<rparr>) xs) ?c ?w =
      (None, ?c\<lparr>cy_chain := ch\<rparr>, ?w\<lparr>lw_ledger := post_all xs (lw_ledger ?w)\<rparr>)"
    using Cons.prems by (intro Cons.IH) (simp_all add: cycle_ready_def)
  then show ?case using Cons.prems(2) ap by (simp add: x cycle_ready_def ledger_projection_def)
qed

lemma opDebit_not_opCredit [simp]: "opDebit \<noteq> opCredit"
  by (simp add: opDebit_def opCredit_def)

text \<open>What a command posts, and when the source account covers it.\<close>

definition postings :: "string \<Rightarrow> nat \<Rightarrow> nat \<Rightarrow> 64 word \<Rightarrow> (byte \<times> nat \<times> 64 word) list" where
  "postings name n idx a =
     (if name = ''credit'' then [(opCredit, idx, a)]
      else if name = ''debit'' then [(opDebit, idx, a)]
      else [(opDebit, idx, a), (opCredit, (idx + 1) mod n, a)])"

definition funded :: "string \<Rightarrow> nat \<Rightarrow> 64 word \<Rightarrow> ledger \<Rightarrow> bool" where
  "funded name idx a l \<longleftrightarrow> name = ''credit'' \<or> sint a \<le> sint (lg_balances l ! idx)"

definition ledger_command :: "string \<Rightarrow> nat \<Rightarrow> 64 word \<Rightarrow> command" where
  "ledger_command name idx a = \<lparr>c_Name = name, c_Key = AccountID idx, c_Payload = ledger_payload 0 idx a\<rparr>"

abbreviation ledger_names :: "string set" where
  "ledger_names \<equiv> {''credit'', ''debit'', ''transfer''}"

lemma teller_Decide_command:
  assumes "name \<in> ledger_names" "idx < length (lg_balances l)" "length (lg_balances l) \<le> 2 ^ 16" "take_bit 32 a = a"
  shows "teller_Decide (ledger_command name idx a) l =
    (if funded name idx a l
     then Inr (map (\<lambda>(op, idx, a). ledger_event op idx a) (postings name (length (lg_balances l)) idx a))
     else Inl (Errorf ''%w: %s holds %d, needs %d'' [Sentinel ErrInsufficientFunds]))"
  using assms by (auto simp: teller_Decide_def ledger_command_def Let_def postings_def funded_def)

lemma ledger_Submit:
  assumes "cycle_ready c" "name \<in> ledger_names" "idx < length (lg_balances (lw_ledger w))"
    "length (lg_balances (lw_ledger w)) \<le> 2 ^ 16" "take_bit 32 a = a" "0 \<le> sint (clock_Now (sw_clock w))"
  defines "ps \<equiv> postings name (length (lg_balances (lw_ledger w))) idx a"
  shows "funded name idx a (lw_ledger w) \<Longrightarrow>
      \<exists>ch. cycle_Submit (ledger_command name idx a) c w =
        (Inr (map (\<lambda>(op, idx, a). (ledger_event op idx a)\<lparr>e_Time := clock_Now (sw_clock w)\<rparr>) ps),
         c\<lparr>cy_chain := ch\<rparr>, w\<lparr>lw_ledger := post_all ps (lw_ledger w)\<rparr>)"
    and "\<not> funded name idx a (lw_ledger w) \<Longrightarrow>
      \<exists>err. cycle_Submit (ledger_command name idx a) c w = (Inl err, c, w) \<and> errors_Is err ErrInsufficientFunds"
proof -
  let ?cmd = "ledger_command name idx a" and ?evs = "map (\<lambda>(op, idx, a). ledger_event op idx a) ps"
  let ?now = "clock_Now (sw_clock w)"
  have v: "Command_Validate ?cmd = None"
    using assms(2) length_AccountID [of idx] assms(3,4) by (auto simp: Command_Validate_def ledger_command_def MaxKeyLen_def)
  have now: "co_Now (the (dp_Clock (cy_deps c))) w = ?now" using assms(1) by (simp add: cycle_ready_def sim_deps_ops_def)
  note d = teller_Decide_command [OF assms(2-5), folded ps_def]
  have dst: "Suc idx mod length (lg_balances (lw_ledger w)) < length (lg_balances (lw_ledger w))"
    by (rule mod_less_divisor) (use assms(3) in linarith)
  have ps: "ps \<noteq> []" "list_all (posting_ok (length (lg_balances (lw_ledger w)))) ps"
    "list_all (\<lambda>(op, idx, a). idx < 2 ^ 16) ps"
    using assms(3-5) dst by (auto simp: ps_def postings_def posting_ok_def)
  note st = stamp_ledger_events [OF assms(6) ps(3), of ?cmd]
  {
    assume "funded name idx a (lw_ledger w)"
    moreover obtain ch where "apply_loop 0 (map (\<lambda>(op, idx, a). (ledger_event op idx a)\<lparr>e_Time := ?now\<rparr>) ps) c w =
        (None, c\<lparr>cy_chain := ch\<rparr>, w\<lparr>lw_ledger := post_all ps (lw_ledger w)\<rparr>)"
      using apply_postings [OF ps(2) assms(1)] by blast
    ultimately show "\<exists>ch. cycle_Submit ?cmd c w =
        (Inr (map (\<lambda>(op, idx, a). (ledger_event op idx a)\<lparr>e_Time := ?now\<rparr>) ps),
         c\<lparr>cy_chain := ch\<rparr>, w\<lparr>lw_ledger := post_all ps (lw_ledger w)\<rparr>)"
      using assms(1) v d now st ps(1)
      by (intro exI [of _ ch]) (simp add: cycle_Submit_def cycle_ready_def ledger_decider_def cycle_apply_def)
  next
    assume "\<not> funded name idx a (lw_ledger w)"
    then show "\<exists>err. cycle_Submit ?cmd c w = (Inl err, c, w) \<and> errors_Is err ErrInsufficientFunds"
      using assms(1) v d by (simp add: cycle_Submit_def cycle_ready_def ledger_decider_def)
  }
qed

lemma solvent_postings:
  assumes "solvent n m l" "idx < n" "0 \<le> sint a" "m + sint a < 2 ^ 63" "0 \<le> m" "funded name idx a l" "name \<in> ledger_names"
  shows "solvent n (m + sint a) (post_all (postings name n idx a) l)"
proof -
  have b: "0 \<le> sint (lg_balances l ! i)" "sint (lg_balances l ! i) \<le> m" if "i < n" for i
    using solvent_nth [OF assms(1) that] by auto
  have credit: "solvent n (m + sint a) (l'\<lparr>lg_balances := (lg_balances l')[i := lg_balances l' ! i + a], lg_applied := k\<rparr>)"
    if "solvent n m l'" "i < n" for l' i k
  proof (rule solvent_update [OF that(1)])
    have x: "0 \<le> sint (lg_balances l' ! i)" "sint (lg_balances l' ! i) \<le> m" using solvent_nth [OF that] by auto
    then have "sint (lg_balances l' ! i + a) = sint (lg_balances l' ! i) + sint a" using assms(3,4) by (intro sint_add_small) auto
    then show "0 \<le> sint (lg_balances l' ! i + a)" "sint (lg_balances l' ! i + a) \<le> m + sint a" using x assms(3) by auto
  qed (use assms(3) in simp)
  have debit: "solvent n m (l\<lparr>lg_balances := (lg_balances l)[idx := lg_balances l ! idx - a], lg_applied := k\<rparr>)"
    if "sint a \<le> sint (lg_balances l ! idx)" for k
    using sint_diff_small [OF assms(3) that] b [OF assms(2)] assms(3) that by (intro solvent_update [OF assms(1)]) auto
  have ne: "opDebit \<noteq> opCredit" by (simp add: opDebit_def opCredit_def)
  have mono: "solvent n m l' \<Longrightarrow> solvent n (m + sint a) l'" for l' using assms(3) by (auto simp: solvent_def)
  have dst: "Suc idx mod n < n" using assms(2) by simp
  show ?thesis
    using credit [OF assms(1,2)] mono [OF debit] credit [OF debit dst] assms(6,7) ne
    by (auto simp: postings_def funded_def)
qed

section \<open>Every run comes to a result\<close>

lemma small_int_word:
  assumes "0 \<le> k" "k < 2 ^ 32"
  shows "sint (word_of_int k :: 64 word) = k" "take_bit 32 (word_of_int k :: 64 word) = word_of_int k"
proof -
  have "nat k < 2 ^ 63" using assms(2) by simp
  then show "sint (word_of_int k :: 64 word) = k" using sint_small [of "nat k"] assms(1) by simp
  have k: "take_bit 32 k = k" using assms by (simp add: take_bit_int_eq_self)
  have "bit k n \<Longrightarrow> n < 32" for n using k by (metis bit_take_bit_iff)
  then show "take_bit 32 (word_of_int k :: 64 word) = word_of_int k"
    by (intro bit_word_eqI) (auto simp: bit_take_bit_iff bit_word_of_int_iff)
qed

lemma draw_command_ok:
  assumes "2 \<le> accounts" "accounts \<le> 2 ^ 16" "0 \<le> sint (ck_now (sw_clock w))" "sint (ck_now (sw_clock w)) < 2 ^ 62"
  obtains name idx a s clock where "draw_command accounts w = Some (ledger_command name idx a, w\<lparr>sw_rand := s, sw_clock := clock\<rparr>)"
    "name \<in> ledger_names" "idx < nat accounts" "0 < sint a" "sint a \<le> 500" "take_bit 32 a = a"
    "sint (ck_now (sw_clock w)) < sint (ck_now clock)" "sint (ck_now clock) \<le> sint (ck_now (sw_clock w)) + 1000"
proof -
  have draw: "\<exists>v s'. source_Intn n s = Some (v, s') \<and> 0 \<le> v \<and> v < n" if "0 < n" "n < 2 ^ 63" for n s
    using source_Intn_ok [OF that, of s] by (metis uint_ge_0)
  obtain roll s1 where r: "source_Intn 10 (sw_rand w) = Some (roll, s1)" using draw [of 10 "sw_rand w"] by auto
  obtain idx s2 where i: "source_Intn accounts s1 = Some (idx, s2)" "0 \<le> idx" "idx < accounts" using draw [of accounts s1] assms(1,2) by auto
  obtain a s3 where a: "source_Intn 500 s2 = Some (a, s3)" "0 \<le> a" "a < 500" using draw [of 500 s2] by auto
  obtain d s4 where d: "source_Intn 1000 s3 = Some (d, s4)" "0 \<le> d" "d < 1000" using draw [of 1000 s3] by auto
  have ws: "sint (word_of_int (a + 1) :: 64 word) = a + 1" "take_bit 32 (word_of_int (a + 1) :: 64 word) = word_of_int (a + 1)"
    "sint (word_of_int (d + 1) :: 64 word) = d + 1"
    using small_int_word [of "a + 1"] small_int_word [of "d + 1"] a d by auto
  let ?clock = "(sw_clock w)\<lparr>ck_now := ck_now (sw_clock w) + word_of_int (d + 1)\<rparr>"
  have adv: "clock_Advance (word_of_int (d + 1)) (sw_clock w) = Some ?clock" using ws(3) d(2) by (simp add: clock_Advance_def)
  have now: "sint (ck_now ?clock) = sint (ck_now (sw_clock w)) + (d + 1)"
    using sint_add_small [of "ck_now (sw_clock w)" "word_of_int (d + 1)"] assms(3,4) ws(3) d(2,3) by simp
  have "draw_command accounts w = Some (ledger_command (commandName roll) (nat idx) (word_of_int (a + 1)), w\<lparr>sw_rand := s4, sw_clock := ?clock\<rparr>)"
    using r i(1) a(1) d(1) adv by (simp add: draw_command_def ledger_command_def)
  moreover have "commandName roll \<in> ledger_names" by (simp add: commandName_def)
  moreover have "nat idx < nat accounts" using i(2,3) by simp
  moreover have "0 < sint (word_of_int (a + 1) :: 64 word)" "sint (word_of_int (a + 1) :: 64 word) \<le> 500" using ws(1) a(2,3) by simp_all
  moreover have "sint (ck_now (sw_clock w)) < sint (ck_now ?clock)" "sint (ck_now ?clock) \<le> sint (ck_now (sw_clock w)) + 1000"
    unfolding now using d(2,3) by simp_all
  ultimately show thesis using that ws(2) by blast
qed

definition run_inv :: "int \<Rightarrow> nat \<Rightarrow> ledger_world Cycle \<Rightarrow> ledger_world \<Rightarrow> bool" where
  "run_inv accounts k c w \<longleftrightarrow>
     cycle_ready c \<and> solvent (nat accounts) (500 * int k) (lw_ledger w) \<and>
     0 \<le> sint (ck_now (sw_clock w)) \<and> sint (ck_now (sw_clock w)) \<le> 1000 * int k"

lemma run_turn_ok:
  assumes "run_inv accounts k c w" "2 \<le> accounts" "accounts \<le> 2 ^ 16" "k < 2 ^ 50"
  obtains cmd w1 r c' w' where "draw_command accounts w = Some (cmd, w1)" "cycle_Submit cmd c w1 = (r, c', w')"
    "run_inv accounts (Suc k) c' w'" "\<And>err. r = Inl err \<Longrightarrow> errors_Is err ErrInsufficientFunds"
proof -
  have inv: "cycle_ready c" "solvent (nat accounts) (500 * int k) (lw_ledger w)" "0 \<le> sint (ck_now (sw_clock w))"
    "sint (ck_now (sw_clock w)) \<le> 1000 * int k" using assms(1) by (simp_all add: run_inv_def)
  have lt: "sint (ck_now (sw_clock w)) < 2 ^ 62" using inv(4) assms(4) by simp
  obtain name idx a s clock where d: "draw_command accounts w = Some (ledger_command name idx a, w\<lparr>sw_rand := s, sw_clock := clock\<rparr>)"
    "name \<in> ledger_names" "idx < nat accounts" "0 < sint a" "sint a \<le> 500" "take_bit 32 a = a"
    "sint (ck_now (sw_clock w)) < sint (ck_now clock)" "sint (ck_now clock) \<le> sint (ck_now (sw_clock w)) + 1000"
    by (rule draw_command_ok [OF assms(2,3) inv(3) lt]) blast
  let ?w = "w\<lparr>sw_rand := s, sw_clock := clock\<rparr>"
  have len: "length (lg_balances (lw_ledger ?w)) = nat accounts" using inv(2) by (simp add: solvent_def)
  have pre: "idx < length (lg_balances (lw_ledger ?w))" "length (lg_balances (lw_ledger ?w)) \<le> 2 ^ 16"
    "0 \<le> sint (clock_Now (sw_clock ?w))"
    using d(3,7) assms(3) len inv(3) by (simp_all add: clock_Now_def)
  note sub = ledger_Submit [OF inv(1) d(2) pre(1,2) d(6) pre(3), unfolded len]
  have clk: "0 \<le> sint (ck_now clock)" "sint (ck_now clock) \<le> 1000 * int (Suc k)" using d(7,8) inv(3,4) by auto
  show thesis
  proof (cases "funded name idx a (lw_ledger ?w)")
    case True
    have "500 * int k + sint a < 2 ^ 63" using d(5) assms(4) by simp
    then have "solvent (nat accounts) (500 * int k + sint a) (post_all (postings name (nat accounts) idx a) (lw_ledger w))"
      using solvent_postings [OF inv(2) d(3), of a name] d(2,4) True by simp
    then have "solvent (nat accounts) (500 * int (Suc k)) (post_all (postings name (nat accounts) idx a) (lw_ledger w))"
      using d(5) by (auto simp: solvent_def)
    moreover obtain ch where "cycle_Submit (ledger_command name idx a) c ?w =
        (Inr (map (\<lambda>(op, idx, a). (ledger_event op idx a)\<lparr>e_Time := clock_Now (sw_clock ?w)\<rparr>) (postings name (nat accounts) idx a)),
         c\<lparr>cy_chain := ch\<rparr>, ?w\<lparr>lw_ledger := post_all (postings name (nat accounts) idx a) (lw_ledger ?w)\<rparr>)"
      using sub(1) [OF True] by blast
    ultimately show thesis using that [OF d(1)] inv(1) clk by (simp add: run_inv_def cycle_ready_def)
  next
    case False
    then obtain err where "cycle_Submit (ledger_command name idx a) c ?w = (Inl err, c, ?w)" "errors_Is err ErrInsufficientFunds"
      using sub(2) by blast
    moreover have "solvent (nat accounts) (500 * int (Suc k)) (lw_ledger w)" using inv(2) by (auto simp: solvent_def)
    ultimately show thesis using that [OF d(1)] inv(1) clk by (simp add: run_inv_def)
  qed
qed

lemma run_loop_ok:
  assumes "run_inv accounts k c w" "2 \<le> accounts" "accounts \<le> 2 ^ 16" "k + n < 2 ^ 50"
  shows "\<exists>c' res' w' r. run_loop n accounts c res w = Some (Inr (c', res', w')) \<and> run_inv accounts (k + n) c' w' \<and>
    rs_Commands res' = rs_Commands res + word_of_nat n \<and> r \<le> n \<and> rs_Rejected res' = rs_Rejected res + word_of_nat r"
  using assms
proof (induction n arbitrary: k c w res)
  case (Suc n)
  have k: "k < 2 ^ 50" "Suc k + n < 2 ^ 50" using Suc.prems(4) by simp_all
  obtain cmd w1 r c' w' where t: "draw_command accounts w = Some (cmd, w1)" "cycle_Submit cmd c w1 = (r, c', w')"
    "run_inv accounts (Suc k) c' w'" "\<And>err. r = Inl err \<Longrightarrow> errors_Is err ErrInsufficientFunds"
    by (rule run_turn_ok [OF Suc.prems(1-3) k(1)]) blast
  show ?case
  proof (cases r)
    case (Inl err)
    let ?res = "res\<lparr>rs_Commands := rs_Commands res + 1, rs_Rejected := rs_Rejected res + 1\<rparr>"
    obtain c2 res2 w2 q where "run_loop n accounts c' ?res w' = Some (Inr (c2, res2, w2))" "run_inv accounts (Suc k + n) c2 w2"
      "rs_Commands res2 = rs_Commands ?res + word_of_nat n" "q \<le> n" "rs_Rejected res2 = rs_Rejected ?res + word_of_nat q"
      using Suc.IH [OF t(3) Suc.prems(2,3) k(2), of ?res] by blast
    then show ?thesis using t Inl
      by (intro exI [of _ c2] exI [of _ res2] exI [of _ w2] exI [of _ "Suc q"]) (simp add: add.assoc)
  next
    case (Inr es)
    let ?res = "res\<lparr>rs_Commands := rs_Commands res + 1\<rparr>"
    obtain c2 res2 w2 q where "run_loop n accounts c' ?res w' = Some (Inr (c2, res2, w2))" "run_inv accounts (Suc k + n) c2 w2"
      "rs_Commands res2 = rs_Commands ?res + word_of_nat n" "q \<le> n" "rs_Rejected res2 = rs_Rejected ?res + word_of_nat q"
      using Suc.IH [OF t(3) Suc.prems(2,3) k(2), of ?res] by blast
    then show ?thesis using t Inr
      by (intro exI [of _ c2] exI [of _ res2] exI [of _ w2] exI [of _ q]) (simp add: add.assoc)
  qed
qed auto

lemma run_inv_start:
  assumes "NewCycle sim_deps_ops (Some ledger_decider) (Some ledger_projection) = Inr c"
  shows "run_inv (wl_Accounts wl) 0 c (start_world wl)"
  using assms
  by (auto simp: run_inv_def cycle_ready_def solvent_def newLedger_def start_world_def sim_Deps_def NewClock_def
      sim_world.defs ledger_world.defs NewCycle_def Deps_Validate_def sim_deps_ops_def)

lemma ledger_Run_ok:
  assumes "1 \<le> wl_Commands wl" "wl_Commands wl < 2 ^ 50" "2 \<le> wl_Accounts wl" "wl_Accounts wl \<le> 2 ^ 16"
  obtains res c w r where "ledger_Run wl = Some (Inr res)" "rs_Commands res = word_of_int (wl_Commands wl)"
    "r \<le> nat (wl_Commands wl)" "rs_Rejected res = word_of_nat r" "run_inv (wl_Accounts wl) (nat (wl_Commands wl)) c w"
    "rs_Projection res = ledger_Digest (lw_ledger w)" "rs_FinalTime res = ck_now (sw_clock w)"
proof -
  obtain c0 where c0: "NewCycle sim_deps_ops (Some ledger_decider) (Some ledger_projection) = Inr c0"
    by (simp add: NewCycle_def Deps_Validate_def sim_deps_ops_def)
  have lt: "0 + nat (wl_Commands wl) < 2 ^ 50" using assms(1,2) by simp
  obtain c res w r where l: "run_loop (nat (wl_Commands wl)) (wl_Accounts wl) c0 (zero_Result (wl_Seed wl)) (start_world wl) = Some (Inr (c, res, w))"
    "run_inv (wl_Accounts wl) (nat (wl_Commands wl)) c w" "rs_Commands res = word_of_nat (nat (wl_Commands wl))"
    "r \<le> nat (wl_Commands wl)" "rs_Rejected res = word_of_nat r"
    using run_loop_ok [OF run_inv_start [OF c0] assms(3,4), of "nat (wl_Commands wl)" "zero_Result (wl_Seed wl)"] lt
    by (auto simp: zero_Result_def)
  have "cy_proj c = ledger_projection" using l(2) by (simp add: run_inv_def cycle_ready_def)
  then have dg: "cycle_Digest c w = ledger_Digest (lw_ledger w)" by (simp add: cycle_Digest_def ledger_projection_def)
  have run: "ledger_Run wl = Some (Inr (res\<lparr>rs_Chain := chain_Digest (cycle_Chain c), rs_Projection := cycle_Digest c w,
      rs_Steps := chain_Steps (cycle_Chain c), rs_StepsSinceChange := chain_StepsSinceChange (cycle_Chain c),
      rs_Absorbed := chain_Absorbed absorbedWindow (cycle_Chain c), rs_FinalTime := clock_Now (sw_clock w)\<rparr>))"
    using l(1) assms(1,3) c0 by (simp add: ledger_Run_def Let_def)
  show thesis by (rule that [OF run _ l(4) _ l(2)]) (use l(3,5) assms(1) dg in \<open>simp_all add: clock_Now_def\<close>)
qed

end
