(* ===== verification/Harness_Workload.thy ===== *)
theory Harness_Workload
  imports Harness_FS Log_Snapshot "HOL-Library.Monad_Syntax"
begin

text \<open>
  \<^verbatim>\<open>internal/devtools/harness/workload.go\<close> and \<^verbatim>\<open>restart.go\<close>: what a run of the harness does.

  The run's shared objects are one state, \<open>hworld\<close>: the faulty filesystem and the injected
  clock. The log, the random source and the witness are passed along. The value \<^const>\<open>None\<close>
  of a step is a Go panic (a draw below a bound that is not positive, a clock told to go back
  by \<open>Advance\<close>) or a loop that does not end.
\<close>

section \<open>State\<close>

record hworld = hfs +
  hw_clock :: Clock

definition DefaultSteps :: nat where "DefaultSteps = 40"

definition groupNames :: "string list" where "groupNames = [''ledger'', ''audit'']"

record witness =
  w_events :: "event list"
  w_durableCount :: nat
  w_commits :: "(string \<times> Offset) list"
  w_attempts :: "(string \<times> Offset list) list"
  w_largestWrite :: int
  w_compacted :: bool
  w_snapshot :: "Snapshot option"
  w_tail :: Offset
  w_trusted :: Offset
  w_compactions :: int
  w_dropped :: int
  w_snapshots :: int
  w_steps :: int
  w_restarts :: int
  w_reader :: "Reader option"
  w_lastDelivered :: Offset
  w_delivered :: bool
  w_durability :: Durability

definition new_witness :: "Durability \<Rightarrow> witness" where
  "new_witness d = \<lparr>w_events = [], w_durableCount = 0, w_commits = [], w_attempts = [], w_largestWrite = 0, w_compacted = False,
     w_snapshot = None, w_tail = 0, w_trusted = - 1, w_compactions = 0, w_dropped = 0, w_snapshots = 0, w_steps = 0,
     w_restarts = 0, w_reader = None, w_lastDelivered = 0, w_delivered = False, w_durability = d\<rparr>"

text \<open>What a step hands to the next one.\<close>

type_synonym step_state = "hworld Log \<times> Source \<times> witness \<times> hworld"

definition durabilityOf :: "harness_Config \<Rightarrow> Durability" where
  "durabilityOf cfg =
     (if hc_Durability cfg = ''sync'' then Sync else if hc_Durability cfg = ''os'' then OS else Batch)"

text \<open>A Go function value that reads the clock, as the log is given one.\<close>

definition hw_now :: "hworld \<Rightarrow> Time" where
  "hw_now st = clock_Now (hw_clock st)"

definition shape_options :: "Shape \<Rightarrow> Options" where
  "shape_options shape = \<lparr>o_MaxBytes = sint (sh_SegmentBytes shape), o_IndexInterval = sint (sh_IndexInterval shape)\<rparr>"

definition workload_config :: "harness_Config \<Rightarrow> Shape \<Rightarrow> hworld Config" where
  "workload_config cfg shape =
     \<lparr>c_Segment = shape_options shape, c_Durability = durabilityOf cfg, c_SyncRecords = sint (sh_SyncRecords shape),
      c_SyncInterval = 0, c_Clock = Some hw_now\<rparr>"

text \<open>A bit flip is the one fault that licenses damage.\<close>

abbreviation corrupted :: "hworld \<Rightarrow> bool" where
  "corrupted st \<equiv> hasFired BitFlip st"

text \<open>\<^verbatim>\<open>assert\<close>: nothing, or the error the format makes.\<close>

definition assert_that :: "bool \<Rightarrow> string \<Rightarrow> error option" where
  "assert_that ok fmt = (if ok then None else Some (Errorf fmt []))"

section \<open>Events\<close>

fun draw_bytes :: "nat \<Rightarrow> Source \<Rightarrow> (bytes \<times> Source) option" where
  "draw_bytes 0 src = Some ([], src)"
| "draw_bytes (Suc n) src =
     do { (b, src) \<leftarrow> source_Intn 256 src; (bs, src) \<leftarrow> draw_bytes n src; Some (word_of_int b # bs, src) }"

text \<open>\<^verbatim>\<open>%02d\<close> of a draw below eight.\<close>

definition account_key :: "int \<Rightarrow> string" where
  "account_key n = ''acct-'' @ zero_padded 2 (nat n)"

definition workloadEvent :: "nat \<Rightarrow> Shape \<Rightarrow> Source \<Rightarrow> (event \<times> Source) option" where
  "workloadEvent step shape src =
     do { (n, src) \<leftarrow> source_Intn (sint (sh_MaxPayload shape)) src;
          (payload, src) \<leftarrow> draw_bytes (nat n) src;
          (key, src) \<leftarrow> source_Intn 8 src;
          Some (\<lparr>e_Key = account_key key, e_Time = word_of_nat step, e_Schema = 1, e_Payload = payload\<rparr>, src) }"

fun draw_batch :: "nat \<Rightarrow> nat \<Rightarrow> Shape \<Rightarrow> Source \<Rightarrow> (event list \<times> Source) option" where
  "draw_batch 0 step shape src = Some ([], src)"
| "draw_batch (Suc n) step shape src =
     do { (e, src) \<leftarrow> workloadEvent step shape src; (es, src) \<leftarrow> draw_batch n step shape src; Some (e # es, src) }"

definition encodedSize :: "event list \<Rightarrow> int" where
  "encodedSize events = int (sum_list (map RecordLen events))"

section \<open>One action\<close>

definition supersededLater :: "witness \<Rightarrow> nat \<Rightarrow> bool" where
  "supersededLater w i \<longleftrightarrow>
     list_ex (\<lambda>j. e_Key (w_events w ! j) = e_Key (w_events w ! i)) [Suc i..<length (w_events w)]"

text \<open>\<^verbatim>\<open>fmt.Appendf(nil, "folded to %d", off)\<close>.\<close>

definition folded_state :: "Offset \<Rightarrow> bytes" where
  "folded_state off = bytes_of (''folded to '' @ dec_digits (unat off))"

definition maintain :: "hworld Log \<Rightarrow> Source \<Rightarrow> witness \<Rightarrow> hworld \<Rightarrow> (error option \<times> step_state) option" where
  "maintain l src w st =
     do { (roll, src) \<leftarrow> source_Intn 3 src;
          if roll = 0 then
            (let w = w\<lparr>w_compacted := True\<rparr>;
                 ((cs, err), l, st) = log_CompactAll harness_ops l st;
                 w = w\<lparr>w_dropped := w_dropped w + sum_list (map cp_Dropped cs)\<rparr>
             in case err of
                  Some err \<Rightarrow> Some (Some err, l, src, w, st)
                | None \<Rightarrow> Some (None, l, src, w\<lparr>w_compactions := w_compactions w + 1\<rparr>, st))
          else if roll = 1 then
            (if w_durableCount w = 0 then Some (None, l, src, w, st)
             else do {
               (n, src) \<leftarrow> source_Intn (int (w_durableCount w) + 1) src;
               let off = word_of_int n; state = folded_state off;
                   (err, st) = log_Snapshot harness_ops off state l st
               in case err of
                    Some err \<Rightarrow>
                      Some (if errors_Is err ErrNotFound \<and> corrupted st then None else Some err, l, src, w, st)
                  | None \<Rightarrow>
                      Some (None, l, src, w\<lparr>w_snapshot := Some \<lparr>sn_Offset = off, sn_State = state\<rparr>,
                                            w_snapshots := w_snapshots w + 1\<rparr>, st) })
          else
            (if w_events w = [] then Some (None, l, src, w, st)
             else do {
               (n, src) \<leftarrow> source_Intn (int (length (w_events w))) src;
               let (res, l, st) = log_Read harness_ops (word_of_int n) l st
               in case res of
                    Inr rec \<Rightarrow> Some (None, l, src, w, st)
                  | Inl err \<Rightarrow>
                      Some (if errors_Is err ErrNotFound then None
                            else if errors_Is err ErrCorrupt \<and> corrupted st then None
                            else Some err, l, src, w, st) }) }"

definition attempts_of :: "witness \<Rightarrow> string \<Rightarrow> Offset list" where
  "attempts_of w name = (case map_of (w_attempts w) name of None \<Rightarrow> [] | Some offs \<Rightarrow> offs)"

definition act :: "hworld Log \<Rightarrow> Source \<Rightarrow> nat \<Rightarrow> Shape \<Rightarrow> witness \<Rightarrow> hworld \<Rightarrow> (error option \<times> step_state) option" where
  "act l src step shape w st =
     do { (roll, src) \<leftarrow> source_Intn 10 src;
          if roll \<le> 5 then do {
            (k, src) \<leftarrow> source_Intn (sint (sh_MaxBatch shape)) src;
            (batch, src) \<leftarrow> draw_batch (nat (1 + k)) step shape src;
            let w = (if encodedSize batch > w_largestWrite w then w\<lparr>w_largestWrite := encodedSize batch\<rparr> else w);
                ((offs, err), l, st) = log_Append harness_ops batch l st
            in Some (err, l, src, w\<lparr>w_events := w_events w @ take (length offs) batch\<rparr>, st) }
          else if roll \<le> 7 then
            (case log_Sync harness_ops l st of
               (Some err, l, st) \<Rightarrow> Some (Some err, l, src, w, st)
             | (None, l, st) \<Rightarrow> Some (None, l, src, w\<lparr>w_durableCount := length (w_events w)\<rparr>, st))
          else if roll = 8 then do {
            (i, src) \<leftarrow> source_Intn (int (length groupNames)) src;
            let name = groupNames ! nat i in
            (case log_Group harness_ops name l st of
               (Inl err, l, st) \<Rightarrow> Some (Some err, l, src, w, st)
             | (Inr g, l, st) \<Rightarrow>
                 if w_durableCount w = 0 then Some (None, l, src, w, st)
                 else do {
                   (n, src) \<leftarrow> source_Intn (int (w_durableCount w) + 1) src;
                   let off = word_of_int n;
                       w = w\<lparr>w_attempts := AList.update name (attempts_of w name @ [off]) (w_attempts w)\<rparr>
                   in case group_Commit harness_ops g off l st of
                        (Some err, l, st) \<Rightarrow>
                          Some (if errors_Is err ErrNotFound \<and> corrupted st then None else Some err, l, src, w, st)
                      | (None, l, st) \<Rightarrow> Some (None, l, src, w\<lparr>w_commits := AList.update name off (w_commits w)\<rparr>, st) }) }
          else maintain l src w st }"

section \<open>Restarting\<close>

fun consume_loop :: "nat \<Rightarrow> Reader \<Rightarrow> hworld Log \<Rightarrow> witness \<Rightarrow> hworld \<Rightarrow> (error option \<times> hworld Log \<times> witness \<times> hworld) option" where
  "consume_loop 0 r l w st = Some (None, l, w\<lparr>w_reader := Some r\<rparr>, st)"
| "consume_loop (Suc n) r l w st =
     do { (res, r, l, st) \<leftarrow> reader_Next harness_ops r l st;
          let w = w\<lparr>w_reader := Some r\<rparr> in
          case res of
            Inl err \<Rightarrow> Some (if errors_Is err ErrEndOfLog then None else Some err, l, w, st)
          | Inr rec \<Rightarrow>
              if w_delivered w \<and> r_Offset rec \<le> w_lastDelivered w then
                Some (Some (Errorf ''the reader delivered offset %d after %d'' []), l, w, st)
              else consume_loop n r l (w\<lparr>w_lastDelivered := r_Offset rec, w_delivered := True\<rparr>) st }"

definition witness_consume :: "hworld Log \<Rightarrow> Source \<Rightarrow> witness \<Rightarrow> hworld \<Rightarrow> (error option \<times> step_state) option" where
  "witness_consume l src w st =
     (case (case w_reader w of
              Some r \<Rightarrow> Inr (r, w)
            | None \<Rightarrow> (case log_Reader (log_First l) l of
                         Inl err \<Rightarrow> Inl err
                       | Inr r \<Rightarrow> Inr (r, w\<lparr>w_reader := Some r, w_delivered := False\<rparr>))) of
        Inl err \<Rightarrow> Some (Some err, l, src, w, st)
      | Inr (r, w) \<Rightarrow>
          do { (n, src) \<leftarrow> source_Intn 8 src;
               (err, l, w, st) \<leftarrow> consume_loop (nat (1 + n)) r l w st;
               Some (err, l, src, w, st) })"

text \<open>What the log says about its groups, asked before a restart and compared after it.\<close>

fun ask_groups :: "string list \<Rightarrow> (string \<times> Offset) list \<Rightarrow> hworld Log \<Rightarrow> hworld \<Rightarrow> (error + (string \<times> Offset) list) \<times> hworld Log \<times> hworld" where
  "ask_groups [] groups l st = (Inr groups, l, st)"
| "ask_groups (name # names) groups l st =
     (case log_Group harness_ops name l st of
        (Inl err, l, st) \<Rightarrow> (Inl err, l, st)
      | (Inr g, l, st) \<Rightarrow>
          (case group_Committed harness_ops g l st of
             ((off, err), l, st) \<Rightarrow>
               ask_groups names (if err = None then AList.update name off groups else groups) l st))"

fun compare_groups :: "(string \<times> Offset) list \<Rightarrow> hworld Log \<Rightarrow> hworld \<Rightarrow> error option \<times> hworld Log \<times> hworld" where
  "compare_groups [] l st = (None, l, st)"
| "compare_groups ((name, want) # groups) l st =
     (case log_Group harness_ops name l st of
        (Inl err, l, st) \<Rightarrow> (Some err, l, st)
      | (Inr g, l, st) \<Rightarrow>
          (case group_Committed harness_ops g l st of
             ((got, Some err), l, st) \<Rightarrow> (Some (Errorf ''group %s lost its commit at %d across a restart: %w'' [err]), l, st)
           | ((got, None), l, st) \<Rightarrow>
               if got \<noteq> want then (Some (Errorf ''group %s was committed at %d and came back at %d'' []), l, st)
               else compare_groups groups l st))"

definition compare_snapshot :: "64 word \<Rightarrow> hworld Log \<Rightarrow> hworld \<Rightarrow> error option \<times> hworld" where
  "compare_snapshot snapshot l st =
     (if sint snapshot < 0 then (None, st)
      else
        (case log_LatestSnapshot harness_ops l st of
           (Inl err, st) \<Rightarrow> (Some (Errorf ''the snapshot at %d did not survive a restart: %w'' [err]), st)
         | (Inr snap, st) \<Rightarrow>
             (if sint (sn_Offset snap) < sint snapshot
              then Some (Errorf ''the snapshot was at %d and came back at %d'' []) else None, st)))"

text \<open>The comparison a restart that no bit flip preceded has to pass.\<close>

definition compare_restart ::
  "Offset \<Rightarrow> (string \<times> Offset) list \<Rightarrow> 64 word \<Rightarrow> hworld Log \<Rightarrow> hworld \<Rightarrow> error option \<times> hworld Log \<times> hworld" where
  "compare_restart before groups snapshot l st =
     (if log_Next l < before then (Some (Errorf ''a clean restart lost records: tail was %d, is %d'' []), l, st)
      else
        (case compare_groups groups l st of
           (Some err, l, st) \<Rightarrow> (Some err, l, st)
         | (None, l, st) \<Rightarrow> (case compare_snapshot snapshot l st of (err, st) \<Rightarrow> (err, l, st))))"

definition resume_reader :: "hworld Log \<Rightarrow> witness \<Rightarrow> error option \<times> witness" where
  "resume_reader l w =
     (if \<not> w_delivered w then (None, w)
      else
        (case log_Reader (w_lastDelivered w + 1) l of
           Inl err \<Rightarrow> (if \<not> errors_Is err ErrNotFound then Some err else None, w)
         | Inr r \<Rightarrow> (None, w\<lparr>w_reader := Some r\<rparr>)))"

definition reopen_config :: "witness \<Rightarrow> Shape \<Rightarrow> hworld Config" where
  "reopen_config w shape =
     \<lparr>c_Segment = shape_options shape, c_Durability = w_durability w, c_SyncRecords = 0, c_SyncInterval = 0, c_Clock = None\<rparr>"

definition reopen :: "hworld Log \<Rightarrow> Shape \<Rightarrow> witness \<Rightarrow> hworld \<Rightarrow> error option \<times> hworld Log option \<times> witness \<times> hworld" where
  "reopen l shape w st =
     (let before = log_Next l in
      case ask_groups groupNames [] l st of
        (Inl err, l, st) \<Rightarrow> (Some err, Some l, w, st)
      | (Inr groups, l, st) \<Rightarrow>
          (case log_LatestSnapshot harness_ops l st of
             (newest, st) \<Rightarrow>
               let snapshot = (case newest of Inl err \<Rightarrow> - 1 | Inr snap \<Rightarrow> sn_Offset snap) in
               (case log_Close harness_ops l st of
                  (Some err, l, st) \<Rightarrow> (Some err, Some l, w, st)
                | (None, l, st) \<Rightarrow>
                    let w = w\<lparr>w_reader := None\<rparr> in
                    (case log_Open harness_ops (reopen_config w shape) st of
                       (Inl err, st) \<Rightarrow> (Some (Errorf ''reopen: %w'' [err]), None, w, st)
                     | (Inr (l, rec), st) \<Rightarrow>
                         let w = w\<lparr>w_restarts := w_restarts w + 1\<rparr> in
                         (case (if \<not> corrupted st then compare_restart before groups snapshot l st else (None, l, st)) of
                            (Some err, l, st) \<Rightarrow> (Some err, Some l, w, st)
                          | (None, l, st) \<Rightarrow> (case resume_reader l w of (err, w) \<Rightarrow> (err, Some l, w, st)))))))"

text \<open>A step of the second workload; the log it returns is missing when reopening failed.\<close>

definition restart ::
  "hworld Log \<Rightarrow> Source \<Rightarrow> nat \<Rightarrow> Shape \<Rightarrow> witness \<Rightarrow> hworld \<Rightarrow>
     (error option \<times> hworld Log option \<times> Source \<times> witness \<times> hworld) option" where
  "restart l src step shape w st =
     do { (roll, src) \<leftarrow> source_Intn 10 src;
          if roll \<le> 3 then do { (err, l, src, w, st) \<leftarrow> act l src step shape w st; Some (err, Some l, src, w, st) }
          else if roll \<le> 5 then do { (err, l, src, w, st) \<leftarrow> witness_consume l src w st; Some (err, Some l, src, w, st) }
          else if roll = 6 then (case reopen l shape w st of (err, l, w, st) \<Rightarrow> Some (err, l, src, w, st))
          else do { (err, l, src, w, st) \<leftarrow> maintain l src w st; Some (err, Some l, src, w, st) } }"

section \<open>What must hold after every step\<close>

partial_function (option) live_scan ::
  "Offset \<Rightarrow> bool \<Rightarrow> Reader \<Rightarrow> hworld Log \<Rightarrow> hworld \<Rightarrow> (error option \<times> hworld Log \<times> hworld) option" where
  "live_scan previous first r l st =
     (case reader_Next harness_ops r l st of
        None \<Rightarrow> None
      | Some (Inl err, r, l, st) \<Rightarrow>
          Some (if errors_Is err ErrEndOfLog then None
                else if errors_Is err ErrCorrupt \<and> corrupted st then None
                else Some (Errorf ''scanning after offset %d: %w'' [err]), l, st)
      | Some (Inr rec, r, l, st) \<Rightarrow>
          if \<not> first \<and> \<not> r_Offset rec > previous then
            Some (Some (Errorf ''the scan read offset %d after %d'' []), l, st)
          else if \<not> (r_Offset rec \<ge> log_First l \<and> r_Offset rec < log_Next l) then
            Some (Some (Errorf ''the scan read offset %d, outside [%d, %d)'' []), l, st)
          else live_scan (r_Offset rec) False r l st)"

definition checkLive :: "hworld Log \<Rightarrow> witness \<Rightarrow> hworld \<Rightarrow> (error option \<times> hworld Log \<times> witness \<times> hworld) option" where
  "checkLive l w st =
     (if \<not> (log_Next l \<ge> w_tail w \<or> corrupted st) then
        Some (Some (Errorf ''the log's tail went backwards, from %d to %d'' []), l, w, st)
      else
        let w = (if log_Next l < w_tail w then w\<lparr>w_trusted := min (w_trusted w) (log_Next l)\<rparr> else w);
            w = w\<lparr>w_tail := log_Next l\<rparr>
        in if \<not> list_all (\<lambda>(name, committed). committed \<le> log_Next l \<or> corrupted st) (w_commits w) then
             Some (Some (Errorf ''group %s is committed at %d, past the tail at %d'' []), l, w, st)
           else
             (case log_Reader (log_First l) l of
                Inl err \<Rightarrow> Some (Some (Errorf ''reader: %w'' [err]), l, w, st)
              | Inr r \<Rightarrow>
                  do { (err, l, st) \<leftarrow> live_scan (log_First l) True r l st; Some (err, l, w, st) }))"

section \<open>The run\<close>

text \<open>The clock faults of a step; \<^verbatim>\<open>max\<close> keeps the reading a time.\<close>

fun clock_back :: "Fault list \<Rightarrow> hworld \<Rightarrow> hworld" where
  "clock_back [] st = st"
| "clock_back (f # fs) st =
     (let back = (if sint (ft_Arg f) \<le> 0 then 1000 else ft_Arg f);
          now = hw_now st - back;
          now = (if sint now < 0 then 0 else now)
      in clock_back fs (hfs_record f (st\<lparr>hw_clock := clock_Set now (hw_clock st)\<rparr>)))"

text \<open>The clock faults of a configuration that fall on a step, in the order they are listed.\<close>

definition clockFaults :: "harness_Config \<Rightarrow> nat \<Rightarrow> Fault list" where
  "clockFaults cfg step = filter (\<lambda>f. ft_Kind f = ClockBack \<and> ft_At f = word_of_nat step) (hc_Faults cfg)"

text \<open>
  \<^verbatim>\<open>observe\<close> only looks: it is a function of the step and the state whose answers are
  collected; a nil hook answers nothing.
\<close>

fun steps_loop ::
  "(nat \<Rightarrow> hworld \<Rightarrow> 'o list option) \<Rightarrow> harness_Config \<Rightarrow> Shape \<Rightarrow> nat \<Rightarrow> nat \<Rightarrow> 'o list \<Rightarrow> hworld Log \<Rightarrow> Source \<Rightarrow> witness \<Rightarrow> hworld \<Rightarrow>
     (error option \<times> 'o list \<times> hworld Log option \<times> witness \<times> hworld) option" where
  "steps_loop observe cfg shape 0 step obs l src w st = Some (None, obs, Some l, w, st)"
| "steps_loop observe cfg shape (Suc n) step obs l src w st =
     do { let w = w\<lparr>w_steps := int step + 1\<rparr>;
          let st = hfs_AtStep (word_of_nat step) st;
          (d, src) \<leftarrow> source_Intn 100 src;
          clock \<leftarrow> clock_Advance (word_of_int (1 + d)) (hw_clock st);
          let st = clock_back (clockFaults cfg step) (st\<lparr>hw_clock := clock\<rparr>);
          (err, l, src, w, st) \<leftarrow>
            (if hc_Workload cfg = ''restart'' then restart l src step shape w st
             else do { (err, l, src, w, st) \<leftarrow> act l src step shape w st; Some (err, Some l, src, w, st) });
          (case l of
             None \<Rightarrow> Some (err, obs, None, w, st)
           | Some l \<Rightarrow>
               (case err of
                  Some err \<Rightarrow> Some (Some err, obs, Some l, w, st)
                | None \<Rightarrow> do {
                    new \<leftarrow> observe step st;
                    (err, l, w, st) \<leftarrow> checkLive l w st;
                    (case err of
                       Some err \<Rightarrow> Some (Some (Errorf ''after step %d: %w'' [err]), obs @ new, Some l, w, st)
                     | None \<Rightarrow> steps_loop observe cfg shape n (Suc step) (obs @ new) l src w st) })) }"

definition run_steps :: "harness_Config \<Rightarrow> nat" where
  "run_steps cfg = (if sint (hc_Steps cfg) \<le> 0 then DefaultSteps else nat (sint (hc_Steps cfg)))"

text \<open>The deferred \<^verbatim>\<open>Close\<close> runs whichever way the function returns, its error dropped.\<close>

definition observeWorkload ::
  "(nat \<Rightarrow> hworld \<Rightarrow> 'o list option) \<Rightarrow> harness_Config \<Rightarrow> hworld \<Rightarrow> (error option \<times> 'o list \<times> witness \<times> hworld) option" where
  "observeWorkload observe cfg st =
     (let src = NewSource (hc_Seed cfg);
          st = st\<lparr>hw_clock := NewClock\<rparr>;
          shape = Shape_withDefaults (hc_Shape cfg);
          w = new_witness (durabilityOf cfg)
      in case log_Open harness_ops (workload_config cfg shape) st of
           (Inl err, st) \<Rightarrow> Some (Some err, [], w, st)
         | (Inr (l, rec), st) \<Rightarrow>
             do { (err, obs, l, w, st) \<leftarrow> steps_loop observe cfg shape (run_steps cfg) 0 [] l src w st;
                  let st = (case l of None \<Rightarrow> st | Some l \<Rightarrow> snd (snd (log_Close harness_ops l st)));
                  Some (err, obs, w, st) })"

definition runWorkload :: "harness_Config \<Rightarrow> hworld \<Rightarrow> (error option \<times> witness \<times> hworld) option" where
  "runWorkload cfg st =
     do { (err, obs, w, st) \<leftarrow> observeWorkload (\<lambda>_ _. Some ([] :: unit list)) cfg st; Some (err, w, st) }"

text \<open>The state a run starts in: a new faulty filesystem, beside a clock the run replaces.\<close>

definition harness_world :: "Fault list \<Rightarrow> hworld" where
  "harness_world faults = hfs.extend (harness_NewFS faults) \<lparr>hw_clock = NewClock\<rparr>"

end
