(* ===== verification/Harness_Run.thy ===== *)
theory Harness_Run
  imports Harness_Workload "HOL-Library.Sublist"
begin

text \<open>
  \<^verbatim>\<open>internal/devtools/harness/check.go\<close>, \<^verbatim>\<open>run.go\<close> and \<^verbatim>\<open>replay.go\<close>: what is asserted of the disk
  a run leaves behind, the run itself, the crash matrix and the sweep, minimization, and the
  replay the debugging tools look at.

  The checks work on the filesystem that \<^verbatim>\<open>recovered\<close> returns; whether a bit flip fired is asked of
  the one the run used, so it is one answer for the whole of \<open>check\<close>. As before \<^const>\<open>None\<close> is a
  panic or a loop that does not end.
\<close>

section \<open>The checks\<close>

text \<open>A panic-free view of an event: the fields the checks compare.\<close>

definition same_header :: "event \<Rightarrow> event \<Rightarrow> bool" where
  "same_header got want \<longleftrightarrow> e_Key got = e_Key want \<and> e_Time got = e_Time want"

fun checkDurable_loop ::
  "bool \<Rightarrow> witness \<Rightarrow> nat list \<Rightarrow> hworld Log \<Rightarrow> hworld \<Rightarrow> error option \<times> hworld Log \<times> hworld" where
  "checkDurable_loop flipped w [] l st = (None, l, st)"
| "checkDurable_loop flipped w (i # is) l st =
     (if word_of_nat i \<ge> w_trusted w then (None, l, st)
      else
        let want = w_events w ! i in
        (case log_Read harness_ops (word_of_nat i) l st of
           (Inl err, l, st) \<Rightarrow>
             if flipped then checkDurable_loop flipped w is l st
             else if errors_Is err ErrNotFound \<and> w_compacted w then
               (if supersededLater w i then checkDurable_loop flipped w is l st
                else (Some (Errorf ''record %d is gone and no later record shares its key %q'' []), l, st))
             else (Some (Errorf ''durable record %d was lost: %w'' [err]), l, st)
         | (Inr got, l, st) \<Rightarrow>
             if \<not> (same_header (r_Event got) want \<and> e_Schema (r_Event got) = e_Schema want) then
               (Some (Errorf ''durable record %d came back as %+v, want %+v'' []), l, st)
             else if e_Payload (r_Event got) \<noteq> e_Payload want then
               (Some (Errorf ''durable record %d has the wrong payload'' []), l, st)
             else checkDurable_loop flipped w is l st))"

definition checkDurableRecords :: "bool \<Rightarrow> witness \<Rightarrow> hworld Log \<Rightarrow> hworld \<Rightarrow> error option \<times> hworld Log \<times> hworld" where
  "checkDurableRecords flipped w l st = checkDurable_loop flipped w [0..<w_durableCount w] l st"

text \<open>
  Whether a record is the one the workload appended at its offset, where the witness still knows.
  An offset is below \<open>2 ^ 63\<close> in any run, so its conversion to \<^verbatim>\<open>int\<close> is its value.
\<close>

definition check_record :: "witness \<Rightarrow> Record \<Rightarrow> error option" where
  "check_record w got =
     (let i = unat (r_Offset got) in
      if i < length (w_events w) \<and> r_Offset got < w_trusted w then
        (let want = w_events w ! i in
         if \<not> same_header (r_Event got) want then Some (Errorf ''offset %d came back as %+v, want %+v'' [])
         else assert_that (e_Payload (r_Event got) = e_Payload want) ''offset %d came back with the wrong payload'')
      else None)"

partial_function (option) check_scan ::
  "bool \<Rightarrow> witness \<Rightarrow> Offset \<Rightarrow> bool \<Rightarrow> Reader \<Rightarrow> hworld Log \<Rightarrow> hworld \<Rightarrow> (error option \<times> hworld Log \<times> hworld) option" where
  "check_scan flipped w previous first r l st =
     (case reader_Next harness_ops r l st of
        None \<Rightarrow> None
      | Some (Inl err, r, l, st) \<Rightarrow>
          Some (if errors_Is err ErrEndOfLog then None
                else if flipped then None
                else Some (Errorf ''scanning after offset %d: %w'' [err]), l, st)
      | Some (Inr got, r, l, st) \<Rightarrow>
          if \<not> first \<and> \<not> r_Offset got > previous then
            Some (Some (Errorf ''the scan read offset %d after %d'' []), l, st)
          else if \<not> (r_Offset got \<ge> log_First l \<and> r_Offset got < log_Next l) then
            Some (Some (Errorf ''the scan read offset %d, outside the log's [%d, %d)'' []), l, st)
          else
            (case check_record w got of
               Some err \<Rightarrow> Some (Some err, l, st)
             | None \<Rightarrow> check_scan flipped w (r_Offset got) False r l st))"

definition checkScan :: "bool \<Rightarrow> witness \<Rightarrow> hworld Log \<Rightarrow> hworld \<Rightarrow> (error option \<times> hworld Log \<times> hworld) option" where
  "checkScan flipped w l st =
     (case log_Reader (log_First l) l of
        Inl err \<Rightarrow> Some (Some (Errorf ''reader after the run: %w'' [err]), l, st)
      | Inr r \<Rightarrow> check_scan flipped w (log_First l) True r l st)"

definition attempted :: "witness \<Rightarrow> string \<Rightarrow> Offset \<Rightarrow> bool" where
  "attempted w grp off \<longleftrightarrow> list_ex (\<lambda>tried. tried = off) (attempts_of w grp)"

fun checkGroups_loop ::
  "bool \<Rightarrow> witness \<Rightarrow> (string \<times> Offset) list \<Rightarrow> hworld Log \<Rightarrow> hworld \<Rightarrow> error option \<times> hworld Log \<times> hworld" where
  "checkGroups_loop flipped w [] l st = (None, l, st)"
| "checkGroups_loop flipped w ((name, want) # commits) l st =
     (case log_Group harness_ops name l st of
        (Inl err, l, st) \<Rightarrow>
          if flipped then checkGroups_loop flipped w commits l st
          else (Some (Errorf ''group %s after the run: %w'' [err]), l, st)
      | (Inr g, l, st) \<Rightarrow>
          (case group_Committed harness_ops g l st of
             ((got, Some err), l, st) \<Rightarrow>
               if flipped then checkGroups_loop flipped w commits l st
               else (Some (Errorf ''group %s lost its commit at %d: %w'' [err]), l, st)
           | ((got, None), l, st) \<Rightarrow>
               if \<not> (got = want \<or> attempted w name got \<or> flipped) then
                 (Some (Errorf ''group %s resumed at %d, which is neither the committed %d nor any offset it asked for'' []), l, st)
               else if \<not> (got \<le> log_Next l \<or> flipped) then
                 (Some (Errorf ''group %s is committed at %d, past the log's tail at %d'' []), l, st)
               else checkGroups_loop flipped w commits l st))"

definition checkGroups :: "bool \<Rightarrow> witness \<Rightarrow> hworld Log \<Rightarrow> hworld \<Rightarrow> error option \<times> hworld Log \<times> hworld" where
  "checkGroups flipped w l st = checkGroups_loop flipped w (w_commits w) l st"

definition checkSnapshot :: "bool \<Rightarrow> witness \<Rightarrow> hworld Log \<Rightarrow> hworld \<Rightarrow> error option \<times> hworld" where
  "checkSnapshot flipped w l st =
     (case w_snapshot w of
        None \<Rightarrow> (None, st)
      | Some want \<Rightarrow>
          (case log_LatestSnapshot harness_ops l st of
             (Inl err, st) \<Rightarrow>
               (if flipped then None else Some (Errorf ''the snapshot at %d was lost: %w'' [err]), st)
           | (Inr snap, st) \<Rightarrow>
               (if \<not> sn_Offset snap \<ge> sn_Offset want then
                  Some (Errorf ''the newest snapshot is at %d, behind the %d that was acknowledged'' [])
                else if sn_Offset snap = sn_Offset want \<and> \<not> flipped then
                  assert_that (sn_State snap = sn_State want) ''the snapshot at %d came back with %d bytes of state, want %d''
                else None, st)))"

definition recovery_config :: "Shape \<Rightarrow> hworld Config" where
  "recovery_config shape =
     \<lparr>c_Segment = shape_options shape, c_Durability = Batch, c_SyncRecords = 0, c_SyncInterval = 0, c_Clock = None\<rparr>"

text \<open>What recovery may say, when nothing was damaged.\<close>

definition check_recovery :: "witness \<Rightarrow> Recovery \<Rightarrow> hworld Log \<Rightarrow> error option" where
  "check_recovery w rec l =
     (if R_Corrupt rec \<noteq> None then Some (Errorf ''recovery reported corruption where none was injected: %v'' [])
      else if int (R_Discarded rec) > w_largestWrite w then
        Some (Errorf ''recovery discarded %d bytes, more than the %d byte write in flight'' [])
      else
        assert_that (log_Next l \<ge> word_of_nat (w_durableCount w))
          ''the log recovered to offset %d, below the %d records acknowledged as durable'')"

definition after_event :: event where
  "after_event = \<lparr>e_Key = ''after'', e_Time = 0, e_Schema = 1, e_Payload = bytes_of ''recovered''\<rparr>"

definition check_append :: "bool \<Rightarrow> hworld Log \<Rightarrow> hworld \<Rightarrow> error option" where
  "check_append flipped l st =
     (let next = log_Next l;
          ((offs, err), l, st) = log_Append harness_ops [after_event] l st
      in case err of
           Some err \<Rightarrow> if flipped then None else Some (Errorf ''appending after recovery: %w'' [err])
         | None \<Rightarrow>
             assert_that (length offs = 1 \<and> offs ! 0 = next) ''the first append after recovery was assigned %v, want %d'')"

definition harness_check :: "hworld \<Rightarrow> witness \<Rightarrow> Shape \<Rightarrow> error option option" where
  "harness_check st w shape =
     (let flipped = corrupted st in
      case log_Open harness_ops (recovery_config shape) (hfs_recovered st) of
        (Inl err, st) \<Rightarrow> Some (if flipped then None else Some (Errorf ''reopen: %w'' [err]))
      | (Inr (l, rec), st) \<Rightarrow>
          (case (if \<not> flipped then check_recovery w rec l else None) of
             Some err \<Rightarrow> Some (Some err)
           | None \<Rightarrow>
               (case checkDurableRecords flipped w l st of
                  (Some err, l, st) \<Rightarrow> Some (Some err)
                | (None, l, st) \<Rightarrow>
                    do { (err, l, st) \<leftarrow> checkScan flipped w l st;
                         (case err of
                            Some err \<Rightarrow> Some (Some err)
                          | None \<Rightarrow>
                              (case checkGroups flipped w l st of
                                 (Some err, l, st) \<Rightarrow> Some (Some err)
                               | (None, l, st) \<Rightarrow>
                                   (case checkSnapshot flipped w l st of
                                      (Some err, st) \<Rightarrow> Some (Some err)
                                    | (None, st) \<Rightarrow> Some (check_append flipped l st)))) })))"

section \<open>One run\<close>

definition isInjected :: "error \<Rightarrow> bool" where
  "isInjected err \<longleftrightarrow> errors_Is err ErrCrashed \<or> errors_Is err ErrInjected"

definition isDamage :: "error \<Rightarrow> bool" where
  "isDamage err \<longleftrightarrow> errors_Is err ErrCorrupt \<or> errors_Is err ErrTorn"

text \<open>An error that ended the workload and that the harness did not bring about itself.\<close>

definition real_failure :: "error option \<Rightarrow> hworld \<Rightarrow> bool" where
  "real_failure err st \<longleftrightarrow>
     (case err of None \<Rightarrow> False | Some err \<Rightarrow> \<not> isInjected err \<and> \<not> (corrupted st \<and> isDamage err))"

definition harness_Run :: "harness_Config \<Rightarrow> error option option" where
  "harness_Run cfg =
     do { (err, w, st) \<leftarrow> runWorkload cfg (harness_world (hc_Faults cfg));
          if real_failure err st then Some err
          else harness_check st w (Shape_withDefaults (hc_Shape cfg)) }"

text \<open>The configuration without its faults.\<close>

definition Without :: "harness_Config \<Rightarrow> harness_Config" where
  "Without cfg = cfg\<lparr>hc_Faults := []\<rparr>"

definition CleanOps :: "harness_Config \<Rightarrow> (error + 64 word \<times> 64 word) option" where
  "CleanOps cfg =
     do { (err, w, st) \<leftarrow> runWorkload (Without cfg) (harness_world []);
          Some (case err of Some err \<Rightarrow> Inl err | None \<Rightarrow> Inr (h_ops st, h_signature st)) }"

definition isCrash :: "Kind \<Rightarrow> bool" where
  "isCrash kind \<longleftrightarrow> list_ex (\<lambda>crash. kind = crash) Crashes"

section \<open>The crash matrix\<close>

record Failure =
  fl_Config :: harness_Config
  fl_Err :: "error option"

record Report =
  rp_Runs :: int
  rp_Failures :: "Failure list"
  rp_Compactions :: int
  rp_Dropped :: int
  rp_Snapshots :: int
  rp_Faults :: "(Kind \<times> int) list"
  rp_Modes :: "(string \<times> int) list"
  rp_Shapes :: "(string \<times> int) list"
  rp_Workloads :: "(string \<times> int) list"

definition zero_Report :: Report where
  "zero_Report = \<lparr>rp_Runs = 0, rp_Failures = [], rp_Compactions = 0, rp_Dropped = 0, rp_Snapshots = 0, rp_Faults = [],
     rp_Modes = [], rp_Shapes = [], rp_Workloads = []\<rparr>"

text \<open>\<^verbatim>\<open>m[k]++\<close> on a map of counters.\<close>

definition bump :: "'k \<Rightarrow> ('k \<times> int) list \<Rightarrow> ('k \<times> int) list" where
  "bump k m = AList.update k ((case map_of m k of None \<Rightarrow> 0 | Some n \<Rightarrow> n) + 1) m"

definition zero_Config :: harness_Config where
  "zero_Config = \<lparr>hc_Seed = 0, hc_Steps = 0, hc_Faults = [], hc_Durability = [], hc_Shape = zero_Shape, hc_Workload = []\<rparr>"

text \<open>The crash at one point in one shape; half of the unsynced tail for the torn one.\<close>

definition matrix_fault :: "nat \<Rightarrow> Kind \<Rightarrow> Fault" where
  "matrix_fault at kind = \<lparr>ft_Kind = kind, ft_At = word_of_nat at, ft_Arg = (if kind = CrashTorn then 50 else 0)\<rparr>"

fun matrix_loop ::
  "(harness_Config \<Rightarrow> error option option) \<Rightarrow> 64 word \<Rightarrow> (nat \<times> Kind) list \<Rightarrow> Report \<Rightarrow> Report option" where
  "matrix_loop run seed [] report = Some report"
| "matrix_loop run seed ((at, kind) # points) report =
     (let cfg = zero_Config\<lparr>hc_Seed := seed, hc_Faults := [matrix_fault at kind]\<rparr>;
          report = report\<lparr>rp_Runs := rp_Runs report + 1, rp_Faults := bump kind (rp_Faults report)\<rparr>
      in do { err \<leftarrow> run cfg;
              let report = (case err of None \<Rightarrow> report
                | Some err \<Rightarrow> report\<lparr>rp_Failures := rp_Failures report @ [\<lparr>fl_Config = cfg, fl_Err = Some err\<rparr>]\<rparr>) in
              matrix_loop run seed points report })"

text \<open>The error beside the report is Go's second result.\<close>

definition Matrix :: "64 word \<Rightarrow> int \<Rightarrow> (Report \<times> error option) option" where
  "Matrix seed maxPoints =
     do { (err, w, clean) \<leftarrow> runWorkload (zero_Config\<lparr>hc_Seed := seed\<rparr>) (harness_world []);
          (case err of
             Some err \<Rightarrow> Some (zero_Report, Some (Errorf ''harness: the clean run failed: %w'' [err]))
           | None \<Rightarrow> do {
               broke \<leftarrow> harness_check clean w (Shape_withDefaults zero_Shape);
               (case broke of
                  Some err \<Rightarrow> Some (zero_Report, Some (Errorf ''harness: the clean run broke an invariant: %w'' [err]))
                | None \<Rightarrow>
                    let report = zero_Report\<lparr>rp_Compactions := w_compactions w, rp_Dropped := w_dropped w, rp_Snapshots := w_snapshots w\<rparr>;
                        ops = sint (h_ops clean);
                        points = (if maxPoints > 0 \<and> maxPoints < ops then maxPoints else ops)
                    in do {
                      report \<leftarrow> matrix_loop harness_Run seed (List.product [1..<Suc (nat points)] Crashes) report;
                      Some (report, if points < ops then Some (Errorf ''harness: only %d of %d points were exercised'' []) else None) }) }) }"

section \<open>Minimization\<close>

text \<open>
  \<^verbatim>\<open>Minimize\<close> compares failures by their message. The model's errors do not carry what a format
  was filled with, so the message of an error is a parameter, \<open>msg\<close>; so is the run, which
  the callers below give as \<^const>\<open>harness_Run\<close>. The shorter configurations have everything
  of the configuration they come from but the steps and the faults.
\<close>

definition shorter_config :: "harness_Config \<Rightarrow> 64 word \<Rightarrow> Fault list \<Rightarrow> harness_Config" where
  "shorter_config cfg steps faults =
     \<lparr>hc_Seed = hc_Seed cfg, hc_Steps = steps, hc_Faults = faults, hc_Durability = hc_Durability cfg,
      hc_Shape = hc_Shape cfg, hc_Workload = hc_Workload cfg\<rparr>"

definition reproduces ::
  "(harness_Config \<Rightarrow> error option option) \<Rightarrow> (error \<Rightarrow> string) \<Rightarrow> string \<Rightarrow> harness_Config \<Rightarrow> bool option" where
  "reproduces run msg want candidate =
     do { err \<leftarrow> run candidate; Some (case err of None \<Rightarrow> False | Some err \<Rightarrow> msg err = want) }"

text \<open>One pass over the faults: the first one that can go, goes.\<close>

fun drop_one ::
  "(harness_Config \<Rightarrow> error option option) \<Rightarrow> (error \<Rightarrow> string) \<Rightarrow> string \<Rightarrow> harness_Config \<Rightarrow> nat list \<Rightarrow> harness_Config option option" where
  "drop_one run msg want cfg [] = Some None"
| "drop_one run msg want cfg (i # is) =
     (let shorter = shorter_config cfg (hc_Steps cfg) (take i (hc_Faults cfg) @ drop (Suc i) (hc_Faults cfg)) in
      do { b \<leftarrow> reproduces run msg want shorter;
           if b then Some (Some shorter) else drop_one run msg want cfg is })"

lemma drop_one_shrinks:
  assumes "drop_one run msg want cfg is = Some (Some cfg')" "\<forall>i\<in>set is. i < length (hc_Faults cfg)"
  shows "length (hc_Faults cfg') < length (hc_Faults cfg)"
  using assms by (induction "is") (auto simp: Let_def shorter_config_def split: bind_splits if_splits)

function drop_faults ::
  "(harness_Config \<Rightarrow> error option option) \<Rightarrow> (error \<Rightarrow> string) \<Rightarrow> string \<Rightarrow> harness_Config \<Rightarrow> harness_Config option" where
  "drop_faults run msg want cfg =
     (case drop_one run msg want cfg [0..<length (hc_Faults cfg)] of
        None \<Rightarrow> None
      | Some None \<Rightarrow> Some cfg
      | Some (Some shorter) \<Rightarrow> drop_faults run msg want shorter)"
  by pat_completeness auto
termination
  by (relation "measure (\<lambda>(run, msg, want, cfg). length (hc_Faults cfg))") (auto dest: drop_one_shrinks)

declare drop_faults.simps [simp del]

function halve_steps ::
  "(harness_Config \<Rightarrow> error option option) \<Rightarrow> (error \<Rightarrow> string) \<Rightarrow> string \<Rightarrow> harness_Config \<Rightarrow> nat \<Rightarrow> nat \<Rightarrow> nat option" where
  "halve_steps run msg want cfg span steps =
     (if span \<ge> 1 then
        do { b \<leftarrow> (if steps - span > 0 then reproduces run msg want (shorter_config cfg (word_of_nat (steps - span)) (hc_Faults cfg))
                   else Some False);
             halve_steps run msg want cfg (span div 2) (if b then steps - span else steps) }
      else Some steps)"
  by pat_completeness auto
termination
  by (relation "measure (\<lambda>(run, msg, want, cfg, span, steps). span)") auto

declare halve_steps.simps [simp del]

definition Minimize ::
  "(harness_Config \<Rightarrow> error option option) \<Rightarrow> (error \<Rightarrow> string) \<Rightarrow> harness_Config \<Rightarrow> error \<Rightarrow> (harness_Config \<times> error option) option" where
  "Minimize run msg cfg failure =
     (let want = msg failure in
      do { cfg \<leftarrow> drop_faults run msg want cfg;
           let steps = run_steps cfg in
           do { steps \<leftarrow> halve_steps run msg want cfg (steps div 2) steps;
                let cfg = cfg\<lparr>hc_Steps := word_of_nat steps\<rparr> in
                do { err \<leftarrow> run cfg; Some (cfg, err) } } })"

section \<open>The sweep\<close>

text \<open>The faults one kind contributes to a run.\<close>

definition swarm_fault :: "harness_Config \<Rightarrow> int \<Rightarrow> Kind \<Rightarrow> Source \<Rightarrow> (Fault \<times> Source) option" where
  "swarm_fault cfg ops kind src =
     do { (at, src) \<leftarrow> source_Intn ops src;
          let fault = \<lparr>ft_Kind = kind, ft_At = word_of_int (1 + at), ft_Arg = 0\<rparr> in
          if kind = BitFlip then do { (a, src) \<leftarrow> source_Intn (2 ^ 20) src; Some (fault\<lparr>ft_Arg := word_of_int a\<rparr>, src) }
          else if kind = ShortWrite then do { (a, src) \<leftarrow> source_Intn 64 src; Some (fault\<lparr>ft_Arg := word_of_int (1 + a)\<rparr>, src) }
          else if kind = CrashTorn then do { (a, src) \<leftarrow> source_Intn 101 src; Some (fault\<lparr>ft_Arg := word_of_int a\<rparr>, src) }
          else if kind = ClockBack then do {
            (at, src) \<leftarrow> source_Intn (sint (hc_Steps cfg)) src;
            (a, src) \<leftarrow> source_Intn 10000 src;
            Some (fault\<lparr>ft_At := word_of_int at, ft_Arg := word_of_int (1 + a)\<rparr>, src) }
          else Some (fault, src) }"

fun swarm_many :: "nat \<Rightarrow> harness_Config \<Rightarrow> int \<Rightarrow> Kind \<Rightarrow> Source \<Rightarrow> (harness_Config \<times> Source) option" where
  "swarm_many 0 cfg ops kind src = Some (cfg, src)"
| "swarm_many (Suc n) cfg ops kind src =
     do { (fault, src) \<leftarrow> swarm_fault cfg ops kind src;
          swarm_many n (cfg\<lparr>hc_Faults := hc_Faults cfg @ [fault]\<rparr>) ops kind src }"

fun swarm_kinds :: "Kind list \<Rightarrow> harness_Config \<Rightarrow> int \<Rightarrow> Source \<Rightarrow> (harness_Config \<times> Source) option" where
  "swarm_kinds [] cfg ops src = Some (cfg, src)"
| "swarm_kinds (kind # kinds) cfg ops src =
     do { (roll, src) \<leftarrow> source_Intn 4 src;
          if roll \<noteq> 0 then swarm_kinds kinds cfg ops src
          else do {
            (n, src) \<leftarrow> (if \<not> isCrash kind then do { (k, src) \<leftarrow> source_Intn 3 src; Some (nat (1 + k), src) } else Some (1, src));
            (cfg, src) \<leftarrow> swarm_many n cfg ops kind src;
            swarm_kinds kinds cfg ops src } }"

definition swarm :: "64 word \<Rightarrow> harness_Config option" where
  "swarm seed =
     do { let src = NewSource seed;
          let cfg = zero_Config\<lparr>hc_Seed := seed, hc_Steps := word_of_nat DefaultSteps\<rparr>;
          (mode, src) \<leftarrow> source_Intn 4 src;
          let cfg = (if mode = 0 then cfg\<lparr>hc_Durability := ''os''\<rparr>
                     else if mode = 1 then cfg\<lparr>hc_Durability := ''sync''\<rparr> else cfg);
          (shape, src) \<leftarrow> shapeFor src;
          let cfg = cfg\<lparr>hc_Shape := shape\<rparr>;
          (third, src) \<leftarrow> source_Intn 3 src;
          let cfg = (if third = 0 then cfg\<lparr>hc_Workload := ''restart''\<rparr> else cfg);
          (err, w, probe) \<leftarrow> runWorkload (Without cfg) (harness_world []);
          let ops = sint (h_ops probe);
          if err \<noteq> None then Some cfg
          else if ops < 2 then Some cfg
          else do { (cfg, src) \<leftarrow> swarm_kinds Kinds cfg ops src; Some cfg } }"

definition workloadName :: "harness_Config \<Rightarrow> string" where
  "workloadName cfg = (if hc_Workload cfg = [] then ''mixed'' else hc_Workload cfg)"

text \<open>The coverage of a clean run of the same seed, counted for one run in sixteen.\<close>

definition sweep_coverage :: "harness_Config \<Rightarrow> Report \<Rightarrow> Report option" where
  "sweep_coverage cfg report =
     do { (err, w, clean) \<leftarrow> runWorkload (Without cfg) (harness_world []);
          Some (if err \<noteq> None then report
                else report\<lparr>rp_Compactions := rp_Compactions report + w_compactions w, rp_Dropped := rp_Dropped report + w_dropped w,
                            rp_Snapshots := rp_Snapshots report + w_snapshots w\<rparr>) }"

definition add_failure :: "harness_Config \<Rightarrow> error option \<Rightarrow> Report \<Rightarrow> Report" where
  "add_failure cfg err report = report\<lparr>rp_Failures := rp_Failures report @ [\<lparr>fl_Config = cfg, fl_Err = err\<rparr>]\<rparr>"

definition sweep_one :: "(error \<Rightarrow> string) \<Rightarrow> 64 word \<Rightarrow> nat \<Rightarrow> bool \<Rightarrow> Report \<Rightarrow> Report option" where
  "sweep_one msg seed i minimize report =
     do { cfg \<leftarrow> swarm seed;
          let mode = (if hc_Durability cfg = [] then ''batch'' else hc_Durability cfg);
          let report = report\<lparr>rp_Runs := rp_Runs report + 1, rp_Faults := fold (\<lambda>f. bump (ft_Kind f)) (hc_Faults cfg) (rp_Faults report),
                rp_Modes := bump mode (rp_Modes report), rp_Shapes := bump (Shape_String (hc_Shape cfg)) (rp_Shapes report),
                rp_Workloads := bump (workloadName cfg) (rp_Workloads report)\<rparr>;
          report \<leftarrow> (if i mod 16 = 0 then sweep_coverage cfg report else Some report);
          err \<leftarrow> harness_Run cfg;
          (case err of
             None \<Rightarrow> Some report
           | Some err \<Rightarrow>
               if minimize then do { (cfg, err) \<leftarrow> Minimize harness_Run msg cfg err; Some (add_failure cfg err report) }
               else Some (add_failure cfg (Some err) report)) }"

fun sweep_loop :: "(error \<Rightarrow> string) \<Rightarrow> 64 word \<Rightarrow> bool \<Rightarrow> nat list \<Rightarrow> Report \<Rightarrow> Report option" where
  "sweep_loop msg from minimize [] report = Some report"
| "sweep_loop msg from minimize (i # is) report =
     do { report \<leftarrow> sweep_one msg (from + word_of_nat i) i minimize report; sweep_loop msg from minimize is report }"

definition Sweep :: "(error \<Rightarrow> string) \<Rightarrow> 64 word \<Rightarrow> int \<Rightarrow> bool \<Rightarrow> Report option" where
  "Sweep msg from count minimize = sweep_loop msg from minimize [0..<nat count] zero_Report"

section \<open>Replaying\<close>

record State =
  sa_Step :: nat
  sa_First :: Offset
  sa_Tail :: Offset
  sa_Segments :: nat
  sa_Records :: nat
  sa_Groups :: "(string \<times> Offset) list"
  sa_Snapshot :: "64 word"
  sa_Digest :: "64 word"
  sa_Err :: "error option"

definition blank_State :: "nat \<Rightarrow> State" where
  "blank_State step = \<lparr>sa_Step = step, sa_First = 0, sa_Tail = 0, sa_Segments = 0, sa_Records = 0, sa_Groups = [],
     sa_Snapshot = - 1, sa_Digest = 0, sa_Err = None\<rparr>"

text \<open>One record folded into the digest.\<close>

definition fold_record :: "Record \<Rightarrow> 64 word \<Rightarrow> 64 word" where
  "fold_record rec digest =
     fold fnv_fold
       (le_bytes 8 (r_Offset rec) @ bytes_of (e_Key (r_Event rec)) @ le_bytes 8 (e_Time (r_Event rec)) @ e_Payload (r_Event rec))
       digest"

partial_function (option) digest_scan ::
  "Reader \<Rightarrow> hworld Log \<Rightarrow> hworld \<Rightarrow> nat \<Rightarrow> 64 word \<Rightarrow> (nat \<times> 64 word \<times> error option) option" where
  "digest_scan r l st records digest =
     (case reader_Next harness_ops r l st of
        None \<Rightarrow> None
      | Some (Inl err, r, l, st) \<Rightarrow> Some (records, digest, if errors_Is err ErrEndOfLog then None else Some err)
      | Some (Inr rec, r, l, st) \<Rightarrow> digest_scan r l st (Suc records) (fold_record rec digest))"

text \<open>The groups that answer; one that cannot be opened, or has no commit, is left out.\<close>

fun known_groups :: "string list \<Rightarrow> (string \<times> Offset) list \<Rightarrow> hworld Log \<Rightarrow> hworld \<Rightarrow> (string \<times> Offset) list \<times> hworld Log \<times> hworld" where
  "known_groups [] groups l st = (groups, l, st)"
| "known_groups (name # names) groups l st =
     (case log_Group harness_ops name l st of
        (Inl err, l, st) \<Rightarrow> known_groups names groups l st
      | (Inr g, l, st) \<Rightarrow>
          (case group_Committed harness_ops g l st of
             ((off, err), l, st) \<Rightarrow>
               known_groups names (if err = None then AList.update name off groups else groups) l st))"

definition snapshotState :: "Shape \<Rightarrow> nat \<Rightarrow> hworld \<Rightarrow> State option" where
  "snapshotState shape step st =
     (case log_Open harness_ops (recovery_config shape) (hfs_Copy st) of
        (Inl err, st) \<Rightarrow> Some ((blank_State step)\<lparr>sa_Err := Some err\<rparr>)
      | (Inr (l, rec), st) \<Rightarrow>
          (let state = (blank_State step)\<lparr>sa_First := log_First l, sa_Tail := log_Next l, sa_Segments := length (log_Segments l)\<rparr>;
               (newest, st) = log_LatestSnapshot harness_ops l st;
               state = (case newest of Inl err \<Rightarrow> state | Inr snap \<Rightarrow> state\<lparr>sa_Snapshot := sn_Offset snap\<rparr>);
               (groups, l, st) = known_groups groupNames [] l st;
               state = state\<lparr>sa_Groups := groups\<rparr>
           in case log_Reader (log_First l) l of
                Inl err \<Rightarrow> Some (state\<lparr>sa_Err := Some err\<rparr>)
              | Inr r \<Rightarrow>
                  do { (records, digest, err) \<leftarrow> digest_scan r l st 0 14695981039346656037;
                       Some (state\<lparr>sa_Records := records, sa_Digest := digest, sa_Err := err\<rparr>) }))"

record Trace =
  tr_Config :: harness_Config
  tr_Ops :: "Op list"
  tr_States :: "State list"
  tr_Signature :: "64 word"
  tr_Stopped :: "error option"
  tr_Failure :: "error option"

definition Replay :: "harness_Config \<Rightarrow> Trace option" where
  "Replay cfg =
     do { let shape = Shape_withDefaults (hc_Shape cfg);
          (err, states, w, st) \<leftarrow>
            observeWorkload (\<lambda>step st. do { state \<leftarrow> snapshotState shape step st; Some [state] }) cfg
              (hfs_Tracing True (harness_world (hc_Faults cfg)));
          let trace = \<lparr>tr_Config = cfg, tr_Ops = h_trace st, tr_States = states, tr_Signature = h_signature st,
                       tr_Stopped = err, tr_Failure = None\<rparr>;
          (if real_failure err st then Some (trace\<lparr>tr_Failure := err\<rparr>)
           else do { broke \<leftarrow> harness_check st w shape; Some (trace\<lparr>tr_Failure := broke\<rparr>) }) }"

text \<open>A Go map answers a missing key with zero.\<close>

definition sameState :: "State \<Rightarrow> State \<Rightarrow> bool" where
  "sameState a b \<longleftrightarrow>
     \<not> (sa_First a \<noteq> sa_First b \<or> sa_Tail a \<noteq> sa_Tail b \<or> sa_Records a \<noteq> sa_Records b \<or>
        sa_Segments a \<noteq> sa_Segments b \<or> sa_Snapshot a \<noteq> sa_Snapshot b \<or> sa_Digest a \<noteq> sa_Digest b) \<and>
     length (sa_Groups a) = length (sa_Groups b) \<and>
     list_all (\<lambda>(name, off). (case map_of (sa_Groups b) name of None \<Rightarrow> 0 | Some o' \<Rightarrow> o') = off) (sa_Groups a) \<and>
     (sa_Err a = None) = (sa_Err b = None)"

text \<open>Where Go leaves a \<^verbatim>\<open>State\<close> at its zero value there is none.\<close>

record Divergence =
  dv_Step :: int
  dv_A :: "State option"
  dv_B :: "State option"
  dv_Truncated :: bool

fun first_difference :: "State list \<Rightarrow> State list \<Rightarrow> (State \<times> State) option" where
  "first_difference (a # as) (b # bs) = (if \<not> sameState a b then Some (a, b) else first_difference as bs)"
| "first_difference _ _ = None"

definition divergence :: "State list \<Rightarrow> State list \<Rightarrow> Divergence" where
  "divergence as bs =
     (let n = min (length as) (length bs) in
      case first_difference as bs of
        Some (a, b) \<Rightarrow> \<lparr>dv_Step = int (sa_Step a), dv_A = Some a, dv_B = Some b, dv_Truncated = False\<rparr>
      | None \<Rightarrow>
          if length as \<noteq> length bs then
            \<lparr>dv_Step = int n, dv_A = (if n < length as then Some (as ! n) else None),
             dv_B = (if n < length bs then Some (bs ! n) else None), dv_Truncated = True\<rparr>
          else \<lparr>dv_Step = - 1, dv_A = None, dv_B = None, dv_Truncated = False\<rparr>)"

definition Diff :: "harness_Config \<Rightarrow> harness_Config \<Rightarrow> (Trace \<times> Trace \<times> Divergence) option" where
  "Diff a b =
     do { ta \<leftarrow> Replay a; tb \<leftarrow> Replay b; Some (ta, tb, divergence (tr_States ta) (tr_States tb)) }"

section \<open>What minimization guarantees\<close>

text \<open>A configuration that fails with the message.\<close>

definition fails_as :: "(harness_Config \<Rightarrow> error option option) \<Rightarrow> (error \<Rightarrow> string) \<Rightarrow> string \<Rightarrow> harness_Config \<Rightarrow> bool" where
  "fails_as run msg want cfg \<longleftrightarrow> reproduces run msg want cfg = Some True"

lemma fails_as_iff: "fails_as run msg want cfg \<longleftrightarrow> (\<exists>e. run cfg = Some (Some e) \<and> msg e = want)"
  by (auto simp: fails_as_def reproduces_def split: bind_splits option.splits)

text \<open>The faults of a configuration without the one at a position.\<close>

abbreviation without_fault :: "nat \<Rightarrow> Fault list \<Rightarrow> Fault list" where
  "without_fault i fs \<equiv> take i fs @ drop (Suc i) fs"

lemma reproduces_total: "\<forall>c. run c \<noteq> None \<Longrightarrow> \<exists>b. reproduces run msg want cfg = Some b"
  unfolding reproduces_def by (metis bind.bind_lunit option.exhaust)

lemma drop_one_spec:
  assumes "\<forall>c. run c \<noteq> None" "\<forall>i\<in>set is. i < length (hc_Faults cfg)"
  shows "(drop_one run msg want cfg is = Some None \<and>
        (\<forall>i\<in>set is. \<not> fails_as run msg want (shorter_config cfg (hc_Steps cfg) (without_fault i (hc_Faults cfg))))) \<or>
    (\<exists>i\<in>set is. let c = shorter_config cfg (hc_Steps cfg) (without_fault i (hc_Faults cfg)) in
       drop_one run msg want cfg is = Some (Some c) \<and> fails_as run msg want c)"
  using assms(2)
proof (induction "is")
  case (Cons i "is")
  let ?c = "shorter_config cfg (hc_Steps cfg) (without_fault i (hc_Faults cfg))"
  obtain b where "reproduces run msg want ?c = Some b" using reproduces_total [OF assms(1)] by blast
  then show ?case using Cons by (cases b) (auto simp: Let_def fails_as_def)
qed simp

lemma subseq_without: "subseq (without_fault i fs) fs"
proof -
  have "suffix (drop (Suc i) fs) (drop i fs)" using suffix_drop [of 1 "drop i fs"] by simp
  then have "subseq (take i fs @ drop (Suc i) fs) (take i fs @ drop i fs)"
    by (intro list_emb_append_mono suffix_imp_subseq) simp
  then show ?thesis by simp
qed

text \<open>The outcome of dropping faults: the same configuration with some of the faults.\<close>

definition dropped_from :: "harness_Config \<Rightarrow> harness_Config \<Rightarrow> bool" where
  "dropped_from cfg cfg' \<longleftrightarrow> (\<exists>fs. subseq fs (hc_Faults cfg) \<and> cfg' = cfg\<lparr>hc_Faults := fs\<rparr>)"

lemma shorter_same: "shorter_config cfg steps faults = cfg\<lparr>hc_Steps := steps, hc_Faults := faults\<rparr>"
  by (simp add: shorter_config_def)

lemma dropped_trans:
  assumes "dropped_from (shorter_config cfg (hc_Steps cfg) fs) cfg'" "subseq fs (hc_Faults cfg)"
  shows "dropped_from cfg cfg'"
proof -
  obtain fs' where "subseq fs' fs" "cfg' = cfg\<lparr>hc_Faults := fs'\<rparr>"
    using assms(1) by (auto simp: dropped_from_def shorter_same)
  moreover from this(1) assms(2) have "subseq fs' (hc_Faults cfg)" by (rule subseq_order.trans)
  ultimately show ?thesis unfolding dropped_from_def by blast
qed

lemma dropped_refl [simp]: "dropped_from cfg cfg"
  unfolding dropped_from_def by (rule exI [of _ "hc_Faults cfg"]) simp

lemma drop_faults_spec:
  assumes "\<forall>c. run c \<noteq> None"
  shows "\<exists>cfg'. drop_faults run msg want cfg = Some cfg' \<and> dropped_from cfg cfg' \<and>
    (fails_as run msg want cfg \<longrightarrow> fails_as run msg want cfg') \<and>
    (\<forall>i<length (hc_Faults cfg'). \<not> fails_as run msg want (shorter_config cfg' (hc_Steps cfg') (without_fault i (hc_Faults cfg'))))"
proof (induction "length (hc_Faults cfg)" arbitrary: cfg rule: less_induct)
  case less
  let ?is = "[0..<length (hc_Faults cfg)]"
  have "\<forall>i\<in>set ?is. i < length (hc_Faults cfg)" by simp
  from drop_one_spec [OF assms this, of msg want] show ?case
  proof (elim disjE bexE)
    assume d: "drop_one run msg want cfg ?is = Some None \<and>
      (\<forall>i\<in>set ?is. \<not> fails_as run msg want (shorter_config cfg (hc_Steps cfg) (without_fault i (hc_Faults cfg))))"
    then have "drop_faults run msg want cfg = Some cfg" by (subst drop_faults.simps) simp
    with d show ?thesis by auto
  next
    fix i
    assume i: "i \<in> set ?is"
      and d: "let c = shorter_config cfg (hc_Steps cfg) (without_fault i (hc_Faults cfg)) in
        drop_one run msg want cfg ?is = Some (Some c) \<and> fails_as run msg want c"
    define c where "c = shorter_config cfg (hc_Steps cfg) (without_fault i (hc_Faults cfg))"
    have one: "drop_one run msg want cfg ?is = Some (Some c)" "fails_as run msg want c" using d by (simp_all add: c_def Let_def)
    have lt: "length (without_fault i (hc_Faults cfg)) < length (hc_Faults cfg)" using i by auto
    then have lc: "length (hc_Faults c) < length (hc_Faults cfg)" by (simp add: c_def shorter_config_def)
    have "drop_faults run msg want cfg = drop_faults run msg want c" by (subst drop_faults.simps) (simp add: one)
    moreover obtain cfg' where "drop_faults run msg want c = Some cfg'" "dropped_from c cfg'" "fails_as run msg want cfg'"
      "\<forall>i<length (hc_Faults cfg'). \<not> fails_as run msg want (shorter_config cfg' (hc_Steps cfg') (without_fault i (hc_Faults cfg')))"
      using less.hyps [OF lc] one(2) by blast
    moreover from this(2) have "dropped_from cfg cfg'" unfolding c_def by (rule dropped_trans [OF _ subseq_without])
    ultimately show ?thesis by (intro exI [of _ cfg']) simp
  qed
qed

lemma halve_steps_spec:
  assumes "\<forall>c. run c \<noteq> None"
  shows "\<exists>n. halve_steps run msg want cfg span steps = Some n \<and> n \<le> steps \<and> (0 < steps \<longrightarrow> 0 < n) \<and>
    (n = steps \<or> fails_as run msg want (shorter_config cfg (word_of_nat n) (hc_Faults cfg)))"
proof (induction span arbitrary: steps rule: less_induct)
  case (less span)
  show ?case
  proof (cases "span \<ge> 1")
    case False
    then show ?thesis by (subst halve_steps.simps) simp
  next
    case True
    let ?c = "shorter_config cfg (word_of_nat (steps - span)) (hc_Faults cfg)"
    obtain b where b: "reproduces run msg want ?c = Some b" using reproduces_total [OF assms] by blast
    let ?next = "if steps - span > 0 \<and> b then steps - span else steps"
    have "halve_steps run msg want cfg span steps = halve_steps run msg want cfg (span div 2) ?next"
      using True b by (subst halve_steps.simps) auto
    moreover have "?next = steps \<or> fails_as run msg want ?c" using b by (simp add: fails_as_def)
    moreover have "span div 2 < span" using True by simp
    note less.IH [OF this, of ?next]
    ultimately show ?thesis by (cases "steps - span > 0 \<and> b") (auto split: if_splits)
  qed
qed

lemma Minimize_spec:
  assumes "\<forall>c. run c \<noteq> None"
  obtains cfg1 cfg' err n where "Minimize run msg cfg failure = Some (cfg', err)" "dropped_from cfg cfg1" "run cfg' = Some err"
    "cfg' = cfg1\<lparr>hc_Steps := word_of_nat n\<rparr>" "n \<le> run_steps cfg1" "0 < n"
    "fails_as run msg (msg failure) cfg \<Longrightarrow> fails_as run msg (msg failure) cfg1"
    "n = run_steps cfg1 \<or> fails_as run msg (msg failure) (shorter_config cfg1 (word_of_nat n) (hc_Faults cfg1))"
    "\<And>i. i < length (hc_Faults cfg1) \<Longrightarrow>
       \<not> fails_as run msg (msg failure) (shorter_config cfg1 (hc_Steps cfg1) (without_fault i (hc_Faults cfg1)))"
proof -
  obtain cfg1 where d: "drop_faults run msg (msg failure) cfg = Some cfg1" "dropped_from cfg cfg1"
    "fails_as run msg (msg failure) cfg \<longrightarrow> fails_as run msg (msg failure) cfg1"
    "\<forall>i<length (hc_Faults cfg1). \<not> fails_as run msg (msg failure) (shorter_config cfg1 (hc_Steps cfg1) (without_fault i (hc_Faults cfg1)))"
    using drop_faults_spec [OF assms] by blast
  have pos: "0 < run_steps cfg1" by (simp add: run_steps_def DefaultSteps_def)
  obtain n where n: "halve_steps run msg (msg failure) cfg1 (run_steps cfg1 div 2) (run_steps cfg1) = Some n" "n \<le> run_steps cfg1" "0 < n"
    "n = run_steps cfg1 \<or> fails_as run msg (msg failure) (shorter_config cfg1 (word_of_nat n) (hc_Faults cfg1))"
    using halve_steps_spec [OF assms] pos by blast
  obtain err where e: "run (cfg1\<lparr>hc_Steps := word_of_nat n\<rparr>) = Some err"
    using assms by blast
  have "Minimize run msg cfg failure = Some (cfg1\<lparr>hc_Steps := word_of_nat n\<rparr>, err)" by (simp add: Minimize_def Let_def d(1) n(1) e)
  with d n e show thesis by (intro that) (rule refl | blast)+
qed

end
