(* ===== verification/Runtime_FS.thy ===== *)
theory Runtime_FS
  imports Sim_FS
begin

text \<open>
  \<^verbatim>\<open>runtime/fs.go\<close>: the filesystem over a real directory.

  The operating system is not part of the repository. It is a parameter, a record of the calls
  the adapter makes: \<^verbatim>\<open>os.OpenFile\<close>, \<^verbatim>\<open>os.Remove\<close>, \<^verbatim>\<open>os.Rename\<close>,
  \<^verbatim>\<open>os.ReadDir\<close>, \<^verbatim>\<open>os.Open\<close> of the directory, \<^verbatim>\<open>os.MkdirAll\<close>, and the methods of
  an \<^verbatim>\<open>os.File\<close>. A path is the pair of a directory and a validated name, which is what
  \<^verbatim>\<open>filepath.Join\<close> makes one of. The locale \<open>posix\<close> states what the documentation of
  these calls says of a call that returns no error, over the abstract disk of \<^verbatim>\<open>core/fs.go\<close>;
  nothing is said of a call that fails, except which errors mean that a name is absent. Any call
  may fail, reads and \<^verbatim>\<open>Stat\<close> included. \<open>reliable_posix\<close> is a system on which none does.

  A Go \<^verbatim>\<open>file\<close> is a pointer; here it is an index into the files the adapter has opened. Its
  mutex is not modelled: the operations are atomic steps.
\<close>

section \<open>The operating system\<close>

type_synonym path = "string \<times> string"

datatype oflag = O_RDWR | O_CREATE | O_EXCL | O_APPEND

record 'o os_ops =
  os_MkdirAll :: "string \<Rightarrow> 'o \<Rightarrow> error option \<times> 'o"
  os_OpenFile :: "path \<Rightarrow> oflag list \<Rightarrow> 'o \<Rightarrow> handle res \<times> 'o"
  os_Remove :: "path \<Rightarrow> 'o \<Rightarrow> error option \<times> 'o"
  os_Rename :: "path \<Rightarrow> path \<Rightarrow> 'o \<Rightarrow> error option \<times> 'o"
  os_ReadDir :: "string \<Rightarrow> 'o \<Rightarrow> (string \<times> bool) list res"
  os_Open :: "string \<Rightarrow> 'o \<Rightarrow> handle res \<times> 'o"
  fd_Write :: "handle \<Rightarrow> bytes \<Rightarrow> 'o \<Rightarrow> (nat \<times> error option) \<times> 'o"
  fd_ReadAt :: "handle \<Rightarrow> nat \<Rightarrow> int \<Rightarrow> 'o \<Rightarrow> bytes \<times> error option"
  fd_Stat :: "handle \<Rightarrow> 'o \<Rightarrow> int res"
  fd_Truncate :: "handle \<Rightarrow> int \<Rightarrow> 'o \<Rightarrow> error option \<times> 'o"
  fd_Sync :: "handle \<Rightarrow> 'o \<Rightarrow> error option \<times> 'o"
  fd_Close :: "handle \<Rightarrow> 'o \<Rightarrow> error option \<times> 'o"

section \<open>The adapter\<close>

record rt_file =
  rf_h :: handle
  rf_name :: string
  rf_closed :: bool

record 'o rtfs =
  rt_dir :: string
  rt_files :: "rt_file list"
  rt_os :: 'o

definition runtime_NewFS :: "'o os_ops \<Rightarrow> string \<Rightarrow> 'o \<Rightarrow> 'o rtfs res \<times> 'o" where
  "runtime_NewFS OS dir os =
     (case os_MkdirAll OS dir os of
        (Some err, os) \<Rightarrow> (Inl (Errorf ''runtime: create %s: %w'' [err]), os)
      | (None, os) \<Rightarrow> (Inr \<lparr>rt_dir = dir, rt_files = [], rt_os = os\<rparr>, os))"

definition rt_path :: "string \<Rightarrow> 'o rtfs \<Rightarrow> path res" where
  "rt_path name f =
     (case ValidateName name of
        Some err \<Rightarrow> Inl err
      | None \<Rightarrow> Inr (rt_dir f, name))"

definition rt_translate :: "string \<Rightarrow> string \<Rightarrow> error \<Rightarrow> error" where
  "rt_translate name op err =
     (if errors_Is err OsNotExist then Errorf ''runtime: %s %s: %w'' [Sentinel ErrNotExist]
      else if errors_Is err OsExist then Errorf ''runtime: %s %s: %w'' [Sentinel ErrExist]
      else Errorf ''runtime: %s %s: %w'' [err])"

text \<open>The tail \<^verbatim>\<open>Create\<close> and \<^verbatim>\<open>Open\<close> share: a new \<^verbatim>\<open>file\<close> around the handle.\<close>

definition rt_wrap :: "string \<Rightarrow> handle \<Rightarrow> 'o rtfs \<Rightarrow> handle res \<times> 'o rtfs" where
  "rt_wrap name h f =
     (Inr (length (rt_files f)), f\<lparr>rt_files := rt_files f @ [\<lparr>rf_h = h, rf_name = name, rf_closed = False\<rparr>]\<rparr>)"

definition rt_Create :: "'o os_ops \<Rightarrow> string \<Rightarrow> 'o rtfs \<Rightarrow> handle res \<times> 'o rtfs" where
  "rt_Create OS name f =
     (case rt_path name f of
        Inl err \<Rightarrow> (Inl err, f)
      | Inr p \<Rightarrow>
          (case os_OpenFile OS p [O_RDWR, O_CREATE, O_EXCL, O_APPEND] (rt_os f) of
             (Inl err, os) \<Rightarrow> (Inl (rt_translate name ''create'' err), f\<lparr>rt_os := os\<rparr>)
           | (Inr h, os) \<Rightarrow> rt_wrap name h (f\<lparr>rt_os := os\<rparr>)))"

definition rt_Open :: "'o os_ops \<Rightarrow> string \<Rightarrow> 'o rtfs \<Rightarrow> handle res \<times> 'o rtfs" where
  "rt_Open OS name f =
     (case rt_path name f of
        Inl err \<Rightarrow> (Inl err, f)
      | Inr p \<Rightarrow>
          (case os_OpenFile OS p [O_RDWR, O_APPEND] (rt_os f) of
             (Inl err, os) \<Rightarrow> (Inl (rt_translate name ''open'' err), f\<lparr>rt_os := os\<rparr>)
           | (Inr h, os) \<Rightarrow> rt_wrap name h (f\<lparr>rt_os := os\<rparr>)))"

definition rt_Remove :: "'o os_ops \<Rightarrow> string \<Rightarrow> 'o rtfs \<Rightarrow> error option \<times> 'o rtfs" where
  "rt_Remove OS name f =
     (case rt_path name f of
        Inl err \<Rightarrow> (Some err, f)
      | Inr p \<Rightarrow>
          (case os_Remove OS p (rt_os f) of
             (Some err, os) \<Rightarrow> (Some (rt_translate name ''remove'' err), f\<lparr>rt_os := os\<rparr>)
           | (None, os) \<Rightarrow> (None, f\<lparr>rt_os := os\<rparr>)))"

definition rt_Rename :: "'o os_ops \<Rightarrow> string \<Rightarrow> string \<Rightarrow> 'o rtfs \<Rightarrow> error option \<times> 'o rtfs" where
  "rt_Rename OS oldName newName f =
     (case rt_path oldName f of
        Inl err \<Rightarrow> (Some err, f)
      | Inr from_path \<Rightarrow>
          (case rt_path newName f of
             Inl err \<Rightarrow> (Some err, f)
           | Inr to_path \<Rightarrow>
               (case os_Rename OS from_path to_path (rt_os f) of
                  (Some err, os) \<Rightarrow> (Some (rt_translate oldName ''rename'' err), f\<lparr>rt_os := os\<rparr>)
                | (None, os) \<Rightarrow> (None, f\<lparr>rt_os := os\<rparr>))))"

definition rt_List :: "'o os_ops \<Rightarrow> 'o rtfs \<Rightarrow> string list res" where
  "rt_List OS f =
     (case os_ReadDir OS (rt_dir f) (rt_os f) of
        Inl err \<Rightarrow> Inl (Errorf ''runtime: list %s: %w'' [err])
      | Inr entries \<Rightarrow> Inr (sort (map fst (filter (\<lambda>e. \<not> snd e) entries))))"

definition rt_Sync :: "'o os_ops \<Rightarrow> 'o rtfs \<Rightarrow> error option \<times> 'o rtfs" where
  "rt_Sync OS f =
     (case os_Open OS (rt_dir f) (rt_os f) of
        (Inl err, os) \<Rightarrow> (Some (Errorf ''runtime: open %s for sync: %w'' [err]), f\<lparr>rt_os := os\<rparr>)
      | (Inr h, os) \<Rightarrow>
          (case fd_Sync OS h os of
             (Some err, os) \<Rightarrow> (Some (Errorf ''runtime: sync %s: %w'' [err]), f\<lparr>rt_os := snd (fd_Close OS h os)\<rparr>)
           | (None, os) \<Rightarrow> (None, f\<lparr>rt_os := snd (fd_Close OS h os)\<rparr>)))"

definition rt_Append :: "'o os_ops \<Rightarrow> handle \<Rightarrow> bytes \<Rightarrow> 'o rtfs \<Rightarrow> (nat \<times> error option) \<times> 'o rtfs" where
  "rt_Append OS k p f =
     (let x = rt_files f ! k in
      if rf_closed x then ((0, Some (Errorf ''runtime: append %s: %w'' [Sentinel ErrClosed])), f)
      else
        (case fd_Write OS (rf_h x) p (rt_os f) of
           ((n, Some err), os) \<Rightarrow> ((n, Some (Errorf ''runtime: append %s: %w'' [err])), f\<lparr>rt_os := os\<rparr>)
         | ((n, None), os) \<Rightarrow>
             if n \<noteq> length p then
               ((n, Some (Errorf ''runtime: append %s: %w: stored %d of %d bytes'' [Sentinel ErrShortWrite])), f\<lparr>rt_os := os\<rparr>)
             else ((n, None), f\<lparr>rt_os := os\<rparr>)))"

definition rt_ReadAt :: "'o os_ops \<Rightarrow> handle \<Rightarrow> nat \<Rightarrow> int \<Rightarrow> 'o rtfs \<Rightarrow> bytes \<times> error option" where
  "rt_ReadAt OS k n off f =
     (let x = rt_files f ! k in
      if rf_closed x then ([], Some (Errorf ''runtime: read %s: %w'' [Sentinel ErrClosed]))
      else if off < 0 then ([], Some (Errorf ''runtime: read %s: negative offset %d'' []))
      else fd_ReadAt OS (rf_h x) n off (rt_os f))"

definition rt_Truncate :: "'o os_ops \<Rightarrow> handle \<Rightarrow> int \<Rightarrow> 'o rtfs \<Rightarrow> error option \<times> 'o rtfs" where
  "rt_Truncate OS k sz f =
     (let x = rt_files f ! k in
      if rf_closed x then (Some (Errorf ''runtime: truncate %s: %w'' [Sentinel ErrClosed]), f)
      else if sz < 0 then (Some (Errorf ''runtime: truncate %s: negative size %d'' []), f)
      else
        (case fd_Stat OS (rf_h x) (rt_os f) of
           Inl err \<Rightarrow> (Some (Errorf ''runtime: truncate %s: %w'' [err]), f)
         | Inr len \<Rightarrow>
             if sz > len then
               (Some (Errorf ''runtime: truncate %s to %d: file is %d bytes; growing is not supported'' []), f)
             else
               (case fd_Truncate OS (rf_h x) sz (rt_os f) of
                  (Some err, os) \<Rightarrow> (Some (Errorf ''runtime: truncate %s: %w'' [err]), f\<lparr>rt_os := os\<rparr>)
                | (None, os) \<Rightarrow> (None, f\<lparr>rt_os := os\<rparr>))))"

definition rt_Size :: "'o os_ops \<Rightarrow> handle \<Rightarrow> 'o rtfs \<Rightarrow> int res" where
  "rt_Size OS k f =
     (let x = rt_files f ! k in
      if rf_closed x then Inl (Errorf ''runtime: size %s: %w'' [Sentinel ErrClosed])
      else
        (case fd_Stat OS (rf_h x) (rt_os f) of
           Inl err \<Rightarrow> Inl (Errorf ''runtime: size %s: %w'' [err])
         | Inr len \<Rightarrow> Inr len))"

definition rt_FileSync :: "'o os_ops \<Rightarrow> handle \<Rightarrow> 'o rtfs \<Rightarrow> error option \<times> 'o rtfs" where
  "rt_FileSync OS k f =
     (let x = rt_files f ! k in
      if rf_closed x then (Some (Errorf ''runtime: sync %s: %w'' [Sentinel ErrClosed]), f)
      else
        (case fd_Sync OS (rf_h x) (rt_os f) of
           (Some err, os) \<Rightarrow> (Some (Errorf ''runtime: sync %s: %w'' [err]), f\<lparr>rt_os := os\<rparr>)
         | (None, os) \<Rightarrow> (None, f\<lparr>rt_os := os\<rparr>)))"

definition rt_Close :: "'o os_ops \<Rightarrow> handle \<Rightarrow> 'o rtfs \<Rightarrow> error option \<times> 'o rtfs" where
  "rt_Close OS k f =
     (let x = rt_files f ! k in
      if rf_closed x then (None, f)
      else
        let f = f\<lparr>rt_files := (rt_files f)[k := x\<lparr>rf_closed := True\<rparr>]\<rparr> in
        (case fd_Close OS (rf_h x) (rt_os f) of
           (Some err, os) \<Rightarrow> (Some (Errorf ''runtime: close %s: %w'' [err]), f\<lparr>rt_os := os\<rparr>)
         | (None, os) \<Rightarrow> (None, f\<lparr>rt_os := os\<rparr>)))"

definition runtime_ops :: "'o os_ops \<Rightarrow> 'o rtfs fs_ops" where
  "runtime_ops OS = \<lparr>fs_Create = rt_Create OS, fs_Open = rt_Open OS, fs_Remove = rt_Remove OS,
     fs_Rename = rt_Rename OS, fs_List = rt_List OS, fs_Sync = rt_Sync OS,
     file_Append = rt_Append OS, file_ReadAt = rt_ReadAt OS, file_Truncate = rt_Truncate OS,
     file_Size = rt_Size OS, file_Sync = rt_FileSync OS, file_Close = rt_Close OS\<rparr>"

lemma runtime_ops_sel [simp]:
  "fs_Create (runtime_ops OS) = rt_Create OS" "fs_Open (runtime_ops OS) = rt_Open OS" "fs_Remove (runtime_ops OS) = rt_Remove OS"
  "fs_Rename (runtime_ops OS) = rt_Rename OS" "fs_List (runtime_ops OS) = rt_List OS" "fs_Sync (runtime_ops OS) = rt_Sync OS"
  "file_Append (runtime_ops OS) = rt_Append OS" "file_ReadAt (runtime_ops OS) = rt_ReadAt OS"
  "file_Truncate (runtime_ops OS) = rt_Truncate OS" "file_Size (runtime_ops OS) = rt_Size OS"
  "file_Sync (runtime_ops OS) = rt_FileSync OS" "file_Close (runtime_ops OS) = rt_Close OS"
  by (simp_all add: runtime_ops_def)

section \<open>What the operating system promises\<close>

text \<open>
  \<open>oabs\<close> reads the files of one directory off the state of the system, \<open>odir\<close> says which handles
  are open on the directory itself. A call on a path of the directory that returns no error has
  done what its manual says: a read has returned what is there, with \<^verbatim>\<open>io.EOF\<close> where the file
  ended; a removal has removed the file of that name, or an empty directory where no file has the
  name; a rename has moved the file, or a directory to a name no file has. The errors of the system
  are its own, not those of \<^verbatim>\<open>core\<close>. \<open>owf\<close> is the state of a system with the directory in place,
  in which every entry is a directory or a regular file with one link.
\<close>

locale posix =
  fixes OS :: "'o os_ops"
    and dir :: string
    and oabs :: "'o \<Rightarrow> disk"
    and odir :: "'o \<Rightarrow> handle \<Rightarrow> bool"
    and owf :: "'o \<Rightarrow> bool"
  assumes OpenFile_create:
      "\<lbrakk>owf s; os_OpenFile OS (dir, nm) [O_RDWR, O_CREATE, O_EXCL, O_APPEND] s = (Inr h, s')\<rbrakk> \<Longrightarrow>
         owf s' \<and> d_dir (oabs s) nm = None \<and> d_node (oabs s) h = None \<and>
         (\<exists>i. fresh_inode i (oabs s) \<and> oabs s' = disk_create nm h i (oabs s))"
    and OpenFile_open:
      "\<lbrakk>owf s; os_OpenFile OS (dir, nm) [O_RDWR, O_APPEND] s = (Inr h, s')\<rbrakk> \<Longrightarrow>
         owf s' \<and> d_node (oabs s) h = None \<and> (\<exists>i. d_dir (oabs s) nm = Some i \<and> oabs s' = disk_open h i (oabs s))"
    and OpenFile_error:
      "\<lbrakk>owf s; os_OpenFile OS (dir, nm) [O_RDWR, O_APPEND] s = (Inl e, s')\<rbrakk> \<Longrightarrow>
         \<not> errors_Is e ErrNotExist \<and> (errors_Is e OsNotExist \<longrightarrow> owf s' \<and> d_dir (oabs s) nm = None \<and> oabs s' = oabs s)"
    and os_Remove_done:
      "\<lbrakk>owf s; os_Remove OS (dir, nm) s = (None, s')\<rbrakk> \<Longrightarrow>
         owf s' \<and> (if d_dir (oabs s) nm = None then oabs s' = oabs s else oabs s' = disk_remove nm (oabs s))"
    and os_Remove_error:
      "\<lbrakk>owf s; os_Remove OS (dir, nm) s = (Some e, s')\<rbrakk> \<Longrightarrow>
         \<not> errors_Is e ErrNotExist \<and> (errors_Is e OsNotExist \<longrightarrow> owf s' \<and> d_dir (oabs s) nm = None \<and> oabs s' = oabs s)"
    and os_Rename_done:
      "\<lbrakk>owf s; os_Rename OS (dir, old) (dir, new) s = (None, s')\<rbrakk> \<Longrightarrow>
         owf s' \<and> (if d_dir (oabs s) old = None then d_dir (oabs s) new = None \<and> oabs s' = oabs s
                   else oabs s' = disk_rename old new (oabs s))"
    and os_ReadDir_done:
      "\<lbrakk>owf s; os_ReadDir OS dir s = Inr es\<rbrakk> \<Longrightarrow>
         distinct (map fst es) \<and> {nm. (nm, False) \<in> set es} = dom (d_dir (oabs s))"
    and os_Open_dir: "\<lbrakk>owf s; os_Open OS dir s = (Inr h, s')\<rbrakk> \<Longrightarrow> owf s' \<and> oabs s' = oabs s \<and> odir s' h"
    and fd_Sync_dir:
      "\<lbrakk>owf s; odir s h; fd_Sync OS h s = (None, s')\<rbrakk> \<Longrightarrow> owf s' \<and> oabs s' = disk_syncdir (oabs s) \<and> odir s' h"
    and fd_Close_dir: "\<lbrakk>owf s; odir s h; fd_Close OS h s = (r, s')\<rbrakk> \<Longrightarrow> owf s' \<and> oabs s' = oabs s"
    and fd_Write_done:
      "\<lbrakk>owf s; d_node (oabs s) h = Some i; fd_Write OS h p s = ((n, None), s')\<rbrakk> \<Longrightarrow>
         owf s' \<and> oabs s' = disk_append i (take n p) (oabs s)"
    and fd_ReadAt_done:
      "\<lbrakk>owf s; d_node (oabs s) h = Some i; fd_ReadAt OS h n (int pos) s = (bs, q); q = None \<or> q = Some (Sentinel EOF)\<rbrakk> \<Longrightarrow>
         (bs, q) = read_at (d_data (oabs s) i) n pos"
    and fd_Stat_done:
      "\<lbrakk>owf s; d_node (oabs s) h = Some i; fd_Stat OS h s = Inr len\<rbrakk> \<Longrightarrow> len = int (length (d_data (oabs s) i))"
    and fd_Truncate_done:
      "\<lbrakk>owf s; d_node (oabs s) h = Some i; n \<le> length (d_data (oabs s) i); fd_Truncate OS h (int n) s = (None, s')\<rbrakk> \<Longrightarrow>
         owf s' \<and> oabs s' = disk_truncate i n (oabs s)"
    and fd_Sync_done:
      "\<lbrakk>owf s; d_node (oabs s) h = Some i; fd_Sync OS h s = (None, s')\<rbrakk> \<Longrightarrow> owf s' \<and> oabs s' = disk_sync i (oabs s)"
    and fd_Close_done:
      "\<lbrakk>owf s; d_node (oabs s) h = Some i; fd_Close OS h s = (None, s')\<rbrakk> \<Longrightarrow> owf s' \<and> oabs s' = disk_close h (oabs s)"
    and no_hard_links: "owf s \<Longrightarrow> no_links (d_dir (oabs s))"

text \<open>The disk the adapter shows: the same files, its own handles.\<close>

definition rt_node :: "('o \<Rightarrow> disk) \<Rightarrow> 'o rtfs \<Rightarrow> handle \<Rightarrow> nat option" where
  "rt_node oabs f k =
     (if k < length (rt_files f) \<and> \<not> rf_closed (rt_files f ! k) then d_node (oabs (rt_os f)) (rf_h (rt_files f ! k)) else None)"

definition rt_abs :: "('o \<Rightarrow> disk) \<Rightarrow> 'o rtfs \<Rightarrow> disk" where
  "rt_abs oabs f = (oabs (rt_os f))\<lparr>d_node := rt_node oabs f\<rparr>"

definition rt_wf :: "string \<Rightarrow> ('o \<Rightarrow> disk) \<Rightarrow> ('o \<Rightarrow> bool) \<Rightarrow> 'o rtfs \<Rightarrow> bool" where
  "rt_wf dir oabs owf f \<longleftrightarrow> owf (rt_os f) \<and> rt_dir f = dir \<and>
     (\<forall>k<length (rt_files f). \<not> rf_closed (rt_files f ! k) \<longrightarrow> d_node (oabs (rt_os f)) (rf_h (rt_files f ! k)) \<noteq> None) \<and>
     (\<forall>j<length (rt_files f). \<forall>k<length (rt_files f). \<not> rf_closed (rt_files f ! j) \<and> \<not> rf_closed (rt_files f ! k) \<and>
        rf_h (rt_files f ! j) = rf_h (rt_files f ! k) \<longrightarrow> j = k)"

lemma rt_abs_sel [simp]:
  "d_dir (rt_abs oabs f) = d_dir (oabs (rt_os f))" "d_sdir (rt_abs oabs f) = d_sdir (oabs (rt_os f))"
  "d_data (rt_abs oabs f) = d_data (oabs (rt_os f))" "d_stable (rt_abs oabs f) = d_stable (oabs (rt_os f))"
  "d_node (rt_abs oabs f) = rt_node oabs f"
  by (simp_all add: rt_abs_def)

text \<open>A step of the system that touches no handle is a step of the adapter.\<close>

lemma rt_step:
  assumes "rt_wf dir oabs owf f" "owf os" "d_node (oabs os) = d_node (oabs (rt_os f))"
  shows "rt_wf dir oabs owf (f\<lparr>rt_os := os\<rparr>)" "rt_abs oabs (f\<lparr>rt_os := os\<rparr>) = (oabs os)\<lparr>d_node := rt_node oabs f\<rparr>"
  using assms by (simp_all add: rt_wf_def rt_abs_def rt_node_def fun_eq_iff)

lemma rt_node_open:
  assumes "rt_node oabs f k = Some i"
  shows "k < length (rt_files f)" "\<not> rf_closed (rt_files f ! k)" "d_node (oabs (rt_os f)) (rf_h (rt_files f ! k)) = Some i"
  using assms by (simp_all add: rt_node_def split: if_splits)

text \<open>A new \<^verbatim>\<open>file\<close> around a handle the system has just opened.\<close>

lemma rt_wrapped:
  assumes "rt_wf dir oabs owf f" "owf os" "d_node (oabs (rt_os f)) h = None" "d_node (oabs os) = (d_node (oabs (rt_os f)))(h \<mapsto> i)"
    and "rt_wrap nm h (f\<lparr>rt_os := os\<rparr>) = (Inr k, f')"
  shows "rt_wf dir oabs owf f'" "rt_node oabs f k = None" "rt_abs oabs f' = (oabs os)\<lparr>d_node := (rt_node oabs f)(k \<mapsto> i)\<rparr>"
proof -
  let ?x = "\<lparr>rf_h = h, rf_name = nm, rf_closed = False\<rparr>"
  have k: "k = length (rt_files f)" and f': "f' = f\<lparr>rt_os := os, rt_files := rt_files f @ [?x]\<rparr>"
    using assms(5) by (simp_all add: rt_wrap_def)
  have other: "rf_h (rt_files f ! j) \<noteq> h" if "j < length (rt_files f)" "\<not> rf_closed (rt_files f ! j)" for j
    using assms(1,3) that by (auto simp: rt_wf_def)
  show "rt_node oabs f k = None" by (simp add: k rt_node_def)
  show "rt_wf dir oabs owf f'"
    using assms(1,2,4) other by (auto simp: f' rt_wf_def nth_append less_Suc_eq)
  show "rt_abs oabs f' = (oabs os)\<lparr>d_node := (rt_node oabs f)(k \<mapsto> i)\<rparr>"
    using other by (simp add: rt_abs_def f' k rt_node_def fun_eq_iff nth_append assms(4))
qed

context posix
begin

abbreviation "rt_good \<equiv> rt_wf dir oabs owf"

lemma rt_good_os: "rt_good f \<Longrightarrow> owf (rt_os f) \<and> rt_dir f = dir"
  by (simp add: rt_wf_def)

lemma rt_path_cases: "rt_good f \<Longrightarrow> rt_path nm f = (case ValidateName nm of Some err \<Rightarrow> Inl err | None \<Rightarrow> Inr (dir, nm))"
  by (simp add: rt_path_def rt_good_os split: option.split)

lemma rt_Create_done:
  assumes "rt_good f" "rt_Create OS nm f = (Inr k, f')"
  shows "rt_good f' \<and> d_dir (rt_abs oabs f) nm = None \<and> d_node (rt_abs oabs f) k = None \<and>
    (\<exists>i. fresh_inode i (rt_abs oabs f) \<and> rt_abs oabs f' = disk_create nm k i (rt_abs oabs f))"
proof -
  obtain h os where o: "os_OpenFile OS (dir, nm) [O_RDWR, O_CREATE, O_EXCL, O_APPEND] (rt_os f) = (Inr h, os)"
    "rt_wrap nm h (f\<lparr>rt_os := os\<rparr>) = (Inr k, f')"
    using assms(2) rt_path_cases [OF assms(1)] by (auto simp: rt_Create_def split: option.splits prod.splits sum.splits)
  obtain i where i: "owf os" "d_dir (oabs (rt_os f)) nm = None" "d_node (oabs (rt_os f)) h = None"
    "fresh_inode i (oabs (rt_os f))" "oabs os = disk_create nm h i (oabs (rt_os f))"
    using OpenFile_create [OF _ o(1)] rt_good_os [OF assms(1)] by blast
  have nd: "d_node (oabs os) = (d_node (oabs (rt_os f)))(h \<mapsto> i)" by (simp add: i(5) disk_create_def)
  note w = rt_wrapped [OF assms(1) i(1,3) nd o(2)]
  have "fresh_inode i (rt_abs oabs f)" using i(4) by (auto simp: fresh_inode_def ran_def rt_node_def)
  moreover have "rt_abs oabs f' = disk_create nm k i (rt_abs oabs f)"
    unfolding w(3) i(5) by (simp add: disk_create_def rt_abs_def)
  ultimately show ?thesis using w(1,2) i(2) by auto
qed

lemma rt_Open_done:
  assumes "rt_good f" "rt_Open OS nm f = (Inr k, f')"
  shows "rt_good f' \<and> d_node (rt_abs oabs f) k = None \<and>
    (\<exists>i. d_dir (rt_abs oabs f) nm = Some i \<and> rt_abs oabs f' = disk_open k i (rt_abs oabs f))"
proof -
  obtain h os where o: "os_OpenFile OS (dir, nm) [O_RDWR, O_APPEND] (rt_os f) = (Inr h, os)"
    "rt_wrap nm h (f\<lparr>rt_os := os\<rparr>) = (Inr k, f')"
    using assms(2) rt_path_cases [OF assms(1)] by (auto simp: rt_Open_def split: option.splits prod.splits sum.splits)
  obtain i where i: "owf os" "d_node (oabs (rt_os f)) h = None" "d_dir (oabs (rt_os f)) nm = Some i"
    "oabs os = disk_open h i (oabs (rt_os f))"
    using OpenFile_open [OF _ o(1)] rt_good_os [OF assms(1)] by blast
  have nd: "d_node (oabs os) = (d_node (oabs (rt_os f)))(h \<mapsto> i)" by (simp add: i(4) disk_open_def)
  note w = rt_wrapped [OF assms(1) i(1,2) nd o(2)]
  have "rt_abs oabs f' = disk_open k i (rt_abs oabs f)" unfolding w(3) i(4) by (simp add: disk_open_def rt_abs_def)
  then show ?thesis using w(1,2) i(3) by simp
qed

lemma rt_translate_not_exist:
  "\<not> errors_Is e ErrNotExist \<Longrightarrow> errors_Is (rt_translate nm op e) ErrNotExist \<longleftrightarrow> errors_Is e OsNotExist"
  by (simp add: rt_translate_def)

lemma rt_same:
  assumes "rt_good f" "owf os" "oabs os = oabs (rt_os f)"
  shows "rt_good (f\<lparr>rt_os := os\<rparr>) \<and> rt_abs oabs (f\<lparr>rt_os := os\<rparr>) = rt_abs oabs f"
  using rt_step [OF assms(1,2)] assms(3) by (simp add: rt_abs_def)

lemma rt_valid:
  assumes "rt_good f" "errors_Is e ErrNotExist" "rt_Open OS nm f = (Inl e, f') \<or> rt_Remove OS nm f = (Some e, f')"
  shows "rt_path nm f = Inr (dir, nm)"
proof (cases "ValidateName nm")
  case (Some x)
  then have "rt_path nm f = Inl x" by (simp add: rt_path_def)
  then have "e = x" using assms(3) by (simp add: rt_Open_def rt_Remove_def)
  then show ?thesis using ValidateName_error [OF Some] assms(2) by simp
qed (simp add: rt_path_cases [OF assms(1)])

lemma rt_Open_missing:
  assumes "rt_good f" "rt_Open OS nm f = (Inl e, f')" "errors_Is e ErrNotExist"
  shows "rt_good f' \<and> d_dir (rt_abs oabs f) nm = None \<and> rt_abs oabs f' = rt_abs oabs f"
proof -
  have p: "rt_path nm f = Inr (dir, nm)" using rt_valid [OF assms(1,3)] assms(2) by blast
  obtain r os where r: "os_OpenFile OS (dir, nm) [O_RDWR, O_APPEND] (rt_os f) = (r, os)" by (metis surj_pair)
  then obtain e' where e': "r = Inl e'" using assms(2) p by (cases r) (simp_all add: rt_Open_def rt_wrap_def)
  have o: "e = rt_translate nm ''open'' e'" "f' = f\<lparr>rt_os := os\<rparr>" using assms(2) p r e' by (simp_all add: rt_Open_def)
  note q = OpenFile_error [OF conjunct1 [OF rt_good_os [OF assms(1)]] r [unfolded e']]
  then have "errors_Is e' OsNotExist" using rt_translate_not_exist assms(3) o(1) by blast
  then show ?thesis using q rt_same [OF assms(1)] o(2) by simp
qed

lemma rt_Remove_missing:
  assumes "rt_good f" "rt_Remove OS nm f = (Some e, f')" "errors_Is e ErrNotExist"
  shows "rt_good f' \<and> d_dir (rt_abs oabs f) nm = None \<and> rt_abs oabs f' = rt_abs oabs f"
proof -
  have p: "rt_path nm f = Inr (dir, nm)" using rt_valid [OF assms(1,3)] assms(2) by blast
  obtain r os where r: "os_Remove OS (dir, nm) (rt_os f) = (r, os)" by (metis surj_pair)
  then obtain e' where e': "r = Some e'" using assms(2) p by (cases r) (simp_all add: rt_Remove_def)
  have o: "e = rt_translate nm ''remove'' e'" "f' = f\<lparr>rt_os := os\<rparr>" using assms(2) p r e' by (simp_all add: rt_Remove_def)
  note q = os_Remove_error [OF conjunct1 [OF rt_good_os [OF assms(1)]] r [unfolded e']]
  then have "errors_Is e' OsNotExist" using rt_translate_not_exist assms(3) o(1) by blast
  then show ?thesis using q rt_same [OF assms(1)] o(2) by simp
qed

lemma rt_Remove_done:
  assumes "rt_good f" "rt_Remove OS nm f = (None, f')"
  shows "rt_good f' \<and> rt_abs oabs f' = disk_remove nm (rt_abs oabs f)"
proof -
  obtain os where o: "os_Remove OS (dir, nm) (rt_os f) = (None, os)" "f' = f\<lparr>rt_os := os\<rparr>"
    using assms(2) rt_path_cases [OF assms(1)] by (auto simp: rt_Remove_def split: option.splits prod.splits sum.splits)
  then have q: "owf os" "oabs os = disk_remove nm (oabs (rt_os f))"
    using os_Remove_done [OF _ o(1)] rt_good_os [OF assms(1)] disk_remove_absent by (simp_all split: if_splits)
  have nd: "d_node (oabs os) = d_node (oabs (rt_os f))" by (simp add: q(2) disk_remove_def)
  show ?thesis using rt_step [OF assms(1) q(1) nd] by (simp add: o(2) q(2) disk_remove_def rt_abs_def)
qed

lemma rt_Rename_done:
  assumes "rt_good f" "rt_Rename OS old new f = (None, f')"
  shows "rt_good f' \<and> rt_abs oabs f' = disk_rename old new (rt_abs oabs f)"
proof -
  obtain os where o: "os_Rename OS (dir, old) (dir, new) (rt_os f) = (None, os)" "f' = f\<lparr>rt_os := os\<rparr>"
    using assms(2) rt_path_cases [OF assms(1)] by (auto simp: rt_Rename_def split: option.splits prod.splits sum.splits)
  then have q: "owf os" "oabs os = disk_rename old new (oabs (rt_os f))"
    using os_Rename_done [OF _ o(1)] rt_good_os [OF assms(1)] disk_rename_absent by (simp_all split: if_splits)
  have nd: "d_node (oabs os) = d_node (oabs (rt_os f))" by (simp add: q(2) disk_rename_def)
  show ?thesis using rt_step [OF assms(1) q(1) nd] by (simp add: o(2) q(2) disk_rename_def rt_abs_def)
qed

lemma rt_List_done:
  assumes "rt_good f" "rt_List OS f = Inr ns"
  shows "sorted ns \<and> distinct ns \<and> set ns = dom (d_dir (rt_abs oabs f))"
proof -
  obtain es where o: "os_ReadDir OS dir (rt_os f) = Inr es" "ns = sort (map fst (filter (\<lambda>e. \<not> snd e) es))"
    using assms(2) rt_good_os [OF assms(1)] by (auto simp: rt_List_def split: sum.splits)
  then have q: "distinct (map fst es)" "{nm. (nm, False) \<in> set es} = dom (d_dir (oabs (rt_os f)))"
    using os_ReadDir_done [OF _ o(1)] rt_good_os [OF assms(1)] by blast+
  have "set (map fst (filter (\<lambda>e. \<not> snd e) es)) = {nm. (nm, False) \<in> set es}" by force
  then show ?thesis using q by (simp add: o(2) distinct_map_filter)
qed

lemma rt_Sync_done:
  assumes "rt_good f" "rt_Sync OS f = (None, f')"
  shows "rt_good f' \<and> rt_abs oabs f' = disk_syncdir (rt_abs oabs f)"
proof -
  note g = rt_good_os [OF assms(1)]
  obtain h os1 os2 where o: "os_Open OS dir (rt_os f) = (Inr h, os1)" "fd_Sync OS h os1 = (None, os2)"
    "f' = f\<lparr>rt_os := snd (fd_Close OS h os2)\<rparr>"
    using assms(2) g by (auto simp: rt_Sync_def split: option.splits prod.splits sum.splits)
  obtain r os3 where c: "fd_Close OS h os2 = (r, os3)" by (metis surj_pair)
  have o1: "owf os1" "oabs os1 = oabs (rt_os f)" "odir os1 h" using os_Open_dir [OF _ o(1)] g by blast+
  have o2: "owf os2" "oabs os2 = disk_syncdir (oabs os1)" "odir os2 h" using fd_Sync_dir [OF o1(1,3) o(2)] by blast+
  have o3: "owf os3" "oabs os3 = disk_syncdir (oabs (rt_os f))" using fd_Close_dir [OF o2(1,3) c] o1(2) o2(2) by simp_all
  have nd: "d_node (oabs os3) = d_node (oabs (rt_os f))" by (simp add: o3(2) disk_syncdir_def)
  show ?thesis using rt_step [OF assms(1) o3(1) nd] c by (simp add: o(3) o3(2) disk_syncdir_def rt_abs_def)
qed

text \<open>The files.\<close>

lemma rt_file_step:
  assumes "rt_good f" "owf os" "oabs os = g (oabs (rt_os f))" "d_node (g (oabs (rt_os f))) = d_node (oabs (rt_os f))"
    and "\<And>d n. (g d)\<lparr>d_node := n\<rparr> = g (d\<lparr>d_node := n\<rparr>)"
  shows "rt_good (f\<lparr>rt_os := os\<rparr>) \<and> rt_abs oabs (f\<lparr>rt_os := os\<rparr>) = g (rt_abs oabs f)"
  using rt_step [OF assms(1,2)] assms(3-5) by (simp add: rt_abs_def)

lemma rt_Append_done:
  assumes "rt_good f" "rt_node oabs f k = Some i" "rt_Append OS k p f = ((n, None), f')"
  shows "rt_good f' \<and> n = length p \<and> rt_abs oabs f' = disk_append i p (rt_abs oabs f)"
proof -
  note k = rt_node_open [OF assms(2)]
  obtain os where o: "fd_Write OS (rf_h (rt_files f ! k)) p (rt_os f) = ((n, None), os)" "n = length p" "f' = f\<lparr>rt_os := os\<rparr>"
    using assms(3) k by (auto simp: rt_Append_def Let_def split: option.splits prod.splits if_splits)
  have "owf os" "oabs os = disk_append i p (oabs (rt_os f))"
    using fd_Write_done [OF _ k(3) o(1)] rt_good_os [OF assms(1)] o(2) by simp_all
  then show ?thesis using rt_file_step [OF assms(1), of os "disk_append i p"] o(2,3) by (simp add: disk_append_def)
qed

lemma rt_Truncate_done:
  assumes "rt_good f" "rt_node oabs f k = Some i" "rt_Truncate OS k (int n) f = (None, f')"
  shows "rt_good f' \<and> n \<le> length (d_data (rt_abs oabs f) i) \<and> rt_abs oabs f' = disk_truncate i n (rt_abs oabs f)"
proof -
  note k = rt_node_open [OF assms(2)] and g = conjunct1 [OF rt_good_os [OF assms(1)]]
  obtain len os where st: "fd_Stat OS (rf_h (rt_files f ! k)) (rt_os f) = Inr len" "int n \<le> len"
    and tr: "fd_Truncate OS (rf_h (rt_files f ! k)) (int n) (rt_os f) = (None, os)" "f' = f\<lparr>rt_os := os\<rparr>"
    using assms(3) k by (auto simp: rt_Truncate_def Let_def split: sum.splits option.splits prod.splits if_splits)
  have o: "fd_Truncate OS (rf_h (rt_files f ! k)) (int n) (rt_os f) = (None, os)" "f' = f\<lparr>rt_os := os\<rparr>"
    "n \<le> length (d_data (oabs (rt_os f)) i)"
    using tr st(2) fd_Stat_done [OF g k(3) st(1)] by simp_all
  have "owf os" "oabs os = disk_truncate i n (oabs (rt_os f))" using fd_Truncate_done [OF g k(3) o(3,1)] by simp_all
  then show ?thesis using rt_file_step [OF assms(1), of os "disk_truncate i n"] o(2,3) by (simp add: disk_truncate_def)
qed

lemma rt_FileSync_done:
  assumes "rt_good f" "rt_node oabs f k = Some i" "rt_FileSync OS k f = (None, f')"
  shows "rt_good f' \<and> rt_abs oabs f' = disk_sync i (rt_abs oabs f)"
proof -
  note k = rt_node_open [OF assms(2)] and g = conjunct1 [OF rt_good_os [OF assms(1)]]
  obtain os where o: "fd_Sync OS (rf_h (rt_files f ! k)) (rt_os f) = (None, os)" "f' = f\<lparr>rt_os := os\<rparr>"
    using assms(3) k by (auto simp: rt_FileSync_def Let_def split: option.splits prod.splits if_splits)
  have "owf os" "oabs os = disk_sync i (oabs (rt_os f))" using fd_Sync_done [OF g k(3) o(1)] by simp_all
  then show ?thesis using rt_file_step [OF assms(1), of os "disk_sync i"] o(2) by (simp add: disk_sync_def)
qed

lemma rt_Close_done:
  assumes "rt_good f" "rt_node oabs f k = Some i" "rt_Close OS k f = (None, f')"
  shows "rt_good f' \<and> rt_abs oabs f' = disk_close k (rt_abs oabs f)"
proof -
  note k = rt_node_open [OF assms(2)] and g = conjunct1 [OF rt_good_os [OF assms(1)]]
  let ?h = "rf_h (rt_files f ! k)"
  obtain os where o: "fd_Close OS ?h (rt_os f) = (None, os)"
    "f' = f\<lparr>rt_files := (rt_files f)[k := (rt_files f ! k)\<lparr>rf_closed := True\<rparr>], rt_os := os\<rparr>"
    using assms(3) k by (auto simp: rt_Close_def Let_def split: option.splits prod.splits if_splits)
  have c: "owf os" "oabs os = disk_close ?h (oabs (rt_os f))" using fd_Close_done [OF g k(3) o(1)] by simp_all
  have other: "rf_h (rt_files f ! j) \<noteq> ?h" if "j < length (rt_files f)" "\<not> rf_closed (rt_files f ! j)" "j \<noteq> k" for j
    using assms(1) that k(1,2) by (auto simp: rt_wf_def)
  have "rt_good f'" using assms(1) c other 
    by (auto simp: rt_wf_def o(2) disk_close_def nth_list_update [OF k(1)] split: if_splits)
  moreover have "rt_abs oabs f' = disk_close k (rt_abs oabs f)"
    using other k(1) by (auto simp: rt_abs_def rt_node_def o(2) c(2) disk_close_def fun_eq_iff nth_list_update [OF k(1)])
  ultimately show ?thesis by simp
qed

lemma runtime_contract: "fs_contract (runtime_ops OS) (rt_abs oabs) rt_good"
proof (unfold_locales, goal_cases)
  case (1 s h i n pos bs q)
  then have n: "rt_node oabs s h = Some i" by simp
  note k = rt_node_open [OF n] and g = conjunct1 [OF rt_good_os [OF 1(1)]]
  show ?case using k fd_ReadAt_done [OF g k(3) _ 1(4)] 1(3) by (simp add: rt_ReadAt_def Let_def)
next
  case (2 s h i len)
  then have n: "rt_node oabs s h = Some i" by simp
  note k = rt_node_open [OF n] and g = conjunct1 [OF rt_good_os [OF 2(1)]]
  show ?case using k fd_Stat_done [OF g k(3)] 2(3) by (simp add: rt_Size_def Let_def split: sum.splits)
next
  case 3
  then show ?case unfolding runtime_ops_sel by (rule rt_List_done)
next
  case 4
  then show ?case using no_hard_links rt_good_os by simp
next
  case 5
  then show ?case unfolding runtime_ops_sel by (rule rt_Create_done)
next
  case 6
  then show ?case unfolding runtime_ops_sel by (rule rt_Open_done)
next
  case 7
  then show ?case unfolding runtime_ops_sel by (rule rt_Open_missing)
next
  case 8
  then show ?case unfolding runtime_ops_sel by (rule rt_Remove_done)
next
  case 9
  then show ?case unfolding runtime_ops_sel by (rule rt_Remove_missing)
next
  case 10
  then show ?case unfolding runtime_ops_sel by (rule rt_Rename_done)
next
  case 11
  then show ?case unfolding runtime_ops_sel by (rule rt_Sync_done)
next
  case 12
  then show ?case unfolding runtime_ops_sel rt_abs_sel(5) by (rule rt_Append_done)
next
  case 13
  then show ?case unfolding runtime_ops_sel rt_abs_sel(5) by (rule rt_Truncate_done)
next
  case 14
  then show ?case unfolding runtime_ops_sel rt_abs_sel(5) by (rule rt_FileSync_done)
next
  case 15
  then show ?case unfolding runtime_ops_sel rt_abs_sel(5) by (rule rt_Close_done)
qed

end

text \<open>
  A system that fails no call it is asked for properly: the directory holds regular files only,
  every name \<^verbatim>\<open>core.ValidateName\<close> admits can be created, and nothing runs out.
\<close>

locale reliable_posix = posix OS dir oabs odir owf
  for OS :: "'o os_ops" and dir :: string and oabs :: "'o \<Rightarrow> disk" and odir :: "'o \<Rightarrow> handle \<Rightarrow> bool" and owf :: "'o \<Rightarrow> bool" +
  assumes OpenFile_create_ok:
      "\<lbrakk>owf s; ValidateName nm = None; d_dir (oabs s) nm = None\<rbrakk> \<Longrightarrow>
         \<exists>h s'. os_OpenFile OS (dir, nm) [O_RDWR, O_CREATE, O_EXCL, O_APPEND] s = (Inr h, s')"
    and OpenFile_open_ok:
      "\<lbrakk>owf s; ValidateName nm = None; d_dir (oabs s) nm \<noteq> None\<rbrakk> \<Longrightarrow> \<exists>h s'. os_OpenFile OS (dir, nm) [O_RDWR, O_APPEND] s = (Inr h, s')"
    and OpenFile_absent:
      "\<lbrakk>owf s; ValidateName nm = None; d_dir (oabs s) nm = None\<rbrakk> \<Longrightarrow>
         \<exists>e s'. os_OpenFile OS (dir, nm) [O_RDWR, O_APPEND] s = (Inl e, s') \<and> errors_Is e OsNotExist"
    and os_Remove_ok:
      "\<lbrakk>owf s; ValidateName nm = None; d_dir (oabs s) nm \<noteq> None\<rbrakk> \<Longrightarrow> \<exists>s'. os_Remove OS (dir, nm) s = (None, s')"
    and os_Remove_absent:
      "\<lbrakk>owf s; ValidateName nm = None; d_dir (oabs s) nm = None\<rbrakk> \<Longrightarrow>
         \<exists>e s'. os_Remove OS (dir, nm) s = (Some e, s') \<and> errors_Is e OsNotExist"
    and os_Rename_ok:
      "\<lbrakk>owf s; ValidateName old = None; ValidateName new = None; d_dir (oabs s) old \<noteq> None\<rbrakk> \<Longrightarrow>
         \<exists>s'. os_Rename OS (dir, old) (dir, new) s = (None, s')"
    and os_ReadDir_ok: "owf s \<Longrightarrow> \<exists>es. os_ReadDir OS dir s = Inr es"
    and os_Open_ok: "owf s \<Longrightarrow> \<exists>h s'. os_Open OS dir s = (Inr h, s')"
    and fd_Sync_dir_ok: "\<lbrakk>owf s; odir s h\<rbrakk> \<Longrightarrow> \<exists>s'. fd_Sync OS h s = (None, s')"
    and fd_Write_ok: "\<lbrakk>owf s; d_node (oabs s) h \<noteq> None\<rbrakk> \<Longrightarrow> \<exists>s'. fd_Write OS h p s = ((length p, None), s')"
    and fd_ReadAt_ok:
      "\<lbrakk>owf s; d_node (oabs s) h \<noteq> None\<rbrakk> \<Longrightarrow>
         snd (fd_ReadAt OS h n (int pos) s) = None \<or> snd (fd_ReadAt OS h n (int pos) s) = Some (Sentinel EOF)"
    and fd_Stat_ok: "\<lbrakk>owf s; d_node (oabs s) h \<noteq> None\<rbrakk> \<Longrightarrow> \<exists>len. fd_Stat OS h s = Inr len"
    and fd_Truncate_ok:
      "\<lbrakk>owf s; d_node (oabs s) h = Some i; n \<le> length (d_data (oabs s) i)\<rbrakk> \<Longrightarrow> \<exists>s'. fd_Truncate OS h (int n) s = (None, s')"
    and fd_Sync_ok: "\<lbrakk>owf s; d_node (oabs s) h \<noteq> None\<rbrakk> \<Longrightarrow> \<exists>s'. fd_Sync OS h s = (None, s')"
    and fd_Close_ok: "\<lbrakk>owf s; d_node (oabs s) h \<noteq> None\<rbrakk> \<Longrightarrow> \<exists>s'. fd_Close OS h s = (None, s')"
begin

lemma rt_file:
  assumes "rt_good f" "d_node (rt_abs oabs f) k \<noteq> None"
  shows "owf (rt_os f)" "\<not> rf_closed (rt_files f ! k)" "d_node (oabs (rt_os f)) (rf_h (rt_files f ! k)) \<noteq> None"
    "d_node (rt_abs oabs f) k = d_node (oabs (rt_os f)) (rf_h (rt_files f ! k))"
  using assms rt_good_os by (auto simp: rt_node_def split: if_splits)

lemma runtime_reliable: "reliable_filesystem (runtime_ops OS) (rt_abs oabs) rt_good"
proof (intro reliable_filesystem.intro filesystem.intro runtime_contract, unfold_locales, goal_cases)
  case (1 s h n pos)
  then show ?case using rt_file [OF 1] fd_ReadAt_ok [of "rt_os s"] by (simp add: rt_ReadAt_def Let_def)
next
  case (2 s h)
  obtain len where "fd_Stat OS (rf_h (rt_files s ! h)) (rt_os s) = Inr len"
    using fd_Stat_ok rt_file [OF 2] by blast
  then show ?case using rt_file [OF 2] by (simp add: rt_Size_def Let_def)
next
  case (3 s)
  then show ?case using os_ReadDir_ok [of "rt_os s"] rt_good_os [OF 3] by (auto simp: rt_List_def)
next
  case (4 s nm)
  then show ?case using OpenFile_create_ok [of "rt_os s" nm] rt_good_os [OF 4(1)] rt_path_cases [OF 4(1)]
    by (auto simp: rt_Create_def rt_wrap_def)
next
  case (5 s nm)
  then show ?case using OpenFile_open_ok [of "rt_os s" nm] rt_good_os [OF 5(1)] rt_path_cases [OF 5(1)]
    by (auto simp: rt_Open_def rt_wrap_def)
next
  case (6 s nm)
  then show ?case using OpenFile_absent [of "rt_os s" nm] rt_good_os [OF 6(1)] rt_path_cases [OF 6(1)]
    by (auto simp: rt_Open_def rt_translate_def)
next
  case (7 s nm)
  then show ?case using os_Remove_ok [of "rt_os s" nm] rt_good_os [OF 7(1)] rt_path_cases [OF 7(1)]
    by (auto simp: rt_Remove_def)
next
  case (8 s nm)
  then show ?case using os_Remove_absent [of "rt_os s" nm] rt_good_os [OF 8(1)] rt_path_cases [OF 8(1)]
    by (auto simp: rt_Remove_def rt_translate_def)
next
  case (9 s old new)
  then show ?case using os_Rename_ok [of "rt_os s" old new] rt_good_os [OF 9(1)] rt_path_cases [OF 9(1)]
    by (auto simp: rt_Rename_def)
next
  case (10 s)
  obtain h os where o: "os_Open OS dir (rt_os s) = (Inr h, os)" using os_Open_ok rt_good_os [OF 10] by blast
  obtain os' where "fd_Sync OS h os = (None, os')" using fd_Sync_dir_ok os_Open_dir [OF _ o] rt_good_os [OF 10] by blast
  then show ?case using o rt_good_os [OF 10] by (simp add: rt_Sync_def)
next
  case (11 s h p)
  obtain os where "fd_Write OS (rf_h (rt_files s ! h)) p (rt_os s) = ((length p, None), os)"
    using fd_Write_ok rt_file [OF 11] by blast
  then show ?case using rt_file [OF 11] by (simp add: rt_Append_def Let_def)
next
  case (12 s h i n)
  then have n: "d_node (rt_abs oabs s) h \<noteq> None" by simp
  note f = rt_file [OF 12(1) n]
  have i: "d_node (oabs (rt_os s)) (rf_h (rt_files s ! h)) = Some i" using f(4) 12(2) by simp
  obtain len where len: "fd_Stat OS (rf_h (rt_files s ! h)) (rt_os s) = Inr len" using fd_Stat_ok f(1,3) by blast
  obtain os where "fd_Truncate OS (rf_h (rt_files s ! h)) (int n) (rt_os s) = (None, os)"
    using fd_Truncate_ok [OF f(1) i, of n] 12(3) by auto
  then show ?case using f(2) len fd_Stat_done [OF f(1) i len] 12(3) by (simp add: rt_Truncate_def Let_def)
next
  case (13 s h)
  obtain os where "fd_Sync OS (rf_h (rt_files s ! h)) (rt_os s) = (None, os)"
    using fd_Sync_ok rt_file [OF 13] by blast
  then show ?case using rt_file [OF 13] by (simp add: rt_FileSync_def Let_def)
next
  case (14 s h)
  obtain os where "fd_Close OS (rf_h (rt_files s ! h)) (rt_os s) = (None, os)"
    using fd_Close_ok rt_file [OF 14] by blast
  then show ?case using rt_file [OF 14] by (simp add: rt_Close_def Let_def)
qed

end

section \<open>A system to run on\<close>

text \<open>
  The simulated disk seen as an operating system: handle 0 is the directory, the handle of an
  open file is one more than the simulator's, and its errors are those of the system.
\<close>

definition os_error :: "error \<Rightarrow> error" where
  "os_error e =
     (if errors_Is e ErrNotExist then Sentinel OsNotExist
      else if errors_Is e ErrExist then Sentinel OsExist
      else Errorf ''os'' [])"

lemma os_error_Is [simp]: "\<not> errors_Is (os_error e) ErrNotExist" "errors_Is (os_error e) OsNotExist \<longleftrightarrow> errors_Is e ErrNotExist"
  by (simp_all add: os_error_def)

definition sim_os :: "'a simfs_scheme os_ops" where
  "sim_os = \<lparr>
     os_MkdirAll = (\<lambda>d s. (None, s)),
     os_OpenFile = (\<lambda>p flags s.
       (case (if O_CREATE \<in> set flags then sim_Create (snd p) s else sim_Open (snd p) s) of
          (Inl e, s') \<Rightarrow> (Inl (os_error e), s')
        | (Inr h, s') \<Rightarrow> (Inr (Suc h), s'))),
     os_Remove = (\<lambda>p s. apfst (map_option os_error) (sim_Remove (snd p) s)),
     os_Rename = (\<lambda>p q s. apfst (map_option os_error) (sim_Rename (snd p) (snd q) s)),
     os_ReadDir = (\<lambda>d s. map_sum id (map (\<lambda>nm. (nm, False))) (sim_List s)),
     os_Open = (\<lambda>d s. (Inr 0, s)),
     fd_Write = (\<lambda>h. simFile_Append (h - 1)),
     fd_ReadAt = (\<lambda>h. simFile_ReadAt (h - 1)),
     fd_Stat = (\<lambda>h. simFile_Size (h - 1)),
     fd_Truncate = (\<lambda>h. simFile_Truncate (h - 1)),
     fd_Sync = (\<lambda>h s. if h = 0 then sim_Sync s else simFile_Sync (h - 1) s),
     fd_Close = (\<lambda>h s. if h = 0 then (None, s) else simFile_Close (h - 1) s)\<rparr>"

definition shifted :: "disk \<Rightarrow> disk" where
  "shifted d = d\<lparr>d_node := (\<lambda>h. case h of 0 \<Rightarrow> None | Suc k \<Rightarrow> d_node d k)\<rparr>"

lemma shifted_sel [simp]:
  "d_dir (shifted d) = d_dir d" "d_sdir (shifted d) = d_sdir d" "d_data (shifted d) = d_data d" "d_stable (shifted d) = d_stable d"
  "d_node (shifted d) = (\<lambda>h. case h of 0 \<Rightarrow> None | Suc k \<Rightarrow> d_node d k)"
  by (simp_all add: shifted_def)

lemma shifted_disk:
  "shifted (disk_create nm h i d) = disk_create nm (Suc h) i (shifted d)" "shifted (disk_open h i d) = disk_open (Suc h) i (shifted d)"
  "shifted (disk_remove nm d) = disk_remove nm (shifted d)" "shifted (disk_rename old new d) = disk_rename old new (shifted d)"
  "shifted (disk_syncdir d) = disk_syncdir (shifted d)" "shifted (disk_append i p d) = disk_append i p (shifted d)"
  "shifted (disk_truncate i n d) = disk_truncate i n (shifted d)" "shifted (disk_sync i d) = disk_sync i (shifted d)"
  "shifted (disk_close h d) = disk_close (Suc h) (shifted d)"
  by (simp_all add: shifted_def disk_defs fun_eq_iff split: nat.split)

lemma shifted_fresh: "fresh_inode i d \<Longrightarrow> fresh_inode i (shifted d)"
  by (auto simp: fresh_inode_def ran_def split: nat.splits)

lemma shifted_node: "d_node (shifted d) h = Some i \<Longrightarrow> h \<noteq> 0 \<and> d_node d (h - 1) = Some i"
  by (simp split: nat.splits)

interpretation sim_posix: posix "sim_os :: 'a simfs_scheme os_ops" dir "\<lambda>s. shifted (abs_sim s)" "\<lambda>s h. h = 0" wf_sim for dir
proof (unfold_locales, goal_cases)
  case (1 s nm h s')
  then obtain k where k: "sim_Create nm s = (Inr k, s')" "h = Suc k"
    by (auto simp: sim_os_def split: prod.splits sum.splits)
  obtain i where i: "wf_sim s'" "d_dir (abs_sim s) nm = None" "d_node (abs_sim s) k = None" "fresh_inode i (abs_sim s)"
    "abs_sim s' = disk_create nm k i (abs_sim s)" using sim_Create_law [OF 1(1) k(1)] by blast
  have "shifted (abs_sim s') = disk_create nm h i (shifted (abs_sim s))" unfolding i(5) shifted_disk k(2) ..
  then show ?case using i(1-3) shifted_fresh [OF i(4)] k(2) by auto
next
  case (2 s nm h s')
  then obtain k where k: "sim_Open nm s = (Inr k, s')" "h = Suc k"
    by (auto simp: sim_os_def split: prod.splits sum.splits)
  obtain i where i: "wf_sim s'" "d_node (abs_sim s) k = None" "d_dir (abs_sim s) nm = Some i"
    "abs_sim s' = disk_open k i (abs_sim s)" using sim_Open_law [OF 2(1) k(1)] by blast
  have "shifted (abs_sim s') = disk_open h i (shifted (abs_sim s))" unfolding i(4) shifted_disk k(2) ..
  then show ?case using i(1-3) k(2) by auto
next
  case (3 s nm e s')
  then obtain x where "sim_Open nm s = (Inl x, s')" "e = os_error x" by (auto simp: sim_os_def split: prod.splits sum.splits)
  then show ?case using sim.Open_missing [OF 3(1), of nm x s'] by (simp add: sim_ops_def)
next
  case (4 s nm s')
  then have "sim_Remove nm s = (None, s')" by (cases "sim_Remove nm s") (simp add: sim_os_def)
  note l = sim_Remove_law [OF 4(1) this]
  then have "shifted (abs_sim s') = disk_remove nm (shifted (abs_sim s))" by (simp add: shifted_disk)
  then show ?case using l by auto
next
  case (5 s nm e s')
  then obtain x where "sim_Remove nm s = (Some x, s')" "e = os_error x" by (cases "sim_Remove nm s") (auto simp: sim_os_def)
  then show ?case using sim.Remove_missing [OF 5(1), of nm x s'] by (simp add: sim_ops_def)
next
  case (6 s old new s')
  then have "sim_Rename old new s = (None, s')" by (cases "sim_Rename old new s") (simp add: sim_os_def)
  note l = sim_Rename_law [OF 6(1) this]
  then have "shifted (abs_sim s') = disk_rename old new (shifted (abs_sim s))" by (simp add: shifted_disk)
  then show ?case using l by auto
next
  case (7 s es)
  then obtain ns where ns: "sim_List s = Inr ns" "es = map (\<lambda>nm. (nm, False)) ns" by (cases "sim_List s") (auto simp: sim_os_def)
  then show ?case using sim_List_law [OF 7(1) ns(1)] by (auto simp: comp_def)
next
  case 8
  then show ?case by (simp add: sim_os_def)
next
  case (9 s h s')
  then have "sim_Sync s = (None, s')" by (simp add: sim_os_def)
  then have "wf_sim s' \<and> abs_sim s' = disk_syncdir (abs_sim s)" using sim.SyncDir_law [OF 9(1)] by (simp add: sim_ops_def)
  then show ?case using 9(2) by (simp add: shifted_disk)
next
  case 10
  then show ?case by (simp add: sim_os_def)
next
  case (11 s h i p n s')
  note n = shifted_node [OF 11(2)]
  have "simFile_Append (h - 1) p s = ((n, None), s')" using 11(3) by (simp add: sim_os_def)
  then have "wf_sim s' \<and> n = length p \<and> abs_sim s' = disk_append i p (abs_sim s)" using sim.Append_law [OF 11(1) conjunct2 [OF n]] by (simp add: sim_ops_def)
  then show ?case by (simp add: shifted_disk)
next
  case (12 s h i n pos bs q)
  then show ?case using sim.ReadAt_law [OF 12(1), of "h - 1" i n pos] shifted_node [OF 12(2)] by (simp add: sim_os_def sim_ops_def)
next
  case (13 s h i len)
  then show ?case using sim.Size_law [OF 13(1), of "h - 1" i] shifted_node [OF 13(2)] by (simp add: sim_os_def sim_ops_def)
next
  case (14 s h i n s')
  note n = shifted_node [OF 14(2)]
  have "simFile_Truncate (h - 1) (int n) s = (None, s')" using 14(4) by (simp add: sim_os_def)
  then have "wf_sim s' \<and> abs_sim s' = disk_truncate i n (abs_sim s)" using sim.Truncate_law [OF 14(1) conjunct2 [OF n]] by (simp add: sim_ops_def)
  then show ?case by (simp add: shifted_disk)
next
  case (15 s h i s')
  note n = shifted_node [OF 15(2)]
  have "simFile_Sync (h - 1) s = (None, s')" using 15(3) n by (simp add: sim_os_def)
  then have "wf_sim s' \<and> abs_sim s' = disk_sync i (abs_sim s)" using sim.Sync_law [OF 15(1) conjunct2 [OF n]] by (simp add: sim_ops_def)
  then show ?case by (simp add: shifted_disk)
next
  case (16 s h i s')
  note n = shifted_node [OF 16(2)]
  have "simFile_Close (h - 1) s = (None, s')" using 16(3) n by (simp add: sim_os_def)
  then have "wf_sim s' \<and> abs_sim s' = disk_close (h - 1) (abs_sim s)" using sim.Close_law [OF 16(1) conjunct2 [OF n]] by (simp add: sim_ops_def)
  then show ?case using n by (simp add: shifted_disk)
next
  case (17 s)
  then show ?case using sim.Dir_law [OF 17] by simp
qed

interpretation sim_posix_ok: reliable_posix "sim_os :: 'a simfs_scheme os_ops" dir "\<lambda>s. shifted (abs_sim s)" "\<lambda>s h. h = 0" wf_sim for dir
proof (unfold_locales, goal_cases)
  case (1 s nm)
  then show ?case using sim.Create_ok [of s nm] by (auto simp: sim_os_def sim_ops_def)
next
  case (2 s nm)
  then show ?case using sim.Open_ok [of s nm] by (auto simp: sim_os_def sim_ops_def)
next
  case (3 s nm)
  then show ?case using sim.Open_not_exist [of s nm] by (auto simp: sim_os_def sim_ops_def)
next
  case (4 s nm)
  then show ?case using sim.Remove_ok [of s nm] by (auto simp: sim_os_def sim_ops_def)
next
  case (5 s nm)
  then show ?case using sim.Remove_not_exist [of s nm] by (auto simp: sim_os_def sim_ops_def)
next
  case (6 s old new)
  then show ?case using sim.Rename_ok [of s old new] by (auto simp: sim_os_def sim_ops_def)
next
  case (7 s)
  then show ?case using sim.List_ok [of s] by (auto simp: sim_os_def sim_ops_def)
next
  case (10 s h p)
  then obtain i where i: "d_node (abs_sim s) (h - 1) = Some i" using shifted_node by blast
  obtain s' where "file_Append sim_ops (h - 1) p s = ((length p, None), s')" by (rule sim.Append_step [OF 10(1) i])
  then show ?case by (simp add: sim_os_def sim_ops_def)
next
  case (11 s h n pos)
  then show ?case using sim.ReadAt_ok [OF 11(1), of "h - 1" n pos] shifted_node by (fastforce simp: sim_os_def sim_ops_def)
next
  case (12 s h)
  then show ?case using sim.Size_ok [OF 12(1), of "h - 1"] shifted_node by (fastforce simp: sim_os_def sim_ops_def)
next
  case (13 s h i n)
  then show ?case using sim.Truncate_ok [OF 13(1), of "h - 1" i n] shifted_node [OF 13(2)] by (simp add: sim_os_def sim_ops_def)
next
  case (14 s h)
  then obtain i where "h \<noteq> 0" "d_node (abs_sim s) (h - 1) = Some i" using shifted_node by blast
  then show ?case using sim.Sync_ok [OF 14(1), of "h - 1"] by (auto simp: sim_os_def sim_ops_def)
next
  case (15 s h)
  then obtain i where "h \<noteq> 0" "d_node (abs_sim s) (h - 1) = Some i" using shifted_node by blast
  then show ?case using sim.Close_ok [OF 15(1), of "h - 1"] by (auto simp: sim_os_def sim_ops_def)
qed (simp_all add: sim_os_def sim_Sync_def)

text \<open>
  A write the system reports an error for is passed on as it is, however much of it was stored:
  as Go's \<^verbatim>\<open>Write\<close> returns an error whenever it stores less than it was given, the adapter
  never reports the short write of \<^verbatim>\<open>core/fs.go\<close>.
\<close>

theorem short_write_unnamed:
  assumes "\<And>h q s n s'. fd_Write OS h q s = ((n, None), s') \<Longrightarrow> n = length q"
    and "\<And>h q s n e s'. fd_Write OS h q s = ((n, Some e), s') \<Longrightarrow> \<not> errors_Is e ErrShortWrite"
    and "rt_Append OS k p f = ((n, Some e), f')"
  shows "\<not> errors_Is e ErrShortWrite"
  using assms(3) assms(1,2) by (fastforce simp: rt_Append_def Let_def split: prod.splits option.splits if_splits)

end
