(* ===== verification/Spine_Powercut.thy ===== *)
theory Spine_Powercut
  imports Harness_Crash
begin

text \<open>
  \<^verbatim>\<open>cmd/spine/powercut.go\<close>: the half of a power-loss test that runs inside the machine being
  cut. One process appends, syncs and writes down how many records it was told are durable,
  until the power goes; another reopens the log and checks that they are all there.

  The flags are arguments; the counts among them are not negative. The file the counts are
  written down in is on a filesystem that is not being cut: it is a parameter, of which is said
  only that what \<^verbatim>\<open>Fprintf\<close> was given is written down up to where it failed. The power goes
  after a number of calls of the loop, or inside one, where the filesystem says so.
\<close>

section \<open>The writer\<close>

definition powercutEvent :: "nat \<Rightarrow> event" where
  "powercutEvent i =
     \<lparr>e_Key = ''acct-'' @ zero_padded 4 (i mod 64), e_Time = word_of_nat i, e_Schema = 1,
      e_Payload = map (\<lambda>j. word_of_nat (i + j)) [0..<64]\<rparr>"

record 'r record_ops =
  rec_Fprintf :: "string \<Rightarrow> 'r \<Rightarrow> error option \<times> 'r"
  rec_Sync :: "'r \<Rightarrow> error option \<times> 'r"

definition powercut_config :: "int \<Rightarrow> 's Config" where
  "powercut_config seg =
     \<lparr>c_Segment = \<lparr>o_MaxBytes = seg, o_IndexInterval = 0\<rparr>, c_Durability = OS,
      c_SyncRecords = 0, c_SyncInterval = 0, c_Clock = None\<rparr>"

text \<open>
  The loop. \<open>fuel\<close> is the number of calls after which the power goes, if nothing stopped the
  process before: the result has no error then. A sync frequency of zero makes Go's \<^verbatim>\<open>%\<close> panic.
\<close>

definition acked_line :: "nat \<Rightarrow> string" where
  "acked_line n = dec_digits n @ [CHR 0x0A]"

fun powercut_calls ::
  "'s fs_ops \<Rightarrow> 'r record_ops \<Rightarrow> nat \<Rightarrow> nat \<Rightarrow> bool \<Rightarrow> nat \<Rightarrow> nat \<Rightarrow> nat \<Rightarrow> 's Log \<Rightarrow> 's \<Rightarrow> 'r \<Rightarrow>
     error option \<times> 's Log \<times> 's \<times> 'r" where
  "powercut_calls F R batch syncFreq neverSync 0 call written l st r = (None, l, st, r)"
| "powercut_calls F R batch syncFreq neverSync (Suc fuel) call written l st r =
     (case log_Append F (map (\<lambda>i. powercutEvent (written + i)) [0..<batch]) l st of
        ((offsets, Some err), l, st) \<Rightarrow> (Some (Errorf ''powercut: append at %d: %w'' [err]), l, st, r)
      | ((offsets, None), l, st) \<Rightarrow>
          let written = written + length offsets in
          if syncFreq = 0 then (Some (Errorf ''panic: integer divide by zero'' []), l, st, r)
          else if call mod syncFreq \<noteq> 0 then
            powercut_calls F R batch syncFreq neverSync fuel (call + 1) written l st r
          else
            (case (if \<not> neverSync then log_Sync F l st else (None, l, st)) of
               (Some err, l, st) \<Rightarrow> (Some (Errorf ''powercut: sync at %d: %w'' [err]), l, st, r)
             | (None, l, st) \<Rightarrow>
                 (case rec_Fprintf R (acked_line written) r of
                    (Some err, r) \<Rightarrow> (Some err, l, st, r)
                  | (None, r) \<Rightarrow>
                      (case rec_Sync R r of
                         (Some err, r) \<Rightarrow> (Some err, l, st, r)
                       | (None, r) \<Rightarrow>
                           powercut_calls F R batch syncFreq neverSync fuel (call + 1) written l st r))))"

text \<open>
  The whole of \<^verbatim>\<open>powercutWrite\<close> past its flags: \<open>newfs\<close> is what \<^verbatim>\<open>runtime.NewFS\<close> returned,
  \<open>opened\<close> what opening the file of counts returned. A process that returns closes its log; one
  whose power was cut does not.
\<close>

definition powercutWrite ::
  "'s fs_ops \<Rightarrow> 'r record_ops \<Rightarrow> int \<Rightarrow> nat \<Rightarrow> nat \<Rightarrow> bool \<Rightarrow> nat \<Rightarrow> error option \<Rightarrow> 'r res \<Rightarrow> 's \<Rightarrow>
     error option \<times> 's \<times> 'r option" where
  "powercutWrite F R seg batch syncFreq neverSync fuel newfs opened st =
     (case newfs of
        Some err \<Rightarrow> (Some err, st, None)
      | None \<Rightarrow>
          (case log_Open F (powercut_config seg) st of
             (Inl err, st) \<Rightarrow> (Some err, st, None)
           | (Inr (l, _), st) \<Rightarrow>
               (case opened of
                  Inl err \<Rightarrow> (Some (Errorf ''powercut: open %s: %w'' [err]), snd (snd (log_Close F l st)), None)
                | Inr r \<Rightarrow>
                    (case powercut_calls F R batch syncFreq neverSync fuel 0 0 l st r of
                       (None, l, st, r) \<Rightarrow> (None, st, Some r)
                     | (Some err, l, st, r) \<Rightarrow> (Some err, snd (snd (log_Close F l st)), Some r)))))"

section \<open>The verifier\<close>

text \<open>\<^verbatim>\<open>bufio.Scanner\<close>: the lines of a text without their ends, none of 64 KiB or longer.\<close>

function scan_lines :: "string \<Rightarrow> string list" where
  "scan_lines s =
     (case Cut s CHR 0x0A of
        Some (line, rest) \<Rightarrow> line # scan_lines rest
      | None \<Rightarrow> if s = [] then [] else [s])"
  by pat_completeness auto
termination
  by (relation "measure length") (auto dest: Cut_shorter)

declare scan_lines.simps [simp del]

definition MaxScanTokenSize :: nat where "MaxScanTokenSize = 64 * 1024"

definition dropCR :: "string \<Rightarrow> string" where
  "dropCR s = (if s \<noteq> [] \<and> last s = CHR 0x0D then butlast s else s)"

fun acked_loop :: "string list \<Rightarrow> 64 word \<Rightarrow> 64 word \<times> error option" where
  "acked_loop [] n = (n, None)"
| "acked_loop (text # lines) n =
     (if MaxScanTokenSize \<le> length text then (n, Some (Errorf ''bufio.Scanner: token too long'' []))
      else
        let line = TrimSpace (dropCR text) in
        if line = [] then acked_loop lines n
        else
          (case ParseInt64 line of
             Inl err \<Rightarrow> (n, None)
           | Inr m \<Rightarrow> acked_loop lines m))"

definition lastAcked :: "string res \<Rightarrow> 64 word \<times> error option" where
  "lastAcked contents =
     (case contents of
        Inl err \<Rightarrow> (0, Some (Errorf ''powercut: open %s: %w'' [err]))
      | Inr text \<Rightarrow> acked_loop (scan_lines text) 0)"

fun powercut_check :: "'s fs_ops \<Rightarrow> nat list \<Rightarrow> 's Log \<Rightarrow> 's \<Rightarrow> error option \<times> 's Log \<times> 's" where
  "powercut_check F [] l st = (None, l, st)"
| "powercut_check F (i # is) l st =
     (case log_Read F (word_of_nat i) l st of
        (Inl err, l, st) \<Rightarrow> (Some (Errorf ''powercut: durable record %d was lost: %w'' [err]), l, st)
      | (Inr got, l, st) \<Rightarrow>
          let want = powercutEvent i in
          if e_Key (r_Event got) \<noteq> e_Key want \<or> e_Time (r_Event got) \<noteq> e_Time want then
            (Some (Errorf ''powercut: record %d came back as %+v, want %+v'' []), l, st)
          else if e_Payload (r_Event got) \<noteq> e_Payload want then
            (Some (Errorf ''powercut: record %d has the wrong payload'' []), l, st)
          else powercut_check F is l st)"

text \<open>What the verifier prints when it is content.\<close>

record survived_report =
  sr_durable :: "64 word"
  sr_recovered :: Offset
  sr_segments :: nat
  sr_discarded :: nat

definition powercut_judge :: "'s fs_ops \<Rightarrow> 64 word \<Rightarrow> Recovery \<Rightarrow> 's Log \<Rightarrow> 's \<Rightarrow> survived_report res \<times> 's Log \<times> 's" where
  "powercut_judge F durable recovery l st =
     (case R_Corrupt recovery of
        Some err \<Rightarrow> (Inl (Errorf ''powercut: recovery reported corruption: %w'' [err]), l, st)
      | None \<Rightarrow>
          if sint (log_Next l) < sint durable then
            (Inl (Errorf ''powercut: %d records were acknowledged durable, the log recovered to %d across %d segments'' []), l, st)
          else
            (case powercut_check F [0..<nat (sint durable)] l st of
               (Some err, l, st) \<Rightarrow> (Inl err, l, st)
             | (None, l, st) \<Rightarrow>
                 (Inr \<lparr>sr_durable = durable, sr_recovered = log_Next l, sr_segments = length (log_Segments l),
                       sr_discarded = R_Discarded recovery\<rparr>, l, st)))"

definition powercutVerify ::
  "'s fs_ops \<Rightarrow> int \<Rightarrow> string res \<Rightarrow> error option \<Rightarrow> 's \<Rightarrow> survived_report res \<times> 's" where
  "powercutVerify F seg acked newfs st =
     (case lastAcked acked of
        (durable, Some err) \<Rightarrow> (Inl err, st)
      | (durable, None) \<Rightarrow>
          (case newfs of
             Some err \<Rightarrow> (Inl err, st)
           | None \<Rightarrow>
               (case log_Open F (powercut_config seg) st of
                  (Inl err, st) \<Rightarrow> (Inl (Errorf ''powercut: the log did not reopen after the cut: %w'' [err]), st)
                | (Inr (l, recovery), st) \<Rightarrow>
                    (case powercut_judge F durable recovery l st of
                       (r, l, st) \<Rightarrow> (r, snd (snd (log_Close F l st)))))))"

section \<open>The counts written down\<close>

definition acked_text :: "string \<Rightarrow> nat \<Rightarrow> bool" where
  "acked_text t n \<longleftrightarrow>
     (\<exists>ns v p. t = concat (map acked_line ns) @ p \<and> prefix p (acked_line v) \<and> (\<forall>x\<in>set (v # ns). x \<le> n))"

lemma not_digits: "\<not> is_digit CHR ''-''" "\<not> is_digit CHR ''+''" "\<not> is_digit CHR 0x0D"
  by (simp_all add: is_digit_def)

lemma digits_no_newline: "list_all is_digit s \<Longrightarrow> CHR 0x0A \<notin> set s"
  by (auto simp: list_all_iff is_digit_def)

lemma digits_plain: "list_all is_digit s \<Longrightarrow> list_all plain s"
  by (auto simp: list_all_iff is_digit_def plain_def)

lemma scan_lines_line: "list_all is_digit s \<Longrightarrow> scan_lines (s @ CHR 0x0A # rest) = s # scan_lines rest"
  by (subst scan_lines.simps) (simp add: digits_no_newline)

lemma scan_lines_rest: "list_all is_digit s \<Longrightarrow> scan_lines s = (if s = [] then [] else [s])"
  by (subst scan_lines.simps) (simp add: digits_no_newline)

lemma ParseInt64_digits:
  assumes "list_all is_digit s" "s \<noteq> []" "digits_val s < 2 ^ 63"
  shows "ParseInt64 s = Inr (word_of_nat (digits_val s))"
proof -
  obtain c cs where c: "s = c # cs" "c \<noteq> CHR ''-''" "c \<noteq> CHR ''+''" using assms(1,2) not_digits by (cases s) auto
  have "unat (word_of_nat (digits_val s) :: 64 word) = digits_val s" using assms(3) by (simp add: unat_of_nat take_bit_eq_mod)
  moreover have "ParseUint64 s = Some (word_of_nat (digits_val s))" using assms by (simp add: ParseUint64_def)
  ultimately show ?thesis using assms(3) c by (simp add: ParseInt64_def)
qed

text \<open>A line of digits, or what a cut left of one, is read as a number no larger.\<close>

lemma acked_loop_digits:
  assumes "list_all is_digit s" "length s \<le> 19" "digits_val s \<le> n" "n < 2 ^ 63" "s \<noteq> []"
  shows "acked_loop (s # lines) m = acked_loop lines (word_of_nat (digits_val s))"
proof -
  have "last s \<noteq> CHR 0x0D" using assms(1,5) not_digits(3) by (metis last_in_set list_all_iff)
  then have "dropCR s = s" by (simp add: dropCR_def)
  moreover have "TrimSpace s = s" by (rule TrimSpace_plain) (use digits_plain [OF assms(1)] assms(5) in \<open>auto simp: list_all_iff\<close>)
  ultimately show ?thesis using ParseInt64_digits [OF assms(1,5)] assms(2-5) by (simp add: MaxScanTokenSize_def)
qed

lemma acked_loop_lines:
  assumes "\<forall>x\<in>set ns. x \<le> n" "n < 2 ^ 63" "list_all is_digit s" "length s \<le> 19" "digits_val s \<le> n" "0 \<le> sint m" "sint m \<le> int n"
  shows "\<exists>a. acked_loop (scan_lines (concat (map acked_line ns) @ s)) m = (a, None) \<and> 0 \<le> sint a \<and> sint a \<le> int n"
  using assms
proof (induction ns arbitrary: m)
  case Nil
  have "sint (word_of_nat (digits_val s) :: 64 word) = int (digits_val s)" using Nil.prems(2,5) by (intro sint_small) simp
  then show ?case
    using Nil.prems acked_loop_digits [OF Nil.prems(3-5,2), of "[]" m] by (simp add: scan_lines_rest)
next
  case (Cons x ns)
  have x: "x < 10 ^ 19" "x < 2 ^ 63" using Cons.prems(1,2) by auto
  have "length (dec_digits x) \<le> 19" using length_dec_digits [OF x(1)] by simp
  then have "acked_loop (scan_lines (concat (map acked_line (x # ns)) @ s)) m =
      acked_loop (scan_lines (concat (map acked_line ns) @ s)) (word_of_nat x)"
    using acked_loop_digits [of "dec_digits x" n] Cons.prems(1,2) by (simp add: acked_line_def scan_lines_line)
  moreover have "0 \<le> sint (word_of_nat x :: 64 word)" "sint (word_of_nat x :: 64 word) \<le> int n"
    using sint_small [OF x(2)] Cons.prems(1) by simp_all
  ultimately show ?case using Cons.IH [of "word_of_nat x"] Cons.prems by simp
qed

lemma digits_val_append: "digits_val (s @ t) = digits_val s * 10 ^ length t + digits_val t"
  using foldl_digits [of "digits_val s" t] by (simp add: digits_val_def)

lemma lastAcked_text:
  assumes "acked_text t n" "n < 2 ^ 63"
  shows "\<exists>a. lastAcked (Inr t) = (a, None) \<and> 0 \<le> sint a \<and> sint a \<le> int n"
proof -
  obtain ns v p where t: "t = concat (map acked_line ns) @ p" "prefix p (acked_line v)" "\<forall>x\<in>set (v # ns). x \<le> n"
    using assms(1) unfolding acked_text_def by blast
  show ?thesis
  proof (cases "p = acked_line v")
    case True
    then have "t = concat (map acked_line (ns @ [v])) @ []" by (simp add: t(1))
    then show ?thesis using acked_loop_lines [of "ns @ [v]" n "[]" 0] t(3) assms(2) by (simp add: lastAcked_def)
  next
    case False
    then have "prefix p (dec_digits v)" using t(2) unfolding acked_line_def by (auto simp: prefix_snoc)
    then obtain q where q: "dec_digits v = p @ q" by (auto simp: prefix_def)
    then have d: "list_all is_digit p" by (metis dec_digits_digits list_all_append)
    have "digits_val p \<le> digits_val p * 10 ^ length q + digits_val q" by (simp add: trans_le_add1)
    also have "\<dots> = v" using digits_val_append [of p q] digits_val_dec_digits [of v] by (simp add: q)
    finally have le: "digits_val p \<le> n" using t(3) by simp
    have "length (dec_digits v) \<le> 19" using length_dec_digits [of v 19] t(3) assms(2) by simp
    then have "length p \<le> 19" by (simp add: q)
    then show ?thesis using acked_loop_lines [of ns n p 0] t(1,3) assms(2) d le by (simp add: lastAcked_def)
  qed
qed

section \<open>How many were appended\<close>

lemma stage_records_count:
  "stage_records s off es scratch marks = (buf, marks', err) \<Longrightarrow> length marks' \<le> length marks + length es"
proof (induction es arbitrary: off scratch marks)
  case (Cons e es)
  obtain b1 e1 where a: "appendRecord scratch off e = (b1, e1)" by (metis surj_pair)
  show ?case
  proof (cases "e1 = None \<and> \<not> int (s_size s + length b1) \<ge> s_maxBytes s")
    case True
    then have "stage_records s (off + 1) es b1 (marks @ [s_size s + length scratch]) = (buf, marks', err)"
      using Cons.prems a by simp
    then show ?thesis using Cons.IH by fastforce
  next
    case False
    then show ?thesis using Cons.prems a by (auto simp: Let_def split: option.splits if_splits)
  qed
qed simp

lemma seg_AppendAll_count:
  assumes "seg_AppendAll F es s st = ((n, first, err), s', st')"
  shows "n \<le> length es"
proof (cases "s_sealed s \<or> es = []")
  case False
  obtain scratch marks e1 where g: "stage_records s (s_next s) es [] [] = (scratch, marks, e1)" by (metis prod_cases3)
  obtain k e2 st2 where a: "file_Append F (s_file s) scratch st = ((k, e2), st2)" by (metis surj_pair)
  have "n = length marks \<or> n = 0" using assms False g a by (auto simp: seg_AppendAll_def Let_def split: if_splits option.splits)
  then show ?thesis using stage_records_count [OF g] by auto
qed (use assms in \<open>auto simp: seg_AppendAll_def split: if_splits\<close>)

lemma append_loop_count:
  "append_loop F es offs l st = ((offs', None), l', st') \<Longrightarrow> length offs' = length offs + length es"
proof (induction "length es" arbitrary: es offs l st rule: less_induct)
  case less
  show ?case
  proof (cases es)
    case Nil
    then show ?thesis using less.prems by simp
  next
    case (Cons e es')
    obtain e1 l1 st1 where room: "(if seg_Full (active l) then log_roll F l st else (None, l, st)) = (e1, l1, st1)" by (metis prod_cases3)
    obtain n first err1 s2 st2 where app: "seg_AppendAll F es (active l1) st1 = ((n, first, err1), s2, st2)" by (metis prod_cases3)
    let ?l2 = "(set_active s2 l1)\<lparr>l_sinceSync := l_sinceSync l1 + int n\<rparr>" and ?offs = "offs @ map (\<lambda>i. first + word_of_nat i) [0..<n]"
    have e1: "e1 = None"
    proof (rule ccontr)
      assume "e1 \<noteq> None"
      then show False using less.prems room by (auto simp: Cons split del: if_split)
    qed
    have step: "append_loop F es offs l st =
        (case err1 of Some err \<Rightarrow> ((?offs, Some err), ?l2, st2)
         | None \<Rightarrow> if n = 0 then ((?offs, Some (Errorf ''log: segment %s accepted no records and reported no error'' [])), ?l2, st2)
                   else append_loop F (drop n es) ?offs ?l2 st2)"
      using app room e1 by (simp add: Cons Let_def split: option.split split del: if_split cong: if_cong)
    then have n: "n \<noteq> 0" and next_loop: "append_loop F (drop n es) ?offs ?l2 st2 = ((offs', None), l', st')"
      using less.prems by (auto split: option.splits if_splits)
    have "length (drop n es) < length es" using n Cons by simp
    from less.hyps [OF this next_loop] seg_AppendAll_count [OF app] show ?thesis by simp
  qed
qed

lemma log_Append_count: "log_Append F es l st = ((offs, None), l', st') \<Longrightarrow> length offs = length es"
  by (auto simp: log_Append_def split: if_splits prod.splits option.splits dest!: append_loop_count)

section \<open>The writer under failures\<close>

definition powercut_entries :: "nat \<Rightarrow> entry list" where
  "powercut_entries w = number 0 (map powercutEvent [0..<w])"

lemma powercut_entries_add:
  "powercut_entries (w + n) = powercut_entries w @ number (word_of_nat w) (map (\<lambda>i. powercutEvent (w + i)) [0..<n])"
proof -
  have "[0..<w + n] = [0..<w] @ map (\<lambda>i. w + i) [0..<n]" by (rule nth_equalityI) (simp_all add: nth_append)
  then show ?thesis by (simp add: powercut_entries_def number_append comp_def)
qed

lemma length_powercut_entries [simp]: "length (powercut_entries w) = w"
  by (simp add: powercut_entries_def)

text \<open>What the parameter promises: a line is written down, or what came before the failure of it.\<close>

definition record_file :: "'r record_ops \<Rightarrow> ('r \<Rightarrow> string) \<Rightarrow> bool" where
  "record_file R text \<longleftrightarrow>
     (\<forall>s r e r'. rec_Fprintf R s r = (e, r') \<longrightarrow> (\<exists>p. prefix p s \<and> text r' = text r @ p \<and> (e = None \<longrightarrow> p = s))) \<and>
     (\<forall>r e r'. rec_Sync R r = (e, r') \<longrightarrow> text r' = text r)"

context crash_filesystem
begin

lemma close_segments_quiet:
  "wf st \<Longrightarrow> close_segments F l bs first st = (e, st') \<Longrightarrow> wf st' \<and> survived (abs st') = survived (abs st)"
proof (induction bs arbitrary: first st)
  case (Cons b bs)
  show ?case
  proof (cases "if b = s_base (active l) then Some (l_active l) else map_of (l_sealed l) b")
    case None
    then show ?thesis using Cons by simp
  next
    case (Some a)
    obtain e1 st1 where c: "seg_Close F (seg_at l a) st = (e1, st1)" by (metis surj_pair)
    note q = seg_Close_cases [OF Cons.prems(1) c]
    then show ?thesis using Cons.IH [OF q(1)] Cons.prems(2) Some c by simp
  qed
qed simp

lemma log_Close_quiet:
  assumes "wf st" "log_Close F l st = (e, l', st')"
  shows "wf st' \<and> survived (abs st') = survived (abs st)"
proof -
  obtain first st1 where c: "(case l_commits l of None \<Rightarrow> (None, st) | Some c \<Rightarrow> seg_Close F (cm_seg c) st) = (first, st1)"
    by (metis surj_pair)
  have q: "wf st1 \<and> survived (abs st1) = survived (abs st)"
    using c assms(1) seg_Close_cases(1,2) [OF assms(1)] by (auto split: option.splits)
  obtain e2 st2 where d: "close_segments F (l\<lparr>l_commits := None\<rparr>) (l_bases (l\<lparr>l_commits := None\<rparr>)) first st1 = (e2, st2)"
    by (metis surj_pair)
  then have "st' = st2" using assms(2) c by (simp add: log_Close_def Let_def)
  then show ?thesis using q close_segments_quiet [OF _ d] by simp
qed

lemma log_Open_fresh_cases:
  assumes "wf st" "\<And>b. d_dir (abs st) (segmentName b) = None" "log_Open F cfg st = (r, st')"
  shows "wf st' \<and> (r = Inr (l, rec) \<longrightarrow> log_inv (abs st') l [] 0 [] 0) \<and> (r = Inl err \<longrightarrow> survived (abs st') = survived (abs st))"
proof (cases "\<exists>ns. fs_List F st = Inr ns \<and> openable cfg")
  case False
  then have "\<exists>x. r = Inl x \<and> st' = st" using assms(3) by (auto simp: log_Open_def Let_def openable_def split: sum.splits if_splits)
  then show ?thesis using assms(1) by auto
next
  case True
  then obtain ns where ns: "fs_List F st = Inr ns" and o: "openable cfg" by blast
  let ?cfg = "Config_withDefaults cfg" and ?n = "segmentName 0"
  have bases: "sort (List.map_filter parseSegmentName ns) = []"
    using List_law [OF assms(1) ns] assms(2) by (intro sorted_bases) auto
  obtain c st1 where c: "createSegment F ?cfg 0 st = (c, st1)" by (metis surj_pair)
  note q = createSegment_cases [OF assms(1) c]
  have code: "log_Open F cfg st = (case c of Inl err \<Rightarrow> (Inl err, st1) | Inr s \<Rightarrow> (Inr (new_Log ?cfg [0] s, zero_Recovery), st1))"
  proof (cases c)
    case (Inl x)
    then show ?thesis using o ns bases c by (auto simp: log_Open_def Let_def openable_def)
  next
    case (Inr x)
    then show ?thesis using o ns bases c by (auto simp: log_Open_def Let_def openable_def)
  qed
  show ?thesis
  proof (cases c)
    case (Inl x)
    then show ?thesis using code assms(3) q by auto
  next
    case (Inr s)
    obtain h i where cr: "s = fresh_segment h ?n (Options_withDefaults (c_Segment ?cfg)) 0" "fresh_inode i (abs st)"
      "d_node (abs st) h = None" "abs st1 = disk_syncdir (disk_create ?n h i (abs st))"
      using q(3) [OF Inr] by (auto simp: created_def)
    have "seg_rep (abs st1) i s []"
      using fresh_segment_holds [of h ?n "Options_withDefaults (c_Segment ?cfg)" 0]
      by (simp add: seg_rep_def cr(1,4) disk_syncdir_def disk_create_def) (simp add: fresh_segment_def)
    then have "log_inv (abs st1) (new_Log ?cfg [0] s) [] 0 [] 0"
      using assms(2) unfolding log_inv_def log_rep_def log_durable_def new_Log_active
      by (auto simp: new_Log_def held_def pieces_ok_def cr disk_syncdir_def disk_create_def split: if_splits)
         (simp_all add: fresh_segment_def)
    then show ?thesis using code assms(3) Inr q(1) by auto
  qed
qed

text \<open>
  Wherever the writer stops, the log that is left holds at least as many records as any line of
  the file of counts says, and they are the records the writer writes.
\<close>

lemma acked_textI: "\<forall>x\<in>set ns. x \<le> n \<Longrightarrow> acked_text (concat (map acked_line ns)) n"
  unfolding acked_text_def by (intro exI [of _ ns] exI [of _ 0] exI [of _ "[]"]) simp

lemma powercut_calls_cases:
  assumes "record_file R text" "wf st" "log_inv (abs st) l pre b rs k" "flat (pre @ [(b, rs)]) = powercut_entries w"
    and "log_Next l = word_of_nat w" "w + fuel * batch < 2 ^ 63"
    and "text r = concat (map acked_line ns)" "\<forall>x\<in>set ns. x \<le> length (flat pre) + k"
    and "powercut_calls F R batch syncFreq False fuel call w l st r = (e, l', st', r')"
  shows "wf st' \<and> (\<exists>w' n. w' \<le> w + fuel * batch \<and>
    leaves_from (survived (abs st')) (powercut_entries w') n (word_of_nat w') \<and> acked_text (text r') n)"
  using assms(2-)
proof (induction fuel arbitrary: st l pre b rs k w r ns call)
  case 0
  have st: "st' = st" "r' = r" using 0(8) by simp_all
  have "leaves_from (survived (abs st)) (powercut_entries w) (length (flat pre) + k) (word_of_nat w)"
    using log_inv_leaves_from [OF 0(2), of "length (flat pre) + k" "word_of_nat w" "[]"] 0(3,4) by simp
  then show ?case using acked_textI [OF 0(7)] 0(1,6) st by auto
next
  case (Suc fuel)
  let ?evs = "map (\<lambda>i. powercutEvent (w + i)) [0..<batch]" and ?n0 = "length (flat pre) + k" and ?w = "w + batch"
  have small: "w < 2 ^ 63" "?w + fuel * batch < 2 ^ 63" "?w \<le> w + Suc fuel * batch" using Suc.prems(5) by simp_all
  have fits: "unat (log_Next l) + length ?evs < 2 ^ 64"
    using small by (simp add: Suc.prems(4) unat_of_nat take_bit_eq_mod)
  obtain offs err l1 st1 where app: "log_Append F ?evs l st = ((offs, err), l1, st1)" by (metis prod_cases3 surj_pair)
  have all: "flat (pre @ [(b, rs)]) @ number (log_Next l) ?evs = powercut_entries ?w"
    "log_Next l + word_of_nat (length ?evs) = word_of_nat ?w"
    using Suc.prems(3,4) by (simp_all add: powercut_entries_add)
  note c = log_Append_cases [OF Suc.prems(1,2) fits app, unfolded all]
  have stop1: ?case if "survived (abs st') = survived (abs st1)" "wf st'" "r' = r"
    using c(2) acked_textI [OF Suc.prems(7)] small(3) unfolding that(1,3) Suc.prems(6) by (intro conjI that(2)) blast
  show ?case
  proof (cases "err = None \<and> syncFreq \<noteq> 0")
    case False
    then have "st' = st1" "r' = r" using Suc.prems(8) app by (auto simp: Let_def split: option.splits)
    then show ?thesis using stop1 c(1) by simp
  next
    case True
    then have err: "err = None" and freq: "syncFreq \<noteq> 0" by simp_all
    have len: "length offs = batch" using log_Append_count app err by fastforce
    obtain pre1 b1 rs1 k1 where i1: "log_inv (abs st1) l1 pre1 b1 rs1 k1" "flat (pre1 @ [(b1, rs1)]) = powercut_entries ?w"
      "?n0 \<le> length (flat pre1) + k1" "log_Next l1 = word_of_nat ?w" using c(3) [OF err] by blast
    show ?thesis
    proof (cases "call mod syncFreq = 0")
      case False
      then have go: "powercut_calls F R batch syncFreq False fuel (call + 1) ?w l1 st1 r = (e, l', st', r')"
        using Suc.prems(8) app err freq len by simp
      have "\<forall>x\<in>set ns. x \<le> length (flat pre1) + k1" using Suc.prems(7) i1(3) by auto
      from Suc.IH [OF c(1) i1(1,2,4) small(2) Suc.prems(6) this go] show ?thesis by (auto simp: add.assoc)
    next
      case True
      obtain e2 l2 st2 where sy: "log_Sync F l1 st1 = (e2, l2, st2)" by (metis prod_cases3)
      note s = log_Sync_cases [OF c(1) i1(1) sy]
      show ?thesis
      proof (cases e2)
        case (Some x)
        then have "st' = st2" "r' = r" using Suc.prems(8) app err freq len True sy by simp_all
        then show ?thesis using stop1 s(1,2) Some by simp
      next
        case None
        note i2 = s(3) [OF None]
        have n2: "length (flat pre1) + length rs1 = ?w" using arg_cong [OF i1(2), of length] by simp
        have nx2: "log_Next l2 = word_of_nat ?w" using s(5) i1(4) by (simp add: log_Next_def)
        have lv: "leaves_from (survived (abs st2)) (powercut_entries ?w) ?w (word_of_nat ?w)"
          using log_inv_leaves_from [OF i2, of ?w "word_of_nat ?w" "[]"] i1(2) n2 nx2 by simp
        have old: "\<forall>x\<in>set ns. x \<le> ?w" using Suc.prems(7) i1(1,3) n2 by (auto simp: log_inv_def log_durable_def)
        obtain e3 r3 where pr: "rec_Fprintf R (acked_line ?w) r = (e3, r3)" by (metis surj_pair)
        then obtain p where p: "prefix p (acked_line ?w)" "text r3 = text r @ p" "e3 = None \<longrightarrow> p = acked_line ?w"
          using assms(1) unfolding record_file_def by blast
        show ?thesis
        proof (cases e3)
          case (Some x)
          then have st: "st' = st2" "r' = r3" using Suc.prems(8) app err freq len True sy None pr by simp_all
          have "acked_text (text r3) ?w"
            unfolding acked_text_def p(2) Suc.prems(6) using p(1) old by (intro exI [of _ ns] exI [of _ ?w] exI [of _ p]) simp
          then show ?thesis using st s(1) lv small(3) by blast
        next
          case e3: None
          obtain e4 r4 where rs: "rec_Sync R r3 = (e4, r4)" by (metis surj_pair)
          then have "text r4 = text r3" using assms(1) unfolding record_file_def by blast
          then have t4: "text r4 = concat (map acked_line (ns @ [?w]))" using p(2,3) e3 Suc.prems(6) by simp
          have new: "\<forall>x\<in>set (ns @ [?w]). x \<le> length (flat pre1) + length rs1" using old n2 by auto
          show ?thesis
          proof (cases e4)
            case (Some x)
            then have "st' = st2" "r' = r4" using Suc.prems(8) app err freq len True sy None pr e3 rs by simp_all
            then show ?thesis using s(1) lv small(3) acked_textI [OF new] t4 n2 by metis
          next
            case e4: None
            have go: "powercut_calls F R batch syncFreq False fuel (call + 1) ?w l2 st2 r4 = (e, l', st', r')"
              using Suc.prems(8) app err freq len True sy None pr e3 rs e4 by simp
            from Suc.IH [OF s(1) i2 i1(2) nx2 small(2) t4 new go] show ?thesis by (auto simp: add.assoc)
          qed
        qed
      qed
    qed
  qed
qed

text \<open>The whole writer, on an empty directory.\<close>

lemma powercutWrite_cases:
  assumes "record_file R text" "wf st" "\<And>b. d_dir (abs st) (segmentName b) = None" "\<And>b. d_sdir (abs st) (segmentName b) = None"
    and "fuel * batch < 2 ^ 63" "\<And>r. opened = Inr r \<Longrightarrow> text r = []"
    and "powercutWrite F R seg batch syncFreq False fuel newfs opened st = (e, st', r)"
  shows "wf st' \<and>
    (\<exists>w n. w < 2 ^ 63 \<and> leaves_from (survived (abs st')) (powercut_entries w) n (word_of_nat w) \<and>
       (case r of None \<Rightarrow> True | Some r \<Rightarrow> acked_text (text r) n) \<or>
     r = None \<and> (\<forall>b. survived (abs st') (segmentName b) = None))"
proof -
  have empty: "survived (abs st) (segmentName b) = None" for b using assms(4) by (simp add: survived_def)
  obtain o1 st1 where o: "log_Open F (powercut_config seg) st = (o1, st1)" by (metis surj_pair)
  note f = log_Open_fresh_cases [OF assms(2,3) o]
  show ?thesis
  proof (cases "newfs = None \<and> (\<exists>l rec. o1 = Inr (l, rec))")
    case False
    then have "r = None \<and> (st' = st \<or> st' = st1 \<and> isl o1)"
      using assms(7) o by (auto simp: powercutWrite_def split: option.splits sum.splits)
    then show ?thesis using f assms(2) empty by (auto simp: isl_def)
  next
    case True
    then obtain l rec where l: "o1 = Inr (l, rec)" and nf: "newfs = None" by blast
    have w1: "wf st1" and inv: "log_inv (abs st1) l [] 0 [] 0" using f l by blast+
    have rep: "log_rep (abs st1) l [] 0 []" using inv by (simp add: log_inv_def)
    have nx: "log_Next l = word_of_nat 0" using log_repD(8) [OF rep] by simp
    have flat0: "flat ([] @ [(0, [])]) = powercut_entries 0" by (simp add: powercut_entries_def)
    have closed: "wf (snd (snd (log_Close F l' s))) \<and> survived (abs (snd (snd (log_Close F l' s)))) = survived (abs s)" if "wf s" for l' s
      using log_Close_quiet [OF that] by (metis prod.collapse)
    have lv0: "leaves_from (survived (abs st1)) (powercut_entries 0) 0 (word_of_nat 0)"
      using log_inv_leaves_from [OF inv, of 0 "word_of_nat 0" "[]"] nx flat0 by simp
    show ?thesis
    proof (cases opened)
      case (Inl x)
      then have "r = None" "st' = snd (snd (log_Close F l st1))" using assms(7) o l nf by (simp_all add: powercutWrite_def)
      then show ?thesis using closed [OF w1, of l] lv0 by (auto intro!: exI [of _ 0])
    next
      case (Inr r0)
      obtain e2 l2 st2 r2 where pc: "powercut_calls F R batch syncFreq False fuel 0 0 l st1 r0 = (e2, l2, st2, r2)" by (metis prod_cases4)
      have res: "r = Some r2" "st' = (case e2 of None \<Rightarrow> st2 | Some err \<Rightarrow> snd (snd (log_Close F l2 st2)))"
        using assms(7) o l nf Inr pc by (auto simp: powercutWrite_def split: option.splits)
      have t0: "text r0 = concat (map acked_line [])" using assms(6) Inr by simp
      have "wf st2 \<and> (\<exists>w' n. w' \<le> 0 + fuel * batch \<and>
          leaves_from (survived (abs st2)) (powercut_entries w') n (word_of_nat w') \<and> acked_text (text r2) n)"
        by (rule powercut_calls_cases [OF assms(1) w1 inv flat0 nx _ t0 _ pc]) (use assms(5) in simp_all)
      then obtain w n where w: "wf st2" "w < 2 ^ 63" "leaves_from (survived (abs st2)) (powercut_entries w) n (word_of_nat w)"
        "acked_text (text r2) n" using assms(5) unfolding add_0_left by (meson le_less_trans)
      have "wf st' \<and> survived (abs st') = survived (abs st2)" using res(2) closed [OF w(1)] w(1) by (cases e2) simp_all
      then show ?thesis using w res(1) by auto
    qed
  qed
qed

end

section \<open>The verifier on what is left\<close>

lemma map_of_numbered:
  "i < length es \<Longrightarrow> unat off + length es < 2 ^ 64 \<Longrightarrow> map_of (number off es) (off + word_of_nat i) = Some (es ! i)"
proof (induction off es arbitrary: i rule: number.induct)
  case (2 off e es)
  have off: "unat (off + 1) = unat off + 1" using 2(3) by (intro unat_succ) simp
  show ?case
  proof (cases i)
    case (Suc j)
    have "(word_of_nat (Suc j) :: 64 word) \<noteq> 0" using 2(2,3) Suc by (auto simp: word_of_nat_eq_0_iff simp flip: of_nat_Suc dest!: dvd_imp_le)
    then have "off + word_of_nat (Suc j) \<noteq> off" by simp
    then show ?thesis using 2(1) [of j] 2(2,3) Suc off by (simp add: add.assoc)
  qed simp
qed simp

lemma take_powercut_entries: "j \<le> w \<Longrightarrow> take j (powercut_entries w) = powercut_entries j"
  using powercut_entries_add [of j "w - j"] by simp

lemma powercut_entry: "i < j \<Longrightarrow> j < 2 ^ 63 \<Longrightarrow> map_of (powercut_entries j) (word_of_nat i) = Some (powercutEvent i)"
  using map_of_numbered [of i "map powercutEvent [0..<j]" 0] by (simp add: powercut_entries_def)

context reliable_filesystem
begin

lemma powercut_check_ok:
  assumes "wf st" "log_inv (abs st) l pre b rs k" "flat (pre @ [(b, rs)]) = powercut_entries j" "j < 2 ^ 63" "\<forall>i\<in>set is. i < j"
  shows "\<exists>l' st'. powercut_check F is l st = (None, l', st')"
  using assms(1,2,5)
proof (induction "is" arbitrary: l st)
  case (Cons i "is")
  obtain res l1 st1 where r: "log_Read F (word_of_nat i) l st = (res, l1, st1)" "wf st1" "log_inv (abs st1) l1 pre b rs k"
    "case map_of (flat (pre @ [(b, rs)])) (word_of_nat i) of
       Some e \<Rightarrow> res = Inr \<lparr>r_Offset = word_of_nat i, r_Event = e, r_Len = RecordLen e\<rparr>
     | None \<Rightarrow> \<exists>err. res = Inl err \<and> same_class err (Sentinel ErrNotFound)"
    by (rule log_Read_ok [OF Cons.prems(1,2), of "word_of_nat i"]) blast
  have m: "map_of (flat (pre @ [(b, rs)])) (word_of_nat i) = Some (powercutEvent i)"
    unfolding assms(3) by (rule powercut_entry [OF _ assms(4)]) (use Cons.prems(3) in simp)
  have "res = Inr \<lparr>r_Offset = word_of_nat i, r_Event = powercutEvent i, r_Len = RecordLen (powercutEvent i)\<rparr>"
    using r(4) unfolding m option.case .
  then show ?case using Cons.IH [OF r(2,3)] Cons.prems(3) r(1) by (simp add: Let_def)
qed simp

lemma powercutVerify_ok:
  assumes "leaves_from (survived d) (powercut_entries w) n (word_of_nat w)" "w < 2 ^ 63" "acked_text t n"
    and "wf st" "abs st = disk_crash d"
  shows "\<exists>rep st'. powercutVerify F seg (Inr t) None st = (Inr rep, st')"
proof -
  obtain j pre b rs where lv: "n \<le> j" "j \<le> w" "recovers (survived d) pre b rs" "powercut_entries j = flat (pre @ [(b, rs)])"
    "end_off b rs \<le> word_of_nat w"
    using assms(1) take_powercut_entries unfolding leaves_from_def by auto
  have op: "openable (powercut_config seg)" by (simp add: openable_def powercut_config_def)
  obtain l rec st1 where o: "log_Open F (powercut_config seg) st = (Inr (l, rec), st1)" "wf st1"
    "log_inv (abs st1) l pre b rs (length rs)" "R_Corrupt rec = None"
    by (rule recovers_Open [OF lv(3) assms(4,5) op]) blast
  have n63: "n < 2 ^ 63" and j63: "j < 2 ^ 63" using lv(1,2) assms(2) by simp_all
  obtain a where a: "lastAcked (Inr t) = (a, None)" "0 \<le> sint a" "sint a \<le> int n" using lastAcked_text [OF assms(3) n63] by blast
  have rep: "log_rep (abs st1) l pre b rs" using o(3) by (simp add: log_inv_def)
  have "end_off 0 (powercut_entries j) \<le> log_Next l" using holds_log_records(2) [OF holds_logI [OF o(3)]] lv(4) by simp
  then have "word_of_nat j \<le> log_Next l" "log_Next l \<le> word_of_nat w"
    using log_repD(8) [OF rep] lv(5) by (simp_all add: powercut_entries_def)
  then have "j \<le> unat (log_Next l)" "unat (log_Next l) \<le> w"
    using j63 assms(2) by (simp_all add: word_le_nat_alt unat_of_nat take_bit_eq_mod)
  moreover have "sint (log_Next l) = int (unat (log_Next l))" using sint_small [of "unat (log_Next l)"] calculation assms(2) by simp
  ultimately have enough: "\<not> sint (log_Next l) < sint a" using a(3) lv(1) by linarith
  have below: "\<forall>i\<in>set [0..<nat (sint a)]. i < j" using a(2,3) lv(1) by auto
  obtain l2 st2 where c: "powercut_check F [0..<nat (sint a)] l st1 = (None, l2, st2)"
    using powercut_check_ok [OF o(2,3) lv(4) [symmetric] j63 below] by blast
  show ?thesis using a(1) o(1,4) enough c by (simp add: powercutVerify_def powercut_judge_def split: prod.split)
qed

end

text \<open>The faults a schedule holds are those it was given.\<close>

lemma schedule_faults: "(n, fs) \<in> set (schedule xs byOp) \<Longrightarrow> f \<in> set fs \<Longrightarrow> f \<in> set xs \<or> (\<exists>gs. (n, gs) \<in> set byOp \<and> f \<in> set gs)"
proof (induction xs arbitrary: byOp)
  case (Cons x xs)
  show ?case
  proof (cases "ft_Kind x = ClockBack")
    case True
    then show ?thesis using Cons by auto
  next
    case False
    let ?m = "AList.update (ft_At x) (faults_at byOp (ft_At x) @ [x]) byOp"
    have "f \<in> set xs \<or> (\<exists>gs. (n, gs) \<in> set ?m \<and> f \<in> set gs)" using Cons False by simp
    then show ?thesis
    proof
      assume "\<exists>gs. (n, gs) \<in> set ?m \<and> f \<in> set gs"
      then obtain gs where g: "(n, gs) \<in> set ?m" "f \<in> set gs" by blast
      show ?thesis
      proof (cases "(n, gs) \<in> set byOp")
        case True
        then show ?thesis using g(2) by blast
      next
        case False
        then have "gs = faults_at byOp (ft_At x) @ [x]" "n = ft_At x" using g(1) by (auto dest!: set_update_cases)
        then show ?thesis using g(2) by (auto simp: faults_at_def split: option.splits dest: map_of_SomeD)
      qed
    qed simp
  qed
qed auto

lemma wf_hfs_NewFS:
  assumes "\<forall>x\<in>set faults. ft_Kind x \<noteq> BitFlip"
  shows "wf_hfs (harness_NewFS faults)" "abs_hfs (harness_NewFS faults) = abs_sim sim_NewFS"
proof -
  let ?f = "harness_NewFS faults"
  have t: "simfs.truncate ?f = sim_NewFS" by (simp add: harness_NewFS_def simfs.defs sim_NewFS_def)
  have a: "abs_sim ?f = abs_sim sim_NewFS" "wf_sim ?f"
    using abs_sim_truncate [of ?f] abs_sim_truncate [of "sim_NewFS :: simfs"] t by (metis simfs.truncate_def, metis wf_sim_NewFS)
  have "unflipped ?f" using assms schedule_faults [of _ _ faults "[]"] by (fastforce simp: unflipped_def harness_NewFS_def simfs.defs)
  then show "wf_hfs ?f" using a(2) by (simp add: wf_hfs_def)
  show "abs_hfs ?f = abs_sim sim_NewFS" using a(1) by (simp add: abs_hfs_def harness_NewFS_def simfs.defs)
qed

section \<open>The negative control\<close>

lemma framable_powercutEvent:
  assumes "i < 2 ^ 63"
  shows "framable (powercutEvent i)"
proof -
  have "0 \<le> sint (word_of_nat i :: 64 word)" using sint_small [OF assms] by simp
  moreover
  have "length (zero_padded 4 (i mod 64)) = 4"
    by (rule length_zero_padded) (simp_all add: order_less_trans [OF mod_less_divisor [of 64 i]])
  ultimately show ?thesis
    by (simp add: framable_def powercutEvent_def Event_Validate_None RecordLen_def MaxRecordLen_def MaxKeyLen_def
        MaxPayloadLen_def headerBytes_def HeaderLen_def)
qed

context crash_filesystem
begin

text \<open>A record appended in \<open>OS\<close> mode to a log that has not rolled is not durable.\<close>

lemma seg_AppendAll_quiet:
  assumes "wf st" "seg_AppendAll F es s st = (q, s', st')"
  shows "wf st' \<and> survived (abs st') = survived (abs st)"
  using assms Append_quiet [OF assms(1)]
  by (auto simp: seg_AppendAll_def Let_def split: if_splits prod.splits option.splits)

lemma log_Append_unsynced:
  assumes "wf st" "log_inv (abs st) l [] 0 [] 0" "c_Durability (l_cfg l) = OS" "log_Append F [e] l st = ((offs, None), l', st')"
  shows "wf st' \<and> survived (abs st') = survived (abs st)"
proof -
  have rep: "log_rep (abs st) l [] 0 []" using assms(2) by (simp add: log_inv_def)
  have "\<not> seg_Full (active l)" using log_repD(4,6) [OF rep] by (auto simp: seg_Full_def held_def seg_rep_def seg_holds_def)
  obtain n first err s st1 where a: "seg_AppendAll F [e] (active l) st = ((n, first, err), s, st1)" by (metis prod_cases3)
  note q = seg_AppendAll_quiet [OF assms(1) a]
  let ?l = "(set_active s l)\<lparr>l_sinceSync := l_sinceSync l + int n\<rparr>"
  have code: "append_loop F [e] [] l st =
      (case err of Some x \<Rightarrow> ((map (\<lambda>i. first + word_of_nat i) [0..<n], Some x), ?l, st1)
       | None \<Rightarrow> if n = 0 then ((map (\<lambda>i. first + word_of_nat i) [0..<n],
             Some (Errorf ''log: segment %s accepted no records and reported no error'' [])), ?l, st1)
           else append_loop F (drop n [e]) (map (\<lambda>i. first + word_of_nat i) [0..<n]) ?l st1)"
    using a \<open>\<not> seg_Full (active l)\<close> by (simp add: Let_def split: option.split)
  have "err = None" "n \<noteq> 0" using assms(4) code by (auto simp: log_Append_def split: option.splits if_splits)
  then have "append_loop F [e] [] l st = ((map (\<lambda>i. first + word_of_nat i) [0..<n], None), ?l, st1)"
    using code by (cases n) simp_all
  moreover have "maybeSync F ?l st1 = (None, ?l, st1)" using assms(3) by (simp add: maybeSync_def)
  ultimately have "st' = st1" using assms(4) by (simp add: log_Append_def)
  then show ?thesis using q by simp
qed

end

lemma lastAcked_one: "lastAcked (Inr (acked_line 1)) = (1, None)"
proof -
  have "digit_char 1 = CHR ''1''" by (rule of_char_eq_iff [where ?'a = nat, THEN iffD1]) (simp add: digit_char.simps)
  then have d: "dec_digits 1 = ''1''" by (subst dec_digits.simps) simp
  have line: "acked_line 1 = ''1'' @ CHR 0x0A # []" unfolding acked_line_def d ..
  have loop: "acked_loop [''1''] 0 = acked_loop [] (word_of_nat (digits_val ''1''))"
    by (rule acked_loop_digits [of _ 1]) (simp_all add: is_digit_def digits_val_def digit_val_def)
  have scan: "scan_lines (''1'' @ CHR 0x0A # []) = [''1'']"
    using scan_lines_line [of "''1''" "[]"] scan_lines_rest [of "[]"] by (simp add: is_digit_def)
  show ?thesis unfolding lastAcked_def sum.case line scan loop by (simp add: digits_val_def digit_val_def)
qed

end
