(* ===== verification/Spine_Corpus.thy ===== *)
theory Spine_Corpus
  imports Harness_Run
begin

text \<open>
  \<^verbatim>\<open>cmd/spine/sim.go\<close>: the simulations the command line offers and the regression corpus, a
  directory of seed files that each record the run a failure was reduced to.

  Flags are arguments, what is printed is a list of formats with the values they are filled with,
  and the directory is a parameter: a record of the calls made on it. A run is a parameter too,
  \<^const>\<open>harness_Run\<close> in the program; \<^const>\<open>None\<close> is a run that does not return.
\<close>

section \<open>Numbers in hexadecimal, lines\<close>

definition hex_char :: "nat \<Rightarrow> char" where
  "hex_char d = (if d < 10 then char_of (48 + d) else char_of (87 + d))"

text \<open>\<^verbatim>\<open>%016x\<close> of a \<^verbatim>\<open>uint64\<close>: all of its sixteen digits.\<close>

definition fmt_016x :: "64 word \<Rightarrow> string" where
  "fmt_016x w = map (\<lambda>i. hex_char (unat w div 16 ^ i mod 16)) (rev [0..<16])"

definition hex_value :: "char \<Rightarrow> nat option" where
  "hex_value c =
     (let n = of_char c :: nat in
      if 48 \<le> n \<and> n \<le> 57 then Some (n - 48)
      else if 97 \<le> n \<and> n \<le> 102 then Some (n - 87)
      else if 65 \<le> n \<and> n \<le> 70 then Some (n - 55)
      else None)"

fun hex_loop :: "string \<Rightarrow> nat \<Rightarrow> nat option" where
  "hex_loop [] n = Some n"
| "hex_loop (c # cs) n = (case hex_value c of None \<Rightarrow> None | Some d \<Rightarrow> hex_loop cs (16 * n + d))"

text \<open>\<^verbatim>\<open>strconv.ParseUint(s, 16, 64)\<close>.\<close>

definition ParseUint_hex :: "string \<Rightarrow> 64 word option" where
  "ParseUint_hex s =
     (if s = [] then None
      else case hex_loop s 0 of None \<Rightarrow> None | Some n \<Rightarrow> if n < 2 ^ 64 then Some (word_of_nat n) else None)"

text \<open>\<^verbatim>\<open>strings.SplitSeq(s, "\n")\<close>: one piece more than there are line ends.\<close>

definition newline :: char where "newline = CHR 0x0A"

fun split_lines :: "string \<Rightarrow> string list" where
  "split_lines [] = [[]]"
| "split_lines (c # s) =
     (if c = newline then [] # split_lines s
      else (case split_lines s of [] \<Rightarrow> [[c]] | l # ls \<Rightarrow> (c # l) # ls))"

text \<open>\<^verbatim>\<open>strings.Join(parts, ", ")\<close>.\<close>

fun join_comma :: "string list \<Rightarrow> string" where
  "join_comma [] = []"
| "join_comma [s] = s"
| "join_comma (s # t # ss) = s @ '', '' @ join_comma (t # ss)"

text \<open>\<^verbatim>\<open>%04d\<close>, the sign counting for the width.\<close>

definition fmt_04d :: "64 word \<Rightarrow> string" where
  "fmt_04d n = (if sint n < 0 then CHR ''-'' # zero_padded 3 (nat (- sint n)) else zero_padded 4 (nat (sint n)))"

section \<open>What is printed\<close>

datatype printed = P_int int | P_str string | P_err "error option" | P_hex "64 word"

datatype line = Printf string "printed list"

text \<open>A histogram in a fixed order. A count that is missing is zero.\<close>

definition formatCoverage :: "(Kind \<times> int) list \<Rightarrow> string" where
  "formatCoverage faults =
     join_comma (map (\<lambda>kind. Kind_String kind @ '' '' @
       fmt_d (word_of_int (case map_of faults kind of None \<Rightarrow> 0 | Some n \<Rightarrow> n))) Kinds)"

definition formatCounts :: "(string \<times> int) list \<Rightarrow> string" where
  "formatCounts counts =
     (let names = sort (map fst counts) in
      join_comma (map (\<lambda>name. name @ '' '' @
        fmt_d (word_of_int (case map_of counts name of None \<Rightarrow> 0 | Some n \<Rightarrow> n))) names))"

section \<open>The corpus\<close>

record corpusEntry =
  ce_file :: string
  ce_cfg :: harness_Config
  ce_ops :: "64 word"
  ce_signature :: "64 word"

definition zero_entry :: "string \<Rightarrow> corpusEntry" where
  "zero_entry file = \<lparr>ce_file = file, ce_cfg = zero_Config, ce_ops = 0, ce_signature = 0\<rparr>"

definition durabilityName :: "harness_Config \<Rightarrow> string" where
  "durabilityName cfg = (if hc_Durability cfg = [] then ''batch'' else hc_Durability cfg)"

text \<open>
  The calls made on the directory of the corpus. A path is the directory and the name that
  \<^verbatim>\<open>filepath.Join\<close> puts together.
\<close>

record 'd dir_ops =
  dir_Stat :: "string \<times> string \<Rightarrow> 'd \<Rightarrow> error option"
  dir_WriteFile :: "string \<times> string \<Rightarrow> string \<Rightarrow> 'd \<Rightarrow> error option \<times> 'd"
  dir_ReadDir :: "string \<Rightarrow> 'd \<Rightarrow> (string \<times> bool) list res"
  dir_ReadFile :: "string \<times> string \<Rightarrow> 'd \<Rightarrow> string res"

text \<open>The text of a seed file, line by line, each ended by a newline. \<open>why\<close> is \<^verbatim>\<open>%v\<close> of the failure.\<close>

definition corpus_lines :: "harness_Config \<Rightarrow> 64 word \<Rightarrow> 64 word \<Rightarrow> string \<Rightarrow> string list" where
  "corpus_lines cfg ops signature why =
     [''---'',
      ''seed: '' @ fmt_d (hc_Seed cfg),
      ''steps: '' @ fmt_d (hc_Steps cfg),
      ''workload: '' @ workloadName cfg,
      ''durability: '' @ durabilityName cfg,
      ''shape: '' @ Shape_String (hc_Shape cfg),
      ''ops: '' @ fmt_d ops,
      ''signature: '' @ fmt_016x signature,
      ''faults: '' @ FormatFaults (hc_Faults cfg),
      ''found: (fill in)'',
      ''milestone: M3'',
      ''fixed_in: pending'',
      ''---'',
      '''',
      ''Found by `task sim:sweep`. The invariant it broke:'',
      '''',
      ''    '' @ why,
      '''',
      ''Replace this paragraph with what went wrong and why, once it is understood. A'',
      ''seed file whose body is still the sweep's own output is a bug report nobody has'',
      ''read yet.'',
      '''',
      ''```'',
      ''task repro SEED='' @ fmt_d (hc_Seed cfg) @ '' FAULTS=\"'' @ FormatFaults (hc_Faults cfg) @ ''\"'',
      ''```'']"

definition corpus_body :: "harness_Config \<Rightarrow> 64 word \<Rightarrow> 64 word \<Rightarrow> string \<Rightarrow> string" where
  "corpus_body cfg ops signature why = concat (map (\<lambda>l. l @ [newline]) (corpus_lines cfg ops signature why))"

text \<open>\<open>msg\<close> is \<^verbatim>\<open>%v\<close> of an error, \<open>clean\<close> is \<^verbatim>\<open>harness.CleanOps\<close>.\<close>

definition writeCorpusEntry ::
  "(harness_Config \<Rightarrow> (error + 64 word \<times> 64 word) option) \<Rightarrow> (error option \<Rightarrow> string) \<Rightarrow> 'd dir_ops \<Rightarrow> string \<Rightarrow> Failure \<Rightarrow> 'd \<Rightarrow>
     ((string \<times> string) res \<times> 'd) option" where
  "writeCorpusEntry clean msg D dir f d =
     (let path = (dir, fmt_04d (hc_Seed (fl_Config f)) @ ''.md'') in
      if dir_Stat D path d = None then
        Some (Inl (Errorf ''corpus: %s already exists; a seed is never overwritten'' []), d)
      else do {
        counted \<leftarrow> clean (fl_Config f);
        Some (case counted of
          Inl err \<Rightarrow> (Inl (Errorf ''corpus: count operations for seed %d: %w'' [err]), d)
        | Inr (ops, signature) \<Rightarrow>
            (case dir_WriteFile D path (corpus_body (fl_Config f) ops signature (msg (fl_Err f))) d of
               (Some err, d) \<Rightarrow> (Inl (Errorf ''corpus: write %s: %w'' [err]), d)
             | (None, d) \<Rightarrow> (Inr path, d))) })"

text \<open>One line of a seed file; the two flags are \<^verbatim>\<open>haveSeed\<close> and \<^verbatim>\<open>haveFaults\<close>.\<close>

definition with_cfg :: "(harness_Config \<Rightarrow> harness_Config) \<Rightarrow> corpusEntry \<Rightarrow> corpusEntry" where
  "with_cfg g entry = entry\<lparr>ce_cfg := g (ce_cfg entry)\<rparr>"

definition parse_field ::
  "string \<Rightarrow> string \<Rightarrow> corpusEntry \<times> bool \<times> bool \<Rightarrow> (corpusEntry \<times> bool \<times> bool) res" where
  "parse_field key val st =
     (case st of (entry, haveSeed, haveFaults) \<Rightarrow>
        if key = ''seed'' then
          (case ParseInt64 val of
             Inl err \<Rightarrow> Inl (Errorf ''corpus: %s: seed %q is not a number'' [])
           | Inr n \<Rightarrow> Inr (with_cfg (\<lambda>c. c\<lparr>hc_Seed := n\<rparr>) entry, True, haveFaults))
        else if key = ''signature'' then
          (case ParseUint_hex val of
             None \<Rightarrow> Inl (Errorf ''corpus: %s: signature %q is not hexadecimal'' [])
           | Some n \<Rightarrow> Inr (entry\<lparr>ce_signature := n\<rparr>, haveSeed, haveFaults))
        else if key = ''ops'' then
          (case ParseInt64 val of
             Inl err \<Rightarrow> Inl (Errorf ''corpus: %s: ops %q is not a number'' [])
           | Inr n \<Rightarrow> Inr (entry\<lparr>ce_ops := n\<rparr>, haveSeed, haveFaults))
        else if key = ''shape'' then
          (case ParseShape val of
             Inl err \<Rightarrow> Inl (Errorf ''corpus: %s: %w'' [err])
           | Inr shape \<Rightarrow> Inr (with_cfg (\<lambda>c. c\<lparr>hc_Shape := shape\<rparr>) entry, haveSeed, haveFaults))
        else if key = ''workload'' then
          (if val \<in> {''mixed'', ''restart''} then Inr (with_cfg (\<lambda>c. c\<lparr>hc_Workload := val\<rparr>) entry, haveSeed, haveFaults)
           else Inl (Errorf ''corpus: %s: %q is not a workload'' []))
        else if key = ''durability'' then
          (if val \<in> {''batch'', ''sync'', ''os''} then Inr (with_cfg (\<lambda>c. c\<lparr>hc_Durability := val\<rparr>) entry, haveSeed, haveFaults)
           else Inl (Errorf ''corpus: %s: %q is not a durability mode'' []))
        else if key = ''steps'' then
          (case ParseInt64 val of
             Inl err \<Rightarrow> Inl (Errorf ''corpus: %s: steps %q is not a number'' [])
           | Inr n \<Rightarrow> Inr (with_cfg (\<lambda>c. c\<lparr>hc_Steps := n\<rparr>) entry, haveSeed, haveFaults))
        else if key = ''faults'' then
          (case ParseFaults val of
             Inl err \<Rightarrow> Inl (Errorf ''corpus: %s: %w'' [err])
           | Inr faults \<Rightarrow> Inr (with_cfg (\<lambda>c. c\<lparr>hc_Faults := faults\<rparr>) entry, haveSeed, True))
        else if key = ''point'' then
          (case ParseInt64 val of
             Inl err \<Rightarrow> Inl (Errorf ''corpus: %s: point %q is not a number'' [])
           | Inr n \<Rightarrow>
               Inr (with_cfg (\<lambda>c. c\<lparr>hc_Faults := [\<lparr>ft_Kind = Crash, ft_At = n, ft_Arg = 0\<rparr>]\<rparr>) entry, haveSeed, True))
        else Inr st)"

fun parse_lines ::
  "string list \<Rightarrow> corpusEntry \<times> bool \<times> bool \<Rightarrow> (corpusEntry \<times> bool \<times> bool) res" where
  "parse_lines [] st = Inr st"
| "parse_lines (line # lines) st =
     (case Cut line CHR '':'' of
        None \<Rightarrow> parse_lines lines st
      | Some (key, val) \<Rightarrow>
          (case parse_field (TrimSpace key) (TrimSpace val) st of
             Inl err \<Rightarrow> Inl err
           | Inr st \<Rightarrow> parse_lines lines st))"

definition parseCorpusEntry :: "string \<Rightarrow> string \<Rightarrow> corpusEntry res" where
  "parseCorpusEntry file body =
     (case parse_lines (split_lines body) (zero_entry file, False, False) of
        Inl err \<Rightarrow> Inl err
      | Inr (entry, haveSeed, haveFaults) \<Rightarrow>
          if \<not> haveSeed then Inl (Errorf ''corpus: %s has no seed in its front matter'' [])
          else if \<not> haveFaults then Inl (Errorf ''corpus: %s names no faults in its front matter'' [])
          else Inr entry)"

definition HasSuffix :: "string \<Rightarrow> string \<Rightarrow> bool" where
  "HasSuffix s suf \<longleftrightarrow> length suf \<le> length s \<and> drop (length s - length suf) s = suf"

fun load_loop :: "'d dir_ops \<Rightarrow> string \<Rightarrow> 'd \<Rightarrow> (string \<times> bool) list \<Rightarrow> corpusEntry list \<Rightarrow> corpusEntry list res" where
  "load_loop D dir d [] entries = Inr entries"
| "load_loop D dir d ((name, isdir) # names) entries =
     (if isdir \<or> \<not> HasSuffix name ''.md'' \<or> name = ''README.md'' then load_loop D dir d names entries
      else
        (case dir_ReadFile D (dir, name) d of
           Inl err \<Rightarrow> Inl (Errorf ''corpus: read %s: %w'' [err])
         | Inr body \<Rightarrow>
             (case parseCorpusEntry name body of
                Inl err \<Rightarrow> Inl err
              | Inr entry \<Rightarrow> load_loop D dir d names (entries @ [entry]))))"

text \<open>
  \<^verbatim>\<open>sort.Slice\<close> leaves the order of two entries with the same seed open; here they stay in the
  order of the directory.
\<close>

definition loadCorpus :: "'d dir_ops \<Rightarrow> string \<Rightarrow> 'd \<Rightarrow> corpusEntry list res" where
  "loadCorpus D dir d =
     (case dir_ReadDir D dir d of
        Inl err \<Rightarrow> Inl (Errorf ''corpus: read %s: %w'' [err])
      | Inr names \<Rightarrow>
          (case load_loop D dir d names [] of
             Inl err \<Rightarrow> Inl err
           | Inr entries \<Rightarrow> Inr (sort_key (\<lambda>e. sint (hc_Seed (ce_cfg e))) entries)))"

section \<open>The simulations\<close>

text \<open>The loop of \<^verbatim>\<open>simCorpus\<close>: what it printed, the two counters, and an error that ended it.\<close>

fun corpus_loop ::
  "(harness_Config \<Rightarrow> error option option) \<Rightarrow> (harness_Config \<Rightarrow> (error + 64 word \<times> 64 word) option) \<Rightarrow>
     corpusEntry list \<Rightarrow> nat \<Rightarrow> nat \<Rightarrow> line list \<Rightarrow> (line list \<times> nat \<times> nat \<times> error option) option" where
  "corpus_loop run clean [] failed drifted out = Some (out, failed, drifted, None)"
| "corpus_loop run clean (e # es) failed drifted out =
     (let who = [P_str (ce_file e), P_int (sint (hc_Seed (ce_cfg e))), P_str (FormatFaults (hc_Faults (ce_cfg e)))] in
      do { err \<leftarrow> run (ce_cfg e);
           if err \<noteq> None then
             corpus_loop run clean es (failed + 1) drifted (out @ [Printf ''FAIL %s (seed %d %s): %v'' (who @ [P_err err])])
           else
             let out = out @ [Printf ''ok   %s (seed %d %s)'' who] in
             if ce_ops e = 0 \<and> ce_signature e = 0 then corpus_loop run clean es failed drifted out
             else do {
               counted \<leftarrow> clean (ce_cfg e);
               (case counted of
                  Inl err \<Rightarrow> Some (out, failed, drifted, Some (Errorf ''corpus: %s: %w'' [err]))
                | Inr (ops, signature) \<Rightarrow>
                    if ce_ops e \<noteq> 0 \<and> ops \<noteq> ce_ops e then
                      corpus_loop run clean es failed (drifted + 1)
                        (out @ [Printf ''     drifted: the run is %d operations now, %d when the seed was recorded''
                          [P_int (sint ops), P_int (sint (ce_ops e))]])
                    else if ce_signature e \<noteq> 0 \<and> signature \<noteq> ce_signature e then
                      corpus_loop run clean es failed (drifted + 1)
                        (out @ [Printf ''     drifted: the run is the same length and a different shape (%016x, recorded %016x)''
                          [P_hex signature, P_hex (ce_signature e)]])
                    else corpus_loop run clean es failed drifted out) } })"

definition simCorpus ::
  "(harness_Config \<Rightarrow> error option option) \<Rightarrow> (harness_Config \<Rightarrow> (error + 64 word \<times> 64 word) option) \<Rightarrow>
     'd dir_ops \<Rightarrow> string \<Rightarrow> 'd \<Rightarrow> (line list \<times> error option) option" where
  "simCorpus run clean D dir d =
     (case loadCorpus D dir d of
        Inl err \<Rightarrow> Some ([], Some err)
      | Inr entries \<Rightarrow>
          if entries = [] then Some ([Printf ''corpus: no seeds in %s yet'' [P_str dir]], None)
          else do {
            (out, failed, drifted, err) \<leftarrow> corpus_loop run clean entries 0 0 [];
            Some (case err of
              Some err \<Rightarrow> (out, Some err)
            | None \<Rightarrow>
                (out @ [Printf ''corpus: %d seeds, %d failures, %d drifted''
                   [P_int (int (length entries)), P_int (int failed), P_int (int drifted)]],
                 if failed > 0 then Some (Errorf ''corpus: %d seeds still reproduce'' []) else None)) })"

text \<open>The lines that name the failures of a report.\<close>

definition fail_lines :: "64 word \<Rightarrow> Failure list \<Rightarrow> line list" where
  "fail_lines seed fs =
     map (\<lambda>f. Printf ''FAIL seed %d %s: %v''
       [P_int (sint seed), P_str (FormatFaults (hc_Faults (fl_Config f))), P_err (fl_Err f)]) fs"

fun matrix_seeds ::
  "64 word \<Rightarrow> int \<Rightarrow> nat list \<Rightarrow> Report \<Rightarrow> line list \<Rightarrow> (line list \<times> Report \<times> error option) option" where
  "matrix_seeds from points [] tot out = Some (out, tot, None)"
| "matrix_seeds from points (i # is) tot out =
     (let seed = from + word_of_nat i in
      do { (report, err) \<leftarrow> Matrix seed points;
           (case err of
              Some err \<Rightarrow> Some (out, tot, Some (Errorf ''seed %d: %w'' [err]))
            | None \<Rightarrow>
                matrix_seeds from points is
                  (tot\<lparr>rp_Runs := rp_Runs tot + rp_Runs report, rp_Failures := rp_Failures tot @ rp_Failures report,
                         rp_Compactions := rp_Compactions tot + rp_Compactions report,
                         rp_Dropped := rp_Dropped tot + rp_Dropped report,
                         rp_Snapshots := rp_Snapshots tot + rp_Snapshots report\<rparr>)
                  (out @ fail_lines seed (rp_Failures report) @
                   [Printf ''seed %d: %d crash points, %d failures''
                      [P_int (sint seed), P_int (rp_Runs report), P_int (int (length (rp_Failures report)))]])) })"

definition simCrashMatrix :: "int \<Rightarrow> 64 word \<Rightarrow> int \<Rightarrow> (line list \<times> error option) option" where
  "simCrashMatrix seeds from points =
     do { (out, tot, err) \<leftarrow> matrix_seeds from points [0..<nat seeds] zero_Report [];
          Some (case err of
            Some err \<Rightarrow> (out, Some err)
          | None \<Rightarrow>
              (out @ [Printf ''crash-matrix: %d points across %d seeds, %d failures''
                        [P_int (rp_Runs tot), P_int seeds, P_int (int (length (rp_Failures tot)))],
                      Printf ''exercised: %d compactions dropping %d records, %d snapshots''
                        [P_int (rp_Compactions tot), P_int (rp_Dropped tot), P_int (rp_Snapshots tot)]],
               if length (rp_Failures tot) > 0 then
                 Some (Errorf ''crash-matrix: %d crash points lost data that was acknowledged as durable'' [])
               else None)) }"

text \<open>The loop of \<^verbatim>\<open>simSweep\<close> over the failures.\<close>

fun sweep_failures ::
  "(harness_Config \<Rightarrow> (error + 64 word \<times> 64 word) option) \<Rightarrow> (error option \<Rightarrow> string) \<Rightarrow> 'd dir_ops \<Rightarrow> string \<Rightarrow>
     Failure list \<Rightarrow> line list \<Rightarrow> 'd \<Rightarrow> (line list \<times> error option \<times> 'd) option" where
  "sweep_failures clean msg D dir [] out d = Some (out, None, d)"
| "sweep_failures clean msg D dir (f # fs) out d =
     (let cfg = fl_Config f;
          out = out @ [Printf ''FAIL seed %d steps %d %s %s [%s] faults %s %v''
            [P_int (sint (hc_Seed cfg)), P_int (sint (hc_Steps cfg)), P_str (workloadName cfg), P_str (durabilityName cfg),
             P_str (Shape_String (hc_Shape cfg)), P_str (FormatFaults (hc_Faults cfg)), P_err (fl_Err f)]]
      in if dir = [] then sweep_failures clean msg D dir fs out d
         else do {
           (r, d) \<leftarrow> writeCorpusEntry clean msg D dir f d;
           (case r of
              Inl err \<Rightarrow> Some (out, Some err, d)
            | Inr path \<Rightarrow>
                sweep_failures clean msg D dir fs
                  (out @ [Printf ''     written to %s'' [P_str (fst path), P_str (snd path)]]) d) })"

definition simSweep ::
  "(error option \<Rightarrow> string) \<Rightarrow> 'd dir_ops \<Rightarrow> int \<Rightarrow> 64 word \<Rightarrow> bool \<Rightarrow> string \<Rightarrow> 'd \<Rightarrow> (line list \<times> error option \<times> 'd) option" where
  "simSweep msg D count from minimize dir d =
     do { report \<leftarrow> Sweep (\<lambda>e. msg (Some e)) from count minimize;
          (out, err, d) \<leftarrow> sweep_failures CleanOps msg D dir (rp_Failures report) [] d;
          Some (case err of
            Some err \<Rightarrow> (out, Some err, d)
          | None \<Rightarrow>
              (out @
               [Printf ''sweep: %d seeds, %d failures'' [P_int (rp_Runs report), P_int (int (length (rp_Failures report)))],
                Printf ''injected: %s'' [P_str (formatCoverage (rp_Faults report))],
                Printf ''modes: %s'' [P_str (formatCounts (rp_Modes report))],
                Printf ''workloads: %s'' [P_str (formatCounts (rp_Workloads report))],
                Printf ''shapes: %d distinct'' [P_int (int (length (rp_Shapes report)))],
                Printf ''exercised: %d compactions dropping %d records, %d snapshots (sampled)''
                  [P_int (rp_Compactions report), P_int (rp_Dropped report), P_int (rp_Snapshots report)]],
               if length (rp_Failures report) > 0 then Some (Errorf ''sweep: %d seeds broke an invariant'' []) else None, d)) }"

definition repro ::
  "64 word \<Rightarrow> 64 word \<Rightarrow> string \<Rightarrow> 64 word \<Rightarrow> string \<Rightarrow> string \<Rightarrow> string \<Rightarrow> (line list \<times> error option) option" where
  "repro seed steps faults point mode shape load =
     (if seed = 0 then Some ([], Some (Errorf ''repro: --seed is required'' []))
      else
        let spec = (if faults = [] \<and> sint point > 0 then ''crash@'' @ fmt_d point else faults) in
        if spec \<noteq> [] then
          (case ParseFaults spec of
             Inl err \<Rightarrow> Some ([], Some err)
           | Inr parsed \<Rightarrow>
               (case ParseShape shape of
                  Inl err \<Rightarrow> Some ([], Some err)
                | Inr parsedShape \<Rightarrow>
                    let cfg = \<lparr>hc_Seed = seed, hc_Steps = steps, hc_Faults = parsed, hc_Durability = mode,
                               hc_Shape = parsedShape, hc_Workload = load\<rparr>
                    in do {
                      err \<leftarrow> harness_Run cfg;
                      Some (case err of
                        Some err \<Rightarrow> ([], Some (Errorf ''seed %d %s reproduces: %w'' [err]))
                      | None \<Rightarrow> ([Printf ''seed %d %s: no failure'' [P_int (sint seed), P_str (FormatFaults parsed)]], None)) }))
        else do {
          (report, err) \<leftarrow> Matrix seed 0;
          Some (case err of
            Some err \<Rightarrow> ([], Some err)
          | None \<Rightarrow>
              (fail_lines seed (rp_Failures report) @
               [Printf ''seed %d: %d crash points, %d failures''
                  [P_int (sint seed), P_int (rp_Runs report), P_int (int (length (rp_Failures report)))]],
               if length (rp_Failures report) > 0 then Some (Errorf ''seed %d reproduces at %d points'' []) else None)) })"

section \<open>Hexadecimal, both ways\<close>

lemma hex_value_char [simp]: "d < 16 \<Longrightarrow> hex_value (hex_char d) = Some d"
  by (auto simp: hex_char_def hex_value_def Let_def)

lemma hex_loop_digits:
  "hex_loop (map (\<lambda>i. hex_char (n div 16 ^ i mod 16)) (rev [0..<k])) a = Some (a * 16 ^ k + n mod 16 ^ k)"
proof (induction k arbitrary: a)
  case (Suc k)
  have "n mod 16 ^ Suc k = 16 ^ k * (n div 16 ^ k mod 16) + n mod 16 ^ k"
    using mod_mult2_eq [of n "16 ^ k" 16] by (simp add: mult.commute)
  then show ?case using Suc.IH [of "16 * a + n div 16 ^ k mod 16"] by (simp add: algebra_simps)
qed simp

lemma ParseUint_hex_fmt [simp]: "ParseUint_hex (fmt_016x w) = Some w"
proof -
  have "unat w < 16 ^ 16" using unsigned_less [of w] by simp
  then have "hex_loop (fmt_016x w) 0 = Some (unat w)"
    using hex_loop_digits [of "unat w" 16 0] by (simp add: fmt_016x_def del: upt_rec_numeral upt_conv_Cons)
  moreover have "fmt_016x w \<noteq> []" by (simp add: fmt_016x_def)
  ultimately show ?thesis using unsigned_less [of w] by (simp add: ParseUint_hex_def)
qed

lemma hex_char_plain [simp]: "d < 16 \<Longrightarrow> plain (hex_char d)"
  by (auto simp: hex_char_def plain_def)

lemma fmt_016x_plain: "list_all plain (fmt_016x w)" "fmt_016x w \<noteq> []"
  by (simp_all add: fmt_016x_def list_all_iff)

section \<open>Lines\<close>

lemma split_lines_nonempty [simp]: "split_lines s \<noteq> []"
  by (induction s) (auto split: list.splits)

lemma split_lines_append: "split_lines (a @ newline # b) = split_lines a @ split_lines b"
proof (induction a)
  case (Cons c a)
  then show ?case by (cases "split_lines a") auto
qed simp

lemma split_lines_line [simp]: "newline \<notin> set a \<Longrightarrow> split_lines a = [a]"
  by (induction a) auto

lemma split_lines_lines: "split_lines (concat (map (\<lambda>l. l @ [newline]) ls)) = concat (map split_lines ls) @ [[]]"
  by (induction ls) (simp_all add: split_lines_append)

lemma plain_no_newline: "list_all plain s \<Longrightarrow> newline \<notin> set s"
  by (auto simp: list_all_iff plain_def newline_def)

lemma plain_or_space_line: "list_all (\<lambda>c. plain c \<or> c = CHR '' '') s \<Longrightarrow> newline \<notin> set s"
  by (auto simp: list_all_iff plain_def newline_def)

lemma join_space_spaced:
  "list_all (\<lambda>w. w \<noteq> [] \<and> list_all plain w) ws \<Longrightarrow> list_all (\<lambda>c. plain c \<or> c = CHR '' '') (join_space ws)"
  by (induction ws rule: join_space.induct) (auto simp: list_all_iff)

lemma TrimSpace_space [simp]: "TrimSpace (CHR '' '' # s) = TrimSpace s"
  unfolding TrimSpace_def by (subst trim_left.simps) simp

text \<open>A line that says nothing of the run.\<close>

definition field_names :: "string list" where
  "field_names = [''seed'', ''signature'', ''ops'', ''shape'', ''workload'', ''durability'', ''steps'', ''faults'', ''point'']"

definition silent :: "string \<Rightarrow> bool" where
  "silent line = (case Cut line CHR '':'' of None \<Rightarrow> True | Some (key, val) \<Rightarrow> TrimSpace key \<notin> set field_names)"

lemma parse_field_other: "key \<notin> set field_names \<Longrightarrow> parse_field key val st = Inr st"
  by (cases st) (simp add: parse_field_def field_names_def)

lemma parse_lines_silent: "list_all silent ls \<Longrightarrow> parse_lines (ls @ rest) st = parse_lines rest st"
  by (induction ls) (auto simp: silent_def parse_field_other split: option.splits)

text \<open>A line \<open>key: val\<close>.\<close>

definition trimmed :: "string \<Rightarrow> bool" where
  "trimmed s \<longleftrightarrow> s \<noteq> [] \<and> plain (hd s) \<and> plain (last s)"

lemma trimmed_plain: "list_all plain s \<Longrightarrow> s \<noteq> [] \<Longrightarrow> trimmed s"
  using hd_in_set [of s] last_in_set [of s] by (auto simp: trimmed_def list_all_iff)

lemma parse_lines_field:
  assumes "line = key @ CHR '':'' # CHR '' '' # val" "CHR '':'' \<notin> set key" "trimmed key" "trimmed val"
  shows "parse_lines (line # ls) st =
    (case parse_field key val st of Inl err \<Rightarrow> Inl err | Inr st \<Rightarrow> parse_lines ls st)"
  using assms(2-4) by (simp add: assms(1) trimmed_def TrimSpace_plain)

lemma trim_right_prefix: "prefix (trim_right s) s"
proof (induction s rule: trim_right.induct)
  case (1 s)
  have sub: "prefix t s" if "prefix t (take k s)" for t k using that take_is_prefix by (rule prefix_order.trans)
  show ?case by (subst trim_right.simps) (simp add: 1 sub [where k = "length s - 1"] sub [where k = "length s - 2"] sub [where k = "length s - 3"] del: One_nat_def)
qed

lemma TrimSpace_head:
  assumes "plain c"
  shows "TrimSpace (c # s) = [] \<or> hd (TrimSpace (c # s)) = c"
proof -
  have "trim_left (c # s) = c # s" using assms by (subst trim_left.simps) simp
  then have "prefix (TrimSpace (c # s)) (c # s)" using trim_right_prefix [of "c # s"] by (simp add: TrimSpace_def)
  then show ?thesis by (auto simp: prefix_Cons)
qed

lemma silent_head:
  assumes "plain c" "c \<notin> set (map hd field_names)" "CHR '':'' \<noteq> c"
  shows "silent (c # s)"
proof -
  have "TrimSpace key \<notin> set field_names" if "Cut (c # s) CHR '':'' = Some (key, val)" for key val
  proof
    assume k: "TrimSpace key \<in> set field_names"
    have "key = c # takeWhile (\<lambda>x. x \<noteq> CHR '':'') s" using that assms(3) by (auto simp: Cut_def split: if_splits)
    then consider "TrimSpace key = []" | "hd (TrimSpace key) = c" using TrimSpace_head [OF assms(1)] by blast
    then show False
      using k assms(2) by cases (auto simp: field_names_def)
  qed
  then show ?thesis by (auto simp: silent_def split: option.splits)
qed

section \<open>A seed file is read back\<close>

text \<open>The configuration a seed file records: the names and the shape of the defaults written out.\<close>

definition recorded :: "harness_Config \<Rightarrow> harness_Config" where
  "recorded cfg =
     cfg\<lparr>hc_Durability := durabilityName cfg, hc_Shape := Shape_withDefaults (hc_Shape cfg), hc_Workload := workloadName cfg\<rparr>"

definition named :: "harness_Config \<Rightarrow> bool" where
  "named cfg \<longleftrightarrow> workloadName cfg \<in> {''mixed'', ''restart''} \<and> durabilityName cfg \<in> {''batch'', ''sync'', ''os''}"

lemma steps_loop_recorded: "steps_loop observe (recorded cfg) shape n step obs l src w st = steps_loop observe cfg shape n step obs l src w st"
proof (induction n arbitrary: step obs l src w st)
  case (Suc n)
  have "(hc_Workload (recorded cfg) = ''restart'') = (hc_Workload cfg = ''restart'')"
    "clockFaults (recorded cfg) step = clockFaults cfg step" for step
    by (simp_all add: recorded_def workloadName_def clockFaults_def)
  then show ?case by (simp only: steps_loop.simps Suc.IH)
qed simp

lemma runWorkload_recorded: "runWorkload (recorded cfg) st = runWorkload cfg st"
proof -
  have r: "durabilityOf (recorded cfg) = durabilityOf cfg" "run_steps (recorded cfg) = run_steps cfg"
    "hc_Seed (recorded cfg) = hc_Seed cfg" "Shape_withDefaults (hc_Shape (recorded cfg)) = Shape_withDefaults (hc_Shape cfg)"
    by (simp_all add: recorded_def durabilityOf_def durabilityName_def run_steps_def)
  show ?thesis unfolding runWorkload_def observeWorkload_def workload_config_def steps_loop_recorded r ..
qed

lemma Without_recorded: "Without (recorded cfg) = recorded (Without cfg)"
  by (simp add: Without_def recorded_def durabilityName_def workloadName_def)

lemma harness_Run_recorded: "harness_Run (recorded cfg) = harness_Run cfg"
proof -
  have r: "hc_Faults (recorded cfg) = hc_Faults cfg" "Shape_withDefaults (hc_Shape (recorded cfg)) = Shape_withDefaults (hc_Shape cfg)"
    by (simp_all add: recorded_def)
  show ?thesis unfolding harness_Run_def runWorkload_recorded r ..
qed

lemma CleanOps_recorded: "CleanOps (recorded cfg) = CleanOps cfg"
  by (simp add: CleanOps_def Without_recorded runWorkload_recorded)

lemma FormatFaults_trimmed: "trimmed (FormatFaults fs)"
  using join_space_ends [OF faults_plain, of fs] by (auto simp: FormatFaults_def trimmed_def plain_def)

lemma Shape_String_trimmed: "trimmed (Shape_String s)"
proof -
  have p: "list_all (\<lambda>w. w \<noteq> [] \<and> list_all plain w) (shape_fields (Shape_withDefaults s))" by (simp add: shape_fields_def plain_def)
  then show ?thesis using join_space_ends [OF p] by (simp add: Shape_String_fields shape_fields_def trimmed_def)
qed

lemma FormatFaults_line: "newline \<notin> set (FormatFaults fs)"
  using join_space_spaced [OF faults_plain, of fs] plain_or_space_line by (auto simp: FormatFaults_def newline_def)

lemma Shape_String_line: "newline \<notin> set (Shape_String s)"
proof -
  have p: "list_all (\<lambda>w. w \<noteq> [] \<and> list_all plain w) (shape_fields (Shape_withDefaults s))" by (simp add: shape_fields_def plain_def)
  show ?thesis using join_space_spaced [OF p] plain_or_space_line by (simp add: Shape_String_fields)
qed

text \<open>What is printed of a failure must not itself look like a field.\<close>

definition silent_text :: "string \<Rightarrow> bool" where
  "silent_text why \<longleftrightarrow> list_all silent (split_lines (''    '' @ why))"

lemma named_plain:
  assumes "named cfg"
  shows "trimmed (workloadName cfg)" "trimmed (durabilityName cfg)" "newline \<notin> set (workloadName cfg)" "newline \<notin> set (durabilityName cfg)"
  using assms by (auto simp: named_def trimmed_def plain_def newline_def)

lemma split_corpus_lines:
  assumes "named cfg"
  shows "concat (map split_lines (corpus_lines cfg ops signature why)) =
    take 16 (corpus_lines cfg ops signature why) @ split_lines (''    '' @ why) @ drop 17 (corpus_lines cfg ops signature why)"
proof -
  have "newline \<notin> set (fmt_d n)" for n by (rule plain_no_newline) simp
  moreover have "newline \<notin> set (fmt_016x signature)" by (rule plain_no_newline) (rule fmt_016x_plain)
  ultimately have "\<forall>l\<in>set (take 16 (corpus_lines cfg ops signature why)) \<union> set (drop 17 (corpus_lines cfg ops signature why)). newline \<notin> set l"
    using named_plain [OF assms] FormatFaults_line Shape_String_line by (simp add: corpus_lines_def newline_def)
  then have s: "map split_lines (take 16 (corpus_lines cfg ops signature why)) = map (\<lambda>l. [l]) (take 16 (corpus_lines cfg ops signature why))"
    "map split_lines (drop 17 (corpus_lines cfg ops signature why)) = map (\<lambda>l. [l]) (drop 17 (corpus_lines cfg ops signature why))"
    by auto
  have "corpus_lines cfg ops signature why =
      take 16 (corpus_lines cfg ops signature why) @ (''    '' @ why) # drop 17 (corpus_lines cfg ops signature why)"
    by (simp add: corpus_lines_def)
  then have "map split_lines (corpus_lines cfg ops signature why) =
      map split_lines (take 16 (corpus_lines cfg ops signature why)) @ split_lines (''    '' @ why) #
      map split_lines (drop 17 (corpus_lines cfg ops signature why))"
    by (metis (no_types) list.simps(9) map_append)
  then show ?thesis by (simp only: s concat_append concat.simps concat_map_singleton list.map_ident)
qed

lemma recorded_fields:
  "recorded cfg = \<lparr>hc_Seed = hc_Seed cfg, hc_Steps = hc_Steps cfg, hc_Faults = hc_Faults cfg, hc_Durability = durabilityName cfg,
     hc_Shape = Shape_withDefaults (hc_Shape cfg), hc_Workload = workloadName cfg\<rparr>"
  by (simp add: recorded_def)

lemma silent_word: "CHR '':'' \<notin> set l \<Longrightarrow> silent l"
  by (simp add: silent_def)

lemma parse_keyed_fields:
  assumes "named cfg"
  shows "parse_lines (take 9 (corpus_lines cfg ops signature why) @ ls) (zero_entry file, False, False) =
    parse_lines ls (\<lparr>ce_file = file, ce_cfg = recorded cfg, ce_ops = ops, ce_signature = signature\<rparr>, True, True)"
proof -
  note p = named_plain [OF assms] Shape_String_trimmed FormatFaults_trimmed trimmed_plain [OF fmt_d_plain fmt_d_nonempty]
    trimmed_plain [OF fmt_016x_plain]
  have names: "workloadName cfg = ''mixed'' \<or> workloadName cfg = ''restart''"
    "durabilityName cfg = ''batch'' \<or> durabilityName cfg = ''sync'' \<or> durabilityName cfg = ''os''"
    using assms by (auto simp: named_def)
  have k: "trimmed ''seed''" "trimmed ''steps''" "trimmed ''workload''" "trimmed ''durability''" "trimmed ''shape''" "trimmed ''ops''"
    "trimmed ''signature''" "trimmed ''faults''"
    by (simp_all add: trimmed_def plain_def)
  note step = parse_lines_field [where key = "''seed''"] parse_lines_field [where key = "''steps''"] parse_lines_field [where key = "''workload''"]
    parse_lines_field [where key = "''durability''"] parse_lines_field [where key = "''shape''"] parse_lines_field [where key = "''ops''"]
    parse_lines_field [where key = "''signature''"] parse_lines_field [where key = "''faults''"]
  have dashes: "parse_lines (''---'' # ls) st = parse_lines ls st" for ls st by simp
  show ?thesis
    using names
    by (simp add: corpus_lines_def dashes step p k parse_field_def with_cfg_def zero_entry_def ParseShape_String ParseFaults_FormatFaults
        recorded_fields zero_Config_def del: parse_lines.simps(2))
qed

lemma parse_corpus_body:
  assumes "named cfg" "silent_text why"
  shows "parseCorpusEntry file (corpus_body cfg ops signature why) =
    Inr \<lparr>ce_file = file, ce_cfg = recorded cfg, ce_ops = ops, ce_signature = signature\<rparr>"
proof -
  let ?ls = "corpus_lines cfg ops signature why"
  let ?mid = "[''found: (fill in)'', ''milestone: M3'', ''fixed_in: pending'', ''---'', '''',
      ''Found by `task sim:sweep`. The invariant it broke:'', '''']"
  have "take 16 ?ls = take 9 ?ls @ ?mid" by (simp add: corpus_lines_def)
  then have split: "split_lines (corpus_body cfg ops signature why) =
      take 9 ?ls @ ?mid @ split_lines (''    '' @ why) @ drop 17 ?ls @ [[]]"
    using split_corpus_lines [OF assms(1), of ops signature why] by (simp add: corpus_body_def split_lines_lines)
  have "silent ''found: (fill in)''" "silent ''fixed_in: pending''"
    by (simp_all add: silent_def Cut_def TrimSpace_plain plain_def field_names_def)
  moreover have "silent ''milestone: M3''" by (rule silent_head) (simp_all add: plain_def field_names_def)
  moreover have "silent ''Found by `task sim:sweep`. The invariant it broke:''"
    by (rule silent_head) (simp_all add: plain_def field_names_def)
  ultimately have q1: "list_all silent ?mid" by (simp add: silent_word)
  have "silent (CHR ''t'' # s)" for s by (rule silent_head) (simp_all add: plain_def field_names_def)
  then have q2: "list_all silent (drop 17 ?ls @ [[]])" by (simp add: corpus_lines_def silent_word)
  have q: "list_all silent (?mid @ split_lines (''    '' @ why) @ drop 17 ?ls @ [[]])"
    using q1 q2 assms(2) by (simp add: silent_text_def)
  have "parse_lines (split_lines (corpus_body cfg ops signature why)) (zero_entry file, False, False) =
      Inr (\<lparr>ce_file = file, ce_cfg = recorded cfg, ce_ops = ops, ce_signature = signature\<rparr>, True, True)"
    unfolding split parse_keyed_fields [OF assms(1)] using parse_lines_silent [OF q, of "[]"] by simp
  then show ?thesis by (simp add: parseCorpusEntry_def)
qed

section \<open>What a corpus run reports\<close>

definition passes :: "(harness_Config \<Rightarrow> error option option) \<Rightarrow> corpusEntry \<Rightarrow> bool" where
  "passes run e \<longleftrightarrow> run (ce_cfg e) = Some None"

definition drifts :: "(harness_Config \<Rightarrow> (error + 64 word \<times> 64 word) option) \<Rightarrow> corpusEntry \<Rightarrow> bool" where
  "drifts clean e =
     (case clean (ce_cfg e) of
        Some (Inr (ops, signature)) \<Rightarrow> ce_ops e \<noteq> 0 \<and> ops \<noteq> ce_ops e \<or> ce_signature e \<noteq> 0 \<and> signature \<noteq> ce_signature e
      | _ \<Rightarrow> False)"

lemma corpus_loop_counts:
  assumes "corpus_loop run clean es failed drifted out = Some (out', failed', drifted', None)"
  shows "failed' = failed + length (filter (\<lambda>e. \<not> passes run e) es) \<and>
    drifted' = drifted + length (filter (\<lambda>e. passes run e \<and> drifts clean e) es)"
  using assms
proof (induction es arbitrary: failed drifted out)
  case (Cons e es)
  obtain err where r: "run (ce_cfg e) = Some err" using Cons.prems by (cases "run (ce_cfg e)") (auto simp: Let_def)
  show ?case
  proof (cases "err = None")
    case False
    then show ?thesis using Cons.prems by (auto simp: r passes_def Let_def dest!: Cons.IH)
  next
    case True
    show ?thesis
    proof (cases "ce_ops e = 0 \<and> ce_signature e = 0")
      case True
      then have "\<not> drifts clean e" by (auto simp: drifts_def split: option.splits sum.splits)
      with True \<open>err = None\<close> show ?thesis using Cons.prems by (auto simp: r passes_def Let_def dest!: Cons.IH)
    next
      case False
      then obtain ops signature where c: "clean (ce_cfg e) = Some (Inr (ops, signature))"
        using Cons.prems \<open>err = None\<close> by (auto simp: r Let_def split: bind_splits sum.splits)
      show ?thesis
        using Cons.prems False \<open>err = None\<close> by (auto simp: r c Let_def passes_def drifts_def dest!: Cons.IH split: if_splits)
    qed
  qed
qed simp

lemma corpus_loop_error:
  assumes "corpus_loop run clean es failed drifted out = Some (out', failed', drifted', Some err)"
  shows "\<exists>e. err = Errorf ''corpus: %s: %w'' [e]"
  using assms
proof (induction es arbitrary: failed drifted out)
  case (Cons e es)
  obtain r where r: "run (ce_cfg e) = Some r" using Cons.prems by (cases "run (ce_cfg e)") (auto simp: Let_def)
  then show ?case
    using Cons.prems by (cases "clean (ce_cfg e)") (auto simp: Let_def split: if_splits sum.splits dest: Cons.IH)
qed simp

lemma load_loop_step:
  assumes "load_loop D dir d (n # names) acc = Inr es"
  obtains acc' where "load_loop D dir d names acc' = Inr es" "set acc \<subseteq> set acc'"
proof (cases "load_loop D dir d names acc = Inr es")
  case True
  then show ?thesis using that [of acc] by simp
next
  case False
  then obtain e where "load_loop D dir d names (acc @ [e]) = Inr es"
    using assms by (cases n) (auto split: if_splits sum.splits)
  then show ?thesis using that [of "acc @ [e]"] by auto
qed

lemma load_loop_keeps: "load_loop D dir d names acc = Inr es \<Longrightarrow> set acc \<subseteq> set es"
proof (induction names arbitrary: acc)
  case (Cons n names)
  from Cons.prems obtain acc' where "load_loop D dir d names acc' = Inr es" "set acc \<subseteq> set acc'" by (rule load_loop_step)
  then show ?case using Cons.IH by blast
qed simp

lemma load_loop_has:
  assumes "load_loop D dir d names acc = Inr es" "(name, False) \<in> set names" "HasSuffix name ''.md''" "name \<noteq> ''README.md''"
    "dir_ReadFile D (dir, name) d = Inr body"
  shows "\<exists>e\<in>set es. parseCorpusEntry name body = Inr e"
  using assms(1,2)
proof (induction names arbitrary: acc)
  case (Cons n names)
  show ?case
  proof (cases "n = (name, False)")
    case True
    then obtain e where e: "parseCorpusEntry name body = Inr e" "load_loop D dir d names (acc @ [e]) = Inr es"
      using Cons.prems(1) assms(3-5) by (auto split: sum.splits)
    then show ?thesis using load_loop_keeps [OF e(2)] by auto
  next
    case False
    from Cons.prems(1) obtain acc' where "load_loop D dir d names acc' = Inr es" by (rule load_loop_step)
    with False show ?thesis using Cons.IH Cons.prems(2) by auto
  qed
qed simp

lemma loadCorpus_has:
  assumes "loadCorpus D dir d = Inr es" "dir_ReadDir D dir d = Inr names" "(name, False) \<in> set names" "HasSuffix name ''.md''"
    "name \<noteq> ''README.md''" "dir_ReadFile D (dir, name) d = Inr body"
  shows "\<exists>e\<in>set es. parseCorpusEntry name body = Inr e"
proof -
  obtain es' where "load_loop D dir d names [] = Inr es'" "es = sort_key (\<lambda>e. sint (hc_Seed (ce_cfg e))) es'"
    using assms(1,2) by (auto simp: loadCorpus_def split: sum.splits)
  then show ?thesis using load_loop_has [OF _ assms(3-6), of "[]" es'] by simp
qed

definition summary_line :: "nat \<Rightarrow> nat \<Rightarrow> nat \<Rightarrow> line" where
  "summary_line seeds failed drifted =
     Printf ''corpus: %d seeds, %d failures, %d drifted'' [P_int (int seeds), P_int (int failed), P_int (int drifted)]"

lemma simCorpus_done:
  assumes "simCorpus run clean D dir d = Some (out, err)" "loadCorpus D dir d = Inr es" "es \<noteq> []"
    "\<forall>e. err \<noteq> Some (Errorf ''corpus: %s: %w'' [e])"
  shows "last out = summary_line (length es) (length (filter (\<lambda>e. \<not> passes run e) es))
      (length (filter (\<lambda>e. passes run e \<and> drifts clean e) es))"
    "err = (if list_all (passes run) es then None else Some (Errorf ''corpus: %d seeds still reproduce'' []))"
proof -
  obtain out' failed drifted where l: "corpus_loop run clean es 0 0 [] = Some (out', failed, drifted, None)"
    "out = out' @ [summary_line (length es) failed drifted]"
    "err = (if failed > 0 then Some (Errorf ''corpus: %d seeds still reproduce'' []) else None)"
    using assms(1,2,4) corpus_loop_error [where run = run and clean = clean]
    by (cases "corpus_loop run clean es 0 0 []") (fastforce simp: simCorpus_def assms(3) summary_line_def split: option.splits)+
  have c: "failed = length (filter (\<lambda>e. \<not> passes run e) es)" "drifted = length (filter (\<lambda>e. passes run e \<and> drifts clean e) es)"
    using corpus_loop_counts [OF l(1)] by simp_all
  show "last out = summary_line (length es) (length (filter (\<lambda>e. \<not> passes run e) es))
      (length (filter (\<lambda>e. passes run e \<and> drifts clean e) es))"
    by (simp add: l(2) c)
  have "failed > 0 \<longleftrightarrow> \<not> list_all (passes run) es" by (auto simp: c(1) list_all_iff filter_empty_conv)
  then show "err = (if list_all (passes run) es then None else Some (Errorf ''corpus: %d seeds still reproduce'' []))"
    by (simp add: l(3))
qed

text \<open>The name a seed file gets is one the corpus is read from.\<close>

lemma seed_name: "HasSuffix (fmt_04d n @ ''.md'') ''.md''" "fmt_04d n @ ''.md'' \<noteq> ''README.md''"
proof -
  show "HasSuffix (fmt_04d n @ ''.md'') ''.md''" by (simp add: HasSuffix_def)
  have "is_digit (hd (zero_padded w k))" for w k
    using zero_padded_props [of w k] hd_in_set [of "zero_padded w k"] by (auto simp: list_all_iff)
  moreover have "\<not> is_digit CHR ''R''" by (simp add: is_digit_def)
  ultimately have "hd (zero_padded w k) \<noteq> CHR ''R''" for w k by metis
  then have "hd (fmt_04d n) \<noteq> CHR ''R''" by (simp add: fmt_04d_def)
  moreover have "fmt_04d n \<noteq> []" by (simp add: fmt_04d_def)
  ultimately show "fmt_04d n @ ''.md'' \<noteq> ''README.md''" by (cases "fmt_04d n") auto
qed

lemma writeCorpusEntry_done:
  assumes "writeCorpusEntry clean msg D dir f d = Some (Inr path, d')"
  obtains ops signature where "path = (dir, fmt_04d (hc_Seed (fl_Config f)) @ ''.md'')" "clean (fl_Config f) = Some (Inr (ops, signature))"
    "dir_WriteFile D path (corpus_body (fl_Config f) ops signature (msg (fl_Err f))) d = (None, d')"
  using assms by (auto simp: writeCorpusEntry_def Let_def split: if_splits bind_splits sum.splits prod.splits option.splits)

text \<open>A directory that lives in memory.\<close>

definition mem_dir :: "((string \<times> string) \<times> string) list dir_ops" where
  "mem_dir = \<lparr>
     dir_Stat = (\<lambda>p d. case map_of d p of None \<Rightarrow> Some (Sentinel OsNotExist) | Some t \<Rightarrow> None),
     dir_WriteFile = (\<lambda>p t d. (None, (p, t) # d)),
     dir_ReadDir = (\<lambda>dir d. Inr (map (\<lambda>n. (n, False)) (remdups (map (snd \<circ> fst) (filter (\<lambda>e. fst (fst e) = dir) d))))),
     dir_ReadFile = (\<lambda>p d. case map_of d p of None \<Rightarrow> Inl (Sentinel OsNotExist) | Some t \<Rightarrow> Inr t)\<rparr>"

lemma mem_dir_keeps:
  "dir_WriteFile mem_dir p t s = (None, s') \<Longrightarrow>
     dir_ReadFile mem_dir p s' = Inr t \<and> (\<exists>names. dir_ReadDir mem_dir (fst p) s' = Inr names \<and> (snd p, False) \<in> set names)"
  by (cases p) (auto simp: mem_dir_def image_iff)

text \<open>A histogram's line does not depend on the order its counts were made in.\<close>

lemma formatCounts_order:
  assumes "map_of a = map_of b" "distinct (map fst a)" "distinct (map fst b)"
  shows "formatCounts a = formatCounts b"
proof -
  have "set (map fst a) = set (map fst b)" using assms(1) by (metis dom_map_of_conv_image_fst list.set_map)
  then have "sort (map fst a) = sort (map fst b)" using assms(2,3) by (metis sorted_list_of_set_sort_remdups distinct_remdups_id)
  then show ?thesis by (simp add: formatCounts_def assms(1))
qed

end
