(* ===== verification/Spine_Verify.thy ===== *)
theory Spine_Verify
  imports Spine_Corpus Ledger
begin

text \<open>
  \<^verbatim>\<open>cmd/spine/verify.go\<close>: the determinism gate. It runs the ledger workload for a range of
  seeds, each seed several times, compares the chains, and folds them into one digest.

  A run is a parameter that is told how often its seed has been run before: \<open>\<lambda>_. ledger_Run\<close> in
  the program. Comparing runs means something only where that number could matter. The hash that is
  written to piece by piece is the list of the bytes written so far.
\<close>

section \<open>The gate\<close>

definition digest_String :: "Digest \<Rightarrow> string" where
  "digest_String d = concat (map (\<lambda>b. [hex_char (unat b div 16), hex_char (unat b mod 16)]) d)"

definition verifyDomain :: bytes where
  "verifyDomain = bytes_of (''event-spine/verify/determinism/v1'' @ [CHR 0x00])"

type_synonym counted_run = "nat \<Rightarrow> Workload \<Rightarrow> (error + Result) option"

record tally =
  ta_agg :: bytes
  ta_steps :: "64 word"
  ta_rejected :: "64 word"
  ta_absorbed :: int
  ta_out :: "line list"

text \<open>The runs of one seed after the first.\<close>

fun repeat_loop :: "counted_run \<Rightarrow> Workload \<Rightarrow> Digest \<Rightarrow> nat list \<Rightarrow> error option option" where
  "repeat_loop run w ch [] = Some None"
| "repeat_loop run w ch (i # is) =
     do { r \<leftarrow> run i w;
          (case r of
             Inl err \<Rightarrow> Some (Some (Errorf ''seed %d, repeat %d: %w'' [err]))
           | Inr again \<Rightarrow>
               if rs_Chain again \<noteq> ch then Some (Some (Errorf ''seed %d is not deterministic within one process'' []))
               else repeat_loop run w ch is) }"

definition seed_workload :: "int \<Rightarrow> int \<Rightarrow> nat \<Rightarrow> Workload" where
  "seed_workload commands accounts seed = \<lparr>wl_Seed = word_of_nat seed, wl_Commands = commands, wl_Accounts = accounts\<rparr>"

text \<open>What one seed adds to the aggregate.\<close>

definition seed_bytes :: "nat \<Rightarrow> Digest \<Rightarrow> bytes" where
  "seed_bytes seed ch = le_bytes 8 (word_of_nat seed :: 64 word) @ ch"

definition add_seed :: "bool \<Rightarrow> nat \<Rightarrow> Result \<Rightarrow> tally \<Rightarrow> tally" where
  "add_seed verbose seed fst_run t =
     t\<lparr>ta_agg := ta_agg t @ seed_bytes seed (rs_Chain fst_run),
       ta_steps := ta_steps t + rs_Steps fst_run,
       ta_rejected := ta_rejected t + rs_Rejected fst_run,
       ta_out := ta_out t @
         (if verbose then
            [Printf ''seed %-6d chain %s steps %d rejected %d''
               [P_int (int seed), P_str (digest_String (rs_Chain fst_run)),
                P_int (sint (rs_Steps fst_run)), P_int (sint (rs_Rejected fst_run))]]
          else [])\<rparr>"

fun verify_seeds ::
  "counted_run \<Rightarrow> int \<Rightarrow> int \<Rightarrow> nat \<Rightarrow> bool \<Rightarrow> nat list \<Rightarrow> tally \<Rightarrow> (tally \<times> error option) option" where
  "verify_seeds run commands accounts repeat verbose [] t = Some (t, None)"
| "verify_seeds run commands accounts repeat verbose (seed # seeds) t =
     (let w = seed_workload commands accounts seed in
      do { r \<leftarrow> run 0 w;
           (case r of
              Inl err \<Rightarrow> Some (t, Some (Errorf ''seed %d: %w'' [err]))
            | Inr fst_run \<Rightarrow> do {
                again \<leftarrow> repeat_loop run w (rs_Chain fst_run) [1..<repeat];
                (case again of
                   Some err \<Rightarrow> Some (t, Some err)
                 | None \<Rightarrow>
                     if rs_Absorbed fst_run then
                       Some (t\<lparr>ta_absorbed := ta_absorbed t + 1\<rparr>,
                         Some (Errorf ''seed %d reached an absorbing state'' []))
                     else
                       verify_seeds run commands accounts repeat verbose seeds
                         (add_seed verbose seed fst_run t)) }) })"

definition agg_header :: "int \<Rightarrow> int \<Rightarrow> bytes" where
  "agg_header commands accounts =
     verifyDomain @ le_bytes 8 (word_of_int commands :: 64 word) @ le_bytes 8 (word_of_int accounts :: 64 word)"

definition verifyDeterminism ::
  "counted_run \<Rightarrow> int \<Rightarrow> int \<Rightarrow> int \<Rightarrow> int \<Rightarrow> bool \<Rightarrow> (line list \<times> error option) option" where
  "verifyDeterminism run seeds commands accounts repeat verbose =
     (if seeds < 1 then Some ([], Some (Errorf ''seeds must be at least 1, got %d'' []))
      else if repeat < 1 then Some ([], Some (Errorf ''repeat must be at least 1, got %d'' []))
      else do {
        (t, err) \<leftarrow> verify_seeds run commands accounts (nat repeat) verbose [1..<Suc (nat seeds)]
          \<lparr>ta_agg = agg_header commands accounts, ta_steps = 0, ta_rejected = 0, ta_absorbed = 0, ta_out = []\<rparr>;
        Some (case err of
          Some err \<Rightarrow> (ta_out t, Some err)
        | None \<Rightarrow>
            (ta_out t @
             [Printf ''seeds     %d'' [P_int seeds], Printf ''repeat    %d'' [P_int repeat],
              Printf ''steps     %d'' [P_int (sint (ta_steps t))], Printf ''rejected  %d'' [P_int (sint (ta_rejected t))],
              Printf ''absorbed  %d'' [P_int (ta_absorbed t)],
              Printf ''digest    %s'' [P_str (digest_String (Sum256 (ta_agg t)))]], None)) })"

section \<open>What it has checked\<close>

text \<open>A seed the gate lets through: every run of it returned the chain of the first, which was not absorbed.\<close>

definition seed_agrees :: "counted_run \<Rightarrow> int \<Rightarrow> int \<Rightarrow> nat \<Rightarrow> nat \<Rightarrow> Result \<Rightarrow> bool" where
  "seed_agrees run commands accounts repeat seed first \<longleftrightarrow>
     run 0 (seed_workload commands accounts seed) = Some (Inr first) \<and> \<not> rs_Absorbed first \<and>
     (\<forall>i<repeat. \<exists>again. run i (seed_workload commands accounts seed) = Some (Inr again) \<and> rs_Chain again = rs_Chain first)"

lemma repeat_loop_None:
  "repeat_loop run w ch is = Some None \<Longrightarrow> \<forall>i\<in>set is. \<exists>again. run i w = Some (Inr again) \<and> rs_Chain again = ch"
  by (induction "is") (auto split: bind_splits sum.splits if_splits)

lemma verify_seeds_done:
  assumes "verify_seeds run commands accounts repeat verbose seeds t = Some (t', None)"
  shows "\<exists>rs. list_all2 (seed_agrees run commands accounts repeat) seeds rs \<and>
    ta_agg t' = ta_agg t @ concat (map2 (\<lambda>s r. seed_bytes s (rs_Chain r)) seeds rs) \<and>
    ta_steps t' = ta_steps t + sum_list (map rs_Steps rs) \<and> ta_rejected t' = ta_rejected t + sum_list (map rs_Rejected rs) \<and>
    ta_absorbed t' = ta_absorbed t"
  using assms
proof (induction seeds arbitrary: t)
  case (Cons seed seeds)
  let ?w = "seed_workload commands accounts seed"
  obtain r where r: "run 0 ?w = Some (Inr r)" "repeat_loop run ?w (rs_Chain r) [1..<repeat] = Some None" "\<not> rs_Absorbed r"
    using Cons.prems by (auto simp: Let_def split: bind_splits sum.splits option.splits if_splits)
  have "seed_agrees run commands accounts repeat seed r"
    unfolding seed_agrees_def using r repeat_loop_None [OF r(2)]
    by (metis atLeastLessThan_iff atLeastLessThan_upt gr_zeroI less_one linorder_not_less)
  moreover have "verify_seeds run commands accounts repeat verbose seeds (add_seed verbose seed r t) = Some (t', None)"
    using Cons.prems r by (simp add: Let_def del: One_nat_def)
  from Cons.IH [OF this] obtain rs where rs: "list_all2 (seed_agrees run commands accounts repeat) seeds rs"
    "ta_agg t' = ta_agg (add_seed verbose seed r t) @ concat (map2 (\<lambda>s r. seed_bytes s (rs_Chain r)) seeds rs)"
    "ta_steps t' = ta_steps (add_seed verbose seed r t) + sum_list (map rs_Steps rs)"
    "ta_rejected t' = ta_rejected (add_seed verbose seed r t) + sum_list (map rs_Rejected rs)"
    "ta_absorbed t' = ta_absorbed (add_seed verbose seed r t)"
    by blast
  ultimately show ?case by (intro exI [of _ "r # rs"]) (simp add: add_seed_def)
qed simp

text \<open>All that has been hashed when the seeds are done.\<close>

definition agg_of :: "int \<Rightarrow> int \<Rightarrow> nat list \<Rightarrow> Result list \<Rightarrow> bytes" where
  "agg_of commands accounts seeds rs = agg_header commands accounts @ concat (map2 (\<lambda>s r. seed_bytes s (rs_Chain r)) seeds rs)"

text \<open>The aggregate tells the chains it was folded from.\<close>

lemma seed_bytes_inject:
  assumes "length rs = length seeds" "length rs' = length seeds" "\<forall>r\<in>set rs \<union> set rs'. length (rs_Chain r) = 32"
    and "concat (map2 (\<lambda>s r. seed_bytes s (rs_Chain r)) seeds rs) = concat (map2 (\<lambda>s r. seed_bytes s (rs_Chain r)) seeds rs')"
  shows "map rs_Chain rs = map rs_Chain rs'"
  using assms
proof (induction seeds arbitrary: rs rs')
  case (Cons seed seeds)
  obtain a as where a: "rs = a # as" using Cons.prems(1) by (cases rs) auto
  obtain b bs where b: "rs' = b # bs" using Cons.prems(2) by (cases rs') auto
  have "rs_Chain a = rs_Chain b" and "concat (map2 (\<lambda>s r. seed_bytes s (rs_Chain r)) seeds as) = concat (map2 (\<lambda>s r. seed_bytes s (rs_Chain r)) seeds bs)"
    using Cons.prems by (simp_all add: a b seed_bytes_def)
  then show ?case using Cons.IH [of as bs] Cons.prems by (simp add: a b)
qed simp

text \<open>The gate on the program's own runs: a repeat agrees with the first run.\<close>

lemma repeat_loop_ledger:
  "ledger_Run w = Some (Inr r) \<Longrightarrow> repeat_loop (\<lambda>_. ledger_Run) w (rs_Chain r) is = Some None"
  by (induction "is") simp_all

lemma verify_seeds_ledger:
  assumes "1 \<le> commands" "commands < 2 ^ 50" "2 \<le> accounts" "accounts \<le> 2 ^ 16"
  shows "\<exists>t' err. verify_seeds (\<lambda>_. ledger_Run) commands accounts repeat verbose seeds t = Some (t', err) \<and>
    (err = None \<longleftrightarrow> (\<forall>s\<in>set seeds. \<forall>r. ledger_Run (seed_workload commands accounts s) = Some (Inr r) \<longrightarrow> \<not> rs_Absorbed r)) \<and>
    (err \<noteq> None \<longrightarrow> err = Some (Errorf ''seed %d reached an absorbing state'' []))"
proof (induction seeds arbitrary: t)
  case (Cons seed seeds)
  obtain r where "ledger_Run (seed_workload commands accounts seed) = Some (Inr r)"
    using ledger_Run_ok [of "seed_workload commands accounts seed"] assms by (auto simp: seed_workload_def)
  then show ?case using Cons.IH [of "add_seed verbose seed r t"] by (auto simp: Let_def repeat_loop_ledger)
qed simp

text \<open>Two digests that print alike are equal.\<close>

lemma hex_char_inject: "a < 16 \<Longrightarrow> b < 16 \<Longrightarrow> hex_char a = hex_char b \<Longrightarrow> a = b"
  using hex_value_char by (metis option.inject)

lemma digest_String_inject: "digest_String a = digest_String b \<Longrightarrow> a = b"
proof (induction a arbitrary: b)
  case Nil
  then show ?case by (cases b) (simp_all add: digest_String_def)
next
  case (Cons x a)
  then obtain y b' where b: "b = y # b'" by (cases b) (simp_all add: digest_String_def)
  have byte: "unat (z :: 8 word) < 256" for z using unsigned_less [of z] by simp
  have "unat x div 16 = unat y div 16" "unat x mod 16 = unat y mod 16"
    using Cons.prems byte [of x] byte [of y] by (auto simp: b digest_String_def less_mult_imp_div_less intro!: hex_char_inject)
  then have "unat x = unat y" by (metis div_mult_mod_eq)
  moreover have "a = b'" using Cons by (simp add: b digest_String_def)
  ultimately show ?case by (simp add: b word_unat_eq_iff)
qed

end
