(* ===== verification/Spine_Replay.thy ===== *)
theory Spine_Replay
  imports Spine_Corpus
begin

text \<open>
  \<^verbatim>\<open>cmd/spine/replay.go\<close> and \<^verbatim>\<open>FormatState\<close> of the harness: stepping through a run, describing one
  step of it, and comparing it with the same seed without faults. \<open>msg\<close> is \<^verbatim>\<open>%v\<close> of an error.
\<close>

section \<open>One line of a scrub\<close>

definition pad_left :: "nat \<Rightarrow> string \<Rightarrow> string" where
  "pad_left w s = replicate (w - length s) CHR '' '' @ s"

definition pad_right :: "nat \<Rightarrow> string \<Rightarrow> string" where
  "pad_right w s = s @ replicate (w - length s) CHR '' ''"

fun format_groups :: "(string \<times> Offset) list \<Rightarrow> string list \<Rightarrow> string" where
  "format_groups groups [] = []"
| "format_groups groups (name # names) =
     (case map_of groups name of None \<Rightarrow> [] | Some off \<Rightarrow> '' '' @ name @ ''='' @ dec_digits (unat off)) @ format_groups groups names"

definition FormatState :: "(error \<Rightarrow> string) \<Rightarrow> State \<Rightarrow> string" where
  "FormatState msg s =
     (let groups = format_groups (sa_Groups s) groupNames;
          snap = (if sint (sa_Snapshot s) \<ge> 0 then fmt_d (sa_Snapshot s) else ''none'');
          text = ''step '' @ pad_left 2 (dec_digits (sa_Step s)) @ ''  offsets ['' @ dec_digits (unat (sa_First s)) @ '','' @
            dec_digits (unat (sa_Tail s)) @ '')  records '' @ pad_left 3 (dec_digits (sa_Records s)) @ ''  segments '' @
            dec_digits (sa_Segments s) @ ''  snapshot '' @ pad_right 4 snap @ '' digest '' @ fmt_016x (sa_Digest s) @ groups
      in case sa_Err s of None \<Rightarrow> text | Some err \<Rightarrow> text @ ''  unreadable: '' @ msg err)"

section \<open>The views\<close>

definition printHeader :: "harness_Config \<Rightarrow> Trace \<Rightarrow> line list" where
  "printHeader cfg tr =
     [Printf ''seed %d  steps %d  faults %s''
        [P_int (sint (hc_Seed cfg)), P_int (sint (hc_Steps cfg)), P_str (FormatFaults (hc_Faults cfg))],
      Printf ''signature %016x over %d operations'' [P_hex (tr_Signature tr), P_int (int (length (tr_Ops tr)))]]"

definition printScrub :: "(error \<Rightarrow> string) \<Rightarrow> Trace \<Rightarrow> line list" where
  "printScrub msg tr = map (\<lambda>s. Printf ''%s'' [P_str (FormatState msg s)]) (tr_States tr)"

text \<open>A line on an operation, with the fault that fired there.\<close>

definition op_line :: "string \<Rightarrow> printed list \<Rightarrow> Op \<Rightarrow> line" where
  "op_line fmt args op =
     (case op_Fault op of
        None \<Rightarrow> Printf fmt args
      | Some fault \<Rightarrow> Printf (fmt @ ''   <- %s fired here'') (args @ [P_str (Kind_String (ft_Kind fault))]))"

definition printOps :: "Trace \<Rightarrow> line list" where
  "printOps tr =
     map (\<lambda>op. op_line ''op %3d  step %2d  %-8s %s''
       [P_int (sint (op_Index op)), P_int (sint (op_Step op)), P_str (op_Kind op), P_str (op_Name op)] op) (tr_Ops tr)"

definition step_ops :: "int \<Rightarrow> Trace \<Rightarrow> line list" where
  "step_ops at tr =
     map (\<lambda>op. op_line ''  op %3d  %-8s %s'' [P_int (sint (op_Index op)), P_str (op_Kind op), P_str (op_Name op)] op)
       (filter (\<lambda>op. sint (op_Step op) = at) (tr_Ops tr))"

definition printOutcome :: "Trace \<Rightarrow> line list" where
  "printOutcome tr =
     (if tr_Stopped tr \<noteq> None then [Printf ''the run stopped: %v'' [P_err (tr_Stopped tr)]] else []) @
     (if tr_Failure tr \<noteq> None then [Printf ''INVARIANT BROKEN: %v'' [P_err (tr_Failure tr)]]
      else [Printf ''every invariant held'' []])"

text \<open>The state after a step, the first of the trace that carries its number.\<close>

definition state_at :: "int \<Rightarrow> Trace \<Rightarrow> State option" where
  "state_at at tr = List.find (\<lambda>s. int (sa_Step s) = at) (tr_States tr)"

definition printStep :: "(error \<Rightarrow> string) \<Rightarrow> Trace \<Rightarrow> int \<Rightarrow> line list \<times> error option" where
  "printStep msg tr at =
     (case state_at at tr of
        None \<Rightarrow> ([], Some (Errorf ''replay: the run has no step %d; it reached %d'' []))
      | Some found \<Rightarrow>
          ([Printf ''%s'' [P_str (FormatState msg found)], Printf ''operations during step %d:'' [P_int at]] @
           step_ops at tr @ printOutcome tr, None))"

definition describeOrAbsent :: "(error \<Rightarrow> string) \<Rightarrow> Trace \<Rightarrow> int \<Rightarrow> string" where
  "describeOrAbsent msg tr at =
     (case state_at at tr of
        Some s \<Rightarrow> FormatState msg s
      | None \<Rightarrow> ''step '' @ fmt_d (word_of_int at) @ '' never completed'')"

definition printDivergingOps :: "Trace \<Rightarrow> int \<Rightarrow> line list" where
  "printDivergingOps tr at = Printf ''what the faulted run did during step %d:'' [P_int at] # step_ops at tr"

text \<open>The first view prints the zero state where there is none; a divergence that is not a truncation has both.\<close>

definition format_opt :: "(error \<Rightarrow> string) \<Rightarrow> State option \<Rightarrow> string" where
  "format_opt msg s = (case s of None \<Rightarrow> FormatState msg ((blank_State 0)\<lparr>sa_Snapshot := 0\<rparr>) | Some s \<Rightarrow> FormatState msg s)"

definition report_divergence :: "(error \<Rightarrow> string) \<Rightarrow> Trace \<Rightarrow> Trace \<Rightarrow> Divergence \<Rightarrow> line list" where
  "report_divergence msg faulted clean dv =
     (if dv_Step dv < 0 then [Printf ''the two runs agree at every step: the faults changed nothing observable'' []]
      else if dv_Truncated dv then
        [Printf ''the runs agree through step %d, and then one of them stops'' [P_int (dv_Step dv - 1)],
         Printf ''  faulted: %s'' [P_str (describeOrAbsent msg faulted (dv_Step dv))],
         Printf ''  clean:   %s'' [P_str (describeOrAbsent msg clean (dv_Step dv))]]
      else
        [Printf ''first divergence at step %d'' [P_int (dv_Step dv)],
         Printf ''  faulted: %s'' [P_str (format_opt msg (dv_A dv))],
         Printf ''  clean:   %s'' [P_str (format_opt msg (dv_B dv))]] @
        printDivergingOps faulted (dv_Step dv))"

definition replayDiff :: "(error \<Rightarrow> string) \<Rightarrow> harness_Config \<Rightarrow> (line list \<times> error option) option" where
  "replayDiff msg cfg =
     do { (faulted, clean, dv) \<leftarrow> Diff cfg (Without cfg);
          Some ([Printf ''seed %d  faults %s'' [P_int (sint (hc_Seed cfg)), P_str (FormatFaults (hc_Faults cfg))],
             Printf ''  faulted: signature %016x, %d steps'' [P_hex (tr_Signature faulted), P_int (int (length (tr_States faulted)))],
             Printf ''  clean:   signature %016x, %d steps'' [P_hex (tr_Signature clean), P_int (int (length (tr_States clean)))]] @
           report_divergence msg faulted clean dv @ printOutcome faulted, None) }"

definition replay ::
  "(error \<Rightarrow> string) \<Rightarrow> 64 word \<Rightarrow> 64 word \<Rightarrow> string \<Rightarrow> string \<Rightarrow> string \<Rightarrow> string \<Rightarrow> int \<Rightarrow> bool \<Rightarrow> bool \<Rightarrow>
     (line list \<times> error option) option" where
  "replay msg seed steps faults mode shape load at ops diff =
     (if seed = 0 then Some ([], Some (Errorf ''replay: --seed is required'' []))
      else
        (case ParseFaults faults of
           Inl err \<Rightarrow> Some ([], Some err)
         | Inr parsed \<Rightarrow>
             (case ParseShape shape of
                Inl err \<Rightarrow> Some ([], Some err)
              | Inr parsedShape \<Rightarrow>
                  let cfg = \<lparr>hc_Seed = seed, hc_Steps = steps, hc_Faults = parsed, hc_Durability = mode,
                             hc_Shape = parsedShape, hc_Workload = load\<rparr>
                  in if diff then replayDiff msg cfg
                     else do {
                       tr \<leftarrow> Replay cfg;
                       Some (if at \<ge> 0 then (case printStep msg tr at of (out, err) \<Rightarrow> (printHeader cfg tr @ out, err))
                             else (printHeader cfg tr @ (if ops then printOps tr else printScrub msg tr) @ printOutcome tr, None)) })))"

section \<open>Where two runs part\<close>

lemma first_difference_None:
  "first_difference as bs = None \<longleftrightarrow> (\<forall>i<min (length as) (length bs). sameState (as ! i) (bs ! i))"
  by (induction as bs rule: first_difference.induct) (auto simp: All_less_Suc2)

lemma first_difference_Some:
  assumes "first_difference as bs = Some (a, b)"
  shows "\<exists>n<min (length as) (length bs). a = as ! n \<and> b = bs ! n \<and> \<not> sameState a b \<and> (\<forall>i<n. sameState (as ! i) (bs ! i))"
  using assms
proof (induction as bs rule: first_difference.induct)
  case (1 x as y bs)
  show ?case
  proof (cases "sameState x y")
    case True
    then obtain n where "n < min (length as) (length bs)" "a = as ! n" "b = bs ! n" "\<not> sameState a b" "\<forall>i<n. sameState (as ! i) (bs ! i)"
      using 1 by auto
    with True show ?thesis by (intro exI [of _ "Suc n"]) (simp add: All_less_Suc2)
  next
    case False
    with 1 show ?thesis by (intro exI [of _ 0]) simp
  qed
qed simp_all

lemma divergence_cases:
  obtains (agree) "divergence as bs = \<lparr>dv_Step = - 1, dv_A = None, dv_B = None, dv_Truncated = False\<rparr>" "list_all2 sameState as bs"
  | (stops) n where "n = min (length as) (length bs)" "length as \<noteq> length bs" "\<forall>i<n. sameState (as ! i) (bs ! i)"
      "divergence as bs = \<lparr>dv_Step = int n, dv_A = (if n < length as then Some (as ! n) else None),
         dv_B = (if n < length bs then Some (bs ! n) else None), dv_Truncated = True\<rparr>"
  | (part) n where "n < min (length as) (length bs)" "\<not> sameState (as ! n) (bs ! n)" "\<forall>i<n. sameState (as ! i) (bs ! i)"
      "divergence as bs = \<lparr>dv_Step = int (sa_Step (as ! n)), dv_A = Some (as ! n), dv_B = Some (bs ! n), dv_Truncated = False\<rparr>"
proof (cases "first_difference as bs")
  case None
  then have all: "\<forall>i<min (length as) (length bs). sameState (as ! i) (bs ! i)" by (simp only: first_difference_None)
  show ?thesis
  proof (cases "length as = length bs")
    case True
    show ?thesis by (rule agree) (use None True all in \<open>simp_all add: divergence_def list_all2_conv_all_nth\<close>)
  next
    case False
    show ?thesis by (rule stops [OF refl False all]) (simp add: divergence_def Let_def None False)
  qed
next
  case (Some ab)
  obtain a b where ab: "ab = (a, b)" by (cases ab)
  then obtain n where n: "n < min (length as) (length bs)" "a = as ! n" "b = bs ! n" "\<not> sameState a b"
    "\<forall>i<n. sameState (as ! i) (bs ! i)"
    using first_difference_Some [of as bs a b] Some by auto
  show ?thesis by (rule part [OF n(1) _ n(5)]) (use n(2-4) Some ab in \<open>simp_all add: divergence_def\<close>)
qed

end
