(* ===== verification/Compare.thy ===== *)
theory Compare
  imports Spine_Corpus Log_Store
begin

text \<open>
  \<^verbatim>\<open>tools/kafkacompare\<close>: one workload run through two systems, the log and Kafka, behind one
  interface. Modelled are the records both receive, how they are handed over, the log's side of
  the interface, and how the two systems' durability settings are paired. The clock reads and what
  is computed from them are not; the interface's other implementation, a Kafka client, is a
  parameter. A mode is a string, as in the Go. \<^const>\<open>None\<close> is a panic or a loop that does
  not end.
\<close>

section \<open>The workload\<close>

definition compare_Modes :: "string list" where
  "compare_Modes = [''sync'', ''batch'', ''os'']"

definition FlushEvery :: int where "FlushEvery = 1024"

record compare_Workload =
  cw_Seed :: "64 word"
  cw_Records :: int
  cw_Size :: int
  cw_BatchSize :: int

text \<open>The records from one index on, that many.\<close>

fun events_loop :: "nat \<Rightarrow> nat \<Rightarrow> nat \<Rightarrow> Source \<Rightarrow> event list option" where
  "events_loop 0 i payload src = Some []"
| "events_loop (Suc n) i payload src =
     do { (body, src) \<leftarrow> draw_bytes payload src;
          (k, src) \<leftarrow> source_Intn 64 src;
          es \<leftarrow> events_loop n (Suc i) payload src;
          Some (\<lparr>e_Key = ''acct-'' @ zero_padded 4 (nat k), e_Time = word_of_nat i, e_Schema = 1, e_Payload = body\<rparr> # es) }"

definition workload_Events :: "compare_Workload \<Rightarrow> event list option" where
  "workload_Events w =
     (if cw_Records w < 0 then None
      else events_loop (nat (cw_Records w)) 0 (nat (cw_Size w - int HeaderLen - int (length ''acct-0000''))) (NewSource (cw_Seed w)))"

definition BatchFor :: "compare_Workload \<Rightarrow> string \<Rightarrow> int" where
  "BatchFor w mode = (if mode = ''sync'' then 1 else cw_BatchSize w)"

section \<open>The interface and the run\<close>

record 'b backend =
  bk_Name :: string
  bk_Append :: "event list \<Rightarrow> 'b \<Rightarrow> error option \<times> 'b"
  bk_ReadAll :: "nat \<Rightarrow> 'b \<Rightarrow> ((nat \<times> error option) \<times> 'b) option"

record compare_Result =
  cr_Backend :: string
  cr_Mode :: string
  cr_Size :: int
  cr_Records :: nat
  cr_Bytes :: nat
  cr_ReadCount :: nat
  cr_Err :: "error option"

text \<open>The calls of \<^verbatim>\<open>Append\<close>: \<open>size\<close> records each, the last one the rest.\<close>

function append_calls :: "'b backend \<Rightarrow> nat \<Rightarrow> event list \<Rightarrow> 'b \<Rightarrow> error option \<times> 'b" where
  "append_calls B sz es b =
     (if es = [] \<or> sz = 0 then (None, b)
      else
        (case bk_Append B (take sz es) b of
           (Some err, b) \<Rightarrow> (Some (Errorf ''append at record %d: %w'' [err]), b)
         | (None, b) \<Rightarrow> append_calls B sz (drop sz es) b))"
  by pat_completeness auto
termination
  by (relation "measure (\<lambda>(B, sz, es, b). length es)") auto

declare append_calls.simps [simp del]

text \<open>
  A size of zero divides by zero, and a negative one makes the first slice go backwards; with no
  records at all a negative size is never used.
\<close>

definition compare_Run :: "'b backend \<Rightarrow> compare_Workload \<Rightarrow> string \<Rightarrow> 'b \<Rightarrow> (compare_Result \<times> 'b) option" where
  "compare_Run B w mode b =
     do { events \<leftarrow> workload_Events w;
          let result = \<lparr>cr_Backend = bk_Name B, cr_Mode = mode, cr_Size = cw_Size w, cr_Records = length events,
            cr_Bytes = sum_list (map RecordLen events), cr_ReadCount = 0, cr_Err = None\<rparr>;
          let sz = BatchFor w mode;
          if sz = 0 \<or> sz < 0 \<and> events \<noteq> [] then None
          else
            (case append_calls B (nat sz) events b of
               (Some err, b) \<Rightarrow> Some (result\<lparr>cr_Err := Some err\<rparr>, b)
             | (None, b) \<Rightarrow> do {
                 ((n, err), b) \<leftarrow> bk_ReadAll B (length events) b;
                 Some (case err of
                   Some err \<Rightarrow> (result\<lparr>cr_Err := Some (Errorf ''read back: %w'' [err])\<rparr>, b)
                 | None \<Rightarrow> (result\<lparr>cr_ReadCount := n\<rparr>, b)) }) }"

section \<open>The log behind the interface\<close>

definition spine_config :: "string \<Rightarrow> 's Config option" where
  "spine_config mode =
     (let cfg = \<lparr>c_Segment = \<lparr>o_MaxBytes = 0, o_IndexInterval = 0\<rparr>, c_Durability = Batch, c_SyncRecords = 0,
        c_SyncInterval = 0, c_Clock = None\<rparr>
      in if mode = ''sync'' then Some (cfg\<lparr>c_Durability := Sync\<rparr>)
         else if mode = ''batch'' then Some (cfg\<lparr>c_Durability := Batch, c_SyncRecords := FlushEvery\<rparr>)
         else if mode = ''os'' then Some (cfg\<lparr>c_Durability := OS\<rparr>)
         else None)"

text \<open>\<open>made\<close> is what making the directory and the filesystem over it returned.\<close>

definition OpenSpine :: "'s fs_ops \<Rightarrow> error option \<Rightarrow> string \<Rightarrow> 's \<Rightarrow> 's Log res \<times> 's" where
  "OpenSpine F made mode st =
     (case made of
        Some err \<Rightarrow> (Inl err, st)
      | None \<Rightarrow>
          (case spine_config mode of
             None \<Rightarrow> (Inl (Errorf ''compare: unknown mode %q'' []), st)
           | Some cfg \<Rightarrow>
               (case log_Open F cfg st of
                  (Inl err, st) \<Rightarrow> (Inl err, st)
                | (Inr (l, _), st) \<Rightarrow> (Inr l, st))))"

definition spine_Append :: "'s fs_ops \<Rightarrow> event list \<Rightarrow> 's Log \<times> 's \<Rightarrow> error option \<times> 's Log \<times> 's" where
  "spine_Append F events b =
     (case log_Append F events (fst b) (snd b) of ((_, err), l, st) \<Rightarrow> (err, l, st))"

fun read_loop :: "'s fs_ops \<Rightarrow> nat \<Rightarrow> nat \<Rightarrow> Reader \<Rightarrow> 's Log \<Rightarrow> 's \<Rightarrow> ((nat \<times> error option) \<times> 's Log \<times> 's) option" where
  "read_loop F 0 seen r l st = Some ((seen, None), l, st)"
| "read_loop F (Suc left) seen r l st =
     (case reader_Next F r l st of
        None \<Rightarrow> None
      | Some (Inl err, r, l, st) \<Rightarrow> Some ((seen, if errors_Is err ErrEndOfLog then None else Some err), l, st)
      | Some (Inr _, r, l, st) \<Rightarrow> read_loop F left (seen + 1) r l st)"

definition spine_ReadAll :: "'s fs_ops \<Rightarrow> nat \<Rightarrow> 's Log \<times> 's \<Rightarrow> ((nat \<times> error option) \<times> 's Log \<times> 's) option" where
  "spine_ReadAll F want b =
     (case log_Reader (log_First (fst b)) (fst b) of
        Inl err \<Rightarrow> Some ((0, Some err), b)
      | Inr r \<Rightarrow> read_loop F want 0 r (fst b) (snd b))"

definition spine_backend :: "'s fs_ops \<Rightarrow> ('s Log \<times> 's) backend" where
  "spine_backend F = \<lparr>bk_Name = ''spine'', bk_Append = spine_Append F, bk_ReadAll = spine_ReadAll F\<rparr>"

text \<open>Closing removes the directory; \<open>removed\<close> is what that returned.\<close>

definition spine_Close :: "'s fs_ops \<Rightarrow> error option \<Rightarrow> 's Log \<times> 's \<Rightarrow> error option \<times> 's Log \<times> 's" where
  "spine_Close F removed b =
     (case log_Close F (fst b) (snd b) of (err, l, st) \<Rightarrow> (if err = None then removed else err, l, st))"

section \<open>The other side of the pairing\<close>

definition flushMessages :: "string \<Rightarrow> string" where
  "flushMessages mode =
     (if mode = ''sync'' then ''1''
      else if mode = ''batch'' then dec_digits (nat FlushEvery)
      else dec_digits (unat (drop_bit 1 (- 1 :: 64 word))))"

text \<open>The values a Kafka client is handed: the events' canonical bodies.\<close>

definition kafka_values :: "event list \<Rightarrow> bytes list" where
  "kafka_values events = map (\<lambda>e. Event_AppendCanonical e []) events"

text \<open>
  \<^verbatim>\<open>fmt.Sscanf(field, "%d", &size)\<close>: an integer at the beginning of the text. What follows it is
  not looked at.
\<close>

definition Sscanf_d :: "string \<Rightarrow> 64 word option" where
  "Sscanf_d s =
     (let (neg, ds) = (case s of [] \<Rightarrow> (False, []) | c # cs \<Rightarrow>
            if c = CHR ''-'' then (True, cs) else if c = CHR ''+'' then (False, cs) else (False, s));
          digits = takeWhile is_digit ds
      in case ParseInt64 (if neg then CHR ''-'' # digits else digits) of Inl err \<Rightarrow> None | Inr n \<Rightarrow> Some n)"

function split_comma :: "string \<Rightarrow> string list" where
  "split_comma s = (case Cut s CHR '','' of None \<Rightarrow> [s] | Some (a, b) \<Rightarrow> a # split_comma b)"
  by pat_completeness auto
termination
  by (relation "measure length") (auto dest: Cut_shorter)

declare split_comma.simps [simp del]

fun sizes_loop :: "string list \<Rightarrow> 64 word list \<Rightarrow> 64 word list res" where
  "sizes_loop [] sizes =
     (if sizes = [] then Inl (Errorf ''bench: no record sizes given'' []) else Inr sizes)"
| "sizes_loop (field # rest) sizes =
     (let field = TrimSpace field in
      if field = [] then sizes_loop rest sizes
      else
        (case Sscanf_d field of
           None \<Rightarrow> Inl (Errorf ''bench: %q is not a record size'' [])
         | Some n \<Rightarrow>
             if sint n \<le> 0 then Inl (Errorf ''bench: %q is not a record size'' [])
             else sizes_loop rest (sizes @ [n])))"

definition parseSizes :: "string \<Rightarrow> 64 word list res" where
  "parseSizes sizes = sizes_loop (split_comma sizes) []"

section \<open>What the log is handed and what it gives back\<close>

text \<open>However the records are split into calls, they all arrive, in order.\<close>

lemma append_calls_spine:
  assumes "is_log f l es n" "unat (log_Next l) + length xs < 2 ^ 64" "list_all framable xs" "0 < sz"
  shows "\<exists>l' f' n'. append_calls (spine_backend sim_ops) sz xs (l, f) = (None, l', f') \<and>
    is_log f' l' (es @ number (log_Next l) xs) n'"
  using assms(1-3)
proof (induction "length xs" arbitrary: xs es n l f rule: less_induct)
  case less
  show ?case
  proof (cases "xs = []")
    case True
    then show ?thesis using less.prems(1) by (subst append_calls.simps) auto
  next
    case False
    let ?c = "take sz xs" and ?d = "drop sz xs"
    have fr: "list_all framable ?c" "list_all framable ?d" "takeWhile framable ?c = ?c"
      using less.prems(3) set_take_subset [of sz xs] set_drop_subset [of sz xs] by (auto simp: list_all_iff)
    have len: "unat (log_Next l) + length ?c < 2 ^ 64" using less.prems(2) by simp
    obtain l1 f1 n1 where a: "log_Append sim_ops ?c l f = ((offsets_from (log_Next l) (length ?c), None), l1, f1)"
      "is_log f1 l1 (es @ number (log_Next l) ?c) n1" "log_Next l1 = log_Next l + word_of_nat (length ?c)"
      by (rule append_is_log [OF less.prems(1) len]) (use fr in auto)
    have nx: "unat (log_Next l1) = unat (log_Next l) + length ?c"
      using len by (simp add: a(3) unat_word_ariths(1) unat_of_nat take_bit_eq_mod)
    have "length ?d < length xs" using False assms(4) by (cases xs) auto
    moreover have "unat (log_Next l1) + length ?d < 2 ^ 64" using less.prems(2) by (simp add: nx)
    ultimately obtain l' f' n' where r: "append_calls (spine_backend sim_ops) sz ?d (l1, f1) = (None, l', f')"
      "is_log f' l' ((es @ number (log_Next l) ?c) @ number (log_Next l1) ?d) n'"
      using less.hyps [of ?d f1 l1 "es @ number (log_Next l) ?c" n1] a(2) fr(2) by blast
    have "number (log_Next l) xs = number (log_Next l) ?c @ number (log_Next l1) ?d"
      using number_append [of "log_Next l" ?c ?d] by (simp add: a(3))
    moreover have "append_calls (spine_backend sim_ops) sz xs (l, f) = append_calls (spine_backend sim_ops) sz ?d (l1, f1)"
      using False assms(4) by (subst append_calls.simps) (simp add: spine_backend_def spine_Append_def a(1))
    ultimately show ?thesis using r by auto
  qed
qed

text \<open>A reader that delivers as many records as are wanted is all the loop needs.\<close>

lemma read_loop_consume:
  assumes "consume F m r l st = Some (xs, r', l', st')" "length xs = m"
  shows "read_loop F m seen r l st = Some ((seen + m, None), l', st')"
  using assms
proof (induction m arbitrary: r l st xs seen)
  case (Suc m)
  then show ?case by (fastforce split: option.splits sum.splits)
qed simp

lemma spine_ReadAll_ok:
  assumes "is_log f l es n" "m \<le> length es"
  shows "\<exists>l' f'. spine_ReadAll sim_ops m (l, f) = Some ((m, None), l', f') \<and> is_log f' l' es n"
proof -
  obtain r where r: "log_Reader (log_First l) l = Inr r"
    using is_log_first_next [OF assms(1)] by (simp add: log_Reader_def not_less [symmetric])
  have "from_off (log_First l) es = es"
    using from_off_filter [OF is_log_next(1) [OF assms(1)]] is_log_first [OF assms(1)] by (simp add: filter_id_conv)
  then obtain r' l' f' where c: "consume sim_ops m r l f = Some (take m es, r', l', f')" "is_log f' l' es n"
    by (metis consume_is_log [OF assms(1) r, of m thesis])
  have "read_loop sim_ops m 0 r l f = Some ((0 + m, None), l', f')"
    by (rule read_loop_consume [OF c(1)]) (simp add: assms(2))
  with c(2) show ?thesis by (simp add: spine_ReadAll_def r)
qed

text \<open>The workload's records: their number, their shape.\<close>

lemma Intn_some: "0 < n \<Longrightarrow> n < 2 ^ 63 \<Longrightarrow> \<exists>x s'. source_Intn n s = Some (x, s') \<and> 0 \<le> x \<and> x < n"
  by (rule source_Intn_ok [of n s]) auto

lemma draw_bytes_ok: "\<exists>bs src'. draw_bytes n src = Some (bs, src') \<and> length bs = n"
proof (induction n arbitrary: src)
  case (Suc n)
  obtain x src1 where "source_Intn 256 src = Some (x, src1)" using Intn_some [of 256 src] by auto
  with Suc [of src1] show ?case by auto
qed simp

lemma length_zero_padded_64: "k < 64 \<Longrightarrow> length (zero_padded 4 k) = 4"
  by (rule length_zero_padded) simp_all

lemma events_loop_ok:
  assumes "i + n < 2 ^ 63"
  shows "\<exists>es. events_loop n i payload src = Some es \<and> length es = n \<and>
    (\<forall>e\<in>set es. length (e_Key e) = 9 \<and> length (e_Payload e) = payload \<and> e_Schema e = 1 \<and> 0 \<le> sint (e_Time e))"
  using assms
proof (induction n arbitrary: i src)
  case (Suc n)
  obtain bs src1 where b: "draw_bytes payload src = Some (bs, src1)" "length bs = payload" using draw_bytes_ok by blast
  obtain k src2 where k: "source_Intn 64 src1 = Some (k, src2)" "k < 64" "0 \<le> k"
    using Intn_some [of 64 src1] by auto
  have "length (zero_padded 4 (nat k)) = 4" using k(2,3) by (intro length_zero_padded_64) simp
  moreover have "0 \<le> sint (word_of_nat i :: 64 word)" using Suc.prems by (simp add: sint_small)
  moreover obtain es where "events_loop n (Suc i) payload src2 = Some es" "length es = n"
    "\<forall>e\<in>set es. length (e_Key e) = 9 \<and> length (e_Payload e) = payload \<and> e_Schema e = 1 \<and> 0 \<le> sint (e_Time e)"
    using Suc.IH [of "Suc i" src2] Suc.prems by auto
  ultimately show ?case using b k(1) by simp
qed simp

lemma workload_Events_ok:
  assumes "0 \<le> cw_Records w" "cw_Records w < 2 ^ 63" "cw_Size w \<le> int MaxRecordLen"
  obtains es where "workload_Events w = Some es" "int (length es) = cw_Records w" "list_all framable es"
    "sum_list (map RecordLen es) = length es * max (HeaderLen + 9) (nat (cw_Size w))"
proof -
  let ?p = "nat (cw_Size w - int HeaderLen - 9)"
  have lt: "0 + nat (cw_Records w) < 2 ^ 63" using assms(1,2) by simp
  obtain es where es: "events_loop (nat (cw_Records w)) 0 ?p (NewSource (cw_Seed w)) = Some es" "length es = nat (cw_Records w)"
    "\<forall>e\<in>set es. length (e_Key e) = 9 \<and> length (e_Payload e) = ?p \<and> e_Schema e = 1 \<and> 0 \<le> sint (e_Time e)"
    using events_loop_ok [OF lt] by blast
  have len: "RecordLen e = max (HeaderLen + 9) (nat (cw_Size w))" if "e \<in> set es" for e
    using es(3) that by (auto simp: RecordLen_def)
  have "framable e" if "e \<in> set es" for e
    using es(3) that len [OF that] assms(3)
    by (auto simp: framable_def Event_Validate_None MaxKeyLen_def MaxPayloadLen_def headerBytes_def MaxRecordLen_def HeaderLen_def)
  then have "list_all framable es" by (simp add: list_all_iff)
  moreover have "sum_list (map RecordLen es) = length es * max (HeaderLen + 9) (nat (cw_Size w))"
    using len by (simp add: sum_list_triv cong: map_cong)
  moreover have "workload_Events w = Some es" using assms(1) es(1) by (simp add: workload_Events_def)
  ultimately show thesis using that es(2) assms(1) by simp
qed

lemma OpenSpine_ok:
  assumes "mode \<in> set compare_Modes"
  obtains l and f :: simfs where "OpenSpine sim_ops None mode sim_NewFS = (Inr l, f)" "is_log f l [] 0" "log_Next l = 0"
proof -
  obtain cfg :: "simfs Config" where cfg: "spine_config mode = Some cfg" "openable cfg"
    using assms by (auto simp: spine_config_def compare_Modes_def openable_def Let_def FlushEvery_def)
  have none: "d_dir (abs_sim (sim_NewFS :: simfs)) nm = None" for nm by (simp add: sim_NewFS_def)
  obtain l f where o: "log_Open sim_ops cfg sim_NewFS = (Inr (l, zero_Recovery), f)" "wf_sim f" "log_inv (abs_sim f) l [] 0 [] 0"
    by (rule sim.log_Open_fresh [OF wf_sim_NewFS none cfg(2)]) blast
  have rep: "log_rep (abs_sim f) l [] 0 []" using o(3) by (simp add: log_inv_def)
  have "log_Next l = 0" using log_repD(8) [OF rep] by simp
  moreover have "is_log f l [] 0" using is_logI [OF o(2,3)] by simp
  moreover have "OpenSpine sim_ops None mode sim_NewFS = (Inr l, f)" using o(1) cfg(1) by (simp add: OpenSpine_def)
  ultimately show thesis using that by blast
qed

end
