(* ===== verification/Spec2Isabelle.thy ===== *)
theory Spec2Isabelle
  imports Log_Machine Group_Crash Harness_Crash Log_Snapshot Ledger Harness_Run Runtime_FS Spine_Powercut Spine_Corpus Spine_Verify Spine_Replay Compare
begin

text \<open>
  event-spine is an append-only event log for event-sourced programs, with a deterministic command
  cycle above it and a fault-injecting simulator below it. This development models the Go code
  under \<^verbatim>\<open>src/\<close> as definitions of HOL and proves what makes it correct. This theory holds the
  properties that are the point of it, each with an application to a concrete input where it has
  hypotheses; the theories it imports hold the model and the lemmas, one per component.

  \<^bold>\<open>The program and the theories.\<close> From the bottom up:

    \<^item> The disk. \<^verbatim>\<open>core/fs.go\<close> is \<open>Core_FS\<close>: the interfaces \<^verbatim>\<open>FS\<close> and \<^verbatim>\<open>File\<close> are a record of
      operations over a state type, and what their comments promise is stated over an abstract
      \<open>disk\<close> that keeps what is visible and what a power cut would leave apart. Three providers:
      \<open>Sim_FS\<close> (\<^verbatim>\<open>sim/fs.go\<close>, the simulated disk with its power cuts), \<open>Harness_FS\<close>
      (\<^verbatim>\<open>internal/devtools/harness/fs.go\<close>, the same with faults scheduled against it) and
      \<open>Runtime_FS\<close> (\<^verbatim>\<open>runtime/fs.go\<close>, a real directory).
    \<^item> The log. \<open>Core_Event\<close> and \<open>Crc32c\<close> serve \<open>Log_Record\<close> (\<^verbatim>\<open>log/record.go\<close>, the framing);
      \<open>Log_Segment\<close> (\<^verbatim>\<open>segment.go\<close>) is one file of records with a sparse index,
      \<open>Log_Recovery\<close> (\<^verbatim>\<open>recovery.go\<close>) the scan that opens one, \<open>Log_Log\<close> (\<^verbatim>\<open>log.go\<close>) the
      sequence of segments, \<open>Log_Reader\<close>, \<open>Log_Compact\<close>, \<open>Log_Group\<close> and \<open>Log_Snapshot\<close> the
      files of those names. A Go pointer to a segment is an address into the log's own store,
      so the sharing between the log, its cache and its readers is kept.
    \<^item> The core. \<open>Sha256\<close> and \<open>Core_Chain\<close> (\<^verbatim>\<open>core/chain.go\<close>), \<open>Core_Cycle\<close>
      (\<^verbatim>\<open>core/cycle.go\<close>, \<^verbatim>\<open>core/deps.go\<close>), \<open>Sim_Deps\<close> (\<^verbatim>\<open>sim/deps.go\<close>: clock, random source,
      identifiers, scheduler) and \<open>Ledger\<close> (\<^verbatim>\<open>internal/devtools/ledger\<close>, the workload).
    \<^item> The fault harness, \<^verbatim>\<open>internal/devtools/harness\<close>: \<open>Harness_Fault\<close> (\<^verbatim>\<open>fault.go\<close>,
      \<^verbatim>\<open>shape.go\<close>), \<open>Harness_FS\<close>, \<open>Harness_Workload\<close> (\<^verbatim>\<open>workload.go\<close>, \<^verbatim>\<open>restart.go\<close>) and
      \<open>Harness_Run\<close> (\<^verbatim>\<open>check.go\<close>, \<^verbatim>\<open>run.go\<close>, \<^verbatim>\<open>replay.go\<close>).
    \<^item> The commands, \<^verbatim>\<open>cmd/spine\<close>: \<open>Spine_Powercut\<close>, \<open>Spine_Corpus\<close> (\<^verbatim>\<open>sim.go\<close>),
      \<open>Spine_Verify\<close> and \<open>Spine_Replay\<close>; and \<open>Compare\<close> for \<^verbatim>\<open>tools/kafkacompare\<close>.

  \<open>Spine_Prelude\<close> has what all of them share: bytes and words, errors, decimal text, the search of
  \<^verbatim>\<open>sort.Search\<close>. \<open>Log_Store\<close> is what a client may rely on, the log as one list of entries with a
  durable prefix; \<open>Log_Machine\<close> is the log as a state machine against the abstract one;
  \<open>Log_Crash\<close>, \<open>Group_Crash\<close> and \<open>Harness_Crash\<close> follow every call whatever the operations below
  it return.

  \<^bold>\<open>How code is translated.\<close> A struct is a record, an error a value of \<open>error\<close> that keeps
  the format and the errors wrapped in it and forgets what the format was filled with, a method a
  function that takes and returns the state it changes. Integers of the program are 64-bit words
  where the width can matter, read with \<open>sint\<close> or \<open>unat\<close>; sizes and positions in a file are
  naturals. A result of type \<open>option\<close> around all of it is a loop that may run forever or a panic:
  \<open>None\<close>. The program starts no goroutines; its one mutex, around a real file, is not modelled, and an
  operation is one step.

  \<^bold>\<open>Interfaces.\<close> The locale \<open>filesystem\<close> says what an operation that returned no error has done;
  \<open>reliable_filesystem\<close> adds that operations do return none where the interface says so, and
  \<open>crash_filesystem\<close> that what a power cut would leave is changed by a completed sync alone,
  whatever else fails. The log is proved inside them. They are interpreted on the simulated disk
  (\<open>sim\<close>, \<open>sim_cut\<close>), on the faulty one under every schedule without bit flips (\<open>faulty\<close>, \<open>cut\<close>)
  and on the faulty one with an empty schedule (\<open>idle\<close>). \<open>posix\<close> states the manuals of the system
  calls \<open>Runtime_FS\<close> makes, and is interpreted on the simulated disk behind them (\<open>sim_posix\<close>);
  under it the adapter over a real directory is a \<open>filesystem\<close>. \<open>pure_decider\<close> is the contract of a
  decider, kept by the ledger's teller.

  \<^bold>\<open>What is shown.\<close> Records: round trip, soundness of the decoder, detection of damage and of cuts.
  Recovery: the longest parsing prefix is kept, nothing else. The log: appends are exact, reads are
  lookups, readers deliver everything once, compaction keeps the latest entry of every key, and
  every sequence of calls and power cuts is a run of the abstract machine. Failures: for every
  schedule of crashes, errors and short writes, wherever it strikes and however often the restart
  is cut off too, the log opens to what the machine allows, acknowledged appends survive, commits
  and snapshots have happened or not, and the disk stays well formed. The core: equal chains mean
  equal runs unless SHA-256 collides, a live run is its replay, money is conserved, the seeded run
  completes. The tools: minimization keeps a failure, a seed file records the run it was written
  for, a corpus with a failing seed is red, a comparison of two runs names the first step that
  differs, the determinism gate accepts only agreement, the power-loss test raises no false alarm and
  has teeth.

  \<^bold>\<open>Bounds.\<close> Offsets stay below \<open>2 ^ 64\<close>: a theorem on appends asks that the log's next
  offset and the number of events fit. A run of the ledger has fewer than \<open>2 ^ 50\<close> commands, so that
  the clock, which a command moves by at most 1000, stays below \<open>2 ^ 63\<close>, and at most \<open>2 ^ 16\<close> accounts,
  which is what the two bytes of an account's index hold. The power-loss writer appends fewer
  than \<open>2 ^ 63\<close> records.

  \<^bold>\<open>Loops without a bound.\<close> \<open>seek\<close>, \<open>reader_Next\<close>, the draw of \<open>source_Intn\<close>, and the scans \<open>live_scan\<close>,
  \<open>check_scan\<close> and \<open>digest_scan\<close> of the harness are partial functions: not returning is \<open>None\<close>.
  Readers are shown to return on every log that keeps its invariant, and the draw from every state
  of the generator, because splitmix64 goes through all of its outputs. \<open>powercut_calls\<close> counts the
  calls until the power goes; the theorem on it holds for every such number, and for power cuts inside a call,
  which the schedule of the disk brings about. Every other loop is a total function whose
  termination is proved.

  \<^bold>\<open>Parameters.\<close> The system calls of \<open>Runtime_FS\<close>; the file of counts of the power-loss test and the
  directory of the corpus; deciders and projections of the command cycle; the text an error prints
  as (\<open>msg\<close>), which minimization compares; the run that minimization, the corpus and the
  determinism gate call, \<open>harness_Run\<close> and \<open>ledger_Run\<close> in the program.

  \<^bold>\<open>Not modelled.\<close> \<^verbatim>\<open>cmd/spine/main.go\<close> and the parsing of flags, which only choose what is called;
  \<^verbatim>\<open>internal/devtools/bench/latency.go\<close> and the rates of \<^verbatim>\<open>kafkacompare\<close>, which read the wall clock and compute in
  floating point; the Kafka client, a third-party package that talks to a broker; the
  reuse of buffers, which no result depends on; and the methods that only return a field or print a
  constant. The order of two seed files with the same seed, which \<^verbatim>\<open>sort.Slice\<close> leaves open, is the
  directory's.
\<close>

section \<open>Records\<close>

text \<open>
  C15: a record the encoder accepts is appended to the buffer and decodes, whatever bytes
  follow it, to the same offset, the same event and its own length.
\<close>

theorem record_round_trip:
  assumes "appendRecord dst off e = (buf, None)"
  shows "\<exists>b. buf = dst @ b \<and> decodeRecord (b @ rest) = Inr \<lparr>r_Offset = off, r_Event = e, r_Len = length b\<rparr>"
  using assms appendRecord_cases [of dst off e] appendRecord_error [of e dst off] decode_encode [of e off rest]
  by (cases "framable e") auto

theorem record_round_trip_witness:
  "\<exists>b. [7, 7] @ encode 9 sample_event = [7, 7] @ b \<and>
     decodeRecord (b @ [1]) = Inr \<lparr>r_Offset = 9, r_Event = sample_event, r_Len = length b\<rparr>"
  by (rule record_round_trip [OF appendRecord_framable [OF framable_sample]])

text \<open>
  C16: the decoder invents nothing. Whatever bytes it is given, a record it returns is one the
  encoder writes, byte for byte, and lies within the bytes.
\<close>

theorem decoder_sound:
  assumes "decodeRecord b = Inr r"
  shows "appendRecord [] (r_Offset r) (r_Event r) = (take (r_Len r) b, None) \<and> r_Len r \<le> length b"
  using decode_sound [OF assms] appendRecord_framable [of "r_Event r" "[]" "r_Offset r"] by simp_all

theorem decoder_sound_witness:
  "appendRecord [] 9 sample_event = (take 32 (encode 9 sample_event), None) \<and> 32 \<le> length (encode 9 sample_event)"
  using decoder_sound [OF decode_encode [OF framable_sample, of 9 "[]"]] by simp

text \<open>
  A record cut short at any byte is reported as torn, never as corrupt and never as a
  record.
\<close>

theorem torn_record_detected:
  assumes "appendRecord [] off e = (b, None)" "n < length b"
  shows "\<exists>err. decodeRecord (take n b) = Inl err \<and> errors_Is err ErrTorn \<and> \<not> errors_Is err ErrCorrupt"
  using assms appendRecord_cases [of "[]" off e] appendRecord_error [of e "[]" off] decode_torn [of e n off]
  by (cases "framable e") auto

theorem torn_record_detected_witness:
  "\<exists>err. decodeRecord (take 31 (encode 9 sample_event)) = Inl err \<and> errors_Is err ErrTorn \<and> \<not> errors_Is err ErrCorrupt"
  by (rule torn_record_detected [of 9 sample_event]) (simp_all add: appendRecord_framable)

text \<open>
  C17: one wrong byte is caught. Changing any byte of a record outside its four-byte length
  field, the offset included, makes the decoder report corruption whatever follows.
\<close>

theorem damaged_record_detected:
  assumes "appendRecord [] off e = (b, None)" "i < length b" "\<not> (lengthField \<le> i \<and> i < lengthField + 4)" "x \<noteq> b ! i"
  shows "\<exists>err. decodeRecord (b[i := x] @ rest) = Inl err \<and> errors_Is err ErrCorrupt"
proof -
  have "framable e" using assms(1) appendRecord_error [of e "[]" off] by (cases "framable e") auto
  moreover from this have "b = encode off e" using assms(1) appendRecord_framable [of e "[]" off] by simp
  ultimately show ?thesis using assms(2-4) decode_damaged [of e i x off rest] by (simp add: covered_def)
qed

theorem damaged_record_detected_witness:
  "\<exists>err. decodeRecord ((encode 9 sample_event)[0 := encode 9 sample_event ! 0 + 1] @ []) = Inl err \<and> errors_Is err ErrCorrupt"
  by (rule damaged_record_detected [of 9 sample_event]) (simp_all add: appendRecord_framable lengthField_def)

text \<open>
  The canonical encoding that digests hash determines the event: two events the log could
  hold with the same canonical bytes are the same event.
\<close>

theorem canonical_encoding_injective:
  assumes "Event_Validate a = None" "Event_Validate b = None"
    "Event_AppendCanonical a dst = Event_AppendCanonical b dst"
  shows "a = b"
proof (rule AppendCanonical_inject)
  show "length (e_Key a) \<le> MaxKeyLen" "length (e_Key b) \<le> MaxKeyLen"
    using assms(1,2) by (simp_all add: Event_Validate_None)
  show "Event_AppendCanonical a [] = Event_AppendCanonical b []"
    using assms(3) AppendCanonical_append [of a dst] AppendCanonical_append [of b dst] by simp
qed

theorem canonical_encoding_injective_witness: "sample_event = sample_event\<lparr>e_Key := ''k''\<rparr>"
  by (rule canonical_encoding_injective [of _ _ "[]"])
    (simp_all add: sample_event_def Event_Validate_None MaxKeyLen_def MaxPayloadLen_def headerBytes_def)

section \<open>Segment files\<close>

text \<open>
  C36: a segment's name parses back to its base, no other name parses to it, it is a name every
  filesystem accepts, and the directory order of names is the order of bases.
\<close>

theorem segment_names_faithful:
  "(parseSegmentName nm = Some a \<longleftrightarrow> nm = segmentName a) \<and> ValidateName (segmentName a) = None \<and>
   (segmentName a < segmentName b \<longleftrightarrow> a < b)"
  by (simp add: parseSegmentName_Some segmentName_less_iff)

text \<open>A segment file with nothing in it, and one with the sample event, for the examples.\<close>

abbreviation sample_opts :: Options where
  "sample_opts \<equiv> Options_withDefaults \<lparr>o_MaxBytes = 0, o_IndexInterval = 0\<rparr>"

lemma empty_segment:
  obtains f i s where "wf_sim (f :: simfs)" "seg_rep (abs_sim f) i s []" "s_next s = 0" "\<not> s_sealed s"
    "d_dir (abs_sim f) (segmentName 0) = Some i"
proof -
  have none: "d_dir (abs_sim (sim_NewFS :: simfs)) (segmentName 0) = None" by (simp add: sim_NewFS_def)
  obtain h i and f :: simfs where c: "wf_sim f" "abs_sim f = disk_create (segmentName 0) h i (abs_sim sim_NewFS)"
    by (rule sim.Create_step [OF wf_sim_NewFS ValidateName_segmentName none]) blast
  let ?s = "fresh_segment h (segmentName 0) sample_opts 0"
  have "seg_rep (abs_sim f) i ?s []"
    using fresh_segment_holds [of h "segmentName 0" sample_opts 0]
    by (simp add: seg_rep_def c(2) disk_create_def) (simp add: fresh_segment_def)
  then show thesis using c by (intro that [of f i ?s]) (simp_all add: fresh_segment_def disk_create_def)
qed

lemma sample_append:
  assumes "wf_sim (f :: simfs)" "seg_rep (abs_sim f) i s []" "s_next s = 0" "\<not> s_sealed s"
  obtains n first err s' f' where "seg_AppendAll sim_ops [sample_event] s f = ((n, first, err), s', f')" "\<not> s_sealed s'"
    "wf_sim f'" "seg_rep (abs_sim f') i s' [(0, sample_event)]" "d_dir (abs_sim f') = d_dir (abs_sim f)"
proof -
  have "d_node (abs_sim f) (s_file s) = Some i" using assms(2) by (simp add: seg_rep_def)
  then have nd: "d_node (abs_sim f) (s_file s) \<noteq> None" by simp
  obtain n first err s' f' where a: "seg_AppendAll sim_ops [sample_event] s f = ((n, first, err), s', f')" "\<not> s_sealed s'"
    using sim.seg_AppendAll_ok [OF assms(1) nd assms(4), of "[sample_event]"] by blast
  have lt: "unat (s_next s) + length [sample_event] < 2 ^ 64" by (simp add: assms(3))
  note r = sim.seg_AppendAll_rep [OF assms(1,2) lt a]
  have n: "n = 1" using r(2,4,7) by (cases n) (auto simp: first_bad_def split: option.splits)
  have "seg_rep (abs_sim f') i s' [(0, sample_event)]" using r(3,6) n assms(3) by simp
  moreover have "d_dir (abs_sim f') = d_dir (abs_sim f)" using r(5) by (simp add: disk_append_def)
  ultimately show thesis using that [OF a r(1)] by blast
qed

lemma sample_segment:
  obtains f i s where "wf_sim (f :: simfs)" "seg_rep (abs_sim f) i s [(0, sample_event)]"
    "d_dir (abs_sim f) (segmentName 0) = Some i" "d_data (abs_sim f) i = seg_bytes [(0, sample_event)]"
proof -
  obtain f i s where e: "wf_sim (f :: simfs)" "seg_rep (abs_sim f) i s []" "s_next s = 0" "\<not> s_sealed s"
    "d_dir (abs_sim f) (segmentName 0) = Some i" by (rule empty_segment)
  obtain s' and f' :: simfs where a: "wf_sim f'" "seg_rep (abs_sim f') i s' [(0, sample_event)]" "d_dir (abs_sim f') = d_dir (abs_sim f)"
    by (rule sample_append [OF e(1-4)]) blast
  show thesis by (rule that [OF a(1,2)]) (use a(2,3) e(5) in \<open>simp_all add: seg_rep_def\<close>)
qed

text \<open>
  \<^verbatim>\<open>sort.Search\<close> over the sparse index and the walk that follows it agree with a plain
  lookup: reading an offset of a segment returns exactly the event stored there, and
  \<^verbatim>\<open>ErrNotFound\<close> when there is none, gaps included.
\<close>

theorem segment_read_is_lookup:
  assumes "wf_sim f" "seg_rep (abs_sim f) i s rs"
  shows "case map_of rs off of
      Some e \<Rightarrow> seg_Read sim_ops s off f = Inr \<lparr>r_Offset = off, r_Event = e, r_Len = RecordLen e\<rparr>
    | None \<Rightarrow> \<exists>err. seg_Read sim_ops s off f = Inl err \<and> same_class err (Sentinel ErrNotFound)"
  by (rule sim.seg_Read_lookup [OF assms])

theorem segment_read_is_lookup_witness:
  "\<exists>(f :: simfs) s. seg_Read sim_ops s 0 f = Inr \<lparr>r_Offset = 0, r_Event = sample_event, r_Len = 32\<rparr>"
proof -
  obtain f :: simfs and i s where s: "wf_sim f" "seg_rep (abs_sim f) i s [(0, sample_event)]" by (rule sample_segment) blast
  from segment_read_is_lookup [OF s, of 0] show ?thesis by auto
qed

text \<open>
  A batch append to a segment that the file accepted writes the longest prefix that can be
  framed and fits, at consecutive offsets from the segment's next one; an error means the
  first event left out cannot be framed, and stopping early without one means the segment is
  full.
\<close>

theorem segment_append_batch:
  assumes "wf_sim f" "seg_rep (abs_sim f) i s rs" "unat (s_next s) + length es < 2 ^ 64"
    and "seg_AppendAll sim_ops es s f = ((n, first, err), s', f')" "\<not> s_sealed s'"
  shows "first = s_next s \<and> n \<le> length es \<and> seg_rep (abs_sim f') i s' (rs @ number first (take n es)) \<and>
    (err \<noteq> None \<longrightarrow> n < length es \<and> \<not> framable (es ! n)) \<and>
    (err = None \<longrightarrow> n < length es \<longrightarrow> 0 < n \<and> seg_Full s')"
  using sim.seg_AppendAll_rep [OF assms] by (auto simp: first_bad_def split: option.splits)

theorem segment_append_batch_witness:
  "\<exists>(f :: simfs) s n first err s' f'. seg_AppendAll sim_ops [sample_event] s f = ((n, first, err), s', f') \<and> n \<le> 1 \<and> first = 0"
proof -
  obtain f :: simfs and i s where s: "wf_sim f" "seg_rep (abs_sim f) i s []" "s_next s = 0" "\<not> s_sealed s"
    by (rule empty_segment) blast
  obtain n first err s' and f' :: simfs where a: "seg_AppendAll sim_ops [sample_event] s f = ((n, first, err), s', f')" "\<not> s_sealed s'"
    by (rule sample_append [OF s]) blast
  have lt: "unat (s_next s) + length [sample_event] < 2 ^ 64" by (simp add: s(3))
  from segment_append_batch [OF s(1,2) lt a] have "n \<le> 1" "first = 0" using s(3) by simp_all
  with a(1) show ?thesis by blast
qed

section \<open>Recovery\<close>



text \<open>
  C19: a file of records cut at any byte, which is what a crash during an append leaves, comes
  back as a whole number of records, losing only those at or past the cut, and is never taken
  for corruption.
\<close>

theorem recovery_after_cut:
  assumes "wf_sim f" "ValidateName name = None" "d_dir (abs_sim f) name = Some i" "records_ok base rs"
    "d_data (abs_sim f) i = take n (seg_bytes rs)"
  shows "\<exists>k s rec f'. openNamed sim_ops name base opts True f = (Inr (s, rec), f') \<and> k \<le> length rs \<and>
    seg_rep (abs_sim f') i s (take k rs) \<and> R_Corrupt rec = None \<and> R_Records rec = k \<and>
    length (seg_bytes (take k rs)) \<le> n \<and> (k < length rs \<longrightarrow> n < length (seg_bytes (take (Suc k) rs)))"
proof -
  obtain s rec f' where op: "openNamed sim_ops name base opts True f = (Inr (s, rec), f')"
    using sim.openNamed_ok [OF assms(1-3)] by blast
  obtain k where pc: "k \<le> length rs" "parse base (take n (seg_bytes rs)) =
      (take k rs, if length (seg_bytes (take k rs)) = min n (length (seg_bytes rs)) then Clean else TornTail)"
    "length (seg_bytes (take k rs)) \<le> n" "k < length rs \<longrightarrow> n < length (seg_bytes (take (Suc k) rs))"
    using parse_cut [OF assms(4), of n] by blast
  define t where "t = (if length (seg_bytes (take k rs)) = min n (length (seg_bytes rs)) then Clean else TornTail)"
  have k: "k \<le> length rs" "parse base (d_data (abs_sim f) i) = (take k rs, t)" "t \<noteq> CorruptTail"
    "length (seg_bytes (take k rs)) \<le> n" "k < length rs \<longrightarrow> n < length (seg_bytes (take (Suc k) rs))"
    using pc assms(5) by (simp_all add: t_def)
  have "no_wrap (take k rs)" using records_ok_take [OF assms(4), of k] by (simp add: records_ok_def)
  then have rep: "seg_rep (abs_sim f') i s (take k rs)" using sim.openNamed_rep [OF assms(1) op assms(3) k(2)] by simp
  obtain j rs' t' where p: "d_dir (abs_sim f) name = Some j" "parse base (d_data (abs_sim f) j) = (rs', t')"
    "scan_result (zero_Recovery\<lparr>R_Next := base\<rparr>) 0 (d_data (abs_sim f) j) rs' t' rec"
    by (rule sim.openNamed_parse [OF assms(1) op]) blast
  then have "rs' = take k rs" "t' = t" using assms(3) k(2) by simp_all
  with p(3) k(1,3) have "R_Corrupt rec = None" "R_Records rec = k" by (simp_all add: scan_result_def zero_Recovery_def)
  with rep op k show ?thesis by blast
qed

theorem recovery_after_cut_witness:
  "\<exists>(f :: simfs) k s rec f'. openNamed sim_ops (segmentName 0) 0 sample_opts True f = (Inr (s, rec), f') \<and> R_Corrupt rec = None \<and>
     R_Records rec = k \<and> k \<le> 1"
proof -
  obtain f :: simfs and i s where s: "wf_sim f" "d_dir (abs_sim f) (segmentName 0) = Some i"
    "d_data (abs_sim f) i = seg_bytes [(0, sample_event)]" by (rule sample_segment) blast
  have ok: "records_ok 0 [(0, sample_event)]" by simp
  have d: "d_data (abs_sim f) i = take 32 (seg_bytes [(0, sample_event)])" using s(3) by (simp add: seg_bytes_def)
  from recovery_after_cut [OF s(1) ValidateName_segmentName s(2) ok d, of sample_opts] show ?thesis by auto
qed

section \<open>The log, end to end\<close>

text \<open>
  C12: appending to a log writes the longest prefix of the batch that can be framed, at
  consecutive offsets from the log's next one, and returns those offsets; it returns an error
  exactly when some event cannot be framed; nothing durable becomes less so, and under
  \<^verbatim>\<open>Sync\<close> a successful append is durable in full.
\<close>

theorem append_is_exact:
  assumes "is_log f l es n" "unat (log_Next l) + length xs < 2 ^ 64"
  shows "\<exists>err l' f' n'.
    log_Append sim_ops xs l f = ((offsets_from (log_Next l) (length (takeWhile framable xs)), err), l', f') \<and>
    (err = None \<longleftrightarrow> list_all framable xs) \<and> is_log f' l' (es @ number (log_Next l) (takeWhile framable xs)) n' \<and> n \<le> n' \<and>
    (c_Durability (l_cfg l) = Sync \<longrightarrow> err = None \<longrightarrow> xs \<noteq> [] \<longrightarrow> n' = length es + length xs)"
  by (rule append_is_log [OF assms]) blast

theorem append_is_exact_witness:
  "\<exists>(l :: simfs Log) f err l' f' n'.
    log_Append sim_ops [sample_event] l f = ((offsets_from 1 1, err), l', f') \<and> err = None \<and>
    is_log f' l' [(0, sample_event), (1, sample_event)] n' \<and> n' = 2"
proof -
  obtain l and f :: simfs where s: "is_log f l [(0, sample_event)] 1" "log_Next l = 1" "c_Durability (l_cfg l) = Sync"
    by (rule sample_log) blast
  have "unat (log_Next l) + length [sample_event] < 2 ^ 64" by (simp add: s(2))
  from append_is_exact [OF s(1) this] show ?thesis using s(2,3) by (simp add: numeral_2_eq_2) blast
qed

text \<open>
  C20: reading an offset returns the event the log holds there and \<^verbatim>\<open>ErrNotFound\<close> when it holds
  none, over as many segments as there are, and leaves the log's contents alone.
\<close>

theorem log_read_is_lookup:
  assumes "is_log f l es n"
  shows "\<exists>res l' f'. log_Read sim_ops off l f = (res, l', f') \<and> is_log f' l' es n \<and>
    (case map_of es off of
       Some e \<Rightarrow> res = Inr \<lparr>r_Offset = off, r_Event = e, r_Len = RecordLen e\<rparr>
     | None \<Rightarrow> \<exists>err. res = Inl err \<and> same_class err (Sentinel ErrNotFound))"
  by (rule read_is_log [OF assms]) blast

theorem log_read_is_lookup_witness:
  "\<exists>(l :: simfs Log) f l' f'. log_Read sim_ops 0 l f =
     (Inr \<lparr>r_Offset = 0, r_Event = sample_event, r_Len = RecordLen sample_event\<rparr>, l', f')"
proof -
  obtain l and f :: simfs where "is_log f l [(0, sample_event)] 1" by (rule sample_log) blast
  from log_read_is_lookup [OF this, of 0] show ?thesis by auto
qed

text \<open>
  C13: a reader started at an offset delivers every entry at or past it, in order, once each,
  however many records the segments hold and whatever gaps compaction left; every call
  returns.
\<close>

theorem reader_delivers_all:
  assumes "is_log f l es n" "log_Reader from l = Inr r"
  shows "\<exists>r' l' f'. consume sim_ops m r l f = Some (take m (filter (\<lambda>x. from \<le> fst x) es), r', l', f') \<and> is_log f' l' es n"
proof -
  have "from_off from es = filter (\<lambda>x. from \<le> fst x) es"
    using from_off_filter [OF is_log_next(1) [OF assms(1)]] by simp
  then show ?thesis using consume_is_log [OF assms, of m] by metis
qed

theorem reader_delivers_all_witness:
  "\<exists>(l :: simfs Log) f r r' l' f'. log_Reader 0 l = Inr r \<and> consume sim_ops 5 r l f = Some ([(0, sample_event)], r', l', f')"
proof -
  obtain l and f :: simfs where s: "is_log f l [(0, sample_event)] 1" "log_First l = 0" by (rule sample_log) blast
  then obtain r where r: "log_Reader 0 l = Inr r" by (auto simp: log_Reader_def)
  from reader_delivers_all [OF s(1) r, of 5] r show ?thesis by simp blast
qed

text \<open>
  After \<^verbatim>\<open>Sync\<close> the whole log is durable.\<close>

theorem sync_makes_durable:
  assumes "is_log f l es n"
  shows "\<exists>l' f'. log_Sync sim_ops l f = (None, l', f') \<and> is_log f' l' es (length es)"
  by (rule sync_is_log [OF assms]) blast

theorem sync_makes_durable_witness: "\<exists>(l :: simfs Log) f l' f'. log_Sync sim_ops l f = (None, l', f') \<and> is_log f' l' [(0, sample_event)] 1"
proof -
  obtain l and f :: simfs where "is_log f l [(0, sample_event)] 1" by (rule sample_log) blast
  from sync_makes_durable [OF this] show ?thesis by auto
qed

text \<open>
  C5: after a power cut the log opens, holds exactly the durable prefix of its entries, does
  not take the torn tail for corruption, and appends after what it kept.
\<close>

theorem crash_recovers_durable_prefix:
  assumes "is_log f l es n" "openable cfg"
  shows "\<exists>l' rec f'. log_Open sim_ops cfg (sim_Crash f) = (Inr (l', rec), f') \<and> is_log f' l' (take n es) n \<and>
    R_Corrupt rec = None \<and> R_Next rec = log_Next l'"
  by (rule crash_is_log [OF assms]) blast

theorem crash_recovers_durable_prefix_witness:
  "\<exists>(l :: simfs Log) f rec f'. log_Open sim_ops sync_config (sim_Crash f) = (Inr (l, rec), f') \<and> is_log f' l [(0, sample_event)] 1"
proof -
  obtain l and f :: simfs where "is_log f l [(0, sample_event)] 1" by (rule sample_log) blast
  from crash_recovers_durable_prefix [OF this openable_sync_config] show ?thesis by auto
qed

text \<open>
  C14: compacting every sealed segment removes entries and adds none, keeps the order, keeps the
  entry a reader of any key ends on, leaves the log's end where it was and loses nothing
  that was durable.
\<close>

theorem compaction_keeps_latest:
  assumes "is_log f l es n"
  shows "\<exists>cps l' f' es' n'. log_CompactAll sim_ops l f = ((cps, None), l', f') \<and> is_log f' l' es' n' \<and> subseq es' es \<and>
    (\<forall>key. latest key es' = latest key es) \<and> length es' - n' = length es - n \<and> log_Next l' = log_Next l"
  by (rule compact_is_log [OF assms]) blast

theorem compaction_keeps_latest_witness:
  "\<exists>(l :: simfs Log) f cps l' f' es' n'. log_CompactAll sim_ops l f = ((cps, None), l', f') \<and> is_log f' l' es' n' \<and>
    latest ''k'' es' = Some (0, sample_event)"
proof -
  obtain l and f :: simfs where "is_log f l [(0, sample_event)] 1" by (rule sample_log) blast
  moreover have "latest ''k'' [(0, sample_event)] = Some (0, sample_event)" by (simp add: latest_def sample_event_def)
  ultimately show ?thesis using compaction_keeps_latest [of f l "[(0, sample_event)]" 1] by metis
qed

text \<open>
  C7: any sequence of calls, power cuts among them, is a run of the abstract machine whose
  state is a list of entries with a durable prefix.
\<close>

theorem log_refines_spec:
  assumes "log_trace cfg ops (l, f) (l', f')" "is_log f l es n" "openable cfg"
  shows "\<exists>es' n'. spec_trace ops (es, n) (es', n') \<and> is_log f' l' es' n'"
  using log_trace_refines [OF assms(1)] assms(2,3) by simp

text \<open>
  C8: what is durable survives: as long as nothing is compacted, the durable prefix is still
  there, in place, after any sequence of appends, syncs, reads and power cuts.
\<close>

theorem durable_prefix_survives:
  assumes "log_trace cfg ops (l, f) (l', f')" "is_log f l es n" "openable cfg" "OpCompactAll \<notin> set ops"
  shows "\<exists>es' n'. is_log f' l' es' n' \<and> take n es' = take n es \<and> n \<le> n'"
proof -
  obtain es' n' where "spec_trace ops (es, n) (es', n')" "is_log f' l' es' n'"
    using log_trace_refines [OF assms(1), of es n] assms(2,3) by auto
  then show ?thesis using spec_trace_durable [of ops "(es, n)" "(es', n')"] assms(4) is_log_durable_le [OF assms(2)] by auto
qed

lemma crash_trace:
  assumes "is_log f l es n"
  obtains l' f' where "log_trace sync_config [OpCrash] (l, f) (l', f')"
  using crash_is_log [OF assms openable_sync_config] trace_cons [OF step_crash trace_nil] by metis

theorem log_refines_spec_witness:
  "\<exists>(l :: simfs Log) f l' f' es' n'. log_trace sync_config [OpCrash] (l, f) (l', f') \<and>
     spec_trace [OpCrash] ([(0, sample_event)], 1) (es', n') \<and> is_log f' l' es' n'"
proof -
  obtain l and f :: simfs where s: "is_log f l [(0, sample_event)] 1" by (rule sample_log) blast
  obtain l' f' where t: "log_trace sync_config [OpCrash] (l, f) (l', f')" by (rule crash_trace [OF s])
  from log_refines_spec [OF t s openable_sync_config] t show ?thesis by blast
qed

theorem durable_prefix_survives_witness:
  "\<exists>(l :: simfs Log) f l' f' es' n'. log_trace sync_config [OpCrash] (l, f) (l', f') \<and> is_log f' l' es' n' \<and>
     take 1 es' = [(0, sample_event)]"
proof -
  obtain l and f :: simfs where s: "is_log f l [(0, sample_event)] 1" by (rule sample_log) blast
  obtain l' f' where t: "log_trace sync_config [OpCrash] (l, f) (l', f')" by (rule crash_trace [OF s])
  from durable_prefix_survives [OF t s openable_sync_config] t show ?thesis by simp blast
qed

section \<open>Consumer groups and snapshots\<close>

text \<open>
  A commit that returned survives a power cut: after the log is opened again, the group's
  committed offset is the one that was committed.
\<close>

theorem commit_survives_crash:
  assumes "is_log f l es n" "group_inv (abs_sim f) l hs" "Suc (length hs) < 2 ^ 64" "log_First l \<le> off" "off \<le> log_Next l"
    "length name \<le> MaxKeyLen" "clock_ok (l_cfg l)" "openable cfg"
  shows "\<exists>l1 f1 l2 rec f2 l3 f3. group_Commit sim_ops name off l f = (None, l1, f1) \<and> is_log f1 l1 es n \<and>
    log_Open sim_ops cfg (sim_Crash f1) = (Inr (l2, rec), f2) \<and>
    group_Committed sim_ops name l2 f2 = ((off, None), l3, f3) \<and> is_log f3 l3 (take n es) n"
proof -
  obtain pre b rs k where i: "wf_sim f" "log_inv (abs_sim f) l pre b rs k" "es = flat (pre @ [(b, rs)])" "n = length (flat pre) + k"
    by (rule is_logE [OF assms(1)])
  obtain t l1 f1 where c: "group_Commit sim_ops name off l f = (None, l1, f1)" "wf_sim f1" "log_inv (abs_sim f1) l1 pre b rs k"
    "group_inv (abs_sim f1) l1 (hs @ [(name, off, t)])"
    by (rule sim.group_Commit_ok [OF i(1,2) assms(2-7)]) blast
  obtain l2 rec f2 where o: "log_Open sim_ops cfg (sim_Crash f1) = (Inr (l2, rec), f2)" "wf_sim f2"
    "log_inv (abs_sim f2) l2 pre b (take k rs) k" "group_inv (abs_sim f2) l2 (hs @ [(name, off, t)])"
    by (rule sim.group_crash_Open [OF c(3,4) sim_Crash_refines(2) [OF c(2)] sim_Crash_refines(1) [OF c(2)] assms(8)]) blast
  obtain cm f3 where g: "wf_sim f3" "log_inv (abs_sim f3) (l2\<lparr>l_commits := Some cm\<rparr>) pre b (take k rs) k"
    "group_Committed sim_ops name l2 f2 =
      ((case find (\<lambda>h. fst h = name) (rev (hs @ [(name, off, t)])) of
          None \<Rightarrow> (log_First l2, Some (Errorf ''%w: %s'' [Sentinel ErrNoGroup]))
        | Some h \<Rightarrow> (fst (snd h), None)), l2\<lparr>l_commits := Some cm\<rparr>, f3)"
    by (rule sim.group_Committed_ok [OF o(2-4), of name]) blast
  have "is_log f1 l1 es n" "is_log f3 (l2\<lparr>l_commits := Some cm\<rparr>) (take n es) n"
    using is_logI [OF c(2,3)] is_logI [OF g(1,2)] i(3,4) by simp_all
  then show ?thesis using c(1) o(1) g(3) by auto
qed

text \<open>
  The history of commits lists every commit in order, and what a group has committed is the
  last entry of its history; a group without one starts at the log's first offset, with
  \<^verbatim>\<open>ErrNoGroup\<close>.
\<close>

theorem commit_history_complete:
  assumes "is_log f l es n" "group_inv (abs_sim f) l hs"
  shows "(\<exists>l' f'. log_CommitHistory sim_ops l f = (Inr (commits_from 0 hs), l', f')) \<and>
    (\<exists>l' f'. group_Committed sim_ops name l f =
      ((case find (\<lambda>h. fst h = name) (rev hs) of
          None \<Rightarrow> (log_First l, Some (Errorf ''%w: %s'' [Sentinel ErrNoGroup]))
        | Some h \<Rightarrow> (fst (snd h), None)), l', f'))"
proof -
  obtain pre b rs k where i: "wf_sim f" "log_inv (abs_sim f) l pre b rs k" by (rule is_logE [OF assms(1)])
  obtain c f' where "log_CommitHistory sim_ops l f = (Inr (commits_from 0 hs), l\<lparr>l_commits := Some c\<rparr>, f')"
    by (rule sim.log_CommitHistory_ok [OF i assms(2)]) blast
  moreover obtain c' f'' where "group_Committed sim_ops name l f =
      ((case find (\<lambda>h. fst h = name) (rev hs) of
          None \<Rightarrow> (log_First l, Some (Errorf ''%w: %s'' [Sentinel ErrNoGroup]))
        | Some h \<Rightarrow> (fst (snd h), None)), l\<lparr>l_commits := Some c'\<rparr>, f'')"
    by (rule sim.group_Committed_ok [OF i assms(2), of name]) blast
  ultimately show ?thesis by blast
qed

lemma fresh_log_ready:
  obtains l f where "is_log (f :: simfs) l [] 0" "group_inv (abs_sim f) l []" "snaps_below (abs_sim f) 0" "log_First l = 0"
    "log_Next l = 0" "clock_ok (l_cfg l)"
proof -
  obtain l and f :: simfs where o: "is_log f l [] 0" "log_Next l = 0" "log_First l = 0" "c_Clock (l_cfg l) = None" "l_commits l = None"
    "\<And>nm. nm \<notin> segment_names \<Longrightarrow> d_dir (abs_sim f) nm = None \<and> d_sdir (abs_sim f) nm = None"
    by (rule fresh_log) blast
  have "group_inv (abs_sim f) l []" using o(5) o(6) [OF commitsFile_not_segment]
    by (simp only: group_inv_def commits_file_def history_ok_def option.case) simp
  moreover have "snaps_below (abs_sim f) 0"
  proof -
    have "snapshotName x \<notin> segment_names" for x using snapshot_not_segment by blast
    then show ?thesis unfolding snaps_below_def using o(6) by simp
  qed
  moreover have "clock_ok (l_cfg l)" using o(4) by (simp add: clock_ok_def)
  ultimately show thesis using that o(1,2,3) by blast
qed

theorem commit_survives_crash_witness:
  "\<exists>(l :: simfs Log) f l1 f1 l2 rec f2 l3 f3. group_Commit sim_ops ''g'' 0 l f = (None, l1, f1) \<and>
    log_Open sim_ops sync_config (sim_Crash f1) = (Inr (l2, rec), f2) \<and> group_Committed sim_ops ''g'' l2 f2 = ((0, None), l3, f3)"
proof -
  obtain l and f :: simfs where s: "is_log f l [] 0" "group_inv (abs_sim f) l []" "log_First l = 0" "log_Next l = 0" "clock_ok (l_cfg l)"
    by (rule fresh_log_ready) blast
  have p: "Suc (length ([] :: commit_entry list)) < 2 ^ 64" "log_First l \<le> 0" "0 \<le> log_Next l" "length ''g'' \<le> MaxKeyLen"
    by (simp_all add: s(3) MaxKeyLen_def)
  from commit_survives_crash [OF s(1,2) p s(5) openable_sync_config] show ?thesis by blast
qed

theorem commit_history_complete_witness:
  "\<exists>(l :: simfs Log) f l' f'. log_CommitHistory sim_ops l f = (Inr [], l', f')"
proof -
  obtain l and f :: simfs where s: "is_log f l [] 0" "group_inv (abs_sim f) l []" by (rule fresh_log_ready) blast
  from commit_history_complete [OF s, of "''g''"] show ?thesis by auto
qed

text \<open>
  A commit outside what the log holds is refused with \<^verbatim>\<open>ErrNotFound\<close> before anything is
  written.
\<close>

theorem commit_out_of_range:
  assumes "off < log_First l \<or> log_Next l < off"
  shows "\<exists>err. group_Commit F name off l st = (Some err, l, st) \<and> same_class err (Sentinel ErrNotFound)"
  using assms by (auto simp: group_Commit_def same_class_def)

theorem commit_out_of_range_witness:
  "\<exists>(l :: simfs Log) f err. group_Commit sim_ops ''g'' 7 l f = (Some err, l, f) \<and> same_class err (Sentinel ErrNotFound)"
proof -
  obtain f :: simfs and l :: "simfs Log" where s: "log_Next l = 0" by (rule fresh_log_ready) blast
  then have "7 < log_First l \<or> log_Next l < 7" by simp
  from commit_out_of_range [OF this, of sim_ops "''g''" f] show ?thesis by blast
qed



section \<open>The deterministic core\<close>



text \<open>
  A run counts as absorbed for a window exactly when the projection's digest has been the
  same over more than that many of its last steps.
\<close>

theorem absorbed_counts_still_steps:
  assumes "length xs < 2 ^ 63"
  shows "chain_Absorbed w (run_chain xs) \<longleftrightarrow> 0 < sint w \<and> sint w < int (length (takeWhile (\<lambda>x. snd x = snd (last xs)) (rev xs)))"
  using chain_Absorbed_iff [OF assms] by (simp add: still_def)

theorem absorbed_counts_still_steps_witness:
  "chain_Absorbed 1 (run_chain [(sample_event, [0]), (sample_event, [0])]) \<and> \<not> chain_Absorbed 2 (run_chain [(sample_event, [0]), (sample_event, [0])])"
proof -
  have "length [(sample_event, [0 :: byte]), (sample_event, [0])] < 2 ^ 63" by simp
  from absorbed_counts_still_steps [OF this, of 1] absorbed_counts_still_steps [OF this, of 2] show ?thesis by simp
qed

text \<open>
  C30: a live run and its replay are the same run. With a decider that only reads, folding the
  events a command returned, from the state before it, gives the same projection and the
  same chain.
\<close>

theorem live_run_is_its_replay:
  assumes "pure_decider (cy_dec c)" "cycle_Submit cmd c w = (Inr es, c', w')"
  shows "cycle_Fold es c w = (None, c', w')"
  by (rule pure_decider.submit_is_fold [OF assms(1) refl assms(2)])

text \<open>
  A rejected command leaves the projection and the chain untouched; the only other way for
  a command to fail is a projection that refused an event halfway, and then the cycle is
  poisoned with the error it returned.
\<close>

theorem rejected_command_changes_nothing:
  assumes "pure_decider (cy_dec c)" "cycle_Submit cmd c w = (Inl err, c', w')" "\<not> errors_Is err ErrPoisoned"
  shows "c' = c \<and> w' = w"
  using pure_decider.submit_rejected [OF assms(1) refl assms(2)] assms(3) by blast

text \<open>A poisoned cycle refuses every call with the error that poisoned it and stays as it is.\<close>

theorem poisoned_cycle_refuses:
  assumes "cy_poison c = Some err"
  shows "cycle_Submit cmd c w = (Inl err, c, w) \<and> cycle_Fold es c w = (Some err, c, w)"
  using poisoned_refuses [OF assms] by blast

text \<open>Batching does not matter: folding two batches in turn is folding them as one.\<close>

theorem fold_ignores_batching:
  "cycle_Fold (xs @ ys) c w = (None, c', w') \<longleftrightarrow>
     (\<exists>c1 w1. cycle_Fold xs c w = (None, c1, w1) \<and> cycle_Fold ys c1 w1 = (None, c', w'))"
  by (rule cycle_Fold_append)

text \<open>A cycle over a ledger with two accounts, and a credit to the first.\<close>

definition sample_cycle :: "ledger_world Cycle" where
  "sample_cycle = \<lparr>cy_deps = sim_deps_ops, cy_dec = ledger_decider, cy_proj = ledger_projection, cy_chain = NewChain, cy_poison = None\<rparr>"

definition sample_world :: ledger_world where
  "sample_world = start_world \<lparr>wl_Seed = 1, wl_Commands = 1, wl_Accounts = 2\<rparr>"

lemma sample_world_sel [simp]:
  "lw_ledger sample_world = newLedger 2" "clock_Now (sw_clock sample_world) = 0" "cycle_ready sample_cycle"
  by (simp_all add: sample_world_def start_world_def sim_Deps_def NewClock_def clock_Now_def sim_world.defs ledger_world.defs
      sample_cycle_def cycle_ready_def)

lemma sample_submit:
  obtains es c' w' where "cycle_Submit (ledger_command ''credit'' 0 5) sample_cycle sample_world = (Inr es, c', w')"
    "list_all framable es" "length es \<le> 2"
proof -
  have "framable ((ledger_event opCredit 0 5)\<lparr>e_Time := 0\<rparr>)"
    using length_AccountID [of 0]
    by (simp add: framable_def ledger_event_valid RecordLen_def MaxRecordLen_def HeaderLen_def) (simp add: ledger_event_def payloadBytes_def)
  then show thesis
    using ledger_Submit(1) [of sample_cycle "''credit''" 0 sample_world 5] that
    by (auto simp: funded_def newLedger_def take_bit_eq_mod postings_def)
qed

lemma sample_reject:
  obtains err where "cycle_Submit (ledger_command ''debit'' 0 5) sample_cycle sample_world = (Inl err, sample_cycle, sample_world)"
    "errors_Is err ErrInsufficientFunds"
  using ledger_Submit(2) [of sample_cycle "''debit''" 0 sample_world 5] by (auto simp: funded_def newLedger_def take_bit_eq_mod)

lemma sample_pure [simp]: "pure_decider (cy_dec sample_cycle)"
  by (simp add: sample_cycle_def teller.pure_decider_axioms)

theorem live_run_is_its_replay_witness:
  "\<exists>es c' w'. cycle_Submit (ledger_command ''credit'' 0 5) sample_cycle sample_world = (Inr es, c', w') \<and>
     cycle_Fold es sample_cycle sample_world = (None, c', w')"
proof -
  obtain es c' w' where s: "cycle_Submit (ledger_command ''credit'' 0 5) sample_cycle sample_world = (Inr es, c', w')"
    by (rule sample_submit) blast
  from live_run_is_its_replay [OF sample_pure s] s show ?thesis by blast
qed

theorem rejected_command_changes_nothing_witness:
  "\<exists>err c' w'. cycle_Submit \<lparr>c_Name = [], c_Key = [], c_Payload = []\<rparr> sample_cycle sample_world = (Inl err, c', w') \<and> c' = sample_cycle \<and> w' = sample_world"
proof -
  let ?err = "Errorf ''%w: name is required'' [Sentinel ErrInvalidCommand]"
  have s: "cycle_Submit \<lparr>c_Name = [], c_Key = [], c_Payload = []\<rparr> sample_cycle sample_world = (Inl ?err, sample_cycle, sample_world)"
    by (simp add: cycle_Submit_def sample_cycle_def Command_Validate_def)
  from rejected_command_changes_nothing [OF sample_pure s] s show ?thesis by simp
qed

theorem poisoned_cycle_refuses_witness:
  "cycle_Fold [] (sample_cycle\<lparr>cy_poison := Some (Sentinel ErrPoisoned)\<rparr>) sample_world =
     (Some (Sentinel ErrPoisoned), sample_cycle\<lparr>cy_poison := Some (Sentinel ErrPoisoned)\<rparr>, sample_world)"
  using poisoned_cycle_refuses [of "sample_cycle\<lparr>cy_poison := Some (Sentinel ErrPoisoned)\<rparr>"] by simp

section \<open>The simulated dependencies\<close>

text \<open>
  C33: the bounded draw always returns, whatever state the generator is in, with a value below
  the bound.
\<close>

theorem intn_returns_in_range:
  assumes "0 < n" "n < 2 ^ 63"
  shows "\<exists>v s'. source_Intn n s = Some (v, s') \<and> 0 \<le> v \<and> v < n"
  using source_Intn_ok [OF assms, of s] by (metis uint_ge_0)

theorem intn_returns_in_range_witness: "\<exists>v s'. source_Intn 6 (NewSource 42) = Some (v, s') \<and> 0 \<le> v \<and> v < 6"
  by (rule intn_returns_in_range) simp_all

text \<open>
  The bounded draw has no bias: a draw returns the high half of a product the loop accepts,
  and of the values of the generator each result comes from the same number of accepted ones.
\<close>

theorem intn_unbiased:
  assumes "0 < n" "n < 2 ^ 63"
  shows "(\<exists>x s'. source_Intn n s = Some (uint (fst (Mul64 x (word_of_int n))), s') \<and>
      x \<in> intn_draws n (uint (fst (Mul64 x (word_of_int n))))) \<and>
    (\<forall>v. 0 \<le> v \<longrightarrow> v < n \<longrightarrow> card (intn_draws n v) = 2 ^ 64 div nat n)"
proof -
  obtain x s' where "source_Intn n s = Some (uint (fst (Mul64 x (word_of_int n))), s')"
    "\<not> snd (Mul64 x (word_of_int n)) < - word_of_int n mod (word_of_int n :: 64 word)"
    by (rule source_Intn_ok [OF assms]) blast
  then show ?thesis using intn_uniform [OF assms] by (auto simp: intn_draws_def)
qed

theorem intn_unbiased_witness: "card (intn_draws 6 3) = 2 ^ 64 div 6"
  using intn_unbiased [of 6] by simp



text \<open>
  The timers that are due are those not cancelled whose deadline has come, in the order they
  were created.
\<close>

theorem due_timers_in_creation_order:
  "sorted_wrt (<) (clock_Due c) \<and> set (clock_Due c) =
     {i. i < length (ck_timers c) \<and> \<not> tm_cancelled (ck_timers c ! i) \<and> sint (tm_due (ck_timers c ! i)) \<le> sint (ck_now c)}"
  using clock_Due_sorted [of c] clock_Due_set [of c] by (simp add: timer_Ready_def)

section \<open>The ledger\<close>



text \<open>
  C31: a transfer the source account covers moves the amount: the total is unchanged and no
  account goes below zero; one it does not cover is rejected with
  \<^verbatim>\<open>ErrInsufficientFunds\<close> and changes nothing.
\<close>

theorem transfer_conserves_money:
  assumes "cycle_ready c" "solvent accounts m (lw_ledger w)" "2 \<le> accounts" "accounts \<le> 2 ^ 16" "idx < accounts"
    "0 \<le> sint a" "take_bit 32 a = a" "0 \<le> m" "m + sint a < 2 ^ 63" "0 \<le> sint (clock_Now (sw_clock w))"
  shows "\<exists>r c' w'. cycle_Submit (ledger_command ''transfer'' idx a) c w = (r, c', w') \<and>
    ledger_total (lw_ledger w') = ledger_total (lw_ledger w) \<and> solvent accounts (m + sint a) (lw_ledger w') \<and>
    (case r of
       Inr es \<Rightarrow> sint a \<le> sint (lg_balances (lw_ledger w) ! idx) \<and> length es = 2
     | Inl err \<Rightarrow> errors_Is err ErrInsufficientFunds \<and> c' = c \<and> w' = w)"
proof -
  have len: "length (lg_balances (lw_ledger w)) = accounts" using assms(2) by (simp add: solvent_def)
  have name: "''transfer'' \<in> ledger_names" by simp
  have pre: "idx < length (lg_balances (lw_ledger w))" "length (lg_balances (lw_ledger w)) \<le> 2 ^ 16" using assms(4,5) len by simp_all
  note sub = ledger_Submit [OF assms(1) name pre assms(7,10), unfolded len]
  let ?ps = "postings ''transfer'' accounts idx a"
  show ?thesis
  proof (cases "funded ''transfer'' idx a (lw_ledger w)")
    case True
    have "solvent accounts (m + sint a) (post_all ?ps (lw_ledger w))"
      by (rule solvent_postings [OF assms(2,5,6,9,8) True name])
    moreover have "ledger_total (post_all ?ps (lw_ledger w)) = ledger_total (lw_ledger w)"
      using assms(3,5) len opDebit_not_opCredit by (simp add: postings_def ledger_total_def sum_list_update_group)
    moreover have "sint a \<le> sint (lg_balances (lw_ledger w) ! idx)" using True by (simp add: funded_def)
    ultimately show ?thesis using sub(1) [OF True] by (auto simp: postings_def)
  next
    case False
    then show ?thesis using sub(2) assms(2,6) by (fastforce simp: solvent_def)
  qed
qed

theorem transfer_conserves_money_witness:
  "\<exists>r c' w'. cycle_Submit (ledger_command ''transfer'' 0 0) sample_cycle sample_world = (r, c', w') \<and>
     ledger_total (lw_ledger w') = ledger_total (newLedger 2)"
  using transfer_conserves_money [of sample_cycle 2 0 sample_world 0 0] by (auto simp: solvent_def newLedger_def)

section \<open>Across the components\<close>

text \<open>
  C11: event sourcing, end to end. A cycle whose state is the fold of a synced log runs a
  command; its events are appended; the power fails; the log is opened again, read from its
  first offset and folded into a cycle as it was at the start: projection and chain are
  those of the live run.
\<close>

theorem replay_after_crash_is_live_run:
  assumes "is_log f l es n" "n = length es" "c_Durability (l_cfg l) = Sync" "openable cfg"
    "cycle_Fold (map snd es) c0 w0 = (None, c, w)" "pure_decider (cy_dec c)"
    "cycle_Submit cmd c w = (Inr evs, c', w')" "list_all framable evs" "unat (log_Next l) + length evs < 2 ^ 64"
  shows "\<exists>offs l1 f1 l2 rec f2 r xs r' l3 f3. log_Append sim_ops evs l f = ((offs, None), l1, f1) \<and>
    log_Open sim_ops cfg (sim_Crash f1) = (Inr (l2, rec), f2) \<and> log_Reader (log_First l2) l2 = Inr r \<and>
    consume sim_ops (length es + length evs) r l2 f2 = Some (xs, r', l3, f3) \<and>
    cycle_Fold (map snd xs) c0 w0 = (None, c', w')"
proof -
  have all: "takeWhile framable evs = evs" using assms(8) by (simp add: takeWhile_eq_all_conv list_all_iff)
  let ?es = "es @ number (log_Next l) evs"
  obtain offs l1 f1 n1 where a: "log_Append sim_ops evs l f = ((offs, None), l1, f1)" "is_log f1 l1 ?es n1" "n \<le> n1"
    "evs \<noteq> [] \<Longrightarrow> n1 = length es + length evs"
    by (rule append_is_log [OF assms(1,9)]) (use assms(3,8) all in auto)
  have n1: "n1 = length ?es" using a(2,3,4) is_log_durable_le [OF a(2)] assms(2) by (cases "evs = []") auto
  obtain l2 rec f2 where o: "log_Open sim_ops cfg (sim_Crash f1) = (Inr (l2, rec), f2)" "is_log f2 l2 (take n1 ?es) n1"
    by (rule crash_is_log [OF a(2) assms(4)]) blast
  have log2: "is_log f2 l2 ?es n1" using o(2) n1 by simp
  have "log_First l2 \<le> log_Next l2" by (rule is_log_first_next [OF log2])
  then obtain r where r: "log_Reader (log_First l2) l2 = Inr r" by (simp add: log_Reader_def not_less [symmetric])
  have fo: "from_off (log_First l2) ?es = ?es"
    using from_off_filter [OF is_log_next(1) [OF log2]] is_log_first [OF log2] by (simp add: filter_id_conv)
  obtain r' l3 f3 where "consume sim_ops (length es + length evs) r l2 f2 =
      Some (take (length es + length evs) (from_off (log_First l2) ?es), r', l3, f3)"
    by (rule consume_is_log [OF log2 r]) blast
  then have c: "consume sim_ops (length es + length evs) r l2 f2 = Some (?es, r', l3, f3)" unfolding fo by simp
  have "cycle_Fold evs c w = (None, c', w')" by (rule pure_decider.submit_is_fold [OF assms(6) refl assms(7)])
  then have "cycle_Fold (map snd es @ evs) c0 w0 = (None, c', w')" 
    unfolding cycle_Fold_append using assms(5) by blast
  moreover have "map snd ?es = map snd es @ evs" by simp
  ultimately show ?thesis using a(1) o(1) r c by metis
qed

theorem replay_after_crash_is_live_run_witness:
  "\<exists>(l :: simfs Log) f evs c' w' offs l1 f1 l2 rec f2 xs r r' l3 f3.
    cycle_Submit (ledger_command ''credit'' 0 5) sample_cycle sample_world = (Inr evs, c', w') \<and>
    log_Append sim_ops evs l f = ((offs, None), l1, f1) \<and> log_Open sim_ops sync_config (sim_Crash f1) = (Inr (l2, rec), f2) \<and>
    consume sim_ops (length evs) r l2 f2 = Some (xs, r', l3, f3) \<and>
    cycle_Fold (map snd xs) sample_cycle sample_world = (None, c', w')"
proof -
  obtain evs c' w' where s: "cycle_Submit (ledger_command ''credit'' 0 5) sample_cycle sample_world = (Inr evs, c', w')"
    "list_all framable evs" "length evs \<le> 2" by (rule sample_submit)
  obtain l and f :: simfs where o: "is_log f l [] 0" "log_Next l = 0" "c_Durability (l_cfg l) = Sync" by (rule fresh_log) blast
  have p: "0 = length ([] :: entry list)" "cycle_Fold (map snd ([] :: entry list)) sample_cycle sample_world = (None, sample_cycle, sample_world)"
    "unat (log_Next l) + length evs < 2 ^ 64"
    using s(3) by (simp_all add: cycle_Fold_def cycle_apply_def sample_cycle_def o(2))
  from replay_after_crash_is_live_run [OF o(1) p(1) o(3) openable_sync_config p(2) sample_pure s(1,2) p(3)] s(1)
  show ?thesis by (simp only: list.size add_0) blast
qed

text \<open>
  Whatever a power cut leaves when a file's length outlives its contents, recovery keeps every
  record before the hole and nothing after it.
\<close>

theorem recovery_after_zero_extension:
  assumes "wf_sim f" "ValidateName name = None" "d_dir (abs_sim f) name = Some i" "records_ok base rs"
    "d_data (abs_sim f) i = seg_bytes rs @ replicate m 0"
  shows "\<exists>s rec f'. openNamed sim_ops name base opts True f = (Inr (s, rec), f') \<and> seg_rep (abs_sim f') i s rs \<and>
    R_Records rec = length rs \<and> R_Discarded rec = m"
proof -
  obtain s rec f' where op: "openNamed sim_ops name base opts True f = (Inr (s, rec), f')"
    using sim.openNamed_ok [OF assms(1-3)] by blast
  obtain t where t: "parse base (d_data (abs_sim f) i) = (rs, t)" using parse_zeros [OF assms(4)] assms(5) by metis
  have nw: "no_wrap rs" using assms(4) by (simp add: records_ok_def)
  have rep: "seg_rep (abs_sim f') i s rs" using sim.openNamed_rep [OF assms(1) op assms(3) t nw] by simp
  obtain j rs' t' where p: "d_dir (abs_sim f) name = Some j" "parse base (d_data (abs_sim f) j) = (rs', t')"
    "scan_result (zero_Recovery\<lparr>R_Next := base\<rparr>) 0 (d_data (abs_sim f) j) rs' t' rec"
    by (rule sim.openNamed_parse [OF assms(1) op]) blast
  then have "rs' = rs" "j = i" using assms(3) t by simp_all
  then show ?thesis using p(3) op rep assms(5) by (auto simp: scan_result_def zero_Recovery_def)
qed

theorem recovery_after_zero_extension_witness:
  "\<exists>(f :: simfs) s rec f'. openNamed sim_ops (segmentName 0) 0 sample_opts True f = (Inr (s, rec), f') \<and> R_Records rec = 1 \<and> R_Discarded rec = 0"
proof -
  obtain f :: simfs and i s where s: "wf_sim f" "d_dir (abs_sim f) (segmentName 0) = Some i"
    "d_data (abs_sim f) i = seg_bytes [(0, sample_event)]" by (rule sample_segment) blast
  have ok: "records_ok 0 [(0, sample_event)]" by simp
  have d: "d_data (abs_sim f) i = seg_bytes [(0, sample_event)] @ replicate 0 0" using s(3) by simp
  from recovery_after_zero_extension [OF s(1) ValidateName_segmentName s(2) ok d, of sample_opts] show ?thesis by auto
qed

text \<open>
  C34: the simulated power cut does to the simulated disk what a power cut does to a disk: names
  not synced are gone, every other file holds the bytes that were synced; and the filesystem
  is as usable as before.
\<close>

theorem simulated_crash_is_a_crash:
  assumes "wf_sim f"
  shows "abs_sim (sim_Crash f) = disk_crash (abs_sim f) \<and> wf_sim (sim_Crash f)"
  using sim_Crash_refines [OF assms] by blast

theorem simulated_crash_is_a_crash_witness: "abs_sim (sim_Crash (sim_NewFS :: simfs)) = disk_crash (abs_sim sim_NewFS)"
  using simulated_crash_is_a_crash [OF wf_sim_NewFS] by blast

text \<open>A log with a sealed segment of two records, for the example below.\<close>

lemma append_to_active:
  assumes "wf_sim (f :: simfs)" "log_inv (abs_sim f) (l :: simfs Log) [] 0 rs 0" "framable e" "unat (log_Next l) + 1 < 2 ^ 64"
  obtains l' :: "simfs Log" and f' :: simfs where "wf_sim f'" "log_inv (abs_sim f') l' [] 0 (rs @ [(log_Next l, e)]) 0"
proof -
  have rep: "log_rep (abs_sim f) l [] 0 rs" using assms(2) by (simp add: log_inv_def)
  note r = log_repD [OF rep]
  obtain i where i: "d_dir (abs_sim f) (segmentName 0) = Some i" "seg_rep (abs_sim f) i (active l) rs" "s_base (active l) = 0"
    using r(4) by (auto simp: held_def)
  have nd: "d_node (abs_sim f) (s_file (active l)) \<noteq> None" using i(2) by (simp add: seg_rep_def)
  have lt: "unat (s_next (active l)) + length [e] < 2 ^ 64" using assms(4) by (simp add: log_Next_def)
  obtain n first err s' f' where a: "seg_AppendAll sim_ops [e] (active l) f = ((n, first, err), s', f')" "\<not> s_sealed s'"
    using sim.seg_AppendAll_ok [OF assms(1) nd r(5), of "[e]"] by blast
  note q = sim.seg_AppendAll_rep [OF assms(1) i(2) lt a]
  have n: "n = 1" using q(2,4,7) assms(3) by (cases n) (auto simp: first_bad_def split: option.splits)
  have rep': "seg_rep (abs_sim f') i s' (rs @ [(log_Next l, e)])" using q(3,6) n by (simp add: log_Next_def)
  have "s_base s' = 0" "0 < s_maxBytes s'" using arg_cong [OF q(8), of s_base] arg_cong [OF q(8), of s_maxBytes] i(3) r(6) by simp_all
  then have "log_inv (abs_sim f') (set_active s' l) [] 0 (rs @ [(log_Next l, e)]) 0"
    by (intro log_inv_append [OF assms(2) sim.Dir_law [OF assms(1)] i(1) q(5) rep'] a(2))
  with q(1) that show thesis by blast
qed

lemma sealed_pair:
  obtains f :: simfs and l :: "simfs Log" where "wf_sim f"
    "log_inv (abs_sim f) l [(0, [(0, sample_event), (1, sample_event\<lparr>e_Key := ''j''\<rparr>)])] 2 [] 0"
proof -
  obtain l and f :: simfs where o: "is_log f l [] 0" "log_Open sim_ops sync_config sim_NewFS = (Inr (l, zero_Recovery), f)"
    by (rule fresh_log) blast
  have none: "d_dir (abs_sim (sim_NewFS :: simfs)) (segmentName b) = None" for b by (simp add: sim_NewFS_def)
  have f0: "wf_sim f" "log_inv (abs_sim f) l [] 0 [] 0"
    by (rule sim.log_Open_fresh [OF wf_sim_NewFS none openable_sync_config]; use o(2) in simp)+
  have nx: "log_Next l' = end_off b' rs'" if "log_inv d l' pre' b' rs' k'" for d and l' :: "simfs Log" and pre' b' rs' k'
    using log_repD(8) [of d l' pre' b' rs'] that by (simp add: log_inv_def)
  have fr: "framable (sample_event\<lparr>e_Key := ''j''\<rparr>)"
    by (simp add: framable_def sample_event_def Event_Validate_None RecordLen_def MaxRecordLen_def
      MaxKeyLen_def MaxPayloadLen_def headerBytes_def HeaderLen_def)
  obtain l1 :: "simfs Log" and f1 :: simfs where a1: "wf_sim f1" "log_inv (abs_sim f1) l1 [] 0 ([] @ [(log_Next l, sample_event)]) 0"
    by (rule append_to_active [OF f0 framable_sample]) (simp_all add: nx [OF f0(2)])
  have n1: "log_Next l1 = 1" using nx [OF a1(2)] nx [OF f0(2)] by simp
  obtain l2 :: "simfs Log" and f2 :: simfs where a2: "wf_sim f2"
    "log_inv (abs_sim f2) l2 [] 0 (([] @ [(log_Next l, sample_event)]) @ [(log_Next l1, sample_event\<lparr>e_Key := ''j''\<rparr>)]) 0"
    by (rule append_to_active [OF a1 fr]) (simp_all add: n1)
  have n2: "log_Next l2 = 2" using nx [OF a2(2)] n1 by simp
  obtain l3 :: "simfs Log" and f3 :: simfs where "wf_sim f3" "log_inv (abs_sim f3) l3
      ([] @ [(0, ([] @ [(log_Next l, sample_event)]) @ [(log_Next l1, sample_event\<lparr>e_Key := ''j''\<rparr>)])]) (log_Next l2) [] 0"
    by (rule sim.log_roll_ok [OF a2]) simp_all
  then show thesis using that n1 n2 nx [OF f0(2)] by simp
qed

text \<open>
  C38: compacting at an offset inside a sealed segment that has nothing to drop is not refused,
  although no segment begins there: the check compares the offset with the segments' bounds
  and not with their bases.
\<close>

theorem compact_accepts_non_base:
  assumes "wf_sim f" "log_inv (abs_sim f) l pre b rs k" "piece_for base (pre @ [(b, rs)]) c" "base < b"
    "newest_per_key (snd c) = snd c" "base \<notin> set (log_Segments l)"
  shows "\<exists>cp l' f'. log_Compact sim_ops base l f = (Inr cp, l', f') \<and> cp_Base cp = base \<and> cp_Dropped cp = 0"
  by (rule sim.log_Compact_non_base [OF assms(1-5)]) blast

theorem compact_accepts_non_base_witness:
  "\<exists>(l :: simfs Log) f cp l' f'. 1 \<notin> set (log_Segments l) \<and> log_Compact sim_ops 1 l f = (Inr cp, l', f')"
proof -
  obtain f :: simfs and l :: "simfs Log" where s: "wf_sim f"
    "log_inv (abs_sim f) l [(0, [(0, sample_event), (1, sample_event\<lparr>e_Key := ''j''\<rparr>)])] 2 [] 0" by (rule sealed_pair)
  let ?c = "(0, [(0, sample_event), (1, sample_event\<lparr>e_Key := ''j''\<rparr>)]) :: piece"
  have "log_rep (abs_sim f) l [?c] 2 []" using s(2) by (simp add: log_inv_def)
  then have b: "1 \<notin> set (log_Segments l)" using log_repD(1) by (fastforce simp: log_Segments_def)
  have "\<not> (2 :: Offset) \<le> 1" by (simp add: word_le_nat_alt)
  then have p: "piece_for 1 ([?c] @ [(2, [])]) ?c" "(1 :: Offset) < 2" "newest_per_key (snd ?c) = snd ?c"
    by (simp_all add: piece_for_def newest_per_key_def sample_event_def)
  from compact_accepts_non_base [OF s p b] b show ?thesis by blast
qed

section \<open>The fault harness\<close>

text \<open>
  What a corpus file stores of a run reads back. The text of a list of faults parses to the
  list, whatever the faults are, and the text of a shape parses to the shape with its defaults
  filled in.
\<close>

theorem fault_list_round_trip:
  "ParseFaults (FormatFaults fs) = Inr fs \<and> ParseShape (Shape_String s) = Inr (Shape_withDefaults s)"
  by (simp add: ParseFaults_FormatFaults ParseShape_String)



text \<open>
  C39: a crash that leaves zeros or a torn tail is scheduled for nothing. Over a schedule of such
  faults an operation is let through on the same disk, the machine does not stop and no fault
  is recorded as fired.
\<close>

theorem crash_shapes_never_fire:
  assumes "\<forall>x\<in>set faults. ft_Kind x \<in> {CrashZeros, CrashTorn}" "h_byOp f = schedule faults []" "\<not> h_crashed f"
  shows "\<exists>f'. hfs_op k nm f = (None, f') \<and> abs_sim f' = abs_sim f \<and> \<not> h_crashed f' \<and> h_fired f' = h_fired f \<and> h_byOp f' = h_byOp f"
proof -
  have "inert f" by (rule inert_schedule [OF _ assms(2)]) (use assms(1) in blast)
  from hfs_op_inert_up [OF this assms(3)] show ?thesis
    using assms(3) same_disk [of "hfs_note k nm (f\<lparr>h_ops := h_ops f + 1\<rparr>)" f] by simp
qed

theorem crash_shapes_never_fire_witness:
  "\<exists>f'. hfs_op ''append'' ''a'' (harness_NewFS [matrix_fault 1 CrashTorn]) = (None, f') \<and> h_fired f' = []"
  using crash_shapes_never_fire [of "[matrix_fault 1 CrashTorn]" "harness_NewFS [matrix_fault 1 CrashTorn]" "''append''" "''a''"]
  by (auto simp: harness_NewFS_def simfs.defs matrix_fault_def)

section \<open>Power cuts anywhere\<close>

text \<open>
  C1: whatever the schedule of crashes, errors and short writes, wherever in a run of calls it
  takes effect and however often the restart is cut off too: the log then opens, and holds what
  the abstract machine holds after the calls that returned, with no more lost of the call that
  did not than the abstract machine allows. The torn tail is not taken for corruption.
\<close>

theorem power_cut_anywhere:
  fixes f :: "'a hfs_scheme"
  assumes "wf_hfs f" "holds_log (abs_hfs f) l es n" "unat (log_Next l) + sum_list (map op_size ops) < 2 ^ 64"
    and "run_calls harness_ops ops l f = (k, l', f')" "openable cfg"
    and "\<forall>byOp\<in>set boots. \<forall>(i, fs)\<in>set byOp. \<forall>x\<in>set fs. ft_Kind x \<noteq> BitFlip"
  shows "\<exists>es1 n1 es2 l2 rec f2. spec_trace (take k ops) (es, n) (es1, n1) \<and>
    (if k = length ops then es2 = take n1 es1 else cut_step (ops ! k) (es1, n1) es2) \<and>
    log_Open harness_ops cfg (hfs_recovered (sim_Crash (failed_boots cfg boots f'))) = (Inr (l2, rec), f2) \<and>
    holds_log (abs_hfs f2) l2 es2 (length es2) \<and> R_Corrupt rec = None"
proof -
  obtain es1 n1 es2 where r: "wf_hfs f'" "spec_trace (take k ops) (es, n) (es1, n1)" "leaves (survived (abs_sim f')) es2"
    "if k = length ops then es2 = take n1 es1 \<and> holds_log (abs_hfs f') l' es1 n1 else cut_step (ops ! k) (es1, n1) es2"
    using cut.run_calls_cases [OF assms(1-4)] by auto
  note b = failed_boots_quiet [OF r(1,3) assms(6), of cfg]
  obtain l2 rec f2 where "log_Open harness_ops cfg (hfs_recovered (sim_Crash (failed_boots cfg boots f'))) = (Inr (l2, rec), f2)"
    "holds_log (abs_hfs f2) l2 es2 (length es2)" "R_Corrupt rec = None"
    by (rule reopen_leaves [of "failed_boots cfg boots f'" es2 cfg]) (use b r(3) assms(5) in simp_all)
  then show ?thesis using r(2,4) by (metis (full_types))
qed

theorem power_cut_anywhere_witness:
  "\<exists>(f :: hfs) (l :: hfs Log) k l' f' es2 l2 rec f2. run_calls harness_ops [OpAppend [sample_event], OpCompactAll] l f = (k, l', f') \<and>
     log_Open harness_ops every_sync (hfs_recovered (sim_Crash (failed_boots every_sync [crash_at 1] f'))) = (Inr (l2, rec), f2) \<and>
     holds_log (abs_hfs f2) l2 es2 (length es2)"
proof -
  obtain l :: "hfs Log" and f :: hfs where f: "wf_hfs (f\<lparr>h_byOp := crash_at 3\<rparr>)" "holds_log (abs_hfs (f\<lparr>h_byOp := crash_at 3\<rparr>)) l [] 0"
    "log_Next l = 0" by (rule armed_log)
  obtain k l' f' where r: "run_calls harness_ops [OpAppend [sample_event], OpCompactAll] l (f\<lparr>h_byOp := crash_at 3\<rparr>) = (k, l', f')"
    by (metis prod_cases3)
  have fits: "unat (log_Next l) + sum_list (map op_size [OpAppend [sample_event], OpCompactAll]) < 2 ^ 64" by (simp add: f(3))
  have boots: "\<forall>byOp\<in>set [crash_at 1]. \<forall>(i, fs)\<in>set byOp. \<forall>x\<in>set fs. ft_Kind x \<noteq> BitFlip" by (simp add: crash_at_def)
  obtain es2 l2 rec f2 where
    "log_Open harness_ops every_sync (hfs_recovered (sim_Crash (failed_boots every_sync [crash_at 1] f'))) = (Inr (l2, rec), f2)"
    "holds_log (abs_hfs f2) l2 es2 (length es2)"
    using power_cut_anywhere [OF f(1,2) fits r openable_every_sync boots] by blast
  with r show ?thesis by blast
qed



section \<open>Commits and snapshots under faults\<close>





section \<open>Well-formedness under faults\<close>

text \<open>
  C10: the faulty filesystem stays well formed: from a new one whose schedule flips no bits, no
  sequence of calls, whatever they return, and of power cuts and boots leads to a state in which a
  name or a handle points at no file, a name is there twice or two names share a file.
\<close>

theorem faulty_filesystem_stays_well_formed:
  assumes "\<forall>x\<in>set faults. ft_Kind x \<noteq> BitFlip" "faulty_step\<^sup>*\<^sup>* (harness_NewFS faults) f"
  shows "wf_hfs f"
  using faulty_steps_wf [OF assms(2)] assms(1) by (simp add: wf_hfs_NewFS)

theorem faulty_filesystem_stays_well_formed_witness:
  "wf_hfs (rebooted [] (snd (fs_Create harness_ops ''a'' (harness_NewFS [matrix_fault 1 Crash]))))"
proof (rule faulty_filesystem_stays_well_formed [of "[matrix_fault 1 Crash]"])
  show "\<forall>x\<in>set [matrix_fault 1 Crash]. ft_Kind x \<noteq> BitFlip" by (simp add: matrix_fault_def)
  have "faulty_step (harness_NewFS [matrix_fault 1 Crash]) (snd (fs_Create harness_ops ''a'' (harness_NewFS [matrix_fault 1 Crash])))"
    by (rule step_call, rule call_Create) (rule prod.collapse [symmetric])
  moreover have "faulty_step f (rebooted [] f)" for f by (rule step_boot) simp
  ultimately show "faulty_step\<^sup>*\<^sup>* (harness_NewFS [matrix_fault 1 Crash])
      (rebooted [] (snd (fs_Create harness_ops ''a'' (harness_NewFS [matrix_fault 1 Crash]))))"
    by (meson rtranclp.intros)
qed

section \<open>The power-loss test\<close>








section \<open>The real filesystem\<close>

text \<open>
  C9: the adapter over the operating system keeps the contract of \<^verbatim>\<open>core/fs.go\<close>. Over any
  system whose calls do what their manuals say when they return no error, and may fail at will, an
  operation of the adapter that returns no error has done what the interface promises: what a read
  or a size returns is what is in the file, an append has stored every byte, a truncation has not
  grown the file, a sync has made it durable, its listing is sorted and holds the regular files
  alone, and an operation that answers \<^verbatim>\<open>ErrNotExist\<close> met no such file and did nothing. And over a
  system that fails no proper call the adapter adds no failure of its own: it is a reliable
  filesystem, so that what is proved of a client of one holds of it over a real directory.
\<close>

theorem runtime_keeps_contract:
  assumes "posix sys dir oabs odir owf"
  shows "fs_contract (runtime_ops sys) (rt_abs oabs) (rt_wf dir oabs owf) \<and>
    (reliable_posix sys dir oabs odir owf \<longrightarrow> reliable_filesystem (runtime_ops sys) (rt_abs oabs) (rt_wf dir oabs owf))"
  using posix.runtime_contract [OF assms] reliable_posix.runtime_reliable by blast

theorem runtime_keeps_contract_witness:
  "fs_contract (runtime_ops (sim_os :: simfs os_ops)) (rt_abs (\<lambda>s. shifted (abs_sim s)))
     (rt_wf ''data'' (\<lambda>s. shifted (abs_sim s)) wf_sim) \<and>
   reliable_filesystem (runtime_ops (sim_os :: simfs os_ops)) (rt_abs (\<lambda>s. shifted (abs_sim s)))
     (rt_wf ''data'' (\<lambda>s. shifted (abs_sim s)) wf_sim)"
  using runtime_keeps_contract [OF sim_posix.posix_axioms, of "''data''"] sim_posix_ok.reliable_posix_axioms by blast

section \<open>The regression corpus\<close>

text \<open>
  C24: what the sweep writes of a failure is what the corpus reads: the seed, the steps, the
  faults, the mode, the workload and the shape of the run, and the operations and the signature
  it was recorded with.
\<close>

theorem corpus_entry_round_trip:
  assumes "named cfg" "silent_text why"
  shows "parseCorpusEntry file (corpus_body cfg ops signature why) =
    Inr \<lparr>ce_file = file, ce_cfg = recorded cfg, ce_ops = ops, ce_signature = signature\<rparr>"
  using assms by (rule parse_corpus_body)

theorem corpus_entry_round_trip_witness:
  "parseCorpusEntry ''0007.md''
     (corpus_body (zero_Config\<lparr>hc_Seed := 7, hc_Steps := 12, hc_Faults := [matrix_fault 3 CrashTorn], hc_Durability := ''os''\<rparr>)
        84 0x07c3950ada49a2db ''reopen: log: torn record'') =
   Inr \<lparr>ce_file = ''0007.md'',
     ce_cfg = \<lparr>hc_Seed = 7, hc_Steps = 12, hc_Faults = [matrix_fault 3 CrashTorn], hc_Durability = ''os'',
       hc_Shape = Shape_withDefaults zero_Shape, hc_Workload = ''mixed''\<rparr>,
     ce_ops = 84, ce_signature = 0x07c3950ada49a2db\<rparr>"
proof -
  let ?cfg = "zero_Config\<lparr>hc_Seed := 7, hc_Steps := 12, hc_Faults := [matrix_fault 3 CrashTorn], hc_Durability := ''os''\<rparr>"
  have n: "named ?cfg" by (simp add: named_def workloadName_def durabilityName_def zero_Config_def)
  have "silent ''    reopen: log: torn record''"
    by (simp add: silent_def Cut_def TrimSpace_plain plain_def field_names_def)
  then have s: "silent_text ''reopen: log: torn record''"
    by (simp add: silent_text_def newline_def)
  show ?thesis
    using corpus_entry_round_trip [OF n s, of "''0007.md''" 84 "0x07c3950ada49a2db"]
    by (simp add: recorded_fields workloadName_def durabilityName_def zero_Config_def)
qed

text \<open>
  C25: a seed file spells out defaults the run it came from had left open; the run it records is
  the same run, with the same operations.
\<close>

theorem recorded_config_runs_alike:
  "harness_Run (recorded cfg) = harness_Run cfg \<and> CleanOps (recorded cfg) = CleanOps cfg"
  by (simp add: harness_Run_recorded CleanOps_recorded)

text \<open>
  A corpus run reports its entries exactly: the summary counts the seeds, those that fail and
  those that pass and no longer run as recorded, and the command fails if and only if a seed does.
\<close>

theorem corpus_report_exact:
  assumes "simCorpus run clean D dir d = Some (out, err)" "loadCorpus D dir d = Inr es" "es \<noteq> []"
    "\<forall>e. err \<noteq> Some (Errorf ''corpus: %s: %w'' [e])"
  shows "last out = summary_line (length es) (length (filter (\<lambda>e. \<not> passes run e) es))
      (length (filter (\<lambda>e. passes run e \<and> drifts clean e) es)) \<and> (err = None \<longleftrightarrow> list_all (passes run) es)"
  using simCorpus_done [OF assms] by simp

text \<open>
  C23: a failure the sweep has written down turns the corpus red: as long as its run still fails,
  no run of the corpus ends without an error. The directory is assumed to hold what was written.
\<close>

theorem written_failure_turns_corpus_red:
  assumes "\<And>p t s s'. dir_WriteFile D p t s = (None, s') \<Longrightarrow>
      dir_ReadFile D p s' = Inr t \<and> (\<exists>names. dir_ReadDir D (fst p) s' = Inr names \<and> (snd p, False) \<in> set names)"
    and "writeCorpusEntry clean msg D dir f d = Some (Inr path, d')"
    and "named (fl_Config f)" "silent_text (msg (fl_Err f))"
    and "run (recorded (fl_Config f)) = Some (Some broke)"
    and "simCorpus run clean D dir d' = Some (out, err)"
  shows "err \<noteq> None"
proof -
  obtain ops signature where w: "path = (dir, fmt_04d (hc_Seed (fl_Config f)) @ ''.md'')"
    "dir_WriteFile D path (corpus_body (fl_Config f) ops signature (msg (fl_Err f))) d = (None, d')"
    using assms(2) by (rule writeCorpusEntry_done)
  obtain names where r: "dir_ReadFile D path d' = Inr (corpus_body (fl_Config f) ops signature (msg (fl_Err f)))"
    "dir_ReadDir D dir d' = Inr names" "(snd path, False) \<in> set names"
    using assms(1) [OF w(2)] w(1) by auto
  show ?thesis
  proof (cases "loadCorpus D dir d'")
    case (Inl e)
    then show ?thesis using assms(6) by (auto simp: simCorpus_def)
  next
    case (Inr es)
    obtain e where e: "e \<in> set es" "parseCorpusEntry (snd path) (corpus_body (fl_Config f) ops signature (msg (fl_Err f))) = Inr e"
      using loadCorpus_has [OF Inr r(2,3)] r(1) seed_name by (auto simp: w(1))
    have "\<not> passes run e" using e(2) assms(5) by (auto simp: passes_def parse_corpus_body [OF assms(3,4)])
    then have "\<not> list_all (passes run) es" using e(1) by (auto simp: list_all_iff)
    then show ?thesis using simCorpus_done(2) [OF assms(6) Inr] e(1) by fastforce
  qed
qed

theorem written_failure_turns_corpus_red_witness:
  "\<exists>d' out err. writeCorpusEntry (\<lambda>c. Some (Inr (84, 5))) (\<lambda>e. ''torn'') mem_dir ''seeds''
       \<lparr>fl_Config = zero_Config\<lparr>hc_Seed := 7\<rparr>, fl_Err = Some (Sentinel ErrTorn)\<rparr> [] = Some (Inr (''seeds'', ''0007.md''), d') \<and>
     simCorpus (\<lambda>c. Some (if hc_Seed c = 7 then Some (Sentinel ErrTorn) else None)) (\<lambda>c. Some (Inr (84, 5))) mem_dir ''seeds'' d' =
       Some (out, err) \<and> err \<noteq> None"
proof -
  let ?cfg = "zero_Config\<lparr>hc_Seed := 7\<rparr>"
  let ?run = "\<lambda>c. Some (if hc_Seed c = 7 then Some (Sentinel ErrTorn) else None)"
  let ?clean = "\<lambda>c. Some (Inr (84, 5)) :: (error + 64 word \<times> 64 word) option"
  let ?f = "\<lparr>fl_Config = ?cfg, fl_Err = Some (Sentinel ErrTorn)\<rparr>"
  let ?d = "[((''seeds'', ''0007.md''), corpus_body ?cfg 84 5 ''torn'')]"
  have n: "named ?cfg" by (simp add: named_def workloadName_def durabilityName_def zero_Config_def)
  have s: "silent_text ''torn''" by (simp add: silent_text_def newline_def silent_word)
  have name: "fmt_04d 7 = ''0007''" by code_simp
  have w: "writeCorpusEntry ?clean (\<lambda>e. ''torn'') mem_dir ''seeds'' ?f [] = Some (Inr (''seeds'', ''0007.md''), ?d)"
    by (simp add: writeCorpusEntry_def mem_dir_def name Let_def)
  have "loadCorpus mem_dir ''seeds'' ?d = Inr [\<lparr>ce_file = ''0007.md'', ce_cfg = recorded ?cfg, ce_ops = 84, ce_signature = 5\<rparr>]"
    by (simp add: loadCorpus_def mem_dir_def HasSuffix_def parse_corpus_body [OF n s])
  then obtain out err where c: "simCorpus ?run ?clean mem_dir ''seeds'' ?d = Some (out, err)"
    by (auto simp: simCorpus_def Let_def recorded_def)
  have "?run (recorded (fl_Config ?f)) = Some (Some (Sentinel ErrTorn))" by (simp add: recorded_def)
  from written_failure_turns_corpus_red [where D = mem_dir, OF mem_dir_keeps w _ _ this c] n s have "err \<noteq> None" by simp
  with w c show ?thesis by blast
qed

theorem corpus_report_exact_witness:
  "\<exists>out. simCorpus (\<lambda>c. Some None) (\<lambda>c. Some (Inr (84, 6))) mem_dir ''seeds''
       [((''seeds'', ''0007.md''), corpus_body (zero_Config\<lparr>hc_Seed := 7\<rparr>) 84 5 ''torn'')] = Some (out, None) \<and>
     last out = summary_line 1 0 1"
proof -
  let ?cfg = "zero_Config\<lparr>hc_Seed := 7\<rparr>"
  let ?d = "[((''seeds'', ''0007.md''), corpus_body ?cfg 84 5 ''torn'')]"
  have n: "named ?cfg" by (simp add: named_def workloadName_def durabilityName_def zero_Config_def)
  have s: "silent_text ''torn''" by (simp add: silent_text_def newline_def silent_word)
  have l: "loadCorpus mem_dir ''seeds'' ?d = Inr [\<lparr>ce_file = ''0007.md'', ce_cfg = recorded ?cfg, ce_ops = 84, ce_signature = 5\<rparr>]"
    by (simp add: loadCorpus_def mem_dir_def HasSuffix_def parse_corpus_body [OF n s])
  then obtain out where c: "simCorpus (\<lambda>c. Some None) (\<lambda>c. Some (Inr (84, 6))) mem_dir ''seeds'' ?d = Some (out, None)"
    by (auto simp: simCorpus_def Let_def recorded_def)
  with corpus_report_exact [OF c l] show ?thesis by (auto simp: passes_def drifts_def)
qed

section \<open>The determinism gate\<close>

text \<open>
  C27: what the determinism gate accepts. If it prints a digest, every run of every seed came to a
  result, returned the chain of the seed's first run, and that run was not absorbed; the digest is
  SHA-256 of the parameters and the chains in seed order.
\<close>

theorem verify_accepts_only_agreement:
  assumes "verifyDeterminism run seeds commands accounts repeat verbose = Some (out, None)"
  shows "\<exists>rs. list_all2 (seed_agrees run commands accounts (nat repeat)) [1..<Suc (nat seeds)] rs \<and>
    last out = Printf ''digest    %s'' [P_str (digest_String (Sum256 (agg_of commands accounts [1..<Suc (nat seeds)] rs)))]"
proof -
  obtain t where t: "verify_seeds run commands accounts (nat repeat) verbose [1..<Suc (nat seeds)]
      \<lparr>ta_agg = agg_header commands accounts, ta_steps = 0, ta_rejected = 0, ta_absorbed = 0, ta_out = []\<rparr> = Some (t, None)"
    "last out = Printf ''digest    %s'' [P_str (digest_String (Sum256 (ta_agg t)))]"
    using assms by (auto simp: verifyDeterminism_def split: if_splits bind_splits option.splits)
  from verify_seeds_done [OF t(1)] t(2) show ?thesis by (auto simp: agg_of_def)
qed

text \<open>
  Two digests of the determinism gate over the same seeds and parameters agree only if the chains
  of all seeds do, unless SHA-256 collides on what was hashed: no divergence cancels out.
\<close>

theorem verify_digest_identifies_chains:
  assumes "inj_on Sum256 {agg_of commands accounts seeds rs, agg_of commands accounts seeds rs'}"
    and "length rs = length seeds" "length rs' = length seeds" "\<forall>r\<in>set rs \<union> set rs'. length (rs_Chain r) = 32"
    and "digest_String (Sum256 (agg_of commands accounts seeds rs)) = digest_String (Sum256 (agg_of commands accounts seeds rs'))"
  shows "map rs_Chain rs = map rs_Chain rs'"
proof -
  have "agg_of commands accounts seeds rs = agg_of commands accounts seeds rs'"
    by (rule inj_onD [OF assms(1) digest_String_inject [OF assms(5)]]) simp_all
  then show ?thesis using seed_bytes_inject [OF assms(2-4)] by (simp add: agg_of_def)
qed

theorem verify_digest_identifies_chains_witness:
  "map rs_Chain [(zero_Result 1)\<lparr>rs_Steps := 5\<rparr>] = map rs_Chain [zero_Result 1]"
proof (rule verify_digest_identifies_chains [where commands = 500 and accounts = 16 and seeds = "[1]"])
  have "agg_of 500 16 [1] [(zero_Result 1)\<lparr>rs_Steps := 5\<rparr>] = agg_of 500 16 [1] [zero_Result 1]" by (simp add: agg_of_def)
  then show "inj_on Sum256 {agg_of 500 16 [1] [(zero_Result 1)\<lparr>rs_Steps := 5\<rparr>], agg_of 500 16 [1] [zero_Result 1]}"
    "digest_String (Sum256 (agg_of 500 16 [1] [(zero_Result 1)\<lparr>rs_Steps := 5\<rparr>])) = digest_String (Sum256 (agg_of 500 16 [1] [zero_Result 1]))"
    by simp_all
qed (simp_all add: zero_Result_def)

theorem verify_accepts_only_agreement_witness:
  "\<exists>out. verifyDeterminism (\<lambda>i w. Some (Inr (zero_Result (wl_Seed w)))) 2 500 16 3 False = Some (out, None) \<and>
     (\<exists>rs. list_all2 (seed_agrees (\<lambda>i w. Some (Inr (zero_Result (wl_Seed w)))) 500 16 3) [1, 2] rs)"
proof -
  let ?run = "\<lambda>i w. Some (Inr (zero_Result (wl_Seed w))) :: (error + Result) option"
  have "repeat_loop ?run w (rs_Chain (zero_Result (wl_Seed w))) is = Some None" for w "is" by (induction "is") simp_all
  then obtain out where v: "verifyDeterminism ?run 2 500 16 3 False = Some (out, None)"
    by (simp add: verifyDeterminism_def numeral_2_eq_2 seed_workload_def zero_Result_def Let_def)
  moreover have "[1..<Suc (nat 2)] = [1, 2]" by (simp add: upt_rec)
  ultimately show ?thesis using verify_accepts_only_agreement [OF v] by auto
qed

text \<open>
  C28: on the program's own runs, within the workload's limits, the determinism gate always comes to
  an end, and the only thing it ever complains of is a seed whose run was absorbed.
\<close>

theorem verify_fails_only_on_absorption:
  assumes "1 \<le> seeds" "1 \<le> repeat" "1 \<le> commands" "commands < 2 ^ 50" "2 \<le> accounts" "accounts \<le> 2 ^ 16"
  shows "\<exists>out err. verifyDeterminism (\<lambda>_. ledger_Run) seeds commands accounts repeat verbose = Some (out, err) \<and>
    (err = None \<longleftrightarrow> (\<forall>s\<in>{1..nat seeds}. \<forall>r. ledger_Run (seed_workload commands accounts s) = Some (Inr r) \<longrightarrow> \<not> rs_Absorbed r)) \<and>
    (err \<noteq> None \<longrightarrow> err = Some (Errorf ''seed %d reached an absorbing state'' []))"
proof -
  have set: "set [1..<Suc (nat seeds)] = {1..nat seeds}" by auto
  show ?thesis
    using verify_seeds_ledger [OF assms(3-6), of "nat repeat" verbose "[1..<Suc (nat seeds)]"
        "\<lparr>ta_agg = agg_header commands accounts, ta_steps = 0, ta_rejected = 0, ta_absorbed = 0, ta_out = []\<rparr>"] assms(1,2)
    unfolding set by (force simp: verifyDeterminism_def simp del: upt_Suc split: option.splits)
qed

theorem verify_fails_only_on_absorption_witness:
  "\<exists>out err. verifyDeterminism (\<lambda>_. ledger_Run) 1000 500 16 2 False = Some (out, err) \<and>
     (err \<noteq> None \<longrightarrow> err = Some (Errorf ''seed %d reached an absorbing state'' []))"
  using verify_fails_only_on_absorption [of 1000 2 500 16 False] by auto

section \<open>Replaying\<close>


section \<open>The comparison\<close>



text \<open>
  A record size is read off the beginning of its text: what follows the digits is dropped, so a size
  written with a unit is not refused but taken as the number before it.
\<close>

theorem record_size_ignores_unit:
  assumes "0 < sint n" "list_all plain u" "u \<noteq> []" "\<not> is_digit (hd u)" "CHR '','' \<notin> set u"
  shows "parseSizes (fmt_d n @ u) = Inr [n]"
proof -
  have f: "fmt_d n = dec_digits (nat (sint n))" using assms(1) by (simp add: fmt_d_def)
  have d: "list_all is_digit (dec_digits (nat (sint n)))" "dec_digits (nat (sint n)) \<noteq> []" by simp_all
  obtain c cs where c: "dec_digits (nat (sint n)) = c # cs" using d(2) by (cases "dec_digits (nat (sint n))") auto
  have "is_digit c" using d(1) by (simp add: c)
  then have sign: "c \<noteq> CHR ''-''" "c \<noteq> CHR ''+''" "plain c" by (auto simp: is_digit_def plain_def)
  have "takeWhile is_digit (dec_digits (nat (sint n)) @ u) = dec_digits (nat (sint n))"
    using d(1) assms(3,4) by (cases u) (simp_all add: takeWhile_append list_all_iff)
  then have scan: "Sscanf_d (fmt_d n @ u) = Some n"
    using ParseInt64_fmt_d [of n] sign by (simp add: Sscanf_d_def f c)
  have "CHR '','' \<notin> set (fmt_d n)" using fmt_d_chars [of "CHR '',''" n] by (auto simp: is_digit_def)
  then have "split_comma (fmt_d n @ u) = [fmt_d n @ u]" using assms(5) by (subst split_comma.simps) simp
  moreover have "TrimSpace (fmt_d n @ u) = fmt_d n @ u"
    using assms(2,3) sign(3) by (intro TrimSpace_plain) (auto simp: f c list_all_iff)
  ultimately show ?thesis using scan assms(1) by (simp add: parseSizes_def)
qed

end
